(* ===== verification/Prelude.thy ===== *)
theory Prelude
  imports Main "HOL-Library.Word"
begin

text \<open>
  Shared vocabulary of the development: the outcome of a Go call that may panic, checked
  indexing and slicing, the bounds of Go's 64-bit \<open>int\<close>, and the list facts the component
  theories share.

  A Go panic is a value of type \<open>panic\<close>: \<open>AssertionError\<close> carries the format string that
  \<^verbatim>\<open>base/assert\<close> panics with (its arguments only serve rendering and are left out),
  \<open>RuntimeError\<close> stands for the panics the language itself raises (indexing, slicing).
  An operation that may panic returns an \<open>outcome\<close>: \<open>Inl\<close> the panic, \<open>Inr\<close> the result.
\<close>

named_theorems go_defs \<open>definitions of the operations, for unfolding\<close>
named_theorems outcome_simps \<open>facts about outcomes\<close>

section \<open>Outcomes\<close>

datatype panic = AssertionError string | RuntimeError string

type_synonym 'a outcome = "panic + 'a"
type_synonym byte = "8 word"
type_synonym bytes = "8 word list"

definition go_bind :: "'a outcome \<Rightarrow> ('a \<Rightarrow> 'b outcome) \<Rightarrow> 'b outcome" where
  "go_bind m f = (case m of Inl p \<Rightarrow> Inl p | Inr x \<Rightarrow> f x)"

fun is_ok :: "'a outcome \<Rightarrow> bool" where
  "is_ok (Inl p) = False"
| "is_ok (Inr x) = True"

definition index_panic :: panic where
  "index_panic = RuntimeError ''index out of range''"

definition slice_panic :: panic where
  "slice_panic = RuntimeError ''slice bounds out of range''"

text \<open>\<open>s[i]\<close>, \<open>s[i] = v\<close> and \<open>s[lo:hi]\<close> on a slice whose length is its capacity (or a string).\<close>

definition slice_get :: "'a list \<Rightarrow> int \<Rightarrow> 'a outcome" where
  "slice_get xs i = (if 0 \<le> i \<and> i < int (length xs) then Inr (xs ! nat i) else Inl index_panic)"

definition slice_set :: "'a list \<Rightarrow> int \<Rightarrow> 'a \<Rightarrow> 'a list outcome" where
  "slice_set xs i v =
     (if 0 \<le> i \<and> i < int (length xs) then Inr (xs[nat i := v]) else Inl index_panic)"

definition slice_sub :: "'a list \<Rightarrow> int \<Rightarrow> int \<Rightarrow> 'a list outcome" where
  "slice_sub xs lo hi =
     (if 0 \<le> lo \<and> lo \<le> hi \<and> hi \<le> int (length xs)
      then Inr (take (nat (hi - lo)) (drop (nat lo) xs)) else Inl slice_panic)"

text \<open>\<open>copy(dst, src)\<close>, giving the new contents of \<open>dst\<close>.\<close>

definition go_copy :: "'a list \<Rightarrow> 'a list \<Rightarrow> 'a list" where
  "go_copy dst src = take (length dst) src @ drop (length src) dst"

text \<open>
  A loop \<open>for _, x := range xs { if !yield(x) { return } }\<close> of an iterator: the consumer's state
  after it, and whether the loop ran to its end.
\<close>

fun yield_all :: "('a \<Rightarrow> 's \<Rightarrow> bool \<times> 's) \<Rightarrow> 'a list \<Rightarrow> 's \<Rightarrow> bool \<times> 's" where
  "yield_all yield [] st = (True, st)"
| "yield_all yield (x # xs) st =
     (case yield x st of (False, st') \<Rightarrow> (False, st') | (True, st') \<Rightarrow> yield_all yield xs st')"

text \<open>\<open>strings.Split\<close> with a separator of one byte.\<close>

fun strings_Split :: "char \<Rightarrow> string \<Rightarrow> string list" where
  "strings_Split sep [] = [[]]"
| "strings_Split sep (c # s) =
     (if c = sep then [] # strings_Split sep s else (c # hd (strings_Split sep s)) # tl (strings_Split sep s))"

text \<open>The range of Go's \<open>int\<close> on the 64-bit platforms the code targets.\<close>

definition MaxInt :: int where
  "MaxInt = 9223372036854775807"

definition in_int :: "int \<Rightarrow> bool" where
  "in_int i \<longleftrightarrow> - MaxInt - 1 \<le> i \<and> i \<le> MaxInt"

section \<open>Facts about outcomes\<close>

lemma go_bind_Inl [simp, outcome_simps]: "go_bind (Inl p) f = Inl p"
  by (simp add: go_bind_def)

lemma go_bind_Inr [simp, outcome_simps]: "go_bind (Inr x) f = f x"
  by (simp add: go_bind_def)

lemma go_bind_Inr_iff [outcome_simps]:
  "go_bind m f = Inr y \<longleftrightarrow> (\<exists>x. m = Inr x \<and> f x = Inr y)"
  by (cases m) auto

lemma go_bind_Inl_iff:
  "go_bind m f = Inl p \<longleftrightarrow> m = Inl p \<or> (\<exists>x. m = Inr x \<and> f x = Inl p)"
  by (cases m) auto

lemma go_bind_assoc: "go_bind (go_bind m f) g = go_bind m (\<lambda>x. go_bind (f x) g)"
  by (cases m) auto

lemma go_bind_cong [fundef_cong]:
  assumes "m = n" and "\<And>x. n = Inr x \<Longrightarrow> f x = g x"
  shows "go_bind m f = go_bind n g"
  using assms by (cases n) auto

lemma go_bind_if [simp]: "go_bind (if b then m else n) f = (if b then go_bind m f else go_bind n f)"
  by simp

lemma is_ok_iff [outcome_simps]: "is_ok m \<longleftrightarrow> (\<exists>x. m = Inr x)"
  by (cases m) auto

lemma slice_get_ok [simp, outcome_simps]:
  "0 \<le> i \<Longrightarrow> i < int (length xs) \<Longrightarrow> slice_get xs i = Inr (xs ! nat i)"
  by (simp add: slice_get_def)

lemma slice_set_ok [simp, outcome_simps]:
  "0 \<le> i \<Longrightarrow> i < int (length xs) \<Longrightarrow> slice_set xs i v = Inr (xs[nat i := v])"
  by (simp add: slice_set_def)

lemma slice_sub_ok [simp, outcome_simps]:
  "0 \<le> lo \<Longrightarrow> lo \<le> hi \<Longrightarrow> hi \<le> int (length xs) \<Longrightarrow>
     slice_sub xs lo hi = Inr (take (nat (hi - lo)) (drop (nat lo) xs))"
  by (simp add: slice_sub_def)

lemma slice_get_nat [simp]: "i < length xs \<Longrightarrow> slice_get xs (int i) = Inr (xs ! i)"
  by simp

lemma slice_sub_nat [simp]:
  "lo \<le> hi \<Longrightarrow> hi \<le> length xs \<Longrightarrow>
     slice_sub xs (int lo) (int hi) = Inr (take (hi - lo) (drop lo xs))"
  by (simp add: nat_diff_distrib)

lemma yield_all_append:
  "yield_all yield (xs @ ys) st =
     (case yield_all yield xs st of (False, st') \<Rightarrow> (False, st') | (True, st') \<Rightarrow> yield_all yield ys st')"
  by (induction xs arbitrary: st) (auto split: prod.splits bool.splits)

text \<open>The consumer that collects what it is given and never stops.\<close>

lemma not_ok_bind: "\<not> is_ok m \<Longrightarrow> \<not> is_ok (go_bind m f)"
  by (cases m) auto

lemma yield_all_collect: "yield_all (\<lambda>x acc. (True, acc @ [x])) xs acc = (True, acc @ xs)"
  by (induction xs arbitrary: acc) auto

lemma length_go_copy [simp]: "length (go_copy dst src) = length dst"
  by (simp add: go_copy_def)

section \<open>Facts about words\<close>

lemma unat_power_two: "k < LENGTH('a) \<Longrightarrow> unat (2 ^ k :: 'a::len word) = 2 ^ k"
  using unat_of_nat [of "2 ^ k", where 'a = 'a] by simp

lemma bit_eq_zero_iff: "(w :: 'a::len word) = 0 \<longleftrightarrow> (\<forall>n < LENGTH('a). \<not> bit w n)"
  by (auto simp: bit_eq_iff)

section \<open>Facts about lists\<close>

lemma nth_list_eqI:
  assumes "length xs = length ys" and "\<And>i. i < length ys \<Longrightarrow> xs ! i = ys ! i"
  shows "xs = ys"
  using assms by (simp add: nth_equalityI)

lemma upt_Suc_shift: "[0..<Suc n] = 0 # map Suc [0..<n]"
  by (simp only: map_Suc_upt) (rule upt_conv_Cons, simp)

lemma map_nth_upt: "map (\<lambda>i. xs ! i) [0..<length xs] = xs"
  by (rule map_nth)

lemma take_drop_nth:
  "i < n \<Longrightarrow> m + n \<le> length xs \<Longrightarrow> take n (drop m xs) ! i = xs ! (m + i)"
  by simp

end
