(* ===== verification/Assert.thy ===== *)
theory Assert
  imports Prelude
begin

text \<open>
  \<^verbatim>\<open>base/assert/assert.go\<close>: the checks that panic with an \<open>AssertionError\<close>. Each returns
  \<open>Inr ()\<close> when its condition holds and the panic with its format string otherwise. The
  operations of the other theories call these, so that a violated pre-condition is a branch
  of the model.
\<close>

section \<open>Definitions\<close>

definition panicWith :: "string \<Rightarrow> 'r outcome" where
  "panicWith msg = Inl (AssertionError msg)"

text \<open>\<open>panicWithMessage\<close>: the format has one \<open>%s\<close>, for the message.\<close>

definition panicWithMessage :: "string \<Rightarrow> string \<Rightarrow> 'r outcome" where
  "panicWithMessage format msg = Inl (AssertionError (take (length format - 2) format @ msg))"

definition Always :: "bool \<Rightarrow> string \<Rightarrow> unit outcome" where
  "Always b msg = (if \<not> b then panicWith msg else Inr ())"

definition Precondition :: "bool \<Rightarrow> string \<Rightarrow> unit outcome" where
  "Precondition b msg =
     (if \<not> b then panicWithMessage ''precondition violation: %s'' msg else Inr ())"

definition Preconditionf :: "bool \<Rightarrow> string \<Rightarrow> unit outcome" where
  "Preconditionf b msg = Always b (''precondition violation: '' @ msg)"

definition Invariant :: "bool \<Rightarrow> string \<Rightarrow> unit outcome" where
  "Invariant b msg = (if \<not> b then panicWithMessage ''invariant violation: %s'' msg else Inr ())"

definition Invariantf :: "bool \<Rightarrow> string \<Rightarrow> unit outcome" where
  "Invariantf b msg = Always b (''invariant violation: '' @ msg)"

definition Postcondition :: "bool \<Rightarrow> string \<Rightarrow> unit outcome" where
  "Postcondition b msg =
     (if \<not> b then panicWithMessage ''postcondition violation: %s'' msg else Inr ())"

definition Postconditionf :: "bool \<Rightarrow> string \<Rightarrow> unit outcome" where
  "Postconditionf b msg = Always b (''postcondition violation: '' @ msg)"

definition PanicInvariantViolation :: "string \<Rightarrow> 'r outcome" where
  "PanicInvariantViolation msg = panicWith (''invariant violation: '' @ msg)"

definition PanicUnknownCase :: "'r outcome" where
  "PanicUnknownCase = panicWith ''unknown value for type %T: %v''"

section \<open>Facts\<close>

lemmas assert_defs = Precondition_def Preconditionf_def Invariant_def Invariantf_def
  Postcondition_def Postconditionf_def Always_def PanicInvariantViolation_def
  PanicUnknownCase_def panicWith_def panicWithMessage_def

lemma assert_true [simp]:
  "Always True m = Inr ()" "Precondition True m = Inr ()" "Preconditionf True m = Inr ()"
  "Invariant True m = Inr ()" "Invariantf True m = Inr ()"
  "Postcondition True m = Inr ()" "Postconditionf True m = Inr ()"
  by (simp_all add: assert_defs)

lemma assert_Inr_iff [simp, outcome_simps]:
  "Always b m = Inr u \<longleftrightarrow> b" "Precondition b m = Inr u \<longleftrightarrow> b" "Preconditionf b m = Inr u \<longleftrightarrow> b"
  "Invariant b m = Inr u \<longleftrightarrow> b" "Invariantf b m = Inr u \<longleftrightarrow> b"
  "Postcondition b m = Inr u \<longleftrightarrow> b" "Postconditionf b m = Inr u \<longleftrightarrow> b"
  by (simp_all add: assert_defs)

end
