(* ===== verification/Core_Types.thy ===== *)
theory Core_Types
  imports Assert "HOL-Library.Option_ord"
begin

text \<open>
  The small value types of \<^verbatim>\<open>base/core\<close>, \<^verbatim>\<open>base/cmpx\<close> and \<^verbatim>\<open>base/enum\<close>: \<open>Option\<close>,
  \<open>BoundsChecked\<close>, \<open>Result\<close>, the operation-result enums of \<open>op\<close>, pairs, the limited counter
  and the enum filter. Go's \<open>var zero T\<close> is an explicit argument \<open>zero\<close>. The other theories
  use HOL's \<open>option\<close> where the code has an \<open>Option\<close>; the lemmas on \<open>opt_abs\<close> show that the
  Go struct behaves as it.
\<close>

section \<open>Data\<close>

text \<open>\<^verbatim>\<open>core/op\<close>: named booleans.\<close>

datatype InsertResult = InsertedNew | KeptOld
datatype PlatformSupport = Supported | Unsupported
datatype Next = KeepGoing | NoGo

fun InsertResult_AsBool :: "InsertResult \<Rightarrow> bool" where
  "InsertResult_AsBool InsertedNew = True"
| "InsertResult_AsBool KeptOld = False"

fun IsSupported :: "PlatformSupport \<Rightarrow> bool" where
  "IsSupported Supported = True"
| "IsSupported Unsupported = False"

definition IsUnsupported :: "PlatformSupport \<Rightarrow> bool" where
  "IsUnsupported s = (\<not> IsSupported s)"

text \<open>\<^verbatim>\<open>core/option\<close>: a value and a validity flag.\<close>

record 'a Option =
  opt_value :: 'a
  opt_valid :: bool

record 'a BoundsChecked =
  bc_value :: 'a
  bc_overflowed :: bool

text \<open>\<^verbatim>\<open>core/result\<close>: a value and an error; HOL's \<open>None\<close> is Go's nil error.\<close>

record ('a, 'e) Result =
  res_value :: 'a
  res_err :: "'e option"

record ('k, 'v) KeyValue =
  kv_Key :: 'k
  kv_Value :: 'v

record ('a, 'b) Pair =
  pair_First :: 'a
  pair_Second :: 'b

text \<open>\<^verbatim>\<open>core/limited\<close>: the counter over one of Go's unsigned types, here any word length.\<close>

record (overloaded) 'w Counter =
  ctr_limit :: "'w word"
  ctr_hits :: "'w word"

datatype EnumFilterKind = FilterKind_All | FilterKind_Exact

record 'e EnumFilter =
  ef_specificData :: 'e
  ef_kind :: EnumFilterKind

section \<open>Operations\<close>

subsection \<open>Comparison\<close>

definition CompareBool :: "bool \<Rightarrow> bool \<Rightarrow> int" where
  "CompareBool b1 b2 =
     (if b1 then (if b2 then 0 else 1) else if b2 then -1 else 0)"

text \<open>\<open>cmp.Compare\<close> of the standard library, on a totally ordered type.\<close>

definition cmp_Compare :: "'a::linorder \<Rightarrow> 'a \<Rightarrow> int" where
  "cmp_Compare x y = (if x < y then -1 else if x > y then 1 else 0)"

subsection \<open>Option\<close>

definition Option_None :: "'a \<Rightarrow> 'a Option" where
  "Option_None zero = \<lparr>opt_value = zero, opt_valid = False\<rparr>"

definition Option_Some :: "'a \<Rightarrow> 'a Option" where
  "Option_Some v = \<lparr>opt_value = v, opt_valid = True\<rparr>"

definition NewOption :: "'a \<Rightarrow> 'a \<Rightarrow> bool \<Rightarrow> 'a Option" where
  "NewOption zero v ok =
     (if ok then \<lparr>opt_value = v, opt_valid = True\<rparr> else Option_None zero)"

definition Option_Get :: "'a Option \<Rightarrow> 'a \<times> bool" where
  "Option_Get o1 = (opt_value o1, opt_valid o1)"

definition Option_Unwrap :: "'a Option \<Rightarrow> 'a outcome" where
  "Option_Unwrap o1 =
     go_bind (Preconditionf (opt_valid o1) ''called Unwrap on None'') (\<lambda>_. Inr (opt_value o1))"

definition Option_Expect :: "'a Option \<Rightarrow> string \<Rightarrow> 'a outcome" where
  "Option_Expect o1 msg =
     (if \<not> opt_valid o1 then go_bind (Invariant False msg) (\<lambda>_. Inr (opt_value o1))
      else Inr (opt_value o1))"

definition Option_IsSome :: "'a Option \<Rightarrow> bool" where
  "Option_IsSome o1 = opt_valid o1"

definition Option_IsNone :: "'a Option \<Rightarrow> bool" where
  "Option_IsNone o1 = (\<not> opt_valid o1)"

definition Option_ValueOr :: "'a Option \<Rightarrow> 'a \<Rightarrow> 'a" where
  "Option_ValueOr o1 fallback = (if opt_valid o1 then opt_value o1 else fallback)"

text \<open>
  \<open>MarshalJSON\<close> and \<open>UnmarshalJSON\<close> call \<^verbatim>\<open>encoding/json\<close> at the element type, here the
  arguments \<open>marshal\<close> and \<open>unmarshal\<close>. \<open>UnmarshalJSON\<close> leaves the receiver as it is on error.
\<close>

definition Option_MarshalJSON :: "('a \<Rightarrow> 'e + string) \<Rightarrow> 'a Option \<Rightarrow> 'e + string" where
  "Option_MarshalJSON marshal o1 =
     (if \<not> opt_valid o1 then Inr ''null'' else marshal (opt_value o1))"

definition Option_UnmarshalJSON ::
  "'a \<Rightarrow> (string \<Rightarrow> 'e + 'a) \<Rightarrow> 'a Option \<Rightarrow> string \<Rightarrow> 'a Option \<times> 'e option" where
  "Option_UnmarshalJSON zero unmarshal o1 data =
     (if data = ''null'' then (Option_None zero, None)
      else case unmarshal data of
             Inl err \<Rightarrow> (o1, Some err)
           | Inr v \<Rightarrow> (Option_Some v, None))"

definition Option_Compare :: "'a::linorder Option \<Rightarrow> 'a Option \<Rightarrow> int" where
  "Option_Compare o1 o2 =
     (let (v1, ok1) = Option_Get o1; (v2, ok2) = Option_Get o2
      in if ok1 \<and> ok2 then cmp_Compare v1 v2 else CompareBool ok1 ok2)"

subsection \<open>BoundsChecked\<close>

definition InRange :: "'a \<Rightarrow> 'a BoundsChecked" where
  "InRange t = \<lparr>bc_value = t, bc_overflowed = False\<rparr>"

definition Overflowed :: "'a \<Rightarrow> 'a BoundsChecked" where
  "Overflowed zero = \<lparr>bc_value = zero, bc_overflowed = True\<rparr>"

definition BoundsChecked_Get :: "'a BoundsChecked \<Rightarrow> 'a \<times> bool" where
  "BoundsChecked_Get b = (bc_value b, \<not> bc_overflowed b)"

definition BoundsChecked_IsOverflowed :: "'a BoundsChecked \<Rightarrow> bool" where
  "BoundsChecked_IsOverflowed b = bc_overflowed b"

definition BoundsChecked_Unwrap :: "'a BoundsChecked \<Rightarrow> 'a outcome" where
  "BoundsChecked_Unwrap b =
     (if bc_overflowed b
      then go_bind (Precondition False ''called Unwrap on Overflowed value'') (\<lambda>_. Inr (bc_value b))
      else Inr (bc_value b))"

subsection \<open>Result\<close>

definition Result_Success :: "'a \<Rightarrow> ('a, 'e) Result" where
  "Result_Success v = \<lparr>res_value = v, res_err = None\<rparr>"

definition Result_Failure :: "'a \<Rightarrow> 'e option \<Rightarrow> ('a, 'e) Result outcome" where
  "Result_Failure zero err =
     go_bind (Preconditionf (err \<noteq> None) ''Failure called with nil error'')
       (\<lambda>_. Inr \<lparr>res_value = zero, res_err = err\<rparr>)"

definition Result_New :: "'a \<Rightarrow> 'a \<Rightarrow> 'e option \<Rightarrow> ('a, 'e) Result outcome" where
  "Result_New zero v err =
     (if err \<noteq> None then Result_Failure zero err else Inr (Result_Success v))"

definition Result_Get :: "('a, 'e) Result \<Rightarrow> 'a \<times> 'e option" where
  "Result_Get r = (res_value r, res_err r)"

definition Result_ErrOrNil :: "('a, 'e) Result \<Rightarrow> 'e option" where
  "Result_ErrOrNil r = res_err r"

subsection \<open>Pairs\<close>

definition NewKeyValue :: "'k \<Rightarrow> 'v \<Rightarrow> ('k, 'v) KeyValue" where
  "NewKeyValue k v = \<lparr>kv_Key = k, kv_Value = v\<rparr>"

definition NewPair :: "'a \<Rightarrow> 'b \<Rightarrow> ('a, 'b) Pair" where
  "NewPair first second = \<lparr>pair_First = first, pair_Second = second\<rparr>"

definition Pair_Unpack :: "('a, 'b) Pair \<Rightarrow> 'a \<times> 'b" where
  "Pair_Unpack p = (pair_First p, pair_Second p)"

subsection \<open>The limited counter\<close>

definition NewCounter :: "'w::len word \<Rightarrow> 'w Counter" where
  "NewCounter limit = \<lparr>ctr_limit = limit, ctr_hits = 0\<rparr>"

definition Counter_Inc :: "'w::len Counter \<Rightarrow> (Next \<times> 'w Counter) outcome" where
  "Counter_Inc c =
     (let c' = c\<lparr>ctr_hits := ctr_hits c + 1\<rparr>
      in go_bind (if ctr_hits c' = 0
                  then Preconditionf False ''counter of type %T incremented %d times''
                  else Inr ())
           (\<lambda>_. Inr (if ctr_hits c' \<le> ctr_limit c' then KeepGoing else NoGo, c')))"

definition Counter_Dropped :: "'w::len Counter \<Rightarrow> 'w word" where
  "Counter_Dropped c = (if ctr_hits c \<le> ctr_limit c then 0 else ctr_hits c - ctr_limit c)"

definition Counter_Hits :: "'w::len Counter \<Rightarrow> 'w word" where
  "Counter_Hits c = ctr_hits c"

definition Counter_Limit :: "'w::len Counter \<Rightarrow> 'w word" where
  "Counter_Limit c = ctr_limit c"

text \<open>A caller that increments \<open>n\<close> times, collecting the answers.\<close>

fun Counter_IncN :: "nat \<Rightarrow> 'w::len Counter \<Rightarrow> (Next list \<times> 'w Counter) outcome" where
  "Counter_IncN 0 c = Inr ([], c)"
| "Counter_IncN (Suc n) c =
     go_bind (Counter_Inc c) (\<lambda>(r, c').
       go_bind (Counter_IncN n c') (\<lambda>(rs, c''). Inr (r # rs, c'')))"

subsection \<open>Enum filters\<close>

definition NewAllFilter :: "'e \<Rightarrow> 'e EnumFilter" where
  "NewAllFilter zero = \<lparr>ef_specificData = zero, ef_kind = FilterKind_All\<rparr>"

definition NewExactFilter :: "'e \<Rightarrow> 'e EnumFilter" where
  "NewExactFilter v = \<lparr>ef_specificData = v, ef_kind = FilterKind_Exact\<rparr>"

definition EnumFilter_Kind :: "'e EnumFilter \<Rightarrow> EnumFilterKind" where
  "EnumFilter_Kind ef = ef_kind ef"

definition EnumFilter_ExactValue :: "'e EnumFilter \<Rightarrow> 'e outcome" where
  "EnumFilter_ExactValue ef =
     go_bind (Preconditionf (ef_kind ef = FilterKind_Exact) ''calling Exact for case %v'')
       (\<lambda>_. Inr (ef_specificData ef))"

fun EnumFilterKind_String :: "EnumFilterKind \<Rightarrow> string" where
  "EnumFilterKind_String FilterKind_All = ''all''"
| "EnumFilterKind_String FilterKind_Exact = ''exact''"

section \<open>Option behaves as HOL's option\<close>

definition opt_abs :: "'a Option \<Rightarrow> 'a option" where
  "opt_abs o1 = (if opt_valid o1 then Some (opt_value o1) else None)"

lemmas option_defs = Option_None_def Option_Some_def NewOption_def Option_Get_def
  Option_Unwrap_def Option_Expect_def Option_IsSome_def Option_IsNone_def Option_ValueOr_def
  opt_abs_def

lemma opt_abs_simps [simp]:
  "opt_abs (Option_None z) = None" "opt_abs (Option_Some v) = Some v"
  "opt_abs (NewOption z v ok) = (if ok then Some v else None)"
  by (simp_all add: option_defs)

lemma Option_Unwrap_abs:
  "Option_Unwrap o1 = (case opt_abs o1 of Some v \<Rightarrow> Inr v
     | None \<Rightarrow> Inl (AssertionError ''precondition violation: called Unwrap on None''))"
  by (simp add: option_defs assert_defs)

lemma cmp_Compare_less: "cmp_Compare x y < 0 \<longleftrightarrow> x < y"
  by (simp add: cmp_Compare_def)

lemma cmp_Compare_eq: "cmp_Compare x y = 0 \<longleftrightarrow> x = y"
  by (auto simp: cmp_Compare_def)

lemma cmp_Compare_swap: "cmp_Compare y x = - cmp_Compare x y"
  by (auto simp: cmp_Compare_def)

text \<open>\<open>Compare\<close> on options is \<open>cmp.Compare\<close> under the order None < Some, Some ordered by value.\<close>

lemma Option_Compare_spec:
  "Option_Compare o1 o2 = cmp_Compare (opt_abs o1) (opt_abs o2)"
  by (simp add: Option_Compare_def Option_Get_def opt_abs_def cmp_Compare_def CompareBool_def)

text \<open>An option round-trips through JSON whenever its element type does and never encodes as null.\<close>

lemma Option_json_roundtrip:
  assumes rt: "\<And>v. v \<in> A \<Longrightarrow> \<exists>s. marshal v = Inr s \<and> s \<noteq> ''null'' \<and> unmarshal s = Inr v"
    and elem: "\<And>v. opt_abs o1 = Some v \<Longrightarrow> v \<in> A"
  shows "\<exists>s o'. Option_MarshalJSON marshal o1 = Inr s
           \<and> Option_UnmarshalJSON zero unmarshal old s = (o', None)
           \<and> opt_abs o' = opt_abs o1"
proof (cases "opt_valid o1")
  case True
  then have "opt_value o1 \<in> A"
    by (intro elem) (simp add: opt_abs_def)
  then obtain s where "marshal (opt_value o1) = Inr s" "s \<noteq> ''null''" "unmarshal s = Inr (opt_value o1)"
    using rt by blast
  with True show ?thesis
    by (simp add: Option_MarshalJSON_def Option_UnmarshalJSON_def opt_abs_def Option_Some_def)
next
  case False
  then show ?thesis
    by (simp add: Option_MarshalJSON_def Option_UnmarshalJSON_def opt_abs_def Option_None_def)
qed

section \<open>Results\<close>

lemma Result_New_Get:
  "go_bind (Result_New zero v err) (\<lambda>r. Inr (Result_Get r))
     = Inr (if err = None then v else zero, err)"
  by (simp add: Result_New_def Result_Failure_def Result_Success_def Result_Get_def)

section \<open>The counter\<close>

lemma Counter_Inc_ok:
  assumes "unat (ctr_hits c) + 1 < 2 ^ LENGTH('w)"
  shows "Counter_Inc (c :: 'w::len Counter) =
    Inr (if unat (ctr_hits c) < unat (ctr_limit c) then KeepGoing else NoGo,
         c\<lparr>ctr_hits := ctr_hits c + 1\<rparr>)"
proof -
  have u: "unat (ctr_hits c + 1) = unat (ctr_hits c) + 1"
    using assms by (simp add: unat_word_ariths)
  then have "ctr_hits c + 1 \<noteq> 0"
    by (metis Suc_eq_plus1 unat_0 nat.simps(3))
  moreover have "ctr_hits c + 1 \<le> ctr_limit c \<longleftrightarrow> unat (ctr_hits c) < unat (ctr_limit c)"
    using u by (simp add: word_le_nat_alt Suc_le_eq)
  ultimately show ?thesis
    by (simp add: Counter_Inc_def Let_def)
qed

lemma Counter_Inc_panics:
  "ctr_hits c = - 1 \<Longrightarrow>
     Counter_Inc c = Inl (AssertionError
       (''precondition violation: counter of type %T incremented %d times''))"
  by (simp add: Counter_Inc_def Let_def assert_defs)

lemma Counter_IncN_spec:
  fixes c :: "'w::len Counter"
  assumes "unat (ctr_hits c) + n < 2 ^ LENGTH('w)"
  shows "Counter_IncN n c =
    Inr (map (\<lambda>i. if unat (ctr_hits c) + i < unat (ctr_limit c) then KeepGoing else NoGo) [0..<n],
         c\<lparr>ctr_hits := ctr_hits c + of_nat n\<rparr>)"
  using assms
proof (induction n arbitrary: c)
  case 0
  then show ?case by simp
next
  case (Suc n)
  let ?c = "c\<lparr>ctr_hits := ctr_hits c + 1\<rparr>"
  have u: "unat (ctr_hits ?c) = unat (ctr_hits c) + 1"
    using Suc.prems by (simp add: unat_word_ariths)
  have "Counter_IncN n ?c =
    Inr (map (\<lambda>i. if unat (ctr_hits ?c) + i < unat (ctr_limit ?c) then KeepGoing else NoGo) [0..<n],
         ?c\<lparr>ctr_hits := ctr_hits ?c + of_nat n\<rparr>)"
    using Suc.prems u by (intro Suc.IH) simp
  then have IH: "Counter_IncN n ?c =
    Inr (map (\<lambda>i. if Suc (unat (ctr_hits c) + i) < unat (ctr_limit c) then KeepGoing else NoGo) [0..<n],
         c\<lparr>ctr_hits := ctr_hits c + of_nat (Suc n)\<rparr>)"
    by (simp only: u) (simp add: algebra_simps)
  show ?case
    using Suc.prems by (simp add: Counter_Inc_ok IH upt_Suc_shift o_def del: upt_Suc of_nat_Suc)
qed

text \<open>
  A fresh counter incremented \<open>n\<close> times, with \<open>n\<close> within its type: exactly the first
  \<open>limit\<close> answers are \<open>KeepGoing\<close>, \<open>Hits\<close> is \<open>n\<close> and \<open>Dropped\<close> counts the rest.
\<close>

lemma Counter_run:
  fixes limit :: "'w::len word"
  assumes "n < 2 ^ LENGTH('w)"
  shows "\<exists>c. Counter_IncN n (NewCounter limit)
             = Inr (replicate (min n (unat limit)) KeepGoing @ replicate (n - unat limit) NoGo, c)
           \<and> unat (Counter_Hits c) = n \<and> unat (Counter_Dropped c) = n - unat limit
           \<and> Counter_Limit c = limit"
proof -
  let ?c = "\<lparr>ctr_limit = limit, ctr_hits = of_nat n\<rparr> :: 'w Counter"
  have "map (\<lambda>i. if i < unat limit then KeepGoing else NoGo) [0..<n]
      = replicate (min n (unat limit)) KeepGoing @ replicate (n - unat limit) NoGo"
    by (rule nth_equalityI) (auto simp: nth_append)
  then have run: "Counter_IncN n (NewCounter limit)
      = Inr (replicate (min n (unat limit)) KeepGoing @ replicate (n - unat limit) NoGo, ?c)"
    using assms by (simp add: Counter_IncN_spec NewCounter_def)
  have hits: "unat (of_nat n :: 'w word) = n"
    using assms by (simp add: unat_of_nat)
  then have "unat (Counter_Dropped ?c) = n - unat limit"
    by (simp add: Counter_Dropped_def word_le_nat_alt unat_sub)
  with run hits show ?thesis
    by (intro exI [of _ ?c]) (simp add: Counter_Hits_def Counter_Limit_def)
qed

end
