(* ===== verification/Refinement.thy ===== *)
theory Refinement
  imports Prelude
begin

text \<open>
  The contract between a component and its abstract specification, shared by the component
  theories: each operation of the component simulates the operation of the specification, panics
  included, and keeps the representation invariant. Proved once here: a whole sequence of
  operations then simulates the same sequence of the specification.
\<close>

text \<open>Running a sequence of operations, collecting the results, up to the first panic.\<close>

fun run_ops :: "('op \<Rightarrow> 's \<Rightarrow> ('r \<times> 's) outcome) \<Rightarrow> 'op list \<Rightarrow> 's \<Rightarrow> ('r list \<times> 's) outcome" where
  "run_ops step [] s = Inr ([], s)"
| "run_ops step (op # ops) s =
     go_bind (step op s) (\<lambda>(r, s'). go_bind (run_ops step ops s') (\<lambda>(rs, s''). Inr (r # rs, s'')))"

text \<open>\<open>c\<close> does what \<open>a\<close> says: the same panic, or the same result and a related state.\<close>

definition simulates ::
  "('s \<Rightarrow> bool) \<Rightarrow> ('s \<Rightarrow> 'a) \<Rightarrow> ('r \<times> 's) outcome \<Rightarrow> ('r \<times> 'a) outcome \<Rightarrow> bool" where
  "simulates rep_ok absf c a =
     (case a of Inl p \<Rightarrow> c = Inl p
      | Inr (r, x) \<Rightarrow> (case c of Inl p \<Rightarrow> False | Inr (r', s) \<Rightarrow> r' = r \<and> rep_ok s \<and> absf s = x))"

lemma simulates_Inl [simp]: "simulates rep_ok absf (Inl p) (Inl q) \<longleftrightarrow> p = q"
  by (auto simp: simulates_def)

lemma simulates_Inr [simp]:
  "simulates rep_ok absf (Inr (r, s)) (Inr (q, x)) \<longleftrightarrow> r = q \<and> rep_ok s \<and> absf s = x"
  by (auto simp: simulates_def)

lemma simulates_InlD: "simulates rep_ok absf c (Inl p) \<Longrightarrow> c = Inl p"
  by (simp add: simulates_def)

lemma simulates_InrE:
  assumes "simulates rep_ok absf c (Inr (r, x))"
  obtains s where "c = Inr (r, s)" "rep_ok s" "absf s = x"
  using assms by (auto simp: simulates_def split: sum.splits)

text \<open>
  Some operations only promise their specification on part of the abstract states; the guard is
  that part. \<open>run_guard\<close> says that a sequence of operations meets every guard on its way.
\<close>

fun run_guard :: "('op \<Rightarrow> 'a \<Rightarrow> bool) \<Rightarrow> ('op \<Rightarrow> 'a \<Rightarrow> ('r \<times> 'a) outcome) \<Rightarrow> 'op list \<Rightarrow> 'a \<Rightarrow> bool" where
  "run_guard guard spec [] a = True"
| "run_guard guard spec (op # ops) a =
     (guard op a \<and> (case spec op a of Inl p \<Rightarrow> True | Inr (r, a') \<Rightarrow> run_guard guard spec ops a'))"

lemma run_guard_trivial [simp]: "run_guard (\<lambda>_ _. True) spec ops a"
  by (induction ops arbitrary: a) (auto split: sum.splits)

locale guarded_simulation =
  fixes step :: "'op \<Rightarrow> 's \<Rightarrow> ('r \<times> 's) outcome"
    and spec :: "'op \<Rightarrow> 'a \<Rightarrow> ('r \<times> 'a) outcome"
    and rep_ok :: "'s \<Rightarrow> bool" and absf :: "'s \<Rightarrow> 'a" and guard :: "'op \<Rightarrow> 'a \<Rightarrow> bool"
  assumes guarded_step:
    "rep_ok s \<Longrightarrow> guard op (absf s) \<Longrightarrow> simulates rep_ok absf (step op s) (spec op (absf s))"
begin

lemma guarded_run:
  "rep_ok s \<Longrightarrow> run_guard guard spec ops (absf s) \<Longrightarrow>
     simulates rep_ok absf (run_ops step ops s) (run_ops spec ops (absf s))"
proof (induction ops arbitrary: s)
  case Nil
  then show ?case by simp
next
  case (Cons op ops)
  then have sim: "simulates rep_ok absf (step op s) (spec op (absf s))"
    using guarded_step by simp
  show ?case
  proof (cases "spec op (absf s)")
    case (Inl p)
    with sim have "step op s = Inl p"
      by (simp add: simulates_InlD)
    with Inl show ?thesis by simp
  next
    case (Inr rx)
    then obtain r x where rx: "spec op (absf s) = Inr (r, x)"
      by (cases rx) simp
    with sim obtain s' where s': "step op s = Inr (r, s')" "rep_ok s'" "absf s' = x"
      by (auto elim: simulates_InrE)
    with Cons.IH [OF s'(2)] Cons.prems(2) rx
    have IH: "simulates rep_ok absf (run_ops step ops s') (run_ops spec ops x)"
      by simp
    show ?thesis
    proof (cases "run_ops spec ops x")
      case (Inl p)
      then show ?thesis
        using IH rx s'(1) by (auto dest: simulates_InlD)
    next
      case (Inr ry)
      then show ?thesis
        using IH rx s'(1) by (cases ry) (auto elim!: simulates_InrE)
    qed
  qed
qed

end

locale simulation =
  fixes step :: "'op \<Rightarrow> 's \<Rightarrow> ('r \<times> 's) outcome"
    and spec :: "'op \<Rightarrow> 'a \<Rightarrow> ('r \<times> 'a) outcome"
    and rep_ok :: "'s \<Rightarrow> bool" and absf :: "'s \<Rightarrow> 'a"
  assumes step: "rep_ok s \<Longrightarrow> simulates rep_ok absf (step op s) (spec op (absf s))"

sublocale simulation \<subseteq> guarded_simulation step spec rep_ok absf "\<lambda>_ _. True"
  by unfold_locales (rule step)

context simulation
begin

lemma run_refines: "rep_ok s \<Longrightarrow> simulates rep_ok absf (run_ops step ops s) (run_ops spec ops (absf s))"
  using guarded_run by simp

lemma run_invariant: "rep_ok s \<Longrightarrow> run_ops step ops s = Inr (rs, s') \<Longrightarrow> rep_ok s'"
  using run_refines [of s ops] by (auto simp: simulates_def split: sum.splits)

end

end
