(* ===== verification/Go_Map.thy ===== *)
theory Go_Map
  imports Prelude "HOL-Library.AList"
begin

text \<open>
  Go's built-in map, as far as the components use it: a nil map, or an association list with
  distinct keys whose order is the order in which one particular \<open>range\<close> loop happens to visit
  it. Every statement about a \<open>range\<close> loop holds for all such lists, hence for every order.
\<close>

type_synonym ('k, 'v) gomap = "('k \<times> 'v) list option"

definition nil_map_panic :: panic where
  "nil_map_panic = RuntimeError ''assignment to entry in nil map''"

definition gm_entries :: "('k, 'v) gomap \<Rightarrow> ('k \<times> 'v) list" where
  "gm_entries m = (case m of None \<Rightarrow> [] | Some al \<Rightarrow> al)"

definition gm_get :: "('k, 'v) gomap \<Rightarrow> 'k \<Rightarrow> 'v option" where
  "gm_get m k = map_of (gm_entries m) k"

definition gm_set :: "('k, 'v) gomap \<Rightarrow> 'k \<Rightarrow> 'v \<Rightarrow> ('k, 'v) gomap outcome" where
  "gm_set m k v = (case m of None \<Rightarrow> Inl nil_map_panic | Some al \<Rightarrow> Inr (Some (AList.update k v al)))"

definition gm_delete :: "('k, 'v) gomap \<Rightarrow> 'k \<Rightarrow> ('k, 'v) gomap" where
  "gm_delete m k = map_option (AList.delete k) m"

definition gm_len :: "('k, 'v) gomap \<Rightarrow> int" where
  "gm_len m = int (length (gm_entries m))"

definition gm_wf :: "('k, 'v) gomap \<Rightarrow> bool" where
  "gm_wf m \<longleftrightarrow> distinct (map fst (gm_entries m))"

lemma gm_entries_simps [simp]: "gm_entries None = []" "gm_entries (Some al) = al"
  by (simp_all add: gm_entries_def)

lemma gm_wf_empty [simp]: "gm_wf None" "gm_wf (Some [])"
  by (simp_all add: gm_wf_def)

lemma gm_get_empty [simp]: "gm_get None k = None" "gm_get (Some []) k = None"
  by (simp_all add: gm_get_def)

lemma gm_set_ok [simp]: "gm_set (Some al) k v = Inr (Some (AList.update k v al))"
  by (simp add: gm_set_def)

lemma gm_get_update [simp]:
  "gm_get (Some (AList.update k v al)) k' = (if k' = k then Some v else gm_get (Some al) k')"
  by (simp add: gm_get_def update_conv')

lemma gm_wf_update [simp]: "gm_wf (Some al) \<Longrightarrow> gm_wf (Some (AList.update k v al))"
  by (simp add: gm_wf_def distinct_update)

lemma gm_get_delete [simp]: "gm_get (gm_delete m k) k' = (if k' = k then None else gm_get m k')"
  by (cases m) (simp_all add: gm_get_def gm_delete_def delete_conv')

lemma gm_wf_delete [simp]: "gm_wf m \<Longrightarrow> gm_wf (gm_delete m k)"
  by (cases m) (simp_all add: gm_wf_def gm_delete_def distinct_delete)

lemma gm_get_Some_iff: "gm_wf m \<Longrightarrow> gm_get m k = Some v \<longleftrightarrow> (k, v) \<in> set (gm_entries m)"
  by (simp add: gm_get_def gm_wf_def)

lemma gm_len_card:
  assumes "gm_wf m"
  shows "gm_len m = int (card (dom (gm_get m)))"
proof -
  have "dom (gm_get m) = set (map fst (gm_entries m))"
    by (simp add: gm_get_def [abs_def] dom_map_of_conv_image_fst)
  moreover have "card (set (map fst (gm_entries m))) = length (map fst (gm_entries m))"
    using assms unfolding gm_wf_def by (rule distinct_card)
  ultimately show ?thesis
    by (simp add: gm_len_def)
qed

end
