(* ===== verification/Collections.thy ===== *)
theory Collections
  imports Core_Types Refinement Go_Map
begin

text \<open>
  The smaller containers of \<^verbatim>\<open>base/collections\<close>: \<open>Set\<close>, \<open>Stack\<close>, \<open>FilterSlice\<close>, the sorted-key
  helpers and \<open>MonotoneMap\<close>, the insertion-ordered map without deletion. The abstract value of
  an insertion-ordered map is the association list of its entries in insertion order; the
  operations on that list are the specification \<open>entries_step\<close>, which the ordered map with
  deletion (theory \<open>Ordered_Map\<close>) implements as well. The model has one owner per container.
\<close>

section \<open>Definitions\<close>

subsection \<open>Set\<close>

record 't Set =
  set_values :: "('t, unit) gomap"

definition NewSet :: "'t Set" where
  "NewSet = \<lparr>set_values = Some []\<rparr>"

definition Set_Insert :: "'t \<Rightarrow> 't Set \<Rightarrow> (InsertResult \<times> 't Set) outcome" where
  "Set_Insert value s =
     (if gm_get (set_values s) value \<noteq> None then Inr (KeptOld, s)
      else go_bind (gm_set (set_values s) value ()) (\<lambda>m. Inr (InsertedNew, s\<lparr>set_values := m\<rparr>)))"

definition Set_InsertNew :: "'t \<Rightarrow> 't Set \<Rightarrow> 't Set outcome" where
  "Set_InsertNew value s =
     go_bind (Preconditionf (gm_get (set_values s) value = None) ''set already contains value %v'')
       (\<lambda>_. go_bind (gm_set (set_values s) value ()) (\<lambda>m. Inr (s\<lparr>set_values := m\<rparr>)))"

definition Set_Contains :: "'t Set \<Rightarrow> 't \<Rightarrow> bool" where
  "Set_Contains s value = (gm_get (set_values s) value \<noteq> None)"

definition Set_Len :: "'t Set \<Rightarrow> int" where
  "Set_Len s = gm_len (set_values s)"

fun isSubsetOf_loop :: "('t \<times> unit) list \<Rightarrow> 't Set \<Rightarrow> bool" where
  "isSubsetOf_loop [] bigger = True"
| "isSubsetOf_loop ((value, _) # rest) bigger =
     (if \<not> Set_Contains bigger value then False else isSubsetOf_loop rest bigger)"

definition Set_IsSubsetOf :: "'t Set \<Rightarrow> 't Set \<Rightarrow> bool" where
  "Set_IsSubsetOf s bigger =
     (if Set_Len s > Set_Len bigger then False else isSubsetOf_loop (gm_entries (set_values s)) bigger)"

definition SortedValues :: "'t::linorder Set \<Rightarrow> 't list" where
  "SortedValues s = sort (map fst (gm_entries (set_values s)))"

definition Set_ValuesNonDet :: "('t \<Rightarrow> 's \<Rightarrow> bool \<times> 's) \<Rightarrow> 't Set \<Rightarrow> 's \<Rightarrow> 's" where
  "Set_ValuesNonDet yield s st = snd (yield_all yield (map fst (gm_entries (set_values s))) st)"

subsection \<open>Stack\<close>

record 't Stack =
  stk_values :: "'t list"

definition NewStack :: "'t Stack" where
  "NewStack = \<lparr>stk_values = []\<rparr>"

definition Stack_Len :: "'t Stack \<Rightarrow> int" where
  "Stack_Len s = int (length (stk_values s))"

definition Stack_Push :: "'t \<Rightarrow> 't Stack \<Rightarrow> 't Stack" where
  "Stack_Push value s = s\<lparr>stk_values := stk_values s @ [value]\<rparr>"

definition Stack_Pop :: "'t Stack \<Rightarrow> ('t \<times> 't Stack) outcome" where
  "Stack_Pop s =
     (let l = Stack_Len s
      in go_bind (Preconditionf (l > 0) ''Pop on empty stack'') (\<lambda>_.
         let n = l - 1
         in go_bind (slice_get (stk_values s) n) (\<lambda>value.
            go_bind (slice_sub (stk_values s) 0 n) (\<lambda>vs.
            Inr (value, s\<lparr>stk_values := vs\<rparr>)))))"

definition Stack_IsEmpty :: "'t Stack \<Rightarrow> bool" where
  "Stack_IsEmpty s = (Stack_Len s = 0)"

subsection \<open>Slices and built-in maps\<close>

fun FilterSlice_loop :: "('t \<Rightarrow> bool) \<Rightarrow> 't list \<Rightarrow> 't list \<Rightarrow> 't list" where
  "FilterSlice_loop pred [] result = result"
| "FilterSlice_loop pred (v # s) result =
     FilterSlice_loop pred s (if pred v then result @ [v] else result)"

definition FilterSlice :: "'t list \<Rightarrow> ('t \<Rightarrow> bool) \<Rightarrow> 't list" where
  "FilterSlice s pred = FilterSlice_loop pred s []"

definition SortedMapKeys :: "('k::linorder, 'v) gomap \<Rightarrow> 'k list" where
  "SortedMapKeys m = sort (map fst (gm_entries m))"

definition SortedMapValues :: "('k, 'v::linorder) gomap \<Rightarrow> 'v list" where
  "SortedMapValues m = sort (map snd (gm_entries m))"

subsection \<open>MonotoneMap\<close>

record ('k, 'v) MonotoneMap =
  mm_keys :: "'k list"
  mm_values :: "('k, 'v) gomap"

definition NewMonotoneMap :: "('k, 'v) MonotoneMap" where
  "NewMonotoneMap = \<lparr>mm_keys = [], mm_values = Some []\<rparr>"

definition MonotoneMap_Len :: "('k, 'v) MonotoneMap \<Rightarrow> int" where
  "MonotoneMap_Len m = gm_len (mm_values m)"

text \<open>The loop of \<open>CloneWithout\<close>; \<open>m.values[key]\<close> gives \<open>zero\<close> for an absent key.\<close>

fun CloneWithout_loop ::
  "'v \<Rightarrow> ('k, 'v) MonotoneMap \<Rightarrow> 'k Set \<Rightarrow> 'k list \<Rightarrow> ('k, 'v) MonotoneMap \<Rightarrow> ('k, 'v) MonotoneMap outcome" where
  "CloneWithout_loop zero m omit [] acc = Inr acc"
| "CloneWithout_loop zero m omit (key # rest) acc =
     (if Set_Contains omit key then CloneWithout_loop zero m omit rest acc
      else let value = (case gm_get (mm_values m) key of None \<Rightarrow> zero | Some v \<Rightarrow> v)
           in go_bind (gm_set (mm_values acc) key value) (\<lambda>vals.
              CloneWithout_loop zero m omit rest \<lparr>mm_keys = mm_keys acc @ [key], mm_values = vals\<rparr>))"

definition MonotoneMap_CloneWithout ::
  "'v \<Rightarrow> 'k Set \<Rightarrow> ('k, 'v) MonotoneMap \<Rightarrow> ('k, 'v) MonotoneMap outcome" where
  "MonotoneMap_CloneWithout zero omit m =
     CloneWithout_loop zero m omit (mm_keys m) \<lparr>mm_keys = [], mm_values = Some []\<rparr>"

definition MonotoneMap_Lookup :: "'k \<Rightarrow> ('k, 'v) MonotoneMap \<Rightarrow> 'v option" where
  "MonotoneMap_Lookup key m = gm_get (mm_values m) key"

definition MonotoneMap_Keys :: "('k \<Rightarrow> 's \<Rightarrow> bool \<times> 's) \<Rightarrow> ('k, 'v) MonotoneMap \<Rightarrow> 's \<Rightarrow> 's" where
  "MonotoneMap_Keys yield m st = snd (yield_all yield (mm_keys m) st)"

definition MonotoneMap_InsertOrKeep ::
  "'k \<Rightarrow> 'v \<Rightarrow> ('k, 'v) MonotoneMap \<Rightarrow> (InsertResult \<times> ('k, 'v) MonotoneMap) outcome" where
  "MonotoneMap_InsertOrKeep key value m =
     (if gm_get (mm_values m) key \<noteq> None then Inr (KeptOld, m)
      else let m = m\<lparr>mm_keys := mm_keys m @ [key]\<rparr>
           in go_bind (gm_set (mm_values m) key value) (\<lambda>vals.
              Inr (InsertedNew, m\<lparr>mm_values := vals\<rparr>)))"

definition MonotoneMap_InsertOrReplace ::
  "'k \<Rightarrow> 'v \<Rightarrow> ('k, 'v) MonotoneMap \<Rightarrow> ('v option \<times> ('k, 'v) MonotoneMap) outcome" where
  "MonotoneMap_InsertOrReplace key value m =
     (let old = gm_get (mm_values m) key;
          m = (if old = None then m\<lparr>mm_keys := mm_keys m @ [key]\<rparr> else m)
      in go_bind (gm_set (mm_values m) key value) (\<lambda>vals. Inr (old, m\<lparr>mm_values := vals\<rparr>)))"

section \<open>Facts about sets, stacks and slices\<close>

definition set_abs :: "'t Set \<Rightarrow> 't set" where
  "set_abs s = {x. Set_Contains s x}"

definition set_inv :: "'t Set \<Rightarrow> bool" where
  "set_inv s \<longleftrightarrow> set_values s \<noteq> None \<and> gm_wf (set_values s)"

lemma set_abs_entries: "set_abs s = fst ` set (gm_entries (set_values s))"
  by (auto simp: set_abs_def Set_Contains_def gm_get_def dom_map_of_conv_image_fst [symmetric])

lemma NewSet_spec: "set_inv NewSet" "set_abs NewSet = {}"
  by (simp_all add: NewSet_def set_inv_def set_abs_entries)

lemma Set_Insert_spec:
  assumes "set_inv s"
  shows "\<exists>s'. Set_Insert x s = Inr (if x \<in> set_abs s then KeptOld else InsertedNew, s')
           \<and> set_inv s' \<and> set_abs s' = insert x (set_abs s)"
proof -
  obtain al where al: "set_values s = Some al"
    using assms by (auto simp: set_inv_def)
  then show ?thesis
    using assms by (auto simp: Set_Insert_def set_inv_def set_abs_def Set_Contains_def)
qed

lemma Set_InsertNew_spec:
  assumes "set_inv s" and "x \<notin> set_abs s"
  shows "\<exists>s'. Set_InsertNew x s = Inr s' \<and> set_inv s' \<and> set_abs s' = insert x (set_abs s)"
proof -
  obtain al where al: "set_values s = Some al"
    using assms by (auto simp: set_inv_def)
  moreover have "gm_get (set_values s) x = None"
    using assms(2) unfolding set_abs_def Set_Contains_def by blast
  ultimately show ?thesis
    using assms(1) by (auto simp: Set_InsertNew_def set_inv_def set_abs_def Set_Contains_def)
qed

lemma Set_Len_card: "set_inv s \<Longrightarrow> Set_Len s = int (card (set_abs s))"
  by (simp add: set_inv_def Set_Len_def gm_len_card set_abs_def Set_Contains_def dom_def)

lemma isSubsetOf_loop_iff: "isSubsetOf_loop al s \<longleftrightarrow> fst ` set al \<subseteq> set_abs s"
  by (induction al) (auto simp: set_abs_def split: if_splits)

lemma Set_IsSubsetOf_spec:
  assumes "set_inv s" and "set_inv t"
  shows "Set_IsSubsetOf s t \<longleftrightarrow> set_abs s \<subseteq> set_abs t"
proof -
  have "finite (set_abs t)"
    by (simp add: set_abs_entries)
  then show ?thesis
    using assms
    by (auto simp: Set_IsSubsetOf_def Set_Len_card isSubsetOf_loop_iff simp flip: set_abs_entries
        dest: card_mono)
qed

lemma Stack_push_pop: "Stack_Pop (Stack_Push x s) = Inr (x, s)"
  by (simp add: Stack_Pop_def Stack_Push_def Stack_Len_def Let_def)

lemma FilterSlice_filter: "FilterSlice s pred = filter pred s"
proof -
  have "FilterSlice_loop pred s acc = acc @ filter pred s" for acc
    by (induction s arbitrary: acc) auto
  then show ?thesis
    by (simp add: FilterSlice_def)
qed

lemma SortedMapKeys_spec:
  assumes "gm_wf m"
  shows "SortedMapKeys m = sorted_list_of_set (dom (gm_get m))"
  using assms
  by (simp add: SortedMapKeys_def gm_wf_def gm_get_def [abs_def] dom_map_of_conv_image_fst
      sorted_list_of_set_sort_remdups distinct_remdups_id flip: set_map)

section \<open>The specification of insertion-ordered maps\<close>

datatype ('k, 'v) MapOp =
  OpLookup 'k | OpInsertOrKeep 'k 'v | OpInsertOrReplace 'k 'v | OpKeys | OpLen

datatype ('k, 'v) MapResult =
  RValue "'v option" | RInsert InsertResult | RKeys "'k list" | RLen int

text \<open>The operations on the list of entries; \<open>AList.update\<close> replaces in place or appends.\<close>

fun entries_step ::
  "('k, 'v) MapOp \<Rightarrow> ('k \<times> 'v) list \<Rightarrow> (('k, 'v) MapResult \<times> ('k \<times> 'v) list) outcome" where
  "entries_step (OpLookup k) al = Inr (RValue (map_of al k), al)"
| "entries_step (OpInsertOrKeep k v) al =
     (if map_of al k \<noteq> None then Inr (RInsert KeptOld, al) else Inr (RInsert InsertedNew, al @ [(k, v)]))"
| "entries_step (OpInsertOrReplace k v) al = Inr (RValue (map_of al k), AList.update k v al)"
| "entries_step OpKeys al = Inr (RKeys (map fst al), al)"
| "entries_step OpLen al = Inr (RLen (int (length al)), al)"

text \<open>One call on a monotone map; \<open>Keys\<close> with the consumer that collects all keys.\<close>

fun monotone_step ::
  "('k, 'v) MapOp \<Rightarrow> ('k, 'v) MonotoneMap \<Rightarrow> (('k, 'v) MapResult \<times> ('k, 'v) MonotoneMap) outcome" where
  "monotone_step (OpLookup k) m = Inr (RValue (MonotoneMap_Lookup k m), m)"
| "monotone_step (OpInsertOrKeep k v) m =
     go_bind (MonotoneMap_InsertOrKeep k v m) (\<lambda>(r, m'). Inr (RInsert r, m'))"
| "monotone_step (OpInsertOrReplace k v) m =
     go_bind (MonotoneMap_InsertOrReplace k v m) (\<lambda>(r, m'). Inr (RValue r, m'))"
| "monotone_step OpKeys m = Inr (RKeys (MonotoneMap_Keys (\<lambda>k acc. (True, acc @ [k])) m []), m)"
| "monotone_step OpLen m = Inr (RLen (MonotoneMap_Len m), m)"

subsection \<open>Entry lists\<close>

definition entries_of :: "'k list \<Rightarrow> ('k \<Rightarrow> 'v) \<Rightarrow> ('k \<times> 'v) list" where
  "entries_of ks f = map (\<lambda>k. (k, f k)) ks"

lemma map_of_entries_of: "map_of (entries_of ks f) k = (if k \<in> set ks then Some (f k) else None)"
  by (simp add: entries_of_def map_of_map_restrict)

lemma update_entries_of:
  "distinct ks \<Longrightarrow> AList.update k v (entries_of ks f) =
     entries_of (if k \<in> set ks then ks else ks @ [k]) (f(k := v))"
  by (induction ks) (auto simp: entries_of_def)

lemma entries_of_cong: "(\<And>k. k \<in> set ks \<Longrightarrow> f k = g k) \<Longrightarrow> entries_of ks f = entries_of ks g"
  by (simp add: entries_of_def)

lemma map_fst_entries_of [simp]: "map fst (entries_of ks f) = ks"
  by (simp add: entries_of_def o_def)

subsection \<open>MonotoneMap implements it\<close>

definition mm_inv :: "('k, 'v) MonotoneMap \<Rightarrow> bool" where
  "mm_inv m \<longleftrightarrow> mm_values m \<noteq> None \<and> gm_wf (mm_values m) \<and> distinct (mm_keys m)
             \<and> set (mm_keys m) = dom (gm_get (mm_values m))"

definition mm_abs :: "('k, 'v) MonotoneMap \<Rightarrow> ('k \<times> 'v) list" where
  "mm_abs m = entries_of (mm_keys m) (\<lambda>k. the (gm_get (mm_values m) k))"

lemma NewMonotoneMap_spec: "mm_inv NewMonotoneMap" "mm_abs NewMonotoneMap = []"
  by (auto simp: NewMonotoneMap_def mm_inv_def mm_abs_def entries_of_def)

lemma map_of_mm_abs: "mm_inv m \<Longrightarrow> map_of (mm_abs m) k = gm_get (mm_values m) k"
  by (auto simp: mm_abs_def map_of_entries_of mm_inv_def domIff)

lemma MonotoneMap_Len_spec: "mm_inv m \<Longrightarrow> MonotoneMap_Len m = int (length (mm_abs m))"
  by (simp add: MonotoneMap_Len_def mm_inv_def gm_len_card mm_abs_def entries_of_def distinct_card
      flip: distinct_card)

text \<open>Both insertions store a value and, for a new key, append the key.\<close>

lemma monotone_store:
  assumes "mm_inv m" and "mm_values m = Some al"
    and ks_def: "ks = (if gm_get (mm_values m) k = None then mm_keys m @ [k] else mm_keys m)"
  shows "mm_inv \<lparr>mm_keys = ks, mm_values = Some (AList.update k v al)\<rparr>"
    and "mm_abs \<lparr>mm_keys = ks, mm_values = Some (AList.update k v al)\<rparr> = AList.update k v (mm_abs m)"
proof -
  have dom: "gm_get (Some al) k = None \<longleftrightarrow> k \<notin> set (mm_keys m)"
    using assms(1,2) by (auto simp: mm_inv_def)
  show "mm_inv \<lparr>mm_keys = ks, mm_values = Some (AList.update k v al)\<rparr>"
    using assms(1,2) dom by (auto simp: mm_inv_def ks_def split: if_splits)
  have "distinct (mm_keys m)"
    using assms(1) by (simp add: mm_inv_def)
  then show "mm_abs \<lparr>mm_keys = ks, mm_values = Some (AList.update k v al)\<rparr> = AList.update k v (mm_abs m)"
    using assms(2) dom
    by (auto simp: mm_abs_def update_entries_of ks_def intro!: entries_of_cong)
qed

lemma update_append: "map_of al k = None \<Longrightarrow> AList.update k v al = al @ [(k, v)]"
  by (induction al) (auto split: if_splits)

lemma monotone_step_simulates:
  assumes "mm_inv m"
  shows "simulates mm_inv mm_abs (monotone_step op m) (entries_step op (mm_abs m))"
proof -
  obtain al where al: "mm_values m = Some al"
    using assms by (auto simp: mm_inv_def)
  have store: "m\<lparr>mm_keys := ks, mm_values := x\<rparr> = \<lparr>mm_keys = ks, mm_values = x\<rparr>"
    "m\<lparr>mm_values := x\<rparr> = \<lparr>mm_keys = mm_keys m, mm_values = x\<rparr>" for ks x
    by (cases m; simp)+
  show ?thesis
  proof (cases op)
    case (OpInsertOrKeep k v)
    then show ?thesis
      using assms al monotone_store [OF assms al refl, of k v] map_of_mm_abs [OF assms, of k]
      by (auto simp: MonotoneMap_InsertOrKeep_def Let_def store update_append)
  next
    case (OpInsertOrReplace k v)
    then show ?thesis
      using al monotone_store [OF assms al refl, of k v] map_of_mm_abs [OF assms, of k]
      by (auto simp: MonotoneMap_InsertOrReplace_def Let_def store)
  qed (use assms in \<open>simp_all add: MonotoneMap_Lookup_def map_of_mm_abs MonotoneMap_Len_spec
        MonotoneMap_Keys_def yield_all_collect\<close>, simp add: mm_abs_def)
qed

interpretation mmsim: simulation monotone_step entries_step mm_inv mm_abs
  by unfold_locales (rule monotone_step_simulates)

lemma CloneWithout_loop_spec:
  assumes "mm_inv m" and "set ks \<subseteq> set (mm_keys m)" and "distinct ks"
    and "mm_inv acc" and "set ks \<inter> set (mm_keys acc) = {}"
  shows "\<exists>m'. CloneWithout_loop z m omit ks acc = Inr m' \<and> mm_inv m'
           \<and> mm_abs m' = mm_abs acc @ entries_of (filter (\<lambda>k. k \<notin> set_abs omit) ks)
                                        (\<lambda>k. the (gm_get (mm_values m) k))"
  using assms(2-)
proof (induction ks arbitrary: acc)
  case Nil
  then show ?case by (simp add: entries_of_def)
next
  case (Cons k ks)
  show ?case
  proof (cases "k \<in> set_abs omit")
    case True
    then show ?thesis
      using Cons.IH [of acc] Cons.prems by (simp add: set_abs_def)
  next
    case False
    obtain al where al: "mm_values acc = Some al"
      using Cons.prems(3) by (auto simp: mm_inv_def)
    obtain v where v: "gm_get (mm_values m) k = Some v"
      using assms(1) Cons.prems(1) by (auto simp: mm_inv_def)
    have new: "gm_get (mm_values acc) k = None"
      using Cons.prems(3,4) by (auto simp: mm_inv_def)
    let ?acc = "\<lparr>mm_keys = mm_keys acc @ [k], mm_values = Some (AList.update k v al)\<rparr>"
    have acc: "mm_inv ?acc" "mm_abs ?acc = mm_abs acc @ [(k, v)]"
      using monotone_store [OF Cons.prems(3) al refl, of k v] new map_of_mm_abs [OF Cons.prems(3), of k]
      by (simp_all add: update_append)
    have "\<exists>m'. CloneWithout_loop z m omit ks ?acc = Inr m' \<and> mm_inv m'
           \<and> mm_abs m' = mm_abs ?acc @ entries_of (filter (\<lambda>k. k \<notin> set_abs omit) ks)
                                        (\<lambda>k. the (gm_get (mm_values m) k))"
      using Cons.prems acc(1) by (intro Cons.IH) auto
    moreover have "\<not> Set_Contains omit k"
      using False by (simp add: set_abs_def)
    ultimately show ?thesis
      using False v al acc(2) by (simp add: entries_of_def)
  qed
qed

text \<open>\<open>CloneWithout\<close> keeps exactly the entries whose key is not in the omitted set, in their order.\<close>

lemma MonotoneMap_CloneWithout_spec:
  assumes "mm_inv m"
  shows "\<exists>m'. MonotoneMap_CloneWithout zero omit m = Inr m' \<and> mm_inv m'
           \<and> mm_abs m' = filter (\<lambda>(k, _). \<not> Set_Contains omit k) (mm_abs m)"
proof -
  have "filter (\<lambda>(k, _). \<not> Set_Contains omit k) (mm_abs m)
      = entries_of (filter (\<lambda>k. k \<notin> set_abs omit) (mm_keys m)) (\<lambda>k. the (gm_get (mm_values m) k))"
    by (simp add: mm_abs_def entries_of_def filter_map o_def set_abs_def)
  then show ?thesis
    using CloneWithout_loop_spec [OF assms, of "mm_keys m" NewMonotoneMap zero omit] assms
    by (simp add: MonotoneMap_CloneWithout_def NewMonotoneMap_spec)
       (auto simp: NewMonotoneMap_def mm_inv_def)
qed

text \<open>The single operations, in the form the clients of the map use.\<close>

lemma MonotoneMap_InsertOrKeep_spec:
  assumes "mm_inv m"
  shows "\<exists>m'. MonotoneMap_InsertOrKeep k v m = Inr (if map_of (mm_abs m) k = None then InsertedNew else KeptOld, m')
    \<and> mm_inv m' \<and> mm_abs m' = (if map_of (mm_abs m) k = None then mm_abs m @ [(k, v)] else mm_abs m)"
  using mmsim.step [OF assms, of "OpInsertOrKeep k v"]
  by (cases "MonotoneMap_InsertOrKeep k v m") (auto simp: simulates_def split: if_splits)

lemma MonotoneMap_InsertOrReplace_spec:
  assumes "mm_inv m"
  shows "\<exists>m'. MonotoneMap_InsertOrReplace k v m = Inr (map_of (mm_abs m) k, m')
    \<and> mm_inv m' \<and> mm_abs m' = AList.update k v (mm_abs m)"
  using mmsim.step [OF assms, of "OpInsertOrReplace k v"]
  by (cases "MonotoneMap_InsertOrReplace k v m") (auto simp: simulates_def)

lemma MonotoneMap_Lookup_spec: "mm_inv m \<Longrightarrow> MonotoneMap_Lookup k m = map_of (mm_abs m) k"
  by (simp add: MonotoneMap_Lookup_def map_of_mm_abs)

section \<open>Properties\<close>

text \<open>
  Any sequence of calls on a new monotone map answers as the same calls on the list of its
  entries in insertion order: replacing a value keeps the key's place, and the keys are iterated
  in insertion order.
\<close>

lemma MonotoneMap_refines_entries:
  "simulates mm_inv mm_abs (run_ops monotone_step ops NewMonotoneMap) (run_ops entries_step ops [])"
  using mmsim.run_refines [OF NewMonotoneMap_spec(1), of ops] by (simp add: NewMonotoneMap_spec)

text \<open>
  The set operations are those of a mathematical set: insertion reports whether the element
  was new, the length is the cardinality, and the subset test, which first compares lengths, is
  exact whatever order the map is visited in.
\<close>

lemma Set_refines_set:
  assumes "set_inv s" and "set_inv t"
  shows "(\<exists>s'. Set_Insert x s = Inr (if x \<in> set_abs s then KeptOld else InsertedNew, s')
            \<and> set_inv s' \<and> set_abs s' = insert x (set_abs s))
       \<and> (is_ok (Set_InsertNew x s) \<longleftrightarrow> x \<notin> set_abs s)
       \<and> Set_Len s = int (card (set_abs s))
       \<and> (Set_IsSubsetOf s t \<longleftrightarrow> set_abs s \<subseteq> set_abs t)"
proof -
  have "is_ok (Set_InsertNew x s) \<longleftrightarrow> x \<notin> set_abs s"
    using assms(1)
    by (auto simp: Set_InsertNew_def set_abs_def Set_Contains_def set_inv_def assert_defs)
  then show ?thesis
    using Set_Insert_spec [OF assms(1)] Set_Len_card [OF assms(1)] Set_IsSubsetOf_spec [OF assms]
    by simp
qed

end
