(* ===== verification/Ordered_Map.thy ===== *)
theory Ordered_Map
  imports Collections
begin

text \<open>
  \<^verbatim>\<open>base/collections/ordered_map.go\<close>: the insertion-ordered map with deletion. Entries live in
  chunks of four slots with a presence bitmap; deletion leaves a tombstone; a map from keys to
  packed positions finds the slot; the chunks are rebuilt once at most a quarter of the used slots
  is live. The theory shows that all of this implements the list of entries in insertion order.
\<close>

unbundle bit_operations_syntax

section \<open>Definitions\<close>

text \<open>A chunk: Go arrays of four keys and four values (lists of length four) and the bitmap.\<close>

record ('k, 'v) orderedMapChunk =
  oc_keys :: "'k list"
  oc_values :: "'v list"
  oc_present :: "8 word"

record ('k, 'v) OrderedMap =
  om_chunks :: "('k, 'v) orderedMapChunk list"
  om_positions :: "('k, int) gomap"
  om_nextOffset :: int

definition orderedMapChunkSize :: int where
  "orderedMapChunkSize = 4"

definition orderedMapMaxEntries :: int where
  "orderedMapMaxEntries = 2 ^ 48"

definition orderedMapMaxChunks :: int where
  "orderedMapMaxChunks = orderedMapMaxEntries div orderedMapChunkSize"

definition NewOrderedMap :: "('k, 'v) OrderedMap" where
  "NewOrderedMap = \<lparr>om_chunks = [], om_positions = None, om_nextOffset = 0\<rparr>"

definition orderedMapBit :: "int \<Rightarrow> 8 word" where
  "orderedMapBit offset = push_bit (nat offset) 1"

definition newPosition :: "int \<Rightarrow> int \<Rightarrow> int outcome" where
  "newPosition chunk offset =
     go_bind (if chunk < 0 \<or> orderedMapMaxChunks \<le> chunk \<or> offset < 0 \<or> orderedMapChunkSize \<le> offset
              then Invariantf False
                ''ordered map position outside supported range: chunk=%d offset=%d max_entries=%d''
              else Inr ())
       (\<lambda>_. Inr (push_bit 2 chunk OR offset))"

definition position_split :: "int \<Rightarrow> int \<times> int" where
  "position_split pos = (drop_bit 2 pos, pos AND (orderedMapChunkSize - 1))"

definition OrderedMap_Lookup :: "'k \<Rightarrow> ('k, 'v) OrderedMap \<Rightarrow> 'v option outcome" where
  "OrderedMap_Lookup key m =
     (case gm_get (om_positions m) key of
        None \<Rightarrow> Inr None
      | Some pos \<Rightarrow>
          (let (chunkIndex, offset) = position_split pos
           in go_bind (slice_get (om_chunks m) chunkIndex) (\<lambda>chunk.
              go_bind (slice_get (oc_values chunk) offset) (\<lambda>v. Inr (Some v)))))"

definition OrderedMap_Len :: "('k, 'v) OrderedMap \<Rightarrow> int" where
  "OrderedMap_Len m = gm_len (om_positions m)"

text \<open>\<open>Keys\<close>: the inner loop over the offsets of a chunk and the outer loop over the chunks.\<close>

fun keys_chunk_loop ::
  "('k \<Rightarrow> 's \<Rightarrow> bool \<times> 's) \<Rightarrow> ('k, 'v) orderedMapChunk \<Rightarrow> nat list \<Rightarrow> 's \<Rightarrow> bool \<times> 's" where
  "keys_chunk_loop yield chunk [] st = (True, st)"
| "keys_chunk_loop yield chunk (offset # rest) st =
     (if oc_present chunk AND orderedMapBit (int offset) = 0 then keys_chunk_loop yield chunk rest st
      else case yield (oc_keys chunk ! offset) st of
             (False, st') \<Rightarrow> (False, st')
           | (True, st') \<Rightarrow> keys_chunk_loop yield chunk rest st')"

fun keys_loop ::
  "('k \<Rightarrow> 's \<Rightarrow> bool \<times> 's) \<Rightarrow> ('k, 'v) orderedMapChunk list \<Rightarrow> 's \<Rightarrow> bool \<times> 's" where
  "keys_loop yield [] st = (True, st)"
| "keys_loop yield (chunk # rest) st =
     (case keys_chunk_loop yield chunk [0..<nat orderedMapChunkSize] st of
        (False, st') \<Rightarrow> (False, st')
      | (True, st') \<Rightarrow> keys_loop yield rest st')"

definition OrderedMap_Keys :: "('k \<Rightarrow> 's \<Rightarrow> bool \<times> 's) \<Rightarrow> ('k, 'v) OrderedMap \<Rightarrow> 's \<Rightarrow> 's" where
  "OrderedMap_Keys yield m st = snd (keys_loop yield (om_chunks m) st)"

text \<open>Storing an entry into a slot, as \<open>insertNew\<close> does field by field.\<close>

definition chunk_store ::
  "('k, 'v) orderedMapChunk \<Rightarrow> int \<Rightarrow> 'k \<Rightarrow> 'v \<Rightarrow> ('k, 'v) orderedMapChunk outcome" where
  "chunk_store chunk offset key value =
     go_bind (slice_set (oc_keys chunk) offset key) (\<lambda>ks.
     go_bind (slice_set (oc_values chunk) offset value) (\<lambda>vs.
     Inr \<lparr>oc_keys = ks, oc_values = vs, oc_present = oc_present chunk OR orderedMapBit offset\<rparr>))"

text \<open>\<open>insertNew\<close>: first the two guards that make room, then the stores.\<close>

definition insertNew_room :: "'k \<Rightarrow> 'v \<Rightarrow> ('k, 'v) OrderedMap \<Rightarrow> ('k, 'v) OrderedMap" where
  "insertNew_room zk zv m =
     (let m = (if om_positions m = None then m\<lparr>om_positions := Some []\<rparr> else m)
      in if om_chunks m = [] \<or> om_nextOffset m = orderedMapChunkSize
         then m\<lparr>om_chunks := om_chunks m @
                  [\<lparr>oc_keys = replicate (nat orderedMapChunkSize) zk,
                    oc_values = replicate (nat orderedMapChunkSize) zv, oc_present = 0\<rparr>],
                om_nextOffset := 0\<rparr>
         else m)"

definition insertNew :: "'k \<Rightarrow> 'v \<Rightarrow> 'k \<Rightarrow> 'v \<Rightarrow> ('k, 'v) OrderedMap \<Rightarrow> ('k, 'v) OrderedMap outcome" where
  "insertNew zk zv key value m =
     (let m = insertNew_room zk zv m;
          chunkIndex = int (length (om_chunks m)) - 1;
          offset = om_nextOffset m
      in go_bind (slice_get (om_chunks m) chunkIndex) (\<lambda>chunk.
         go_bind (chunk_store chunk offset key value) (\<lambda>chunk'.
         go_bind (slice_set (om_chunks m) chunkIndex chunk') (\<lambda>chunks.
         go_bind (newPosition chunkIndex offset) (\<lambda>pos.
         go_bind (gm_set (om_positions m) key pos) (\<lambda>positions.
         Inr \<lparr>om_chunks = chunks, om_positions = positions,
              om_nextOffset = om_nextOffset m + 1\<rparr>))))))"

definition OrderedMap_InsertOrKeep ::
  "'k \<Rightarrow> 'v \<Rightarrow> 'k \<Rightarrow> 'v \<Rightarrow> ('k, 'v) OrderedMap \<Rightarrow> (InsertResult \<times> ('k, 'v) OrderedMap) outcome" where
  "OrderedMap_InsertOrKeep zk zv key value m =
     (if gm_get (om_positions m) key \<noteq> None then Inr (KeptOld, m)
      else go_bind (insertNew zk zv key value m) (\<lambda>m'. Inr (InsertedNew, m')))"

definition OrderedMap_InsertOrReplace ::
  "'k \<Rightarrow> 'v \<Rightarrow> 'k \<Rightarrow> 'v \<Rightarrow> ('k, 'v) OrderedMap \<Rightarrow> ('v option \<times> ('k, 'v) OrderedMap) outcome" where
  "OrderedMap_InsertOrReplace zk zv key value m =
     (case gm_get (om_positions m) key of
        None \<Rightarrow> go_bind (insertNew zk zv key value m) (\<lambda>m'. Inr (None, m'))
      | Some pos \<Rightarrow>
          (let (chunkIndex, offset) = position_split pos
           in go_bind (slice_get (om_chunks m) chunkIndex) (\<lambda>chunk.
              go_bind (slice_get (oc_values chunk) offset) (\<lambda>old.
              go_bind (slice_set (oc_values chunk) offset value) (\<lambda>vs.
              go_bind (slice_set (om_chunks m) chunkIndex (chunk\<lparr>oc_values := vs\<rparr>)) (\<lambda>chunks.
              Inr (Some old, m\<lparr>om_chunks := chunks\<rparr>)))))))"

definition usedSlots :: "('k, 'v) OrderedMap \<Rightarrow> int" where
  "usedSlots m =
     (if om_chunks m = [] then 0
      else (int (length (om_chunks m)) - 1) * orderedMapChunkSize + om_nextOffset m)"

fun compact_chunk_loop ::
  "'k \<Rightarrow> 'v \<Rightarrow> ('k, 'v) orderedMapChunk \<Rightarrow> nat list \<Rightarrow> ('k, 'v) OrderedMap \<Rightarrow> ('k, 'v) OrderedMap outcome" where
  "compact_chunk_loop zk zv chunk [] compacted = Inr compacted"
| "compact_chunk_loop zk zv chunk (offset # rest) compacted =
     (if oc_present chunk AND orderedMapBit (int offset) = 0
      then compact_chunk_loop zk zv chunk rest compacted
      else go_bind (insertNew zk zv (oc_keys chunk ! offset) (oc_values chunk ! offset) compacted)
             (compact_chunk_loop zk zv chunk rest))"

fun compact_loop ::
  "'k \<Rightarrow> 'v \<Rightarrow> ('k, 'v) orderedMapChunk list \<Rightarrow> ('k, 'v) OrderedMap \<Rightarrow> ('k, 'v) OrderedMap outcome" where
  "compact_loop zk zv [] compacted = Inr compacted"
| "compact_loop zk zv (chunk # rest) compacted =
     go_bind (compact_chunk_loop zk zv chunk [0..<nat orderedMapChunkSize] compacted)
       (compact_loop zk zv rest)"

definition compactIfNeeded :: "'k \<Rightarrow> 'v \<Rightarrow> ('k, 'v) OrderedMap \<Rightarrow> ('k, 'v) OrderedMap outcome" where
  "compactIfNeeded zk zv m =
     (if usedSlots m = 0 \<or> 4 * OrderedMap_Len m > usedSlots m then Inr m
      else compact_loop zk zv (om_chunks m) NewOrderedMap)"

definition OrderedMap_Delete ::
  "'k \<Rightarrow> 'v \<Rightarrow> 'k \<Rightarrow> ('k, 'v) OrderedMap \<Rightarrow> ('v option \<times> ('k, 'v) OrderedMap) outcome" where
  "OrderedMap_Delete zk zv key m =
     (case gm_get (om_positions m) key of
        None \<Rightarrow> Inr (None, m)
      | Some pos \<Rightarrow>
          (let (chunkIndex, offset) = position_split pos
           in go_bind (slice_get (om_chunks m) chunkIndex) (\<lambda>chunk.
              go_bind (slice_get (oc_values chunk) offset) (\<lambda>old.
              go_bind (slice_set (oc_keys chunk) offset zk) (\<lambda>ks.
              go_bind (slice_set (oc_values chunk) offset zv) (\<lambda>vs.
              let chunk' = \<lparr>oc_keys = ks, oc_values = vs,
                            oc_present = oc_present chunk AND NOT (orderedMapBit offset)\<rparr>
              in go_bind (slice_set (om_chunks m) chunkIndex chunk') (\<lambda>chunks.
                 go_bind (compactIfNeeded zk zv
                            (m\<lparr>om_chunks := chunks, om_positions := gm_delete (om_positions m) key\<rparr>))
                   (\<lambda>m'. Inr (Some old, m'))))))))) "

section \<open>Lists of optional entries\<close>

text \<open>The entries of a list of slots, tombstones skipped.\<close>

fun somes :: "'a option list \<Rightarrow> 'a list" where
  "somes [] = []"
| "somes (None # xs) = somes xs"
| "somes (Some x # xs) = x # somes xs"

lemma somes_append [simp]: "somes (xs @ ys) = somes xs @ somes ys"
  by (induction xs rule: somes.induct) auto

lemma somes_replicate_None [simp]: "somes (replicate n None) = []"
  by (induction n) auto

lemma set_somes: "set (somes xs) = {x. Some x \<in> set xs}"
  by (induction xs rule: somes.induct) auto

lemma somes_all_None: "(\<And>x. x \<in> set xs \<Longrightarrow> x = None) \<Longrightarrow> somes xs = []"
  by (induction xs rule: somes.induct) auto

lemma slot_split:
  assumes "i < length xs"
  obtains ys zs where "xs = ys @ xs ! i # zs" "length ys = i"
  using assms id_take_nth_drop [of i xs] that [of "take i xs" "drop (Suc i) xs"] by simp

text \<open>A slot of a list whose keys are distinct: reading, replacing, erasing and filling it.\<close>

lemma map_of_somes:
  assumes "i < length xs" and "xs ! i = Some (k, v)" and "distinct (map fst (somes xs))"
  shows "map_of (somes xs) k = Some v"
  using assms by (auto simp: set_somes intro!: map_of_is_SomeI) (metis nth_mem)

lemma somes_replace:
  assumes "i < length xs" and "xs ! i = Some (k, v)" and "distinct (map fst (somes xs))"
  shows "somes (xs[i := Some (k, w)]) = AList.update k w (somes xs)"
proof -
  obtain ys zs where xs: "xs = ys @ Some (k, v) # zs" "length ys = i"
    using slot_split [OF assms(1)] assms(2) by metis
  then have "k \<notin> fst ` set (somes ys)"
    using assms(3) by auto
  then have "AList.update k w (somes ys @ (k, v) # somes zs) = somes ys @ (k, w) # somes zs"
    by (induction ys rule: somes.induct) (auto split: prod.splits)
  then show ?thesis
    using xs by (simp add: list_update_append)
qed

lemma somes_erase:
  assumes "i < length xs" and "xs ! i = Some (k, v)" and "distinct (map fst (somes xs))"
  shows "somes (xs[i := None]) = AList.delete k (somes xs)"
proof -
  obtain ys zs where xs: "xs = ys @ Some (k, v) # zs" "length ys = i"
    using slot_split [OF assms(1)] assms(2) by metis
  then have "k \<notin> fst ` set (somes ys)" "k \<notin> fst ` set (somes zs)"
    using assms(3) by auto
  then have "AList.delete k (somes ys) = somes ys" "AList.delete k (somes zs) = somes zs"
    by (simp_all add: delete_idem)
  then show ?thesis
    using xs by (simp add: list_update_append AList.delete_eq)
qed

lemma somes_fill:
  assumes "u < length xs" and "\<And>i. u \<le> i \<Longrightarrow> i < length xs \<Longrightarrow> xs ! i = None"
  shows "somes (xs[u := Some x]) = somes xs @ [x]"
proof -
  obtain ys zs where xs: "xs = ys @ xs ! u # zs" "length ys = u"
    using slot_split [OF assms(1)] .
  have u: "xs ! u = None"
    using assms by simp
  have "somes zs = []"
  proof (rule somes_all_None)
    fix z
    assume "z \<in> set zs"
    then obtain j where "j < length zs" "z = zs ! j"
      by (auto simp: in_set_conv_nth)
    moreover from this have "xs ! (u + Suc j) = z"
      using xs by (metis add_Suc_right nth_Cons_Suc nth_append_length_plus)
    moreover have "length xs = u + Suc (length zs)"
      using arg_cong [OF xs(1), of length] xs(2) by simp
    ultimately show "z = None"
      using assms(2) [of "u + Suc j"] by simp
  qed
  moreover have "xs[u := Some x] = ys @ Some x # zs"
    using xs by (metis list_update_length)
  moreover have "somes xs = somes ys @ somes zs"
    by (subst xs(1)) (simp add: u)
  ultimately show ?thesis
    by simp
qed

section \<open>Slots, abstraction and invariant\<close>

definition chunk_slots :: "('k, 'v) orderedMapChunk \<Rightarrow> ('k \<times> 'v) option list" where
  "chunk_slots c =
     map (\<lambda>i. if bit (oc_present c) i then Some (oc_keys c ! i, oc_values c ! i) else None) [0..<4]"

definition slots :: "('k, 'v) orderedMapChunk list \<Rightarrow> ('k \<times> 'v) option list" where
  "slots cs = concat (map chunk_slots cs)"

definition chunk_ok :: "('k, 'v) orderedMapChunk \<Rightarrow> bool" where
  "chunk_ok c \<longleftrightarrow> length (oc_keys c) = 4 \<and> length (oc_values c) = 4"

definition om_abs :: "('k, 'v) OrderedMap \<Rightarrow> ('k \<times> 'v) list" where
  "om_abs m = somes (slots (om_chunks m))"

text \<open>The positions map points at exactly the live slots.\<close>

definition points_at :: "('k \<Rightarrow> int option) \<Rightarrow> ('k \<times> 'v) option list \<Rightarrow> bool" where
  "points_at pos xs \<longleftrightarrow>
     (\<forall>k p. pos k = Some p \<longleftrightarrow> 0 \<le> p \<and> nat p < length xs \<and> (\<exists>v. xs ! nat p = Some (k, v)))"

definition om_shape :: "('k, 'v) OrderedMap \<Rightarrow> bool" where
  "om_shape m \<longleftrightarrow>
     gm_wf (om_positions m) \<and> (\<forall>c \<in> set (om_chunks m). chunk_ok c)
   \<and> (if om_chunks m = [] then om_nextOffset m = 0 else 1 \<le> om_nextOffset m \<and> om_nextOffset m \<le> 4)
   \<and> (\<forall>i. usedSlots m \<le> int i \<and> i < length (slots (om_chunks m)) \<longrightarrow> slots (om_chunks m) ! i = None)
   \<and> distinct (map fst (om_abs m))
   \<and> points_at (gm_get (om_positions m)) (slots (om_chunks m))"

text \<open>The full invariant adds that more than a quarter of the used slots is live.\<close>

definition om_inv :: "('k, 'v) OrderedMap \<Rightarrow> bool" where
  "om_inv m \<longleftrightarrow> om_shape m \<and> (usedSlots m = 0 \<or> usedSlots m < 4 * int (length (om_abs m)))"

lemma length_chunk_slots [simp]: "length (chunk_slots c) = 4"
  by (simp add: chunk_slots_def)

lemma slots_simps [simp]:
  "slots [] = []" "slots (c # cs) = chunk_slots c @ slots cs" "slots (cs @ ds) = slots cs @ slots ds"
  by (simp_all add: slots_def)

lemma length_slots [simp]: "length (slots cs) = 4 * length cs"
  by (induction cs) simp_all

lemma nth_slots:
  assumes "ci < length cs" and "i < 4"
  shows "slots cs ! (4 * ci + i) = chunk_slots (cs ! ci) ! i"
  using assms
proof (induction cs arbitrary: ci)
  case Nil
  then show ?case by simp
next
  case (Cons c cs)
  then show ?case by (cases ci) (auto simp: nth_append)
qed

lemma slots_update:
  assumes "ci < length cs" and "i < 4" and "chunk_slots c' = (chunk_slots (cs ! ci))[i := x]"
  shows "slots (cs[ci := c']) = (slots cs)[4 * ci + i := x]"
  using assms
proof (induction cs arbitrary: ci)
  case Nil
  then show ?case by simp
next
  case (Cons c cs)
  then show ?case by (cases ci) (auto simp: list_update_append)
qed

lemma orderedMapBit_bit: "o' < 8 \<Longrightarrow> bit (orderedMapBit (int o')) j \<longleftrightarrow> j = o'"
  by (auto simp: orderedMapBit_def bit_simps)

lemma present_test: "i < 8 \<Longrightarrow> w AND orderedMapBit (int i) = 0 \<longleftrightarrow> \<not> bit w i"
  by (auto simp: bit_eq_zero_iff bit_and_iff orderedMapBit_bit)

lemma nth_chunk_slots:
  "i < 4 \<Longrightarrow> chunk_slots c ! i = (if bit (oc_present c) i then Some (oc_keys c ! i, oc_values c ! i) else None)"
  by (simp add: chunk_slots_def)

lemma newPosition_spec:
  assumes "0 \<le> c" and "c < 2 ^ 46" and "i < 4"
  shows "newPosition c (int i) = Inr (4 * c + int i)"
proof -
  have "concat_bit 2 (int i) c = int i + push_bit 2 c"
    using assms(3) by (simp add: concat_bit_eq take_bit_int_eq_self)
  then have "push_bit 2 c OR int i = 4 * c + int i"
    using assms(3) by (simp add: concat_bit_def take_bit_int_eq_self or.commute push_bit_eq_mult)
  then show ?thesis
    using assms by (simp add: newPosition_def orderedMapMaxChunks_def orderedMapMaxEntries_def
        orderedMapChunkSize_def)
qed

lemma position_split_spec: "position_split (int p) = (int (p div 4), int (p mod 4))"
proof -
  have "int p AND 3 = take_bit 2 (int p)"
    by (simp add: take_bit_eq_mask mask_eq_exp_minus_1)
  then show ?thesis
    by (simp add: position_split_def orderedMapChunkSize_def drop_bit_eq_div take_bit_eq_mod
        zdiv_int zmod_int)
qed

lemma slots_empty_chunk:
  "slots [\<lparr>oc_keys = ks, oc_values = vs, oc_present = 0\<rparr>] = replicate 4 None"
  by (simp add: chunk_slots_def eval_nat_numeral upt_conv_Cons)

text \<open>The effect on \<open>points_at\<close> of replacing, erasing and filling a slot.\<close>

lemma points_at_replace:
  assumes "points_at pos xs" and "i < length xs" and "xs ! i = Some (k, v)"
  shows "points_at pos (xs[i := Some (k, w)])"
  using assms by (auto simp: points_at_def nth_list_update)

lemma points_atD:
  assumes "points_at pos xs"
  shows "pos k = Some p \<longleftrightarrow> 0 \<le> p \<and> nat p < length xs \<and> (\<exists>v. xs ! nat p = Some (k, v))"
  using assms by (simp add: points_at_def)

lemma points_at_erase:
  assumes "points_at pos xs" and "i < length xs" and "xs ! i = Some (k, v)"
  shows "points_at (pos(k := None)) (xs[i := None])"
proof -
  have k: "pos k = Some (int i)"
    using assms by (simp add: points_atD)
  have "(pos(k := None)) k' = Some p \<longleftrightarrow>
      0 \<le> p \<and> nat p < length xs \<and> (\<exists>w. xs[i := None] ! nat p = Some (k', w))" for k' p
  proof (cases "k' = k")
    case True
    then show ?thesis
      using k points_atD [OF assms(1), of k p] by (auto simp: nth_list_update split: if_splits)
  next
    case False
    then show ?thesis
      using assms(2,3) points_atD [OF assms(1), of k' p] by (auto simp: nth_list_update split: if_splits)
  qed
  then show ?thesis
    by (simp add: points_at_def)
qed

lemma points_at_fill:
  assumes "points_at pos xs" and "i < length xs" and "xs ! i = None" and "pos k = None"
  shows "points_at (pos(k \<mapsto> int i)) (xs[i := Some (k, w)])"
proof -
  have "(pos(k \<mapsto> int i)) k' = Some p \<longleftrightarrow>
      0 \<le> p \<and> nat p < length xs \<and> (\<exists>x. xs[i := Some (k, w)] ! nat p = Some (k', x))" for k' p
  proof (cases "k' = k")
    case True
    then show ?thesis
      using assms points_atD [OF assms(1), of k p] by (auto simp: nth_list_update split: if_splits)
  next
    case False
    then show ?thesis
      using assms(2,3) points_atD [OF assms(1), of k' p] by (auto simp: nth_list_update split: if_splits)
  qed
  then show ?thesis
    by (simp add: points_at_def)
qed

lemma points_at_extend:
  assumes "points_at pos xs"
  shows "points_at pos (xs @ replicate n None)"
  using assms by (auto simp: points_at_def nth_append)

lemma points_at_absent:
  assumes "points_at pos xs" and "pos k = None"
  shows "k \<notin> fst ` set (somes xs)"
proof
  assume "k \<in> fst ` set (somes xs)"
  then obtain v i where "i < length xs" "xs ! i = Some (k, v)"
    by (auto simp: set_somes in_set_conv_nth)
  then have "pos k = Some (int i)"
    using assms(1) by (simp add: points_at_def)
  with assms(2) show False by simp
qed

lemma points_at_dom:
  assumes "points_at pos xs"
  shows "dom pos = fst ` set (somes xs)"
proof
  show "dom pos \<subseteq> fst ` set (somes xs)"
  proof
    fix k
    assume "k \<in> dom pos"
    then obtain p v where "nat p < length xs" "xs ! nat p = Some (k, v)"
      using assms by (auto simp: points_at_def)
    then have "(k, v) \<in> set (somes xs)"
      unfolding set_somes by (metis mem_Collect_eq nth_mem)
    then show "k \<in> fst ` set (somes xs)"
      by force
  qed
  show "fst ` set (somes xs) \<subseteq> dom pos"
    using points_at_absent [OF assms] by blast
qed

section \<open>Specifications of the operations\<close>

text \<open>Where a live key is.\<close>

lemma om_find:
  assumes "om_shape m" and "gm_get (om_positions m) k = Some p"
  obtains ci i v where "position_split p = (int ci, int i)" "ci < length (om_chunks m)" "i < 4"
    "chunk_ok (om_chunks m ! ci)" "slots (om_chunks m) ! (4 * ci + i) = Some (k, v)"
    "bit (oc_present (om_chunks m ! ci)) i" "oc_keys (om_chunks m ! ci) ! i = k"
    "oc_values (om_chunks m ! ci) ! i = v"
proof -
  let ?cs = "om_chunks m"
  obtain q v where q: "p = int q" "q < 4 * length ?cs" "slots ?cs ! q = Some (k, v)"
    using assms by (auto simp: om_shape_def points_at_def) (metis nat_int zero_le_imp_eq_int)
  have "slots ?cs ! (4 * (q div 4) + q mod 4) = chunk_slots (?cs ! (q div 4)) ! (q mod 4)"
    using q(2) by (intro nth_slots) auto
  then have "chunk_slots (?cs ! (q div 4)) ! (q mod 4) = Some (k, v)"
    using q(3) by simp
  then show thesis
    using assms(1) q that [of "q div 4" "q mod 4" v]
    by (auto simp: position_split_spec nth_chunk_slots om_shape_def split: if_splits)
qed

lemma om_absent:
  assumes "om_shape m" and "gm_get (om_positions m) k = None"
  shows "k \<notin> fst ` set (om_abs m)" and "map_of (om_abs m) k = None"
proof -
  show "k \<notin> fst ` set (om_abs m)"
    using points_at_absent [of "gm_get (om_positions m)" _ k] assms unfolding om_shape_def om_abs_def by blast
  then show "map_of (om_abs m) k = None"
    by (simp add: map_of_eq_None_iff)
qed

lemma om_present:
  assumes "om_shape m" and "ci < length (om_chunks m)" and "i < 4"
    and "slots (om_chunks m) ! (4 * ci + i) = Some (k, v)"
  shows "map_of (om_abs m) k = Some v"
  using assms map_of_somes [of "4 * ci + i" "slots (om_chunks m)" k v] by (simp add: om_shape_def om_abs_def)

lemma OrderedMap_Lookup_spec:
  assumes "om_shape m"
  shows "OrderedMap_Lookup k m = Inr (map_of (om_abs m) k)"
proof (cases "gm_get (om_positions m) k")
  case None
  then show ?thesis
    using om_absent [OF assms None] by (simp add: OrderedMap_Lookup_def)
next
  case (Some p)
  with assms show ?thesis
    by (elim om_find) (use om_present [OF assms] Some in \<open>auto simp: OrderedMap_Lookup_def chunk_ok_def\<close>)
qed

lemma OrderedMap_Len_spec:
  assumes "om_shape m"
  shows "OrderedMap_Len m = int (length (om_abs m))"
proof -
  have "dom (gm_get (om_positions m)) = fst ` set (om_abs m)"
    using assms points_at_dom unfolding om_shape_def om_abs_def by blast
  then show ?thesis
    using assms distinct_card [of "map fst (om_abs m)"]
    by (simp add: OrderedMap_Len_def om_shape_def gm_len_card)
qed

text \<open>After \<open>insertNew_room\<close> the slot at \<open>usedSlots\<close> exists in the last chunk and is free.\<close>

lemma insertNew_room_spec:
  assumes "om_shape m"
  obtains cs ci i al where
    "insertNew_room zk zv m = \<lparr>om_chunks = cs, om_positions = Some al, om_nextOffset = int i\<rparr>"
    "length cs = Suc ci" "i < 4" "int (4 * ci + i) = usedSlots m"
    "\<forall>c \<in> set cs. chunk_ok c" "gm_wf (Some al)" "gm_get (Some al) = gm_get (om_positions m)"
    "\<And>j. 4 * ci + i \<le> j \<Longrightarrow> j < length (slots cs) \<Longrightarrow> slots cs ! j = None"
    "somes (slots cs) = om_abs m" "points_at (gm_get (Some al)) (slots cs)"
proof -
  let ?m = "insertNew_room zk zv m"
  define al where "al = gm_entries (om_positions m)"
  have al: "om_positions ?m = Some al" "gm_wf (Some al)" "gm_get (Some al) = gm_get (om_positions m)"
    using assms
    by (auto simp: al_def insertNew_room_def Let_def om_shape_def gm_wf_def gm_get_def fun_eq_iff)
  show thesis
  proof (cases "om_chunks m = [] \<or> om_nextOffset m = 4")
    case True
    define cs where "cs = om_chunks m @ [\<lparr>oc_keys = replicate 4 zk, oc_values = replicate 4 zv, oc_present = 0\<rparr>]"
    have room: "?m = \<lparr>om_chunks = cs, om_positions = Some al, om_nextOffset = int 0\<rparr>"
      using al(1) True by (auto simp: cs_def insertNew_room_def Let_def orderedMapChunkSize_def)
    have sl: "slots cs = slots (om_chunks m) @ replicate 4 None"
      unfolding cs_def slots_simps(3) slots_empty_chunk ..
    have used: "usedSlots m = 4 * int (length (om_chunks m))"
      using True assms by (auto simp: usedSlots_def orderedMapChunkSize_def om_shape_def)
    show thesis
    proof (rule that [OF room, of "length (om_chunks m)"])
      show "points_at (gm_get (Some al)) (slots cs)"
        using assms by (simp add: sl al(3) points_at_extend om_shape_def)
    qed (use assms al used in \<open>auto simp: cs_def [symmetric] sl nth_append om_abs_def om_shape_def,
          auto simp: cs_def om_shape_def chunk_ok_def\<close>)
  next
    case False
    have room: "?m = \<lparr>om_chunks = om_chunks m, om_positions = Some al,
                      om_nextOffset = int (nat (om_nextOffset m))\<rparr>"
      using al(1) False assms
      by (auto simp: insertNew_room_def Let_def orderedMapChunkSize_def om_shape_def)
    have used: "int (4 * (length (om_chunks m) - 1) + nat (om_nextOffset m)) = usedSlots m"
      using False assms by (cases "om_chunks m") (auto simp: usedSlots_def orderedMapChunkSize_def om_shape_def)
    show thesis
    proof (rule that [OF room, of "length (om_chunks m) - 1"])
      show "slots (om_chunks m) ! j = None"
        if "4 * (length (om_chunks m) - 1) + nat (om_nextOffset m) \<le> j" "j < length (slots (om_chunks m))" for j
        using assms that used unfolding om_shape_def by (metis of_nat_le_iff)
    qed (use assms al False used in \<open>auto simp: om_abs_def om_shape_def\<close>)
  qed
qed

lemma chunk_store_spec:
  assumes "chunk_ok c" and "i < 4"
  shows "\<exists>c'. chunk_store c (int i) k v = Inr c' \<and> chunk_ok c'
           \<and> chunk_slots c' = (chunk_slots c)[i := Some (k, v)]"
  using assms
  by (auto simp: chunk_store_def chunk_ok_def chunk_slots_def bit_or_iff orderedMapBit_bit
      nth_list_update intro!: nth_list_eqI)

lemma insertNew_spec:
  assumes "om_shape m" and "gm_get (om_positions m) k = None" and "usedSlots m < 2 ^ 48"
  shows "\<exists>m'. insertNew zk zv k v m = Inr m' \<and> om_shape m' \<and> om_abs m' = om_abs m @ [(k, v)]
           \<and> usedSlots m' = usedSlots m + 1"
proof -
  from insertNew_room_spec [OF assms(1), of zk zv] obtain cs ci i al where room:
    "insertNew_room zk zv m = \<lparr>om_chunks = cs, om_positions = Some al, om_nextOffset = int i\<rparr>"
    "length cs = Suc ci" "i < 4" "int (4 * ci + i) = usedSlots m"
    "\<forall>c \<in> set cs. chunk_ok c" "gm_wf (Some al)" "gm_get (Some al) = gm_get (om_positions m)"
    "\<And>j. 4 * ci + i \<le> j \<Longrightarrow> j < length (slots cs) \<Longrightarrow> slots cs ! j = None"
    "somes (slots cs) = om_abs m" "points_at (gm_get (Some al)) (slots cs)"
    by metis
  have ci: "ci < length cs"
    using room(2) by simp
  then obtain c' where c': "chunk_store (cs ! ci) (int i) k v = Inr c'" "chunk_ok c'"
      "chunk_slots c' = (chunk_slots (cs ! ci))[i := Some (k, v)]"
    using chunk_store_spec room(3,5) nth_mem by metis
  have pos: "newPosition (int ci) (int i) = Inr (int (4 * ci + i))"
    using newPosition_spec [of "int ci" i] room(3,4) assms(3) by simp
  let ?m = "\<lparr>om_chunks = cs[ci := c'], om_positions = Some (AList.update k (int (4 * ci + i)) al),
             om_nextOffset = int i + 1\<rparr>"
  have "insertNew zk zv k v m = Inr ?m"
    using c'(1) pos ci by (simp add: insertNew_def room(1,2) Let_def)
  moreover have used: "usedSlots ?m = usedSlots m + 1"
    using room(2,4) by (auto simp: usedSlots_def orderedMapChunkSize_def)
  moreover have sl: "slots (cs[ci := c']) = (slots cs)[4 * ci + i := Some (k, v)]"
    by (rule slots_update [OF ci room(3) c'(3)])
  moreover have ab: "om_abs ?m = om_abs m @ [(k, v)]"
    using somes_fill [of "4 * ci + i" "slots cs" "(k, v)"] room(2,3,8,9) by (simp add: om_abs_def sl)
  moreover have "om_shape ?m"
  proof -
    have "points_at ((gm_get (om_positions m))(k \<mapsto> int (4 * ci + i))) ((slots cs)[4 * ci + i := Some (k, v)])"
      using points_at_fill [OF room(10), of "4 * ci + i" k v] room(2,3,7,8) assms(2) by simp
    moreover have "gm_get (Some (AList.update k (int (4 * ci + i)) al)) = (gm_get (om_positions m))(k \<mapsto> int (4 * ci + i))"
      using room(7) by (auto simp: fun_eq_iff)
    moreover have "distinct (map fst (om_abs ?m))"
      using ab om_absent(1) [OF assms(1,2)] assms(1) by (auto simp: om_shape_def)
    moreover have "\<forall>c \<in> set (cs[ci := c']). chunk_ok c"
      using room(5) c'(2) by (auto dest: set_update_subset_insert [THEN subsetD])
    moreover have "slots (cs[ci := c']) ! j = None" if "usedSlots ?m \<le> int j" "j < 4 * length cs" for j
      using that room(4,8) used by (auto simp: sl nth_list_update)
    ultimately show ?thesis
      using room(2,3,6) ci by (auto simp: om_shape_def sl)
  qed
  ultimately show ?thesis
    by blast
qed

text \<open>Replacing the value of a live key.\<close>

lemma OrderedMap_InsertOrReplace_live:
  assumes "om_shape m" and "gm_get (om_positions m) k = Some p"
  shows "\<exists>m'. OrderedMap_InsertOrReplace zk zv k w m = Inr (map_of (om_abs m) k, m') \<and> om_shape m'
           \<and> om_abs m' = AList.update k w (om_abs m) \<and> usedSlots m' = usedSlots m"
  using assms
proof (rule om_find)
  fix ci i v
  let ?c = "om_chunks m ! ci"
  assume at: "position_split p = (int ci, int i)" "ci < length (om_chunks m)" "i < 4" "chunk_ok ?c"
    "slots (om_chunks m) ! (4 * ci + i) = Some (k, v)" "bit (oc_present ?c) i"
    "oc_keys ?c ! i = k" "oc_values ?c ! i = v"
  let ?cs = "(om_chunks m)[ci := ?c\<lparr>oc_values := (oc_values ?c)[i := w]\<rparr>]"
  let ?m = "m\<lparr>om_chunks := ?cs\<rparr>"
  have "chunk_slots (?c\<lparr>oc_values := (oc_values ?c)[i := w]\<rparr>) = (chunk_slots ?c)[i := Some (k, w)]"
    using at(3,4,6,7)
    by (auto simp: chunk_slots_def chunk_ok_def nth_list_update intro!: nth_list_eqI)
  then have sl: "slots ?cs = (slots (om_chunks m))[4 * ci + i := Some (k, w)]"
    by (rule slots_update [OF at(2,3)])
  have lt: "4 * ci + i < length (slots (om_chunks m))"
    using at(2,3) by simp
  have "OrderedMap_InsertOrReplace zk zv k w m = Inr (map_of (om_abs m) k, ?m)"
    using at(1-4,8) assms(2) om_present [OF assms(1) at(2,3,5)]
    by (simp add: OrderedMap_InsertOrReplace_def chunk_ok_def)
  moreover have ab: "om_abs ?m = AList.update k w (om_abs m)"
    using somes_replace [OF lt at(5)] assms(1) by (simp add: om_abs_def sl om_shape_def)
  moreover have used: "usedSlots ?m = usedSlots m"
    by (simp add: usedSlots_def)
  moreover have "om_shape ?m"
  proof -
    have "points_at (gm_get (om_positions m)) (slots ?cs)"
      using points_at_replace [OF _ lt at(5)] assms(1) by (simp add: sl om_shape_def)
    moreover have "distinct (map fst (om_abs ?m))"
      using assms(1) by (simp add: ab distinct_update om_shape_def)
    moreover have "chunk_ok (?c\<lparr>oc_values := (oc_values ?c)[i := w]\<rparr>)"
      using at(4) by (simp add: chunk_ok_def)
    then have "\<forall>c \<in> set ?cs. chunk_ok c"
      using assms(1) by (auto simp: om_shape_def dest: set_update_subset_insert [THEN subsetD])
    moreover have "slots ?cs ! j = None" if "usedSlots m \<le> int j" "j < 4 * length (om_chunks m)" for j
      using that assms(1) at(5) lt by (auto simp: sl nth_list_update om_shape_def)
    ultimately show ?thesis
      using assms(1) used by (simp add: om_shape_def)
  qed
  ultimately show ?thesis
    by blast
qed

text \<open>Compaction inserts the live entries, in order, into a fresh map.\<close>

fun insert_each ::
  "'k \<Rightarrow> 'v \<Rightarrow> ('k \<times> 'v) list \<Rightarrow> ('k, 'v) OrderedMap \<Rightarrow> ('k, 'v) OrderedMap outcome" where
  "insert_each zk zv [] m = Inr m"
| "insert_each zk zv ((k, v) # es) m = go_bind (insertNew zk zv k v m) (insert_each zk zv es)"

lemma compact_chunk_loop_somes:
  assumes "set os \<subseteq> {0..<4}"
  shows "compact_chunk_loop zk zv c os = insert_each zk zv (somes (map (\<lambda>i. chunk_slots c ! i) os))"
  using assms
proof (induction os)
  case (Cons i os)
  then have "compact_chunk_loop zk zv c os = insert_each zk zv (somes (map (\<lambda>i. chunk_slots c ! i) os))"
    by simp
  with Cons.prems show ?case
    by (intro ext) (simp add: present_test nth_chunk_slots)
qed (simp add: fun_eq_iff)

lemma insert_each_append:
  "insert_each zk zv (xs @ ys) m = go_bind (insert_each zk zv xs m) (insert_each zk zv ys)"
proof (induction xs arbitrary: m)
  case (Cons e xs)
  then have "insert_each zk zv (xs @ ys) = (\<lambda>m. go_bind (insert_each zk zv xs m) (insert_each zk zv ys))"
    by (intro ext) simp
  then show ?case
    by (cases e) (simp add: go_bind_assoc)
qed simp

lemma compact_loop_somes: "compact_loop zk zv cs m = insert_each zk zv (somes (slots cs)) m"
proof (induction cs arbitrary: m)
  case (Cons c cs)
  have "map (\<lambda>i. chunk_slots c ! i) [0..<4] = chunk_slots c"
    using map_nth [of "chunk_slots c"] by simp
  moreover have "compact_loop zk zv cs = insert_each zk zv (somes (slots cs))"
    using Cons by (simp add: fun_eq_iff)
  ultimately show ?case
    by (simp add: orderedMapChunkSize_def compact_chunk_loop_somes insert_each_append)
qed simp

lemma insert_each_spec:
  assumes "om_shape m" and "distinct (map fst (om_abs m @ es))"
    and "usedSlots m = int (length (om_abs m))" and "int (length (om_abs m) + length es) \<le> 2 ^ 48"
  shows "\<exists>m'. insert_each zk zv es m = Inr m' \<and> om_shape m' \<and> om_abs m' = om_abs m @ es
           \<and> usedSlots m' = int (length (om_abs m'))"
  using assms
proof (induction es arbitrary: m)
  case Nil
  then show ?case by simp
next
  case (Cons e es)
  obtain k v where e: "e = (k, v)"
    by (cases e)
  have new: "gm_get (om_positions m) k = None"
  proof (rule ccontr)
    assume "gm_get (om_positions m) k \<noteq> None"
    then have "k \<in> fst ` set (om_abs m)"
      using points_at_dom [of "gm_get (om_positions m)" "slots (om_chunks m)"] Cons.prems(1)
      by (auto simp: om_shape_def om_abs_def)
    then show False
      using Cons.prems(2) e by auto
  qed
  obtain m1 where m1: "insertNew zk zv k v m = Inr m1" "om_shape m1" "om_abs m1 = om_abs m @ [(k, v)]"
      "usedSlots m1 = usedSlots m + 1"
    using insertNew_spec [OF Cons.prems(1) new, of zk zv v] Cons.prems(3,4) by auto
  have "\<exists>m'. insert_each zk zv es m1 = Inr m' \<and> om_shape m' \<and> om_abs m' = om_abs m1 @ es
           \<and> usedSlots m' = int (length (om_abs m'))"
    using Cons.prems m1 e by (intro Cons.IH) auto
  then show ?case
    using m1 e by simp
qed

lemma NewOrderedMap_spec: "om_shape NewOrderedMap" "om_inv NewOrderedMap" "om_abs NewOrderedMap = []"
  "usedSlots NewOrderedMap = 0"
  by (simp_all add: NewOrderedMap_def om_inv_def om_shape_def om_abs_def usedSlots_def points_at_def)

lemma compactIfNeeded_spec:
  assumes "om_shape m" and "int (length (om_abs m)) \<le> 2 ^ 48"
  shows "\<exists>m'. compactIfNeeded zk zv m = Inr m' \<and> om_inv m' \<and> om_abs m' = om_abs m"
proof (cases "usedSlots m = 0 \<or> 4 * OrderedMap_Len m > usedSlots m")
  case True
  then show ?thesis
    using assms(1) by (auto simp: compactIfNeeded_def om_inv_def OrderedMap_Len_spec)
next
  case False
  have "\<exists>m'. insert_each zk zv (om_abs m) NewOrderedMap = Inr m' \<and> om_shape m'
           \<and> om_abs m' = om_abs NewOrderedMap @ om_abs m \<and> usedSlots m' = int (length (om_abs m'))"
  proof (rule insert_each_spec)
    show "distinct (map fst (om_abs NewOrderedMap @ om_abs m))"
      using assms(1) by (simp add: NewOrderedMap_spec om_shape_def)
  qed (use assms(2) in \<open>simp_all add: NewOrderedMap_spec\<close>)
  with False show ?thesis
    by (auto simp: compactIfNeeded_def compact_loop_somes om_inv_def NewOrderedMap_spec simp flip: om_abs_def)
qed

text \<open>Erasing a live key, before compaction.\<close>

lemma om_erase:
  assumes "om_shape m" and "ci < length (om_chunks m)" and "i < 4"
    and "slots (om_chunks m) ! (4 * ci + i) = Some (k, v)"
    and "chunk_ok c'" and "chunk_slots c' = (chunk_slots (om_chunks m ! ci))[i := None]"
    and m'_def: "m' = m\<lparr>om_chunks := (om_chunks m)[ci := c'], om_positions := gm_delete (om_positions m) k\<rparr>"
  shows "om_shape m'" and "om_abs m' = AList.delete k (om_abs m)"
proof -
  have sl: "slots ((om_chunks m)[ci := c']) = (slots (om_chunks m))[4 * ci + i := None]"
    by (rule slots_update [OF assms(2,3,6)])
  have lt: "4 * ci + i < length (slots (om_chunks m))"
    using assms(2,3) by simp
  show ab: "om_abs m' = AList.delete k (om_abs m)"
    using somes_erase [OF lt assms(4)] assms(1) by (simp add: om_abs_def sl om_shape_def m'_def)
  have used: "usedSlots m' = usedSlots m"
    by (simp add: usedSlots_def m'_def)
  have "gm_get (gm_delete (om_positions m) k) = (gm_get (om_positions m))(k := None)"
    by (auto simp: fun_eq_iff)
  then have "points_at (gm_get (om_positions m')) (slots (om_chunks m'))"
    using points_at_erase [OF _ lt assms(4)] assms(1) by (simp add: sl om_shape_def m'_def)
  moreover have "distinct (map fst (om_abs m'))"
    using assms(1) by (simp add: ab distinct_delete om_shape_def)
  moreover have "\<forall>c \<in> set (om_chunks m'). chunk_ok c"
    using assms(1,5) by (auto simp: om_shape_def m'_def dest: set_update_subset_insert [THEN subsetD])
  moreover have "slots (om_chunks m') ! j = None"
    if "usedSlots m \<le> int j" "j < 4 * length (om_chunks m)" for j
    using that assms(1) lt by (auto simp: sl nth_list_update om_shape_def m'_def)
  ultimately show "om_shape m'"
    using assms(1) used by (simp add: om_shape_def m'_def)
qed

lemma OrderedMap_Delete_live:
  assumes "om_shape m" and "gm_get (om_positions m) k = Some p" and "int (length (om_abs m)) \<le> 2 ^ 48"
  shows "\<exists>m'. OrderedMap_Delete zk zv k m = Inr (map_of (om_abs m) k, m') \<and> om_inv m'
           \<and> om_abs m' = AList.delete k (om_abs m)"
  using assms(1,2)
proof (rule om_find)
  fix ci i v
  let ?c = "om_chunks m ! ci"
  assume at: "position_split p = (int ci, int i)" "ci < length (om_chunks m)" "i < 4" "chunk_ok ?c"
    "slots (om_chunks m) ! (4 * ci + i) = Some (k, v)" "bit (oc_present ?c) i"
    "oc_keys ?c ! i = k" "oc_values ?c ! i = v"
  define c' where "c' = \<lparr>oc_keys = (oc_keys ?c)[i := zk], oc_values = (oc_values ?c)[i := zv],
                         oc_present = oc_present ?c AND NOT (orderedMapBit (int i))\<rparr>"
  define m1 where "m1 = m\<lparr>om_chunks := (om_chunks m)[ci := c'], om_positions := gm_delete (om_positions m) k\<rparr>"
  have "chunk_slots c' = (chunk_slots ?c)[i := None]"
    using at(3,4)
    by (auto simp: chunk_slots_def chunk_ok_def nth_list_update c'_def bit_and_iff bit_not_iff
        orderedMapBit_bit intro!: nth_list_eqI)
  moreover have "chunk_ok c'"
    using at(4) by (simp add: chunk_ok_def c'_def)
  ultimately have m1: "om_shape m1" "om_abs m1 = AList.delete k (om_abs m)"
    using om_erase [OF assms(1) at(2,3,5)] m1_def by blast+
  have "OrderedMap_Delete zk zv k m =
      go_bind (compactIfNeeded zk zv m1) (\<lambda>m'. Inr (map_of (om_abs m) k, m'))"
    using at(1-4,8) assms(2) om_present [OF assms(1) at(2,3,5)]
    by (simp add: OrderedMap_Delete_def chunk_ok_def m1_def c'_def Let_def)
  moreover have "int (length (om_abs m1)) \<le> 2 ^ 48"
    using assms(3) length_delete_le [of k "om_abs m"] m1(2) by simp
  then obtain m' where "compactIfNeeded zk zv m1 = Inr m'" "om_inv m'" "om_abs m' = om_abs m1"
    using compactIfNeeded_spec [OF m1(1)] by blast
  ultimately show ?thesis
    using m1(2) by simp
qed

lemma keys_chunk_loop_somes:
  assumes "set os \<subseteq> {0..<4}"
  shows "keys_chunk_loop yield c os = yield_all yield (map fst (somes (map (\<lambda>i. chunk_slots c ! i) os)))"
  using assms
proof (induction os)
  case (Cons i os)
  then have "keys_chunk_loop yield c os = yield_all yield (map fst (somes (map (\<lambda>i. chunk_slots c ! i) os)))"
    by simp
  with Cons.prems show ?case
    by (intro ext) (simp add: present_test nth_chunk_slots split: prod.split bool.split)
qed (simp add: fun_eq_iff)

lemma keys_loop_somes: "keys_loop yield cs st = yield_all yield (map fst (somes (slots cs))) st"
proof (induction cs arbitrary: st)
  case (Cons c cs)
  have "map (\<lambda>i. chunk_slots c ! i) [0..<4] = chunk_slots c"
    using map_nth [of "chunk_slots c"] by simp
  then show ?case
    using Cons
    by (simp add: orderedMapChunkSize_def keys_chunk_loop_somes yield_all_append split: prod.split bool.split)
qed simp

lemma OrderedMap_Keys_spec: "OrderedMap_Keys yield m st = snd (yield_all yield (map fst (om_abs m)) st)"
  by (simp add: OrderedMap_Keys_def keys_loop_somes om_abs_def)

section \<open>The abstract specification\<close>

datatype ('k, 'v) OrderedMapOp = OpShared "('k, 'v) MapOp" | OpDelete 'k

fun ordered_entries_step ::
  "('k, 'v) OrderedMapOp \<Rightarrow> ('k \<times> 'v) list \<Rightarrow> (('k, 'v) MapResult \<times> ('k \<times> 'v) list) outcome" where
  "ordered_entries_step (OpShared op) al = entries_step op al"
| "ordered_entries_step (OpDelete k) al = Inr (RValue (map_of al k), AList.delete k al)"

fun ordered_step ::
  "'k \<Rightarrow> 'v \<Rightarrow> ('k, 'v) OrderedMapOp \<Rightarrow> ('k, 'v) OrderedMap \<Rightarrow> (('k, 'v) MapResult \<times> ('k, 'v) OrderedMap) outcome" where
  "ordered_step zk zv (OpShared (OpLookup k)) m = go_bind (OrderedMap_Lookup k m) (\<lambda>r. Inr (RValue r, m))"
| "ordered_step zk zv (OpShared (OpInsertOrKeep k v)) m =
     go_bind (OrderedMap_InsertOrKeep zk zv k v m) (\<lambda>(r, m'). Inr (RInsert r, m'))"
| "ordered_step zk zv (OpShared (OpInsertOrReplace k v)) m =
     go_bind (OrderedMap_InsertOrReplace zk zv k v m) (\<lambda>(r, m'). Inr (RValue r, m'))"
| "ordered_step zk zv (OpShared OpKeys) m =
     Inr (RKeys (OrderedMap_Keys (\<lambda>k acc. (True, acc @ [k])) m []), m)"
| "ordered_step zk zv (OpShared OpLen) m = Inr (RLen (OrderedMap_Len m), m)"
| "ordered_step zk zv (OpDelete k) m =
     go_bind (OrderedMap_Delete zk zv k m) (\<lambda>(r, m'). Inr (RValue r, m'))"

text \<open>
  Positions are packed for fewer than \<open>2 ^ 46\<close> chunks. As more than a quarter of the used slots is
  live, at most \<open>2 ^ 46\<close> live entries keep the next slot within them.
\<close>

definition om_guard :: "('k, 'v) OrderedMapOp \<Rightarrow> ('k \<times> 'v) list \<Rightarrow> bool" where
  "om_guard op al \<longleftrightarrow> int (length al) \<le> 2 ^ 46"

lemma om_insert_new:
  assumes "om_inv m" and "gm_get (om_positions m) k = None" and "int (length (om_abs m)) \<le> 2 ^ 46"
  shows "\<exists>m'. insertNew zk zv k v m = Inr m' \<and> om_inv m' \<and> om_abs m' = om_abs m @ [(k, v)]"
proof -
  have "usedSlots m < 2 ^ 48"
    using assms(1,3) by (auto simp: om_inv_def)
  then obtain m' where "insertNew zk zv k v m = Inr m'" "om_shape m'" "om_abs m' = om_abs m @ [(k, v)]"
      "usedSlots m' = usedSlots m + 1"
    using insertNew_spec [of m k zk zv v] assms(1,2) by (auto simp: om_inv_def)
  then show ?thesis
    using assms(1) by (auto simp: om_inv_def)
qed

lemma length_update_ge: "length al \<le> length (AList.update k v al)"
  by (induction al) auto

lemma ordered_step_simulates:
  assumes "om_inv m" and "om_guard op (om_abs m)"
  shows "simulates om_inv om_abs (ordered_step zk zv op m) (ordered_entries_step op (om_abs m))"
proof -
  have shape: "om_shape m" and len: "int (length (om_abs m)) \<le> 2 ^ 46"
    using assms by (simp_all add: om_inv_def om_guard_def)
  show ?thesis
  proof (cases op)
    case (OpDelete k)
    show ?thesis
    proof (cases "gm_get (om_positions m) k")
      case None
      then show ?thesis
        using OpDelete om_absent [OF shape None] assms(1) by (simp add: OrderedMap_Delete_def)
    next
      case (Some p)
      obtain m' where "OrderedMap_Delete zk zv k m = Inr (map_of (om_abs m) k, m')" "om_inv m'"
          "om_abs m' = AList.delete k (om_abs m)"
        using OrderedMap_Delete_live [OF shape Some, of zk zv] len by auto
      then show ?thesis
        using OpDelete by simp
    qed
  next
    case (OpShared sop)
    show ?thesis
    proof (cases sop)
      case (OpInsertOrKeep k v)
      show ?thesis
      proof (cases "gm_get (om_positions m) k")
        case None
        obtain m' where "insertNew zk zv k v m = Inr m'" "om_inv m'" "om_abs m' = om_abs m @ [(k, v)]"
          using om_insert_new [OF assms(1) None len] by blast
        then show ?thesis
          using OpShared OpInsertOrKeep None om_absent [OF shape None]
          by (simp add: OrderedMap_InsertOrKeep_def)
      next
        case (Some p)
        then have "map_of (om_abs m) k \<noteq> None"
          using shape by (elim om_find) (use om_present [OF shape] in auto)
        then show ?thesis
          using OpShared OpInsertOrKeep Some assms(1) by (auto simp: OrderedMap_InsertOrKeep_def)
      qed
    next
      case (OpInsertOrReplace k v)
      show ?thesis
      proof (cases "gm_get (om_positions m) k")
        case None
        obtain m' where "insertNew zk zv k v m = Inr m'" "om_inv m'" "om_abs m' = om_abs m @ [(k, v)]"
          using om_insert_new [OF assms(1) None len] by blast
        then show ?thesis
          using OpShared OpInsertOrReplace None om_absent [OF shape None]
          by (simp add: OrderedMap_InsertOrReplace_def update_append)
      next
        case (Some p)
        obtain m' where "OrderedMap_InsertOrReplace zk zv k v m = Inr (map_of (om_abs m) k, m')"
            "om_shape m'" "om_abs m' = AList.update k v (om_abs m)" "usedSlots m' = usedSlots m"
          using OrderedMap_InsertOrReplace_live [OF shape Some, of zk zv v] by blast
        then show ?thesis
          using OpShared OpInsertOrReplace assms(1) length_update_ge [of "om_abs m" k v]
          by (auto simp: om_inv_def)
      qed
    qed (use assms(1) shape in \<open>simp_all add: OpShared OrderedMap_Lookup_spec OrderedMap_Len_spec
          OrderedMap_Keys_spec yield_all_collect\<close>)
  qed
qed

interpretation omsim: guarded_simulation "ordered_step zk zv" ordered_entries_step om_inv om_abs om_guard
  for zk :: 'k and zv :: 'v
  by unfold_locales (rule ordered_step_simulates)

lemma ordered_entries_growth:
  "ordered_entries_step op al = Inr (r, al') \<Longrightarrow> length al' \<le> Suc (length al)"
proof (induction op al rule: ordered_entries_step.induct)
  case (1 op al)
  have "length (AList.update k v al) \<le> Suc (length al)" for k v
    by (induction al) auto
  then show ?case
    using 1 by (cases op) (auto split: if_splits)
next
  case (2 k al)
  then show ?case
    using length_delete_le [of k al] by auto
qed

lemma om_run_guard:
  "int (length al + length ops) \<le> 2 ^ 46 \<Longrightarrow> run_guard om_guard ordered_entries_step ops al"
proof (induction ops arbitrary: al)
  case (Cons op ops)
  show ?case
  proof (cases "ordered_entries_step op al")
    case (Inr ra)
    then show ?thesis
      using Cons.prems Cons.IH [of "snd ra"] ordered_entries_growth [of op al "fst ra" "snd ra"]
      by (cases ra) (auto simp: om_guard_def)
  qed (use Cons.prems in \<open>simp add: om_guard_def\<close>)
qed simp

section \<open>Properties\<close>

text \<open>
  C2. Any sequence of at most \<open>2 ^ 46\<close> calls on a new ordered map, deletions included, answers as
  the same calls on the list of entries in insertion order and never panics: tombstones, packed
  positions and compaction are not observable. The final state satisfies the invariant, by which
  more than a quarter of the used slots is live.
\<close>

theorem OrderedMap_refines_entries:
  assumes "int (length ops) \<le> 2 ^ 46"
  shows "simulates om_inv om_abs (run_ops (ordered_step zk zv) ops NewOrderedMap)
           (run_ops ordered_entries_step ops [])"
  using omsim.guarded_run [OF NewOrderedMap_spec(2), of ops zk zv] om_run_guard [of "[]" ops] assms
  by (simp add: NewOrderedMap_spec)

theorem OrderedMap_refines_entries_witness:
  "\<exists>m. run_ops (ordered_step (0 :: nat) False)
         [OpShared (OpInsertOrKeep 7 True), OpShared (OpInsertOrReplace 8 False),
          OpDelete 7, OpShared (OpInsertOrKeep 7 False), OpShared OpKeys] NewOrderedMap
       = Inr ([RInsert InsertedNew, RValue None, RValue (Some True), RInsert InsertedNew, RKeys [8, 7]], m)
     \<and> om_inv m \<and> om_abs m = [(8, False), (7, False)]"
  using OrderedMap_refines_entries [of
      "[OpShared (OpInsertOrKeep 7 True), OpShared (OpInsertOrReplace 8 False),
        OpDelete 7, OpShared (OpInsertOrKeep 7 False), OpShared OpKeys]" "0 :: nat" False]
  by (auto elim!: simulates_InrE)

end
