(* ===== verification/Deque.thy ===== *)
theory Deque
  imports Assert Refinement
begin

text \<open>
  \<^verbatim>\<open>base/collections/deque.go\<close>: the double-ended queue kept in a growable ring buffer. The
  backing slice always has its length equal to its capacity (it is only ever made by
  \<open>make([]T, n)\<close>), so \<open>cap(values)\<close> is the length of \<open>dq_values\<close>. Allocation is assumed to
  succeed. The abstract value of a deque is the list of its elements from front to back.
\<close>

section \<open>Definitions\<close>

record 'a Deque =
  dq_values :: "'a list"
  dq_head :: int
  dq_len :: int

definition NewDeque :: "'a Deque" where
  "NewDeque = \<lparr>dq_values = [], dq_head = 0, dq_len = 0\<rparr>"

definition dq_cap :: "'a Deque \<Rightarrow> int" where
  "dq_cap b = int (length (dq_values b))"

definition Deque_Len :: "'a Deque \<Rightarrow> int" where
  "Deque_Len b = dq_len b"

definition Deque_IsEmpty :: "'a Deque \<Rightarrow> bool" where
  "Deque_IsEmpty b = (Deque_Len b = 0)"

definition splitContiguous :: "'a Deque \<Rightarrow> ('a list \<times> 'a list) outcome" where
  "splitContiguous b =
     (let firstLen = min (dq_len b) (dq_cap b - dq_head b)
      in go_bind (slice_sub (dq_values b) (dq_head b) (dq_head b + firstLen)) (\<lambda>first.
         go_bind (slice_sub (dq_values b) 0 (dq_len b - firstLen)) (\<lambda>second.
         Inr (first, second))))"

text \<open>
  \<open>Iter\<close>: the two loops over the contiguous parts. \<open>yield\<close> takes the consumer's state and
  answers whether to go on; the result pairs that answer with the consumer's final state.
\<close>

definition Deque_Iter :: "('a \<Rightarrow> 's \<Rightarrow> bool \<times> 's) \<Rightarrow> 'a Deque \<Rightarrow> 's \<Rightarrow> 's outcome" where
  "Deque_Iter yield b st =
     go_bind (splitContiguous b) (\<lambda>(first, second).
       case yield_all yield first st of
         (False, st1) \<Rightarrow> Inr st1
       | (True, st1) \<Rightarrow> (case yield_all yield second st1 of (_, st2) \<Rightarrow> Inr st2))"

definition dequeCapacityFor :: "int \<Rightarrow> int \<Rightarrow> int outcome" where
  "dequeCapacityFor wantCap oldCap =
     go_bind (if wantCap \<le> oldCap \<or> oldCap < 0
              then Preconditionf False
                ''dequeCapacityFor needs wantCap > oldCap >= 0, got wantCap=%d oldCap=%d''
              else Inr ())
       (\<lambda>_. let newCap = max wantCap 4
            in Inr (if oldCap \<le> MaxInt div 2 then max newCap (2 * oldCap) else newCap))"

definition reserveCapacity :: "'a \<Rightarrow> int \<Rightarrow> 'a Deque \<Rightarrow> 'a Deque outcome" where
  "reserveCapacity zero wantCap b =
     go_bind (if wantCap < dq_len b
              then Preconditionf False ''reserveCapacity needs wantCap >= len, got %d < %d''
              else Inr ())
       (\<lambda>_. let oldCap = dq_cap b
            in if wantCap \<le> oldCap then Inr b
               else go_bind (dequeCapacityFor wantCap oldCap) (\<lambda>newCap.
                    let newValues = replicate (nat newCap) zero
                    in go_bind (splitContiguous b) (\<lambda>(first, second).
                       let newValues = go_copy newValues first
                       in go_bind (slice_sub newValues (int (length first)) (int (length newValues)))
                            (\<lambda>rest. Inr (b\<lparr>dq_values := take (length first) newValues @ go_copy rest second,
                                           dq_head := 0\<rparr>)))))"

definition Deque_ReserveMore :: "'a \<Rightarrow> int \<Rightarrow> 'a Deque \<Rightarrow> 'a Deque outcome" where
  "Deque_ReserveMore zero n b =
     go_bind (if n < 0 \<or> n > MaxInt - dq_len b
              then Preconditionf False
                ''ReserveMore needs 0 <= n <= math.MaxInt - Len, got n=%d Len=%d''
              else Inr ())
       (\<lambda>_. reserveCapacity zero (dq_len b + n) b)"

definition grow :: "'a \<Rightarrow> 'a Deque \<Rightarrow> 'a Deque outcome" where
  "grow zero b =
     go_bind (if dq_len b \<noteq> dq_cap b then Precondition False ''grow on non-full deque'' else Inr ())
       (\<lambda>_. reserveCapacity zero (dq_len b + 1) b)"

definition physicalIndex :: "'a Deque \<Rightarrow> int \<Rightarrow> int" where
  "physicalIndex b offset =
     (let tailLen = dq_cap b - dq_head b
      in if offset < tailLen then dq_head b + offset else offset - tailLen)"

definition nextBackIndex :: "'a Deque \<Rightarrow> int" where
  "nextBackIndex b = physicalIndex b (dq_len b)"

definition lastIndex :: "'a Deque \<Rightarrow> int" where
  "lastIndex b = physicalIndex b (dq_len b - 1)"

definition Deque_PushFront :: "'a \<Rightarrow> 'a \<Rightarrow> 'a Deque \<Rightarrow> 'a Deque outcome" where
  "Deque_PushFront zero value b =
     go_bind (if dq_len b = MaxInt
              then Preconditionf False ''PushFront needs Len < math.MaxInt, got Len=%d'' else Inr ())
       (\<lambda>_. go_bind (if dq_len b = dq_cap b then grow zero b else Inr b) (\<lambda>b.
            let head = dq_head b - 1;
                head = (if head < 0 then dq_cap b - 1 else head)
            in go_bind (slice_set (dq_values b) head value) (\<lambda>vs.
               Inr \<lparr>dq_values = vs, dq_head = head, dq_len = dq_len b + 1\<rparr>)))"

definition Deque_PushBack :: "'a \<Rightarrow> 'a \<Rightarrow> 'a Deque \<Rightarrow> 'a Deque outcome" where
  "Deque_PushBack zero value b =
     go_bind (if dq_len b = MaxInt
              then Preconditionf False ''PushBack needs Len < math.MaxInt, got Len=%d'' else Inr ())
       (\<lambda>_. go_bind (if dq_len b = dq_cap b then grow zero b else Inr b) (\<lambda>b.
            go_bind (slice_set (dq_values b) (nextBackIndex b) value) (\<lambda>vs.
            Inr (b\<lparr>dq_values := vs, dq_len := dq_len b + 1\<rparr>))))"

definition Deque_PopFront :: "'a \<Rightarrow> 'a Deque \<Rightarrow> ('a \<times> 'a Deque) outcome" where
  "Deque_PopFront zero b =
     go_bind (if dq_len b = 0 then Preconditionf False ''PopFront on empty deque'' else Inr ())
       (\<lambda>_. go_bind (slice_get (dq_values b) (dq_head b)) (\<lambda>value.
            go_bind (slice_set (dq_values b) (dq_head b) zero) (\<lambda>vs.
            let b = b\<lparr>dq_values := vs, dq_len := dq_len b - 1\<rparr>
            in if dq_len b = 0 then Inr (value, b\<lparr>dq_head := 0\<rparr>)
               else let head = dq_head b + 1
                    in Inr (value, b\<lparr>dq_head := if head = dq_cap b then 0 else head\<rparr>))))"

definition Deque_TryPopFront :: "'a \<Rightarrow> 'a Deque \<Rightarrow> ('a option \<times> 'a Deque) outcome" where
  "Deque_TryPopFront zero b =
     (if dq_len b = 0 then Inr (None, b)
      else go_bind (Deque_PopFront zero b) (\<lambda>(v, b'). Inr (Some v, b')))"

definition Deque_PopBack :: "'a \<Rightarrow> 'a Deque \<Rightarrow> ('a \<times> 'a Deque) outcome" where
  "Deque_PopBack zero b =
     go_bind (if dq_len b \<le> 0 then Preconditionf False ''PopBack on empty deque: %p'' else Inr ())
       (\<lambda>_. let idx = lastIndex b
            in go_bind (slice_get (dq_values b) idx) (\<lambda>value.
               go_bind (slice_set (dq_values b) idx zero) (\<lambda>vs.
               let b = b\<lparr>dq_values := vs, dq_len := dq_len b - 1\<rparr>
               in Inr (value, if dq_len b = 0 then b\<lparr>dq_head := 0\<rparr> else b))))"

section \<open>Invariant and abstraction\<close>

definition dq_inv :: "'a Deque \<Rightarrow> bool" where
  "dq_inv b \<longleftrightarrow> (dq_cap b = 0 \<and> dq_head b = 0 \<or> 0 \<le> dq_head b \<and> dq_head b < dq_cap b)
              \<and> 0 \<le> dq_len b \<and> dq_len b \<le> dq_cap b \<and> dq_len b \<le> MaxInt"

definition ring :: "'a list \<Rightarrow> nat \<Rightarrow> nat \<Rightarrow> 'a list" where
  "ring xs h n = take n (rotate h xs)"

definition dq_abs :: "'a Deque \<Rightarrow> 'a list" where
  "dq_abs b = ring (dq_values b) (nat (dq_head b)) (nat (dq_len b))"

section \<open>Ring buffers\<close>

lemma length_ring [simp]: "n \<le> length xs \<Longrightarrow> length (ring xs h n) = n"
  by (simp add: ring_def)

lemma mod_sum:
  fixes h i c :: nat
  assumes "h < c" and "i < c"
  shows "(h + i) mod c = (if h + i < c then h + i else h + i - c)"
  using assms by (simp add: le_mod_geq)

lemma rotate_update:
  assumes "h < length xs" and "i < length xs"
  shows "rotate h (xs[(h + i) mod length xs := v]) = (rotate h xs)[i := v]"
proof (rule nth_list_eqI)
  fix j
  assume "j < length ((rotate h xs)[i := v])"
  then have j: "j < length xs"
    by simp
  have "(h + i) mod length xs = (h + j) mod length xs \<longleftrightarrow> i = j"
    using assms j by (auto simp: mod_sum)
  then show "rotate h (xs[(h + i) mod length xs := v]) ! j = (rotate h xs)[i := v] ! j"
    using assms j by (cases "xs = []") (auto simp: nth_rotate nth_list_update)
qed simp

lemma ring_split:
  assumes "h < length xs" and "n \<le> length xs"
  shows "ring xs h n = take (min n (length xs - h)) (drop h xs) @ take (n - min n (length xs - h)) xs"
  using assms by (auto simp: ring_def rotate_drop_take min_def)

lemma ring_push_back:
  assumes "h < length xs" and "n < length xs"
  shows "ring (xs[(h + n) mod length xs := v]) h (Suc n) = ring xs h n @ [v]"
  using assms by (simp add: ring_def rotate_update take_Suc_conv_app_nth)

lemma ring_push_front:
  assumes "h < length xs" and "n < length xs"
  shows "ring (xs[h := v]) h (Suc n) = v # ring xs (Suc h mod length xs) n"
proof -
  have "rotate h (xs[h := v]) = (rotate h xs)[0 := v]"
    using rotate_update [of h xs 0 v] assms by fastforce
  moreover have "rotate (Suc h mod length xs) xs = rotate1 (rotate h xs)"
    by (metis rotate_conv_mod rotate_Suc)
  moreover obtain y ys where "rotate h xs = y # ys"
    using assms(1) by (cases "rotate h xs") auto
  moreover from this have "length ys = length xs - 1"
    by (metis length_rotate length_tl list.sel(3))
  ultimately show ?thesis
    using assms by (simp add: ring_def)
qed

lemma ring_pop_front:
  assumes "h < length xs" and "n < length xs"
  shows "ring xs h (Suc n) = xs ! h # ring (xs[h := z]) (Suc h mod length xs) n"
proof -
  have "ring (xs[h := xs ! h]) h (Suc n) = xs ! h # ring xs (Suc h mod length xs) n"
    by (rule ring_push_front [OF assms])
  moreover have "ring (xs[h := z]) (Suc h mod length xs) n = ring xs (Suc h mod length xs) n"
    using ring_push_front [of h "xs[h := z]" n "xs ! h"] calculation assms by simp
  ultimately show ?thesis
    by simp
qed

lemma ring_pop_back:
  assumes "h < length xs" and "n < length xs"
  shows "ring xs h (Suc n) = ring (xs[(h + n) mod length xs := z]) h n @ [xs ! ((h + n) mod length xs)]"
proof -
  let ?i = "(h + n) mod length xs"
  have "ring (xs[?i := xs ! ?i]) h (Suc n) = ring (xs[?i := z]) h n @ [xs ! ?i]"
    using ring_push_back [of h "xs[?i := z]" n "xs ! ?i"] assms by simp
  then show ?thesis
    by simp
qed

section \<open>Specifications of the operations\<close>

text \<open>A deque that satisfies the invariant, with its fields as natural numbers.\<close>

lemma dq_cases:
  assumes "dq_inv b"
  obtains xs h n where "b = \<lparr>dq_values = xs, dq_head = int h, dq_len = int n\<rparr>"
    "xs = [] \<and> h = 0 \<or> h < length xs" "n \<le> length xs" "int n \<le> MaxInt"
proof (cases b)
  case (fields xs h n)
  with assms show ?thesis
    using that [of xs "nat h" "nat n"] by (auto simp: dq_inv_def dq_cap_def nat_less_iff nat_le_iff)
qed

lemma dq_abs_fields [simp]:
  "dq_abs \<lparr>dq_values = xs, dq_head = int h, dq_len = int n\<rparr> = ring xs h n"
  by (simp add: dq_abs_def)

lemma length_dq_abs: "dq_inv b \<Longrightarrow> int (length (dq_abs b)) = dq_len b"
  by (erule dq_cases) simp

lemma NewDeque_spec: "dq_inv NewDeque" "dq_abs NewDeque = []"
  by (simp_all add: NewDeque_def dq_inv_def dq_cap_def dq_abs_def ring_def MaxInt_def)

lemma splitContiguous_spec:
  assumes "dq_inv b"
  shows "\<exists>first second. splitContiguous b = Inr (first, second) \<and> first @ second = dq_abs b"
  using assms
proof (cases rule: dq_cases)
  case (1 xs h n)
  let ?k = "min n (length xs - h)"
  have sub: "h + ?k \<le> length xs" "n - ?k \<le> length xs"
    using 1(2,3) by auto
  have "splitContiguous b = Inr (take ?k (drop h xs), take (n - ?k) xs)"
    using sub slice_sub_nat [of h "h + ?k" xs] slice_sub_nat [of 0 "n - ?k" xs] 1
    by (auto simp: splitContiguous_def dq_cap_def Let_def of_nat_diff min_def)
  moreover have "ring xs h n = take ?k (drop h xs) @ take (n - ?k) xs"
    using 1(2,3) by (auto simp: ring_split) (simp add: ring_def)
  ultimately show ?thesis
    using 1(1) by simp
qed

lemma dequeCapacityFor_spec:
  assumes "oldCap < wantCap" and "0 \<le> oldCap" and "wantCap \<le> MaxInt"
  shows "\<exists>c. dequeCapacityFor wantCap oldCap = Inr c \<and> wantCap \<le> c \<and> 4 \<le> c \<and> c \<le> MaxInt
           \<and> (2 * oldCap \<le> MaxInt \<longrightarrow> 2 * oldCap \<le> c)"
  using assms by (auto simp: dequeCapacityFor_def Let_def MaxInt_def)

lemma reserveCapacity_spec:
  assumes "dq_inv b" and "dq_len b \<le> want" and "want \<le> MaxInt"
  shows "\<exists>b'. reserveCapacity z want b = Inr b' \<and> dq_inv b' \<and> dq_abs b' = dq_abs b
           \<and> want \<le> dq_cap b' \<and> dq_len b' = dq_len b
           \<and> (if want \<le> dq_cap b then b' = b else dq_head b' = 0)"
proof (cases "want \<le> dq_cap b")
  case True
  then show ?thesis
    using assms by (simp add: reserveCapacity_def)
next
  case False
  obtain first second where sc: "splitContiguous b = Inr (first, second)" "first @ second = dq_abs b"
    using splitContiguous_spec assms(1) by blast
  obtain c where c: "dequeCapacityFor want (dq_cap b) = Inr c" "want \<le> c" "4 \<le> c" "c \<le> MaxInt"
    using dequeCapacityFor_spec [of "dq_cap b" want] False assms(3) by (auto simp: dq_cap_def)
  have len: "int (length first + length second) = dq_len b"
    using length_dq_abs [OF assms(1)] by (simp flip: sc(2))
  then have le: "length first + length second \<le> nat c"
    using assms(2) c(2) by linarith
  let ?vs = "first @ second @ replicate (nat c - length first - length second) z"
  have "reserveCapacity z want b = Inr (b\<lparr>dq_values := ?vs, dq_head := 0\<rparr>)"
    using sc(1) c(1,3) False assms(2) le
    by (simp add: reserveCapacity_def Let_def go_copy_def drop_replicate)
  moreover have "dq_abs (b\<lparr>dq_values := ?vs, dq_head := 0\<rparr>) = first @ second"
    using len by (simp add: dq_abs_def ring_def flip: len)
  ultimately show ?thesis
    using assms le len c False by (auto simp: sc(2) dq_inv_def dq_cap_def)
qed

lemma grow_spec:
  assumes "dq_inv b" and "dq_len b = dq_cap b" and "dq_len b < MaxInt"
  shows "\<exists>b'. grow z b = Inr b' \<and> dq_inv b' \<and> dq_abs b' = dq_abs b \<and> dq_len b' = dq_len b
           \<and> dq_len b' < dq_cap b'"
  using reserveCapacity_spec [OF assms(1), of "dq_len b + 1" z] assms(2,3)
  by (auto simp: grow_def)

text \<open>Both pushes first make room; afterwards there is a free slot and the same elements.\<close>

lemma make_room:
  assumes "dq_inv b" and "dq_len b < MaxInt"
  obtains xs h n where
    "(if dq_len b = dq_cap b then grow z b else Inr b)
       = Inr \<lparr>dq_values = xs, dq_head = int h, dq_len = int n\<rparr>"
    "h < length xs" "n < length xs" "dq_abs b = ring xs h n" "dq_len b = int n"
proof -
  obtain b' where b': "(if dq_len b = dq_cap b then grow z b else Inr b) = Inr b'"
      "dq_inv b'" "dq_abs b' = dq_abs b" "dq_len b' = dq_len b" "dq_len b' < dq_cap b'"
  proof (cases "dq_len b = dq_cap b")
    case True
    with grow_spec [OF assms(1) True assms(2), of z] that show thesis
      by auto
  next
    case False
    then have "dq_len b < dq_cap b"
      using assms(1) by (simp add: dq_inv_def)
    with assms(1) that [of b] False show thesis
      by simp
  qed
  from b'(2) show thesis
  proof (cases rule: dq_cases)
    case (1 xs h n)
    show ?thesis
    proof (rule that)
      show "(if dq_len b = dq_cap b then grow z b else Inr b)
          = Inr \<lparr>dq_values = xs, dq_head = int h, dq_len = int n\<rparr>"
        using b'(1) by (simp only: 1(1))
      show "h < length xs" "n < length xs"
        using b'(5) 1 by (auto simp: dq_cap_def)
      show "dq_abs b = ring xs h n" "dq_len b = int n"
        using b'(3,4) by (simp_all add: 1(1))
    qed
  qed
qed

lemma physicalIndex_nat:
  assumes "h < length xs" and "i < length xs"
  shows "physicalIndex \<lparr>dq_values = xs, dq_head = int h, dq_len = l\<rparr> (int i)
       = int ((h + i) mod length xs)"
  using assms by (auto simp: physicalIndex_def dq_cap_def mod_sum of_nat_diff)

lemma Deque_PushBack_spec:
  assumes "dq_inv b"
  shows "if dq_len b = MaxInt
         then Deque_PushBack z v b =
                Inl (AssertionError ''precondition violation: PushBack needs Len < math.MaxInt, got Len=%d'')
         else \<exists>b'. Deque_PushBack z v b = Inr b' \<and> dq_inv b' \<and> dq_abs b' = dq_abs b @ [v]"
proof (cases "dq_len b = MaxInt")
  case True
  then show ?thesis
    by (simp add: Deque_PushBack_def assert_defs)
next
  case False
  with assms have lt: "dq_len b < MaxInt"
    by (simp add: dq_inv_def)
  from make_room [OF assms lt, of z] obtain xs h n where room:
    "(if dq_len b = dq_cap b then grow z b else Inr b)
       = Inr \<lparr>dq_values = xs, dq_head = int h, dq_len = int n\<rparr>"
    "h < length xs" "n < length xs" "dq_abs b = ring xs h n" "dq_len b = int n" .
  have pos: "0 < length xs" using room(2) by linarith
  let ?b = "\<lparr>dq_values = xs[(h + n) mod length xs := v], dq_head = int h, dq_len = int (Suc n)\<rparr>"
  have "Deque_PushBack z v b = Inr ?b"
    using False room(1-3) pos
    by (simp add: Deque_PushBack_def nextBackIndex_def physicalIndex_nat add.commute del: go_bind_if)
  moreover have "dq_inv ?b"
    using room lt by (simp add: dq_inv_def dq_cap_def)
  moreover have "dq_abs ?b = dq_abs b @ [v]"
    using room ring_push_back by (simp only: dq_abs_fields)
  ultimately show ?thesis
    using False by simp
qed

lemma Deque_PushFront_spec:
  assumes "dq_inv b"
  shows "if dq_len b = MaxInt
         then Deque_PushFront z v b =
                Inl (AssertionError ''precondition violation: PushFront needs Len < math.MaxInt, got Len=%d'')
         else \<exists>b'. Deque_PushFront z v b = Inr b' \<and> dq_inv b' \<and> dq_abs b' = v # dq_abs b"
proof (cases "dq_len b = MaxInt")
  case True
  then show ?thesis
    by (simp add: Deque_PushFront_def assert_defs)
next
  case False
  with assms have lt: "dq_len b < MaxInt"
    by (simp add: dq_inv_def)
  from make_room [OF assms lt, of z] obtain xs h n where room:
    "(if dq_len b = dq_cap b then grow z b else Inr b)
       = Inr \<lparr>dq_values = xs, dq_head = int h, dq_len = int n\<rparr>"
    "h < length xs" "n < length xs" "dq_abs b = ring xs h n" "dq_len b = int n" .
  let ?h = "if h = 0 then length xs - 1 else h - 1"
  have h: "?h < length xs" "Suc ?h mod length xs = h"
    using room(2) by (auto simp: mod_Suc)
  let ?b = "\<lparr>dq_values = xs[?h := v], dq_head = int ?h, dq_len = int (Suc n)\<rparr>"
  have "(if int h - 1 < 0 then int (length xs) - 1 else int h - 1) = int ?h"
    using room(2) by (auto simp: of_nat_diff)
  then have "Deque_PushFront z v b = Inr ?b"
    using False room(1) h(1) unfolding Deque_PushFront_def Let_def
    by (simp only: go_bind_Inr simp_thms if_False Deque.simps dq_cap_def)
       (simp add: add.commute del: int_ops)
  moreover have "dq_inv ?b"
    using room lt h(1) by (simp add: dq_inv_def dq_cap_def)
  moreover have "dq_abs ?b = v # dq_abs b"
    using room(3,4) ring_push_front [OF h(1) room(3), of v] h(2) by (simp only: dq_abs_fields)
  ultimately show ?thesis
    using False by simp
qed

text \<open>The pops: on an empty deque the documented panic, otherwise an end of the list.\<close>

lemma Deque_PopFront_spec:
  assumes "dq_inv b"
  shows "case dq_abs b of
           [] \<Rightarrow> Deque_PopFront z b = Inl (AssertionError ''precondition violation: PopFront on empty deque'')
         | x # ys \<Rightarrow> \<exists>b'. Deque_PopFront z b = Inr (x, b') \<and> dq_inv b' \<and> dq_abs b' = ys
                    \<and> dq_cap b' = dq_cap b"
  using assms
proof (cases rule: dq_cases)
  case (1 xs h n)
  show ?thesis
  proof (cases n)
    case 0
    with 1 show ?thesis
      by (simp add: dq_abs_def ring_def Deque_PopFront_def assert_defs)
  next
    case (Suc m)
    with 1 have h: "h < length xs" and m: "m < length xs"
      by auto
    have ab: "dq_abs b = xs ! h # ring (xs[h := z]) (Suc h mod length xs) m"
      using 1(1) Suc ring_pop_front [OF h m] by (simp only: dq_abs_fields)
    have hd: "(if m = 0 then 0 else if int h + 1 = int (length xs) then 0 else int h + 1)
        = int (if m = 0 then 0 else Suc h mod length xs)"
      using h by (auto simp: mod_Suc)
    let ?b = "\<lparr>dq_values = xs[h := z], dq_head = int (if m = 0 then 0 else Suc h mod length xs),
                dq_len = int m\<rparr>"
    have "Deque_PopFront z b = Inr (xs ! h, ?b)"
      using h 1(1) Suc by (simp add: Deque_PopFront_def Let_def dq_cap_def flip: hd)
    moreover have "Suc h mod length xs < length xs"
      using h by (cases "xs = []") auto
    then have "dq_inv ?b" "dq_cap ?b = dq_cap b"
      using 1 h m Suc by (auto simp: dq_inv_def dq_cap_def)
    moreover have "dq_abs ?b = ring (xs[h := z]) (Suc h mod length xs) m"
      by (simp add: ring_def)
    ultimately show ?thesis
      unfolding ab by auto
  qed
qed

lemma Deque_PopBack_spec:
  assumes "dq_inv b"
  shows "if dq_abs b = [] then Deque_PopBack z b =
           Inl (AssertionError ''precondition violation: PopBack on empty deque: %p'')
         else \<exists>b'. Deque_PopBack z b = Inr (last (dq_abs b), b') \<and> dq_inv b'
                \<and> dq_abs b' = butlast (dq_abs b) \<and> dq_cap b' = dq_cap b"
  using assms
proof (cases rule: dq_cases)
  case (1 xs h n)
  show ?thesis
  proof (cases n)
    case 0
    with 1 show ?thesis
      by (simp add: dq_abs_def ring_def Deque_PopBack_def assert_defs)
  next
    case (Suc m)
    with 1 have h: "h < length xs" and m: "m < length xs"
      by auto
    let ?i = "(h + m) mod length xs"
    have i: "?i < length xs"
      using h by (cases "xs = []") auto
    have ab: "dq_abs b = ring (xs[?i := z]) h m @ [xs ! ?i]"
      using 1(1) Suc ring_pop_back [OF h m] by (simp only: dq_abs_fields)
    have last: "lastIndex b = int ?i"
      using physicalIndex_nat [OF h m] 1(1) Suc by (simp add: lastIndex_def)
    let ?b = "\<lparr>dq_values = xs[?i := z], dq_head = int (if m = 0 then 0 else h), dq_len = int m\<rparr>"
    have upd: "b\<lparr>dq_values := v, dq_len := l\<rparr> = \<lparr>dq_values = v, dq_head = int h, dq_len = l\<rparr>" for v l
      using 1(1) by simp
    have "dq_values b = xs" "dq_len b = int m + 1"
      using 1(1) Suc by simp_all
    then have "Deque_PopBack z b = Inr (xs ! ?i, ?b)"
      using i by (simp add: Deque_PopBack_def Let_def last upd)
    moreover have "dq_inv ?b" "dq_cap ?b = dq_cap b"
      using 1 h m Suc by (auto simp: dq_inv_def dq_cap_def)
    moreover have "dq_abs ?b = ring (xs[?i := z]) h m"
      by (simp add: ring_def)
    ultimately show ?thesis
      unfolding ab by auto
  qed
qed

lemma Deque_TryPopFront_spec:
  assumes "dq_inv b"
  shows "\<exists>b'. Deque_TryPopFront z b = Inr (case dq_abs b of [] \<Rightarrow> None | x # _ \<Rightarrow> Some x, b')
           \<and> dq_inv b' \<and> dq_abs b' = tl (dq_abs b)"
proof (cases "dq_abs b")
  case Nil
  with length_dq_abs [OF assms] show ?thesis
    using assms by (simp add: Deque_TryPopFront_def)
next
  case (Cons x ys)
  with length_dq_abs [OF assms] Deque_PopFront_spec [OF assms, of z] show ?thesis
    by (auto simp: Deque_TryPopFront_def)
qed

lemma Deque_ReserveMore_spec:
  assumes "dq_inv b"
  shows "if 0 \<le> n \<and> n \<le> MaxInt - dq_len b
         then \<exists>b'. Deque_ReserveMore z n b = Inr b' \<and> dq_inv b' \<and> dq_abs b' = dq_abs b
                \<and> dq_len b + n \<le> dq_cap b'
         else Deque_ReserveMore z n b = Inl (AssertionError
                ''precondition violation: ReserveMore needs 0 <= n <= math.MaxInt - Len, got n=%d Len=%d'')"
  using reserveCapacity_spec [OF assms, of "dq_len b + n" z]
  by (auto simp: Deque_ReserveMore_def assert_defs)

lemma Deque_Iter_spec:
  assumes "dq_inv b"
  shows "Deque_Iter yield b st = Inr (snd (yield_all yield (dq_abs b) st))"
proof -
  obtain first second where "splitContiguous b = Inr (first, second)" "dq_abs b = first @ second"
    using splitContiguous_spec [OF assms] by metis
  then show ?thesis
    by (simp add: Deque_Iter_def yield_all_append split: prod.splits bool.splits)
qed

section \<open>The interface the clients use\<close>

text \<open>
  A first-in first-out queue, as the cancellation tokens use the deque: push at the back, try to
  pop at the front, until it is empty.
\<close>

locale fifo_queue =
  fixes new :: 'q and push :: "'a \<Rightarrow> 'q \<Rightarrow> 'q outcome" and try_pop :: "'q \<Rightarrow> ('a option \<times> 'q) outcome"
    and contents :: "'q \<Rightarrow> 'a list" and ok :: "'q \<Rightarrow> bool"
  assumes new: "ok new" "contents new = []"
    and push: "ok q \<Longrightarrow> int (length (contents q)) < MaxInt \<Longrightarrow>
                 \<exists>q'. push x q = Inr q' \<and> ok q' \<and> contents q' = contents q @ [x]"
    and try_pop: "ok q \<Longrightarrow> \<exists>q'. try_pop q = Inr (case contents q of [] \<Rightarrow> None | x # _ \<Rightarrow> Some x, q')
                               \<and> ok q' \<and> contents q' = tl (contents q)"
begin

lemma try_pop_Nil: "ok q \<Longrightarrow> contents q = [] \<Longrightarrow> \<exists>q'. try_pop q = Inr (None, q')"
  using try_pop by fastforce

lemma try_pop_Cons:
  "ok q \<Longrightarrow> contents q = x # xs \<Longrightarrow> \<exists>q'. try_pop q = Inr (Some x, q') \<and> ok q' \<and> contents q' = xs"
  using try_pop by fastforce

text \<open>Pushing a list of elements, in order.\<close>

fun push_each :: "'a list \<Rightarrow> 'q \<Rightarrow> 'q outcome" where
  "push_each [] q = Inr q"
| "push_each (x # xs) q = go_bind (push x q) (push_each xs)"

lemma push_each_spec:
  assumes "ok q" and "int (length (contents q) + length xs) \<le> MaxInt"
  shows "\<exists>q'. push_each xs q = Inr q' \<and> ok q' \<and> contents q' = contents q @ xs"
  using assms
proof (induction xs arbitrary: q)
  case Nil
  then show ?case by simp
next
  case (Cons x xs)
  then obtain q1 where q1: "push x q = Inr q1" "ok q1" "contents q1 = contents q @ [x]"
    using push [of q x] by auto
  moreover obtain q' where "push_each xs q1 = Inr q'" "ok q'" "contents q' = contents q1 @ xs"
    using Cons.IH [of q1] Cons.prems q1 by auto
  ultimately show ?case by auto
qed

end

interpretation dq: fifo_queue NewDeque "Deque_PushBack zero" "Deque_TryPopFront zero" dq_abs dq_inv
  for zero :: 'a
proof
  show "dq_inv NewDeque" "dq_abs NewDeque = []"
    by (simp_all add: NewDeque_spec)
  show "\<exists>q'. Deque_PushBack zero x q = Inr q' \<and> dq_inv q' \<and> dq_abs q' = dq_abs q @ [x]"
    if "dq_inv q" "int (length (dq_abs q)) < MaxInt" for q and x :: 'a
    using Deque_PushBack_spec [OF that(1), of zero x] length_dq_abs [OF that(1)] that(2)
    by (simp split: if_splits)
  show "\<exists>q'. Deque_TryPopFront zero q = Inr (case dq_abs q of [] \<Rightarrow> None | x # _ \<Rightarrow> Some x, q')
          \<and> dq_inv q' \<and> dq_abs q' = tl (dq_abs q)" if "dq_inv q" for q :: "'a Deque"
    by (rule Deque_TryPopFront_spec [OF that])
qed

section \<open>The abstract specification\<close>

datatype 'a DequeOp =
  OpPushFront 'a | OpPushBack 'a | OpPopFront | OpTryPopFront | OpPopBack | OpReserveMore int

text \<open>One call on a deque, with the value it returns, if any.\<close>

fun deque_step :: "'a \<Rightarrow> 'a DequeOp \<Rightarrow> 'a Deque \<Rightarrow> ('a option \<times> 'a Deque) outcome" where
  "deque_step z (OpPushFront v) b = go_bind (Deque_PushFront z v b) (\<lambda>b'. Inr (None, b'))"
| "deque_step z (OpPushBack v) b = go_bind (Deque_PushBack z v b) (\<lambda>b'. Inr (None, b'))"
| "deque_step z OpPopFront b = go_bind (Deque_PopFront z b) (\<lambda>(v, b'). Inr (Some v, b'))"
| "deque_step z OpTryPopFront b = Deque_TryPopFront z b"
| "deque_step z OpPopBack b = go_bind (Deque_PopBack z b) (\<lambda>(v, b'). Inr (Some v, b'))"
| "deque_step z (OpReserveMore n) b = go_bind (Deque_ReserveMore z n b) (\<lambda>b'. Inr (None, b'))"

text \<open>The same calls on a list.\<close>

fun list_step :: "'a DequeOp \<Rightarrow> 'a list \<Rightarrow> ('a option \<times> 'a list) outcome" where
  "list_step (OpPushFront v) xs =
     (if int (length xs) = MaxInt
      then Inl (AssertionError ''precondition violation: PushFront needs Len < math.MaxInt, got Len=%d'')
      else Inr (None, v # xs))"
| "list_step (OpPushBack v) xs =
     (if int (length xs) = MaxInt
      then Inl (AssertionError ''precondition violation: PushBack needs Len < math.MaxInt, got Len=%d'')
      else Inr (None, xs @ [v]))"
| "list_step OpPopFront xs =
     (case xs of [] \<Rightarrow> Inl (AssertionError ''precondition violation: PopFront on empty deque'')
      | x # ys \<Rightarrow> Inr (Some x, ys))"
| "list_step OpTryPopFront xs = (case xs of [] \<Rightarrow> Inr (None, []) | x # ys \<Rightarrow> Inr (Some x, ys))"
| "list_step OpPopBack xs =
     (if xs = [] then Inl (AssertionError ''precondition violation: PopBack on empty deque: %p'')
      else Inr (Some (last xs), butlast xs))"
| "list_step (OpReserveMore n) xs =
     (if 0 \<le> n \<and> n \<le> MaxInt - int (length xs) then Inr (None, xs)
      else Inl (AssertionError
        ''precondition violation: ReserveMore needs 0 <= n <= math.MaxInt - Len, got n=%d Len=%d''))"

lemma deque_step_simulates:
  assumes "dq_inv b"
  shows "simulates dq_inv dq_abs (deque_step z op b) (list_step op (dq_abs b))"
proof (cases op)
  case (OpPushFront v)
  then show ?thesis
    using Deque_PushFront_spec [OF assms, of z v] length_dq_abs [OF assms] by (auto split: if_splits)
next
  case (OpPushBack v)
  then show ?thesis
    using Deque_PushBack_spec [OF assms, of z v] length_dq_abs [OF assms] by (auto split: if_splits)
next
  case OpPopFront
  then show ?thesis
    using Deque_PopFront_spec [OF assms, of z] by (auto split: list.splits)
next
  case OpTryPopFront
  then show ?thesis
    using Deque_TryPopFront_spec [OF assms, of z] by (auto split: list.splits)
next
  case OpPopBack
  then show ?thesis
    using Deque_PopBack_spec [OF assms, of z] by (auto split: if_splits)
next
  case (OpReserveMore n)
  then show ?thesis
    using Deque_ReserveMore_spec [OF assms, of n z] length_dq_abs [OF assms] by (auto split: if_splits)
qed

interpretation dqsim: simulation "deque_step zero" list_step dq_inv dq_abs for zero :: 'a
  by unfold_locales (rule deque_step_simulates)

section \<open>Properties\<close>

text \<open>
  C1. Any sequence of calls on a new deque returns what the same calls return on a list of the
  elements from front to back, panics with the same pre-condition violation when and only when
  the list specification does, and leaves a deque that satisfies the documented field invariant
  and holds that list, however the ring buffer wrapped and grew on the way.
\<close>

theorem Deque_refines_list:
  "simulates dq_inv dq_abs (run_ops (deque_step zero) ops NewDeque) (run_ops list_step ops [])"
  using dqsim.run_refines [OF NewDeque_spec(1), of zero ops] by (simp add: NewDeque_spec)

text \<open>
  Iterating over a deque passes exactly its elements, front to back, to the consumer, which
  may stop the iteration at any element.
\<close>

lemma Deque_Iter_correct:
  assumes "dq_inv b"
  shows "Deque_Iter yield b st = Inr (snd (yield_all yield (dq_abs b) st))
       \<and> Deque_Iter (\<lambda>x acc. (True, acc @ [x])) b [] = Inr (dq_abs b)"
  by (simp add: Deque_Iter_spec [OF assms] yield_all_collect)

text \<open>
  The documented post-condition of the growth policy, a capacity of at least
  \<open>min(oldCap * 2, math.MaxInt)\<close>, fails for a capacity above half of \<open>math.MaxInt\<close>.
\<close>

lemma dequeCapacityFor_postcondition_fails:
  "dequeCapacityFor (MaxInt div 2 + 2) (MaxInt div 2 + 1) = Inr (MaxInt div 2 + 2)
   \<and> MaxInt div 2 + 2 < min ((MaxInt div 2 + 1) * 2) MaxInt"
  by (simp add: dequeCapacityFor_def MaxInt_def)

end
