(* ===== verification/Cancel.thy ===== *)
theory Cancel
  imports Deque "HOL-Library.Multiset"
begin

text \<open>
  \<^verbatim>\<open>base/cancel/token.go\<close> and \<^verbatim>\<open>never_token.go\<close>: the tree of cancellation tokens. The heap is the
  list of all tokens, a pointer is an index into it (allocation appends, so pointers are always
  valid and a parent is older than its children). The first part models the functions as the code
  composes them, with the queue of pending tokens kept in the ring buffer of theory \<open>Deque\<close>; the
  second part models concurrency: every critical section (what a mutex protects) is one atomic
  step, any number of \<open>Cancel\<close> calls run interleaved with each other and with \<open>NewChild\<close>.

  The slice \<open>children\<close> is nil exactly when it is empty: every function that empties it resets it to
  nil before it unlocks. \<open>slices.Clone\<close>, which only trades capacity, is the identity here.
\<close>

section \<open>Definitions\<close>

record 'e rawToken =
  tk_parent :: "nat option"
  tk_parentIdx :: int
  tk_done :: bool
  tk_children :: "nat list"
  tk_err :: "'e option"

type_synonym 'e heap = "'e rawToken list"

datatype CancelResult = Result_CanceledByUs | Result_AlreadyCanceled

definition close_panic :: panic where
  "close_panic = RuntimeError ''close of closed channel''"

definition rawToken_KeepGoing :: "nat \<Rightarrow> 'e heap \<Rightarrow> 'e option" where
  "rawToken_KeepGoing t h = tk_err (h ! t)"

definition rawToken_Done :: "nat \<Rightarrow> 'e heap \<Rightarrow> bool" where
  "rawToken_Done t h = tk_done (h ! t)"

text \<open>The critical section of \<open>cancelSelfAndDetachChildren\<close>: the result and the detached children.\<close>

definition detachChildren :: "nat \<Rightarrow> 'e \<Rightarrow> 'e heap \<Rightarrow> (CancelResult \<times> nat list \<times> 'e heap) outcome" where
  "detachChildren t err h =
     (if tk_err (h ! t) \<noteq> None then Inr (Result_AlreadyCanceled, [], h)
      else if tk_done (h ! t) then Inl close_panic
      else Inr (Result_CanceledByUs, tk_children (h ! t),
                h[t := (h ! t)\<lparr>tk_err := Some err, tk_done := True, tk_children := []\<rparr>]))"

fun enqueue_each :: "nat list \<Rightarrow> nat Deque \<Rightarrow> nat Deque outcome" where
  "enqueue_each [] queue = Inr queue"
| "enqueue_each (child # children) queue =
     go_bind (Deque_PushBack 0 child queue) (enqueue_each children)"

definition cancelSelfAndDetachChildren ::
  "nat \<Rightarrow> 'e \<Rightarrow> nat Deque \<Rightarrow> 'e heap \<Rightarrow> (CancelResult \<times> nat Deque \<times> 'e heap) outcome" where
  "cancelSelfAndDetachChildren t err queue h =
     go_bind (detachChildren t err h) (\<lambda>(result, children, h').
       case result of
         Result_AlreadyCanceled \<Rightarrow> Inr (Result_AlreadyCanceled, queue, h')
       | Result_CanceledByUs \<Rightarrow>
           go_bind (Deque_ReserveMore 0 (int (length children)) queue) (\<lambda>queue.
           go_bind (enqueue_each children queue) (\<lambda>queue.
           Inr (Result_CanceledByUs, queue, h'))))"

text \<open>\<open>unregisterChild\<close>, one critical section of the parent's mutex.\<close>

definition unregisterChild :: "nat \<Rightarrow> nat \<Rightarrow> 'e heap \<Rightarrow> 'e heap outcome" where
  "unregisterChild parent child h =
     (if tk_err (h ! parent) \<noteq> None
      then go_bind (Invariant (tk_children (h ! parent) = []) ''canceled token has children'') (\<lambda>_. Inr h)
      else
        let idx = tk_parentIdx (h ! child);
            n = int (length (tk_children (h ! parent)))
        in if idx < 0 \<or> n \<le> idx
           then PanicInvariantViolation ''child.parentIdx (%d) not in [0, %d); please report this as a bug''
           else go_bind (slice_get (tk_children (h ! parent)) idx) (\<lambda>c.
             if c \<noteq> child
             then PanicInvariantViolation
               ''child token (%p) at index differs from child being unregistered (%p); please report this as a bug''
             else
               let last = n - 1
               in go_bind
                 (if idx \<noteq> last
                  then go_bind (slice_get (tk_children (h ! parent)) last) (\<lambda>moved.
                       go_bind (slice_set (tk_children (h ! parent)) idx moved) (\<lambda>cs.
                       let h = h[parent := (h ! parent)\<lparr>tk_children := cs\<rparr>]
                       in if tk_parent (h ! moved) \<noteq> Some parent
                          then PanicInvariantViolation
                            ''child token (%p) has parent (%p), but it's registered as child of token %p''
                          else Inr (h[moved := (h ! moved)\<lparr>tk_parentIdx := idx\<rparr>])))
                  else Inr h)
                 (\<lambda>h. go_bind (slice_sub (tk_children (h ! parent)) 0 last) (\<lambda>cs.
                      Inr (h[parent := (h ! parent)\<lparr>tk_children := cs\<rparr>])))))"

text \<open>The loop over the queue; \<open>None\<close> would be a loop that never ends.\<close>

partial_function (option) drain :: "'e \<Rightarrow> nat Deque \<Rightarrow> 'e heap \<Rightarrow> 'e heap outcome option" where
  "drain err queue h =
     (case Deque_TryPopFront 0 queue of
        Inl p \<Rightarrow> Some (Inl p)
      | Inr (popped, queue) \<Rightarrow>
          (case popped of
             None \<Rightarrow> Some (Inr h)
           | Some descendant \<Rightarrow>
               (case cancelSelfAndDetachChildren descendant err queue h of
                  Inl p \<Rightarrow> Some (Inl p)
                | Inr (_, queue, h) \<Rightarrow> drain err queue h)))"

definition rawToken_Cancel :: "nat \<Rightarrow> 'e option \<Rightarrow> 'e heap \<Rightarrow> (CancelResult \<times> 'e heap) outcome option" where
  "rawToken_Cancel t err h =
     (case err of
        None \<Rightarrow> Some (go_bind (Precondition False ''Cancel called with nil error'') (\<lambda>_. Inr (Result_AlreadyCanceled, h)))
      | Some err \<Rightarrow>
          (case cancelSelfAndDetachChildren t err NewDeque h of
             Inl p \<Rightarrow> Some (Inl p)
           | Inr (Result_AlreadyCanceled, queue, h) \<Rightarrow> Some (Inr (Result_AlreadyCanceled, h))
           | Inr (Result_CanceledByUs, queue, h) \<Rightarrow>
               (case (case tk_parent (h ! t) of None \<Rightarrow> Inr h | Some p \<Rightarrow> unregisterChild p t h) of
                  Inl p \<Rightarrow> Some (Inl p)
                | Inr h \<Rightarrow> map_option (\<lambda>r. go_bind r (\<lambda>h. Inr (Result_CanceledByUs, h))) (drain err queue h))))"

definition registerChild :: "nat \<Rightarrow> nat \<Rightarrow> 'e heap \<Rightarrow> 'e option \<times> 'e heap" where
  "registerChild t child h =
     (if tk_err (h ! t) \<noteq> None then (tk_err (h ! t), h)
      else let h = h[child := (h ! child)\<lparr>tk_parentIdx := int (length (tk_children (h ! t)))\<rparr>]
           in (None, h[t := (h ! t)\<lparr>tk_children := tk_children (h ! t) @ [child]\<rparr>]))"

definition newChildToken :: "nat option \<Rightarrow> 'e heap \<Rightarrow> (nat \<times> 'e heap) outcome option" where
  "newChildToken parent h =
     (let t = length h;
          h = h @ [\<lparr>tk_parent = parent, tk_parentIdx = 0, tk_done = False, tk_children = [], tk_err = None\<rparr>]
      in case parent of
           None \<Rightarrow> Some (Inr (t, h))
         | Some p \<Rightarrow>
             (case registerChild p t h of
                (None, h) \<Rightarrow> Some (Inr (t, h))
              | (Some err, h) \<Rightarrow>
                  map_option (\<lambda>r. go_bind r (\<lambda>(_, h). Inr (t, h)))
                    (rawToken_Cancel t (Some err) (h[t := (h ! t)\<lparr>tk_parent := None\<rparr>]))))"

definition rawToken_NewChild :: "nat \<Rightarrow> 'e heap \<Rightarrow> (nat \<times> 'e heap) outcome option" where
  "rawToken_NewChild t h = newChildToken (Some t) h"

text \<open>\<open>neverToken\<close>: never canceled; its children are roots.\<close>

definition neverToken_KeepGoing :: "'e option" where
  "neverToken_KeepGoing = None"

definition neverToken_NewChild :: "'e heap \<Rightarrow> (nat \<times> 'e heap) outcome option" where
  "neverToken_NewChild h = newChildToken None h"

section \<open>Interleaved execution\<close>

text \<open>A running \<open>Cancel\<close> call that has canceled its token: what is left of it to do.\<close>

datatype 'e Thread =
    TUnregister nat 'e "nat Deque"
  | TDrain 'e "nat Deque"

fun thr_queue :: "'e Thread \<Rightarrow> nat Deque" where
  "thr_queue (TUnregister t err q) = q"
| "thr_queue (TDrain err q) = q"

text \<open>The first critical section of \<open>Cancel\<close>; \<open>[]\<close> when the call returns at once.\<close>

definition cancel_start :: "nat \<Rightarrow> 'e \<Rightarrow> 'e heap \<Rightarrow> ('e Thread list \<times> 'e heap) outcome" where
  "cancel_start t err h =
     go_bind (cancelSelfAndDetachChildren t err NewDeque h) (\<lambda>(result, queue, h').
       Inr (case result of
              Result_AlreadyCanceled \<Rightarrow> []
            | Result_CanceledByUs \<Rightarrow>
                (case tk_parent (h' ! t) of None \<Rightarrow> [TDrain err queue] | Some p \<Rightarrow> [TUnregister t err queue]),
            h'))"

fun thread_step :: "'e Thread \<Rightarrow> 'e heap \<Rightarrow> ('e Thread list \<times> 'e heap) outcome" where
  "thread_step (TUnregister t err queue) h =
     go_bind (case tk_parent (h ! t) of None \<Rightarrow> Inr h | Some p \<Rightarrow> unregisterChild p t h)
       (\<lambda>h'. Inr ([TDrain err queue], h'))"
| "thread_step (TDrain err queue) h =
     go_bind (Deque_TryPopFront 0 queue) (\<lambda>(popped, queue).
       case popped of
         None \<Rightarrow> Inr ([], h)
       | Some descendant \<Rightarrow>
           go_bind (cancelSelfAndDetachChildren descendant err queue h) (\<lambda>(_, queue, h').
             Inr ([TDrain err queue], h')))"

text \<open>
  The system: the heap and the running calls. Tokens are created and \<open>Cancel\<close> calls started at any
  time; the number of tokens is bounded by \<open>math.MaxInt\<close>, which no memory exceeds.
\<close>

inductive sys_step :: "'e heap \<times> 'e Thread list \<Rightarrow> 'e heap \<times> 'e Thread list \<Rightarrow> bool" where
  NewRoot: "newChildToken None h = Some (Inr (t, h')) \<Longrightarrow> int (length h') \<le> MaxInt \<Longrightarrow>
    sys_step (h, ths) (h', ths)"
| NewChild: "p < length h \<Longrightarrow> rawToken_NewChild p h = Some (Inr (t, h')) \<Longrightarrow> int (length h') \<le> MaxInt \<Longrightarrow>
    sys_step (h, ths) (h', ths)"
| CancelStart: "t < length h \<Longrightarrow> cancel_start t err h = Inr (new, h') \<Longrightarrow>
    sys_step (h, ths) (h', ths @ new)"
| Run: "thread_step th h = Inr (new, h') \<Longrightarrow>
    sys_step (h, before @ th # after) (h', before @ new @ after)"

inductive reachable :: "'e heap \<times> 'e Thread list \<Rightarrow> bool" where
  Init: "reachable ([], [])"
| Step: "reachable s \<Longrightarrow> sys_step s s' \<Longrightarrow> reachable s'"

section \<open>The invariant\<close>

text \<open>
  \<open>tree_inv h us ps\<close>: the tree is consistent when the tokens \<open>us\<close> are canceled but still have to be
  unregistered from their parents, and the tokens \<open>ps\<close> wait in queues to be canceled.
\<close>

definition token_ok :: "'e rawToken \<Rightarrow> bool" where
  "token_ok k \<longleftrightarrow> (tk_done k \<longleftrightarrow> tk_err k \<noteq> None) \<and> (tk_err k \<noteq> None \<longrightarrow> tk_children k = [])"

definition children_ok :: "'e heap \<Rightarrow> nat \<Rightarrow> bool" where
  "children_ok h p \<longleftrightarrow> (\<forall>i < length (tk_children (h ! p)).
     let c = tk_children (h ! p) ! i
     in c < length h \<and> tk_parent (h ! c) = Some p \<and> tk_parentIdx (h ! c) = int i)"

definition registered_ok :: "'e heap \<Rightarrow> nat list \<Rightarrow> nat \<Rightarrow> bool" where
  "registered_ok h ps t \<longleftrightarrow> (\<forall>p. tk_parent (h ! t) = Some p \<longrightarrow>
     p < t \<and> (tk_err (h ! t) = None \<longrightarrow>
              (if tk_err (h ! p) = None then t \<in> set (tk_children (h ! p)) else t \<in> set ps)))"

definition pending_ok :: "'e heap \<Rightarrow> nat \<Rightarrow> bool" where
  "pending_ok h d \<longleftrightarrow> d < length h \<and> (\<exists>p. tk_parent (h ! d) = Some p \<and> p < length h \<and> tk_err (h ! p) \<noteq> None)"

definition unreg_ok :: "'e heap \<Rightarrow> nat \<Rightarrow> bool" where
  "unreg_ok h t \<longleftrightarrow> t < length h \<and> tk_err (h ! t) \<noteq> None \<and>
     (\<exists>p. tk_parent (h ! t) = Some p \<and> (tk_err (h ! p) = None \<longrightarrow> t \<in> set (tk_children (h ! p))))"

definition tree_inv :: "'e heap \<Rightarrow> nat list \<Rightarrow> nat list \<Rightarrow> bool" where
  "tree_inv h us ps \<longleftrightarrow> int (length h) \<le> MaxInt
     \<and> (\<forall>t < length h. token_ok (h ! t) \<and> children_ok h t \<and> registered_ok h ps t)
     \<and> distinct ps \<and> (\<forall>d \<in> set ps. pending_ok h d)
     \<and> distinct us \<and> (\<forall>t \<in> set us. unreg_ok h t)"

fun thr_unreg :: "'e Thread \<Rightarrow> nat list" where
  "thr_unreg (TUnregister t err q) = [t]"
| "thr_unreg (TDrain err q) = []"

definition pending :: "'e Thread list \<Rightarrow> nat list" where
  "pending ths = concat (map (\<lambda>th. dq_abs (thr_queue th)) ths)"

definition unregs :: "'e Thread list \<Rightarrow> nat list" where
  "unregs ths = concat (map thr_unreg ths)"

definition sys_inv :: "'e heap \<times> 'e Thread list \<Rightarrow> bool" where
  "sys_inv s \<longleftrightarrow> (case s of (h, ths) \<Rightarrow>
     (\<forall>th \<in> set ths. dq_inv (thr_queue th)) \<and> tree_inv h (unregs ths) (pending ths))"

lemmas inv_defs = token_ok_def children_ok_def registered_ok_def pending_ok_def unreg_ok_def Let_def

lemma tree_inv_perm:
  assumes "tree_inv h us ps" and "mset ps' = mset ps" and "mset us' = mset us"
  shows "tree_inv h us' ps'"
  using assms mset_eq_setD [OF assms(2)] mset_eq_setD [OF assms(3)]
    mset_eq_imp_distinct_iff [OF assms(2)] mset_eq_imp_distinct_iff [OF assms(3)]
  by (simp add: tree_inv_def registered_ok_def)

lemma tree_invD:
  assumes "tree_inv h us ps" and "t < length h"
  shows "token_ok (h ! t)" "children_ok h t" "registered_ok h ps t"
  using assms by (simp_all add: tree_inv_def)

lemma child_facts:
  assumes "tree_inv h us ps" and "p < length h" and "c \<in> set (tk_children (h ! p))"
  obtains i where "i < length (tk_children (h ! p))" "c = tk_children (h ! p) ! i" "c < length h"
    "tk_parent (h ! c) = Some p" "tk_parentIdx (h ! c) = int i" "p < c"
proof -
  obtain i where i: "i < length (tk_children (h ! p))" "c = tk_children (h ! p) ! i"
    using assms(3) by (auto simp: in_set_conv_nth)
  then have c: "c < length h" "tk_parent (h ! c) = Some p" "tk_parentIdx (h ! c) = int i"
    using tree_invD(2) [OF assms(1,2)] by (auto simp: children_ok_def Let_def)
  moreover have "p < c"
    using tree_invD(3) [OF assms(1) c(1)] c(2) by (simp add: registered_ok_def)
  ultimately show thesis
    using that i by blast
qed

lemma distinct_children:
  assumes "tree_inv h us ps" and "p < length h"
  shows "distinct (tk_children (h ! p))"
  using tree_invD(2) [OF assms] by (auto simp: distinct_conv_nth children_ok_def Let_def) (metis of_nat_eq_iff)

text \<open>A token leaves the queues once it is canceled.\<close>

lemma tree_inv_done:
  assumes "tree_inv h us (d # ps)" and "tk_err (h ! d) \<noteq> None"
  shows "tree_inv h us ps"
proof -
  have "registered_ok h ps t" if "t < length h" for t
    using tree_invD(3) [OF assms(1) that] assms(2) by (auto simp: registered_ok_def)
  then show ?thesis
    using assms(1) by (simp add: tree_inv_def)
qed

text \<open>Canceling a live token moves its children to the queues.\<close>

definition canceled :: "nat \<Rightarrow> 'e \<Rightarrow> 'e heap \<Rightarrow> 'e heap" where
  "canceled t e h = h[t := (h ! t)\<lparr>tk_err := Some e, tk_done := True, tk_children := []\<rparr>]"

lemma nth_list_update': "xs[i := x] ! j = (if i = j \<and> i < length xs then x else xs ! j)"
  by (cases "i < length xs") (auto simp: nth_list_update_neq list_update_beyond)

lemma canceled_simps [simp]:
  "length (canceled t e h) = length h"
  "tk_parent (canceled t e h ! u) = tk_parent (h ! u)"
  "tk_parentIdx (canceled t e h ! u) = tk_parentIdx (h ! u)"
  "t < length h \<Longrightarrow> tk_err (canceled t e h ! u) = (if u = t then Some e else tk_err (h ! u))"
  "t < length h \<Longrightarrow> tk_children (canceled t e h ! u) = (if u = t then [] else tk_children (h ! u))"
  "t < length h \<Longrightarrow> tk_done (canceled t e h ! u) = (u = t \<or> tk_done (h ! u))"
  by (auto simp: canceled_def nth_list_update' list_update_beyond)

lemma pending_ok_canceled:
  assumes "pending_ok h d" and "t < length h"
  shows "pending_ok (canceled t e h) d"
proof -
  obtain p where "d < length h" "tk_parent (h ! d) = Some p" "p < length h" "tk_err (h ! p) \<noteq> None"
    using assms(1) by (auto simp: pending_ok_def)
  then show ?thesis
    using assms(2) by (simp add: pending_ok_def)
qed

lemma unreg_ok_canceled:
  assumes "unreg_ok h u" and "t < length h"
  shows "unreg_ok (canceled t e h) u"
proof -
  obtain p where "u < length h" "tk_err (h ! u) \<noteq> None" "tk_parent (h ! u) = Some p"
      "tk_err (h ! p) = None \<longrightarrow> u \<in> set (tk_children (h ! p))"
    using assms(1) by (auto simp: unreg_ok_def)
  then show ?thesis
    using assms(2) by (simp add: unreg_ok_def)
qed

lemma tree_inv_cancel:
  assumes inv: "tree_inv h us ps" and t: "t < length h" "tk_err (h ! t) = None"
  shows "tree_inv (canceled t e h) us (ps @ tk_children (h ! t))"
proof -
  let ?h = "canceled t e h" and ?cs = "tk_children (h ! t)"
  have kids: "pending_ok ?h c" "c \<notin> set ps" if c: "c \<in> set ?cs" for c
  proof -
    have "c < length h" "tk_parent (h ! c) = Some t" "t < c"
      using child_facts [OF inv t(1) c] by metis+
    then show "pending_ok ?h c" "c \<notin> set ps"
      using t inv by (auto simp: pending_ok_def tree_inv_def)
  qed
  moreover have "token_ok (?h ! u) \<and> children_ok ?h u \<and> registered_ok ?h (ps @ ?cs) u" if u: "u < length h" for u
  proof -
    have "p < length h" if "tk_parent (h ! u) = Some p" for p
      using tree_invD(3) [OF inv u] that u by (auto simp: registered_ok_def)
    then have "registered_ok ?h (ps @ ?cs) u"
      using tree_invD(3) [OF inv u] t by (auto simp: registered_ok_def split: if_splits)
    then show ?thesis
      using tree_invD(1,2) [OF inv u] t by (auto simp: token_ok_def children_ok_def Let_def)
  qed
  moreover have "pending_ok ?h d" if "d \<in> set ps" for d
    using that inv by (auto simp: tree_inv_def intro!: pending_ok_canceled [OF _ t(1)])
  moreover have "unreg_ok ?h u" if "u \<in> set us" for u
    using that inv by (auto simp: tree_inv_def intro!: unreg_ok_canceled [OF _ t(1)])
  ultimately show ?thesis
    using inv distinct_children [OF inv t(1)] by (auto simp: tree_inv_def)
qed

section \<open>The critical sections keep the invariant\<close>

lemma pending_bound:
  assumes "tree_inv h us ps"
  shows "int (length ps) \<le> MaxInt"
proof -
  have "set ps \<subseteq> {..<length h}" "distinct ps"
    using assms by (auto simp: tree_inv_def pending_ok_def)
  then have "length ps \<le> length h"
    by (metis card_lessThan card_mono distinct_card finite_lessThan)
  then show ?thesis
    using assms by (simp add: tree_inv_def)
qed

lemma enqueue_each_push: "enqueue_each cs q = dq.push_each 0 cs q"
proof (induction cs arbitrary: q)
  case (Cons c cs)
  then have "enqueue_each cs = dq.push_each 0 cs"
    by (intro ext)
  then show ?case
    by simp
qed simp

text \<open>
  The whole of \<open>cancelSelfAndDetachChildren\<close>, seen from the queue \<open>q\<close> of the calling thread while
  the tokens \<open>before\<close> and \<open>after\<close> are in the queues of the other threads.
\<close>

lemma cancelSelf_spec:
  assumes inv: "tree_inv h us (before @ dq_abs q @ after)" and t: "t < length h" and q: "dq_inv q"
  shows "if tk_err (h ! t) \<noteq> None
         then cancelSelfAndDetachChildren t e q h = Inr (Result_AlreadyCanceled, q, h)
         else \<exists>q'. cancelSelfAndDetachChildren t e q h = Inr (Result_CanceledByUs, q', canceled t e h)
                \<and> dq_inv q' \<and> dq_abs q' = dq_abs q @ tk_children (h ! t)
                \<and> tree_inv (canceled t e h) us (before @ dq_abs q' @ after)"
proof (cases "tk_err (h ! t)")
  case (Some e')
  then show ?thesis
    by (simp add: cancelSelfAndDetachChildren_def detachChildren_def)
next
  case None
  let ?cs = "tk_children (h ! t)"
  have "tree_inv (canceled t e h) us ((before @ dq_abs q @ after) @ ?cs)"
    by (rule tree_inv_cancel [OF inv t None])
  then have inv': "tree_inv (canceled t e h) us (before @ (dq_abs q @ ?cs) @ after)"
    by (rule tree_inv_perm) simp_all
  have len: "int (length (dq_abs q) + length ?cs) \<le> MaxInt"
    using pending_bound [OF inv'] by simp
  obtain q1 where q1: "Deque_ReserveMore 0 (int (length ?cs)) q = Inr q1" "dq_inv q1" "dq_abs q1 = dq_abs q"
    using Deque_ReserveMore_spec [OF q, of "int (length ?cs)" 0] length_dq_abs [OF q] len by auto
  obtain q2 where q2: "enqueue_each ?cs q1 = Inr q2" "dq_inv q2" "dq_abs q2 = dq_abs q @ ?cs"
    using dq.push_each_spec [OF q1(2), of ?cs 0] len q1(3) by (auto simp: enqueue_each_push)
  have "\<not> tk_done (h ! t)"
    using tree_invD(1) [OF inv t] None by (simp add: token_ok_def)
  then show ?thesis
    using None q1(1) q2 inv'
    by (simp add: cancelSelfAndDetachChildren_def detachChildren_def canceled_def)
qed

text \<open>Removing a child by moving the last one into its place.\<close>

definition removed :: "nat \<Rightarrow> nat \<Rightarrow> 'e heap \<Rightarrow> 'e heap" where
  "removed p i h =
     (let cs = tk_children (h ! p); last = length cs - 1;
          h = (if i \<noteq> last then h[cs ! last := (h ! (cs ! last))\<lparr>tk_parentIdx := int i\<rparr>] else h)
      in h[p := (h ! p)\<lparr>tk_children := take last (cs[i := cs ! last])\<rparr>])"

lemma unregisterChild_removed:
  assumes inv: "tree_inv h us ps" and p: "p < length h" "tk_err (h ! p) = None"
    and i: "i < length (tk_children (h ! p))" "tk_children (h ! p) ! i = t"
  shows "unregisterChild p t h = Inr (removed p i h)"
proof -
  let ?cs = "tk_children (h ! p)"
  obtain k where k: "length ?cs = Suc k"
    using i(1) by (cases "length ?cs") auto
  have idx: "tk_parentIdx (h ! t) = int i"
    using tree_invD(2) [OF inv p(1)] i by (auto simp: children_ok_def Let_def)
  have "?cs ! k \<in> set ?cs"
    using k by simp
  then have m: "tk_parent (h ! (?cs ! k)) = Some p" "?cs ! k < length h" "p < ?cs ! k"
    using child_facts [OF inv p(1)] by metis+
  show ?thesis
  proof (cases "i = k")
    case True
    then have "take k (?cs[i := ?cs ! k]) = take k ?cs"
      by simp
    then show ?thesis
      using p i True idx k by (simp add: unregisterChild_def removed_def Let_def)
  next
    case False
    let ?m = "?cs ! k"
    have ne: "p \<noteq> ?m" "?m \<noteq> p" and ik: "i < k"
      using m(3) i(1) k False by auto
    have comm: "h[p := x, ?m := y, p := z] = h[?m := y, p := z]" for x y z
      using ne(1) by (metis list_update_overwrite list_update_swap)
    have steps: "slice_get ?cs (int i) = Inr t" "slice_get ?cs (int k) = Inr ?m"
      "slice_set ?cs (int i) ?m = Inr (?cs[i := ?m])"
      "slice_sub (?cs[i := ?m]) 0 (int k) = Inr (take k (?cs[i := ?m]))"
      using i k by simp_all
    show ?thesis
      using p(1) ne ik m(1)
      by (simp add: unregisterChild_def removed_def Let_def idx k steps p(2) comm nth_list_update')
  qed
qed

lemma removed_simps [simp]:
  "length (removed p i h) = length h"
  "tk_parent (removed p i h ! u) = tk_parent (h ! u)"
  "tk_err (removed p i h ! u) = tk_err (h ! u)"
  "tk_done (removed p i h ! u) = tk_done (h ! u)"
  by (auto simp: removed_def Let_def nth_list_update')

lemma removed_children:
  assumes "p < length h"
  shows "tk_children (removed p i h ! u) =
    (let cs = tk_children (h ! p); last = length cs - 1
     in if u = p then take last (cs[i := cs ! last]) else tk_children (h ! u))"
  using assms by (auto simp: removed_def Let_def nth_list_update')

lemma removed_parentIdx:
  assumes "tk_children (h ! p) ! (length (tk_children (h ! p)) - 1) < length h"
  shows "tk_parentIdx (removed p i h ! u) =
    (let cs = tk_children (h ! p); last = length cs - 1
     in if i \<noteq> last \<and> u = cs ! last then int i else tk_parentIdx (h ! u))"
  using assms by (auto simp: removed_def Let_def nth_list_update')

lemma set_swap_remove:
  assumes "i < length cs" and "distinct cs"
  shows "set (take (length cs - 1) (cs[i := cs ! (length cs - 1)])) = set cs - {cs ! i}"
proof -
  obtain ys z where cs: "cs = ys @ [z]"
    using assms(1) by (cases cs rule: rev_cases) auto
  show ?thesis
  proof (cases "i < length ys")
    case True
    then have "set (ys[i := z]) = insert z (set ys - {ys ! i})"
      using assms(2) cs by (intro set_update_distinct) auto
    then show ?thesis
      using True assms(2) cs by (auto simp: nth_append list_update_append in_set_conv_nth)
  next
    case False
    then show ?thesis
      using assms cs by (auto simp: nth_append list_update_append)
  qed
qed

lemma removed_size:
  assumes "p < length h"
  shows "length (concat (map tk_children (removed p i h))) \<le> length (concat (map tk_children h))"
proof -
  have "length (tk_children (removed p i h ! u)) \<le> length (tk_children (h ! u))" for u
    using assms by (simp add: removed_children Let_def)
  then have "(\<Sum>u < length h. length (tk_children (removed p i h ! u))) \<le> (\<Sum>u < length h. length (tk_children (h ! u)))"
    by (intro sum_mono)
  then show ?thesis
    by (simp add: length_concat sum_list_sum_nth atLeast0LessThan)
qed

lemma tree_inv_removed:
  assumes inv: "tree_inv h (t # us) ps" and parent: "tk_parent (h ! t) = Some p"
    and i: "i < length (tk_children (h ! p))" "t = tk_children (h ! p) ! i"
    and p: "p < length h" "tk_err (h ! p) = None"
    and last: "tk_children (h ! p) ! (length (tk_children (h ! p)) - 1) < length h"
      "tk_parent (h ! (tk_children (h ! p) ! (length (tk_children (h ! p)) - 1))) = Some p"
    and set: "set (tk_children (removed p i h ! p)) = set (tk_children (h ! p)) - {t}"
  shows "tree_inv (removed p i h) us ps"
proof -
  let ?h = "removed p i h" and ?cs = "tk_children (h ! p)"
  have t: "t < length h" "tk_err (h ! t) \<noteq> None" "t \<notin> set us"
    using inv by (auto simp: tree_inv_def unreg_ok_def)
  have kids: "tk_children (?h ! u) = tk_children (h ! u)" if "u \<noteq> p" for u
    using that p(1) by (simp add: removed_children Let_def)
  have mem: "x \<in> set (tk_children (?h ! u)) \<longleftrightarrow> x \<in> set (tk_children (h ! u)) \<and> (u = p \<longrightarrow> x \<noteq> t)" for x u
    using set kids by (cases "u = p") auto
  have "children_ok ?h u" if u: "u < length h" for u
  proof (cases "u = p")
    case True
    have "?cs ! j \<noteq> ?cs ! (length ?cs - 1)" if "j < length ?cs - 1" for j
      using distinct_children [OF inv p(1)] that by (auto simp: nth_eq_iff_index_eq)
    then show ?thesis
      using True p(1) i(1) last tree_invD(2) [OF inv p(1)]
      by (auto simp: children_ok_def removed_children removed_parentIdx nth_list_update Let_def)
  next
    case False
    then show ?thesis
      using tree_invD(2) [OF inv u] last
      by (auto simp: children_ok_def kids removed_parentIdx Let_def)
  qed
  moreover have "registered_ok ?h ps u" if u: "u < length h" for u
    using tree_invD(3) [OF inv u] t(2) by (auto simp: registered_ok_def mem)
  moreover have "unreg_ok ?h u" if "u \<in> set us" for u
  proof -
    have "unreg_ok h u" "u \<noteq> t"
      using that inv t(3) by (auto simp: tree_inv_def)
    then show ?thesis
      by (auto simp: unreg_ok_def mem)
  qed
  moreover have "token_ok (?h ! u)" if u: "u < length h" for u
    using tree_invD(1) [OF inv u] p kids by (cases "u = p") (auto simp: token_ok_def)
  ultimately show ?thesis
    using inv by (simp add: tree_inv_def pending_ok_def)
qed

lemma tree_inv_unregister:
  assumes inv: "tree_inv h (t # us) ps" and parent: "tk_parent (h ! t) = Some p"
  shows "\<exists>h'. unregisterChild p t h = Inr h' \<and> tree_inv h' us ps \<and> length h' = length h
           \<and> (\<forall>u. tk_err (h' ! u) = tk_err (h ! u) \<and> tk_parent (h' ! u) = tk_parent (h ! u))
           \<and> length (concat (map tk_children h')) \<le> length (concat (map tk_children h))"
  (is "\<exists>h'. ?ok h'")
proof -
  have t: "t < length h" "tk_err (h ! t) \<noteq> None" "t \<notin> set us"
    and reg: "tk_err (h ! p) = None \<longrightarrow> t \<in> set (tk_children (h ! p))"
    using inv parent by (auto simp: tree_inv_def unreg_ok_def)
  have p: "p < length h"
    using tree_invD(3) [OF inv t(1)] parent t(1) by (simp add: registered_ok_def)
  show ?thesis
  proof (cases "tk_err (h ! p)")
    case (Some e)
    then have "unregisterChild p t h = Inr h"
      using tree_invD(1) [OF inv p] by (simp add: unregisterChild_def token_ok_def)
    then show ?thesis
      using inv by (auto simp: tree_inv_def)
  next
    case None
    let ?cs = "tk_children (h ! p)"
    let ?l = "length ?cs - 1" and ?h = "\<lambda>i. removed p i h"
    from child_facts [OF inv p] reg None obtain i where i: "i < length ?cs" "t = ?cs ! i"
      by metis
    have un: "unregisterChild p t h = Inr (?h i)"
      using unregisterChild_removed [OF inv p None i(1)] i(2) by simp
    have "?cs ! ?l \<in> set ?cs"
      using i(1) by (intro nth_mem) linarith
    then have last: "?cs ! ?l < length h" "tk_parent (h ! (?cs ! ?l)) = Some p"
      using child_facts [OF inv p] by metis+
    have set: "set (tk_children (?h i ! p)) = set ?cs - {t}"
      using set_swap_remove [OF i(1) distinct_children [OF inv p]] i(2) by (simp add: removed_children [OF p] Let_def)
    have "tree_inv (?h i) us ps"
      by (rule tree_inv_removed [OF inv parent i p None last set])
    moreover have "length (concat (map tk_children (?h i))) \<le> length (concat (map tk_children h))"
      by (rule removed_size [OF p])
    ultimately show ?thesis
      using un by (intro exI [of _ "?h i"]) simp
  qed
qed

text \<open>Creating tokens.\<close>

lemma rawToken_Cancel_private:
  assumes "tk_err (h ! t) = None" and "\<not> tk_done (h ! t)" and "tk_children (h ! t) = []"
    and "tk_parent (h ! t) = None" and "t < length h"
  shows "rawToken_Cancel t (Some e) h = Some (Inr (Result_CanceledByUs, canceled t e h))"
proof -
  have len: "dq_len (NewDeque :: nat Deque) \<le> MaxInt"
    by (simp add: NewDeque_def MaxInt_def)
  obtain q1 where q1: "Deque_ReserveMore (0 :: nat) 0 NewDeque = Inr q1" "dq_inv q1" "dq_abs q1 = []"
    using Deque_ReserveMore_spec [OF NewDeque_spec(1), of 0 "0 :: nat"] len by (auto simp: NewDeque_spec(2))
  obtain q2 where "Deque_TryPopFront 0 q1 = Inr (None, q2)"
    using dq.try_pop_Nil [OF q1(2,3), of 0] by blast
  then have "drain e q1 h' = Some (Inr h')" for h' :: "'a heap"
    by (simp add: drain.simps)
  moreover have "cancelSelfAndDetachChildren t e NewDeque h = Inr (Result_CanceledByUs, q1, canceled t e h)"
    using assms(1-3) q1(1)
    by (simp add: cancelSelfAndDetachChildren_def detachChildren_def canceled_def)
  ultimately show ?thesis
    using assms(4) by (simp add: rawToken_Cancel_def)
qed

text \<open>A child of a live token is registered; a child of a canceled one is born canceled.\<close>

lemma newChildToken_live:
  assumes "p < length h" and "tk_err (h ! p) = None"
  shows "newChildToken (Some p) h = Some (Inr (length h,
    (h @ [\<lparr>tk_parent = Some p, tk_parentIdx = int (length (tk_children (h ! p))), tk_done = False,
           tk_children = [], tk_err = None\<rparr>])
      [p := (h ! p)\<lparr>tk_children := tk_children (h ! p) @ [length h]\<rparr>]))"
  using assms by (simp add: newChildToken_def registerChild_def Let_def nth_append list_update_append)

lemma newChildToken_dead:
  assumes "p < length h" and "tk_err (h ! p) = Some e"
  shows "newChildToken (Some p) h = Some (Inr (length h,
    h @ [\<lparr>tk_parent = None, tk_parentIdx = 0, tk_done = True, tk_children = [], tk_err = Some e\<rparr>]))"
proof -
  let ?k = "\<lparr>tk_parent = None, tk_parentIdx = 0, tk_done = False, tk_children = [], tk_err = None\<rparr>"
  have "rawToken_Cancel (length h) (Some e) (h @ [?k])
      = Some (Inr (Result_CanceledByUs, canceled (length h) e (h @ [?k])))"
    by (rule rawToken_Cancel_private) (simp_all add: nth_append)
  then show ?thesis
    using assms by (simp add: newChildToken_def registerChild_def nth_append list_update_append canceled_def)
qed

lemma children_lt:
  "tree_inv h us ps \<Longrightarrow> u < length h \<Longrightarrow> i < length (tk_children (h ! u)) \<Longrightarrow> tk_children (h ! u) ! i < length h"
  by (auto simp: tree_inv_def children_ok_def Let_def)

lemma tree_inv_append:
  assumes inv: "tree_inv h us ps" and "tk_parent k = None" and "token_ok k" and "tk_children k = []"
    and "int (length h) < MaxInt"
  shows "tree_inv (h @ [k]) us ps"
proof -
  have parent: "p < length h" if "u < length h" "tk_parent (h ! u) = Some p" for u p
    using tree_invD(3) [OF inv that(1)] that by (auto simp: registered_ok_def)
  have "token_ok ((h @ [k]) ! u) \<and> children_ok (h @ [k]) u \<and> registered_ok (h @ [k]) ps u"
    if "u < Suc (length h)" for u
  proof (cases "u < length h")
    case True
    have "children_ok (h @ [k]) u"
      using tree_invD(2) [OF inv True] children_lt [OF inv True] True
      by (auto simp: children_ok_def nth_append less_SucI Let_def)
    moreover have "registered_ok (h @ [k]) ps u"
      using tree_invD(3) [OF inv True] True parent [OF True] by (auto simp: registered_ok_def nth_append)
    ultimately show ?thesis
      using tree_invD(1) [OF inv True] True by (simp add: nth_append)
  next
    case False
    then have "u = length h"
      using that by simp
    then show ?thesis
      using assms(2-4) by (simp add: children_ok_def registered_ok_def)
  qed
  moreover have "pending_ok (h @ [k]) d" if "d \<in> set ps" for d
  proof -
    have "pending_ok h d"
      using that inv by (simp add: tree_inv_def)
    then show ?thesis
      by (auto simp: pending_ok_def nth_append)
  qed
  moreover have "unreg_ok (h @ [k]) u" if "u \<in> set us" for u
  proof -
    have "unreg_ok h u"
      using that inv by (simp add: tree_inv_def)
    then show ?thesis
      using parent by (auto simp: unreg_ok_def nth_append)
  qed
  ultimately show ?thesis
    using inv assms(5) by (simp add: tree_inv_def)
qed

lemma tree_inv_register:
  assumes inv: "tree_inv h us ps" and p: "p < length h" "tk_err (h ! p) = None" and "int (length h) < MaxInt"
    and h': "h' = (h @ [\<lparr>tk_parent = Some p, tk_parentIdx = int (length (tk_children (h ! p))), tk_done = False,
                        tk_children = [], tk_err = None\<rparr>])
                  [p := (h ! p)\<lparr>tk_children := tk_children (h ! p) @ [length h]\<rparr>]"
  shows "tree_inv h' us ps"
proof -
  let ?n = "length h"
  have len: "length h' = Suc ?n"
    by (simp add: h')
  have new: "tk_parent (h' ! ?n) = Some p" "tk_parentIdx (h' ! ?n) = int (length (tk_children (h ! p)))"
    "tk_done (h' ! ?n) = False" "tk_children (h' ! ?n) = []" "tk_err (h' ! ?n) = None"
    using p(1) by (simp_all add: h' nth_list_update')
  have old: "tk_parent (h' ! u) = tk_parent (h ! u)" "tk_parentIdx (h' ! u) = tk_parentIdx (h ! u)"
    "tk_err (h' ! u) = tk_err (h ! u)" "tk_done (h' ! u) = tk_done (h ! u)"
    "tk_children (h' ! u) = (if u = p then tk_children (h ! p) @ [?n] else tk_children (h ! u))"
    if "u < ?n" for u
    using that by (auto simp: h' nth_list_update' nth_append)
  have parent: "q < ?n" if "u < ?n" "tk_parent (h ! u) = Some q" for u q
    using tree_invD(3) [OF inv that(1)] that by (auto simp: registered_ok_def)
  have "token_ok (h' ! u) \<and> children_ok h' u \<and> registered_ok h' ps u" if "u < Suc ?n" for u
  proof (cases "u = ?n")
    case True
    then show ?thesis
      using p new by (simp add: inv_defs old)
  next
    case False
    then have u: "u < ?n"
      using that by simp
    have "token_ok (h' ! u)"
      using tree_invD(1) [OF inv u] p(2) by (auto simp: token_ok_def old u)
    moreover have "children_ok h' u"
      using tree_invD(2) [OF inv u] children_lt [OF inv u] new len
      by (auto simp: children_ok_def old u nth_append less_SucI less_Suc_eq Let_def)
    moreover have "registered_ok h' ps u"
      using tree_invD(3) [OF inv u] parent [OF u] by (auto simp: registered_ok_def old u)
    ultimately show ?thesis by blast
  qed
  moreover have "pending_ok h' d" if "d \<in> set ps" for d
  proof -
    have "pending_ok h d"
      using that inv by (simp add: tree_inv_def)
    then show ?thesis
      by (auto simp: pending_ok_def old len)
  qed
  moreover have "unreg_ok h' u" if "u \<in> set us" for u
  proof -
    have "unreg_ok h u"
      using that inv by (simp add: tree_inv_def)
    then show ?thesis
      using parent by (auto simp: unreg_ok_def old len)
  qed
  ultimately show ?thesis
    using inv assms(4) len by (simp add: tree_inv_def)
qed

section \<open>The invariant of the interleaved system\<close>

lemma pending_simps [simp]:
  "pending [] = []" "pending (th # ths) = dq_abs (thr_queue th) @ pending ths"
  "pending (xs @ ys) = pending xs @ pending ys"
  by (simp_all add: pending_def)

lemma unregs_simps [simp]:
  "unregs [] = []" "unregs (th # ths) = thr_unreg th @ unregs ths" "unregs (xs @ ys) = unregs xs @ unregs ys"
  by (simp_all add: unregs_def)

text \<open>
  What a step may do to the tokens that exist: their parent never changes, and an error once set
  stays. The size counts registered children and queued tokens.
\<close>

definition grows :: "'e heap \<Rightarrow> 'e heap \<Rightarrow> bool" where
  "grows h h' \<longleftrightarrow> length h \<le> length h' \<and> (\<forall>t < length h. tk_parent (h' ! t) = tk_parent (h ! t)
     \<and> (tk_err (h ! t) \<noteq> None \<longrightarrow> tk_err (h' ! t) = tk_err (h ! t)))"

lemma grows_refl [simp]: "grows h h"
  by (simp add: grows_def)

lemma grows_trans [trans]: "grows h h' \<Longrightarrow> grows h' h'' \<Longrightarrow> grows h h''"
  by (auto simp: grows_def)

lemma grows_canceled: "t < length h \<Longrightarrow> tk_err (h ! t) = None \<Longrightarrow> grows h (canceled t e h)"
  by (auto simp: grows_def)

definition heap_size :: "'e heap \<Rightarrow> nat" where
  "heap_size h = length (concat (map tk_children h))"

lemma heap_size_canceled:
  assumes "t < length h"
  shows "heap_size h = heap_size (canceled t e h) + length (tk_children (h ! t))"
proof -
  obtain xs k ys where h: "h = xs @ k # ys" "length xs = t"
    using assms id_take_nth_drop [of t h] by (metis length_take less_imp_le min.absorb2)
  then show ?thesis
    by (simp add: heap_size_def canceled_def list_update_append nth_append)
qed

fun thr_weight :: "'e Thread \<Rightarrow> nat" where
  "thr_weight (TUnregister t err q) = 2"
| "thr_weight (TDrain err q) = 1"

definition sys_measure :: "'e heap \<times> 'e Thread list \<Rightarrow> nat" where
  "sys_measure s = (case s of (h, ths) \<Rightarrow>
     heap_size h + length (pending ths) + sum_list (map thr_weight ths))"

text \<open>The error a thread propagates.\<close>

fun thr_err :: "'e Thread \<Rightarrow> 'e" where
  "thr_err (TUnregister t err q) = err"
| "thr_err (TDrain err q) = err"

text \<open>One step of a running \<open>Cancel\<close> never panics.\<close>

definition step_ok :: "'e Thread list \<Rightarrow> 'e Thread \<Rightarrow> 'e Thread list \<Rightarrow> 'e heap \<Rightarrow> 'e Thread list \<Rightarrow> 'e heap \<Rightarrow> bool" where
  "step_ok before th after h new h' \<longleftrightarrow>
     sys_inv (h', before @ new @ after) \<and> grows h h' \<and> length h' = length h
   \<and> (\<forall>u < length h. tk_err (h' ! u) \<noteq> tk_err (h ! u) \<longrightarrow>
        u \<in> set (dq_abs (thr_queue th)) \<and> tk_err (h' ! u) = Some (thr_err th))
   \<and> sys_measure (h', new) < sys_measure (h, [th])"

lemma unregister_step_ok:
  assumes "sys_inv (h, before @ TUnregister t e q # after)"
  shows "\<exists>new h'. thread_step (TUnregister t e q) h = Inr (new, h')
           \<and> step_ok before (TUnregister t e q) after h new h'"
proof -
  have inv: "tree_inv h (unregs before @ t # unregs after) (pending before @ dq_abs q @ pending after)"
    and qs: "\<forall>th \<in> set (before @ after). dq_inv (thr_queue th)" "dq_inv q"
    using assms by (auto simp: sys_inv_def)
  have inv': "tree_inv h (t # unregs before @ unregs after) (pending before @ dq_abs q @ pending after)"
    by (rule tree_inv_perm [OF inv]) simp_all
  then obtain p where p: "tk_parent (h ! t) = Some p"
    by (auto simp: tree_inv_def unreg_ok_def)
  obtain h' where h': "unregisterChild p t h = Inr h'" "length h' = length h"
      "tree_inv h' (unregs before @ unregs after) (pending before @ dq_abs q @ pending after)"
      "\<forall>u. tk_err (h' ! u) = tk_err (h ! u) \<and> tk_parent (h' ! u) = tk_parent (h ! u)"
      "heap_size h' \<le> heap_size h"
    using tree_inv_unregister [OF inv' p] unfolding heap_size_def by blast
  then have "thread_step (TUnregister t e q) h = Inr ([TDrain e q], h')"
    using p by simp
  moreover have "step_ok before (TUnregister t e q) after h [TDrain e q] h'"
    using h' qs by (auto simp: step_ok_def sys_inv_def grows_def sys_measure_def)
  ultimately show ?thesis
    by blast
qed

lemma drain_step_ok:
  assumes "sys_inv (h, before @ TDrain e q # after)"
  shows "\<exists>new h'. thread_step (TDrain e q) h = Inr (new, h') \<and> step_ok before (TDrain e q) after h new h'"
proof (cases "dq_abs q")
  case Nil
  have "dq_inv q"
    using assms by (simp add: sys_inv_def)
  then obtain q' where "Deque_TryPopFront 0 q = Inr (None, q')"
    using dq.try_pop_Nil [OF _ Nil, of 0] by blast
  then show ?thesis
    using assms Nil by (simp add: step_ok_def sys_inv_def sys_measure_def)
next
  case (Cons d ds)
  have inv: "tree_inv h (unregs before @ unregs after) (pending before @ (d # ds) @ pending after)"
    and q: "dq_inv q" and qs: "\<forall>th \<in> set (before @ after). dq_inv (thr_queue th)"
    using assms Cons by (auto simp: sys_inv_def)
  obtain q1 where q1: "Deque_TryPopFront 0 q = Inr (Some d, q1)" "dq_inv q1" "dq_abs q1 = ds"
    using dq.try_pop_Cons [OF q Cons, of 0] by blast
  have d: "d < length h"
    using inv by (auto simp: tree_inv_def pending_ok_def)
  have front: "tree_inv h (unregs before @ unregs after) ((d # pending before) @ dq_abs q1 @ pending after)"
    by (rule tree_inv_perm [OF inv]) (simp_all add: q1(3))
  show ?thesis
  proof (cases "tk_err (h ! d)")
    case (Some e')
    have "cancelSelfAndDetachChildren d e q1 h = Inr (Result_AlreadyCanceled, q1, h)"
      using cancelSelf_spec [OF front d q1(2), of e] Some by simp
    then have "thread_step (TDrain e q) h = Inr ([TDrain e q1], h)"
      using q1(1) by simp
    moreover have "tree_inv h (unregs before @ unregs after) (pending before @ dq_abs q1 @ pending after)"
      using tree_inv_done [of h _ d] front Some by simp
    then have "step_ok before (TDrain e q) after h [TDrain e q1] h"
      using qs q1(2,3) Cons by (auto simp: step_ok_def sys_inv_def sys_measure_def)
    ultimately show ?thesis
      by blast
  next
    case None
    obtain q2 where q2: "cancelSelfAndDetachChildren d e q1 h = Inr (Result_CanceledByUs, q2, canceled d e h)"
        "dq_inv q2" "dq_abs q2 = ds @ tk_children (h ! d)"
        "tree_inv (canceled d e h) (unregs before @ unregs after) ((d # pending before) @ dq_abs q2 @ pending after)"
      using cancelSelf_spec [OF front d q1(2), of e] None q1(3) by auto
    then have "thread_step (TDrain e q) h = Inr ([TDrain e q2], canceled d e h)"
      using q1(1) by simp
    moreover have "tree_inv (canceled d e h) (unregs before @ unregs after) (pending before @ dq_abs q2 @ pending after)"
      using tree_inv_done [of "canceled d e h" _ d] q2(4) d by simp
    then have "step_ok before (TDrain e q) after h [TDrain e q2] (canceled d e h)"
      using qs q2(2,3) Cons d None grows_canceled [OF d None] heap_size_canceled [OF d, of e]
      by (auto simp: step_ok_def sys_inv_def sys_measure_def)
    ultimately show ?thesis
      by blast
  qed
qed

lemma thread_step_ok:
  "sys_inv (h, before @ th # after) \<Longrightarrow>
     \<exists>new h'. thread_step th h = Inr (new, h') \<and> step_ok before th after h new h'"
  by (cases th) (use unregister_step_ok drain_step_ok in auto)

lemma cancel_start_ok:
  assumes "sys_inv (h, ths)" and t: "t < length h"
  shows "if tk_err (h ! t) \<noteq> None then cancel_start t e h = Inr ([], h)
         else \<exists>th. cancel_start t e h = Inr ([th], canceled t e h) \<and> sys_inv (canceled t e h, ths @ [th])
                \<and> thr_err th = e \<and> dq_abs (thr_queue th) = tk_children (h ! t)
                \<and> (case th of TUnregister t' _ _ \<Rightarrow> t' = t \<and> tk_parent (h ! t) \<noteq> None | TDrain _ _ \<Rightarrow> tk_parent (h ! t) = None)"
proof -
  have inv: "tree_inv h (unregs ths) (pending ths @ dq_abs NewDeque @ [])"
    and qs: "\<forall>th \<in> set ths. dq_inv (thr_queue th)"
    using assms by (auto simp: sys_inv_def NewDeque_spec)
  show ?thesis
  proof (cases "tk_err (h ! t)")
    case (Some e')
    then show ?thesis
      using cancelSelf_spec [OF inv t NewDeque_spec(1), of e] by (simp add: cancel_start_def)
  next
    case None
    obtain q where q: "cancelSelfAndDetachChildren t e NewDeque h = Inr (Result_CanceledByUs, q, canceled t e h)"
        "dq_inv q" "dq_abs q = tk_children (h ! t)"
        "tree_inv (canceled t e h) (unregs ths) (pending ths @ dq_abs q)"
      using cancelSelf_spec [OF inv t NewDeque_spec(1), of e] None by (auto simp: NewDeque_spec)
    show ?thesis
    proof (cases "tk_parent (h ! t)")
      case None
      then show ?thesis
        using q qs \<open>tk_err (h ! t) = None\<close> by (simp add: cancel_start_def sys_inv_def)
    next
      case (Some p)
      have "t \<notin> set (unregs ths)"
        using inv \<open>tk_err (h ! t) = None\<close> by (auto simp: tree_inv_def unreg_ok_def)
      moreover have "p < t" "tk_err (h ! p) = None \<longrightarrow> t \<in> set (tk_children (h ! p))"
        using tree_invD(3) [OF inv t] Some \<open>tk_err (h ! t) = None\<close> by (auto simp: registered_ok_def)
      then have "unreg_ok (canceled t e h) t"
        using t Some by (simp add: unreg_ok_def)
      ultimately have "tree_inv (canceled t e h) (unregs ths @ [t]) (pending ths @ dq_abs q)"
        using q(4) by (simp add: tree_inv_def)
      then show ?thesis
        using q qs Some \<open>tk_err (h ! t) = None\<close> by (simp add: cancel_start_def sys_inv_def)
    qed
  qed
qed

lemma new_token_ok:
  assumes "sys_inv (h, ths)" and "int (length h) < MaxInt" and "\<And>p. parent = Some p \<Longrightarrow> p < length h"
  shows "\<exists>h'. newChildToken parent h = Some (Inr (length h, h')) \<and> sys_inv (h', ths) \<and> grows h h'
           \<and> length h' = Suc (length h)"
proof -
  have inv: "tree_inv h (unregs ths) (pending ths)" and qs: "\<forall>th \<in> set ths. dq_inv (thr_queue th)"
    using assms by (auto simp: sys_inv_def)
  have app: "sys_inv (h @ [k], ths)"
    if "tk_parent k = None" "token_ok k" "tk_children k = []" for k
    using tree_inv_append [OF inv that assms(2)] qs by (simp add: sys_inv_def)
  have grows: "grows h (h @ [k])" for k
    by (simp add: grows_def nth_append)
  show ?thesis
  proof (cases parent)
    case None
    then show ?thesis
      using app grows by (simp add: newChildToken_def token_ok_def)
  next
    case (Some p)
    then have p: "p < length h"
      using assms(3) by simp
    show ?thesis
    proof (cases "tk_err (h ! p)")
      case (Some e)
      then show ?thesis
        using app grows newChildToken_dead [OF p Some] \<open>parent = Some p\<close> by (simp add: token_ok_def)
    next
      case None
      let ?h = "(h @ [\<lparr>tk_parent = Some p, tk_parentIdx = int (length (tk_children (h ! p))), tk_done = False,
           tk_children = [], tk_err = None\<rparr>])
             [p := (h ! p)\<lparr>tk_children := tk_children (h ! p) @ [length h]\<rparr>]"
      have "grows h ?h"
        by (auto simp: grows_def nth_list_update' nth_append)
      then show ?thesis
        using newChildToken_live [OF p None] tree_inv_register [OF inv p None assms(2) refl] qs \<open>parent = Some p\<close>
        by (simp add: sys_inv_def)
    qed
  qed
qed

lemma sys_step_inv:
  assumes "sys_step s s'" and "sys_inv s"
  shows "sys_inv s' \<and> grows (fst s) (fst s')"
  using assms
proof (induction rule: sys_step.induct)
  case (NewRoot h t h' ths)
  then have "length h' = Suc (length h)"
    by (auto simp: newChildToken_def)
  with NewRoot show ?case
    using new_token_ok [of h ths None] by auto
next
  case (NewChild p h t h' ths)
  then have "length h' = Suc (length h)"
    by (cases "tk_err (h ! p)") (auto simp: rawToken_NewChild_def newChildToken_live newChildToken_dead)
  with NewChild show ?case
    using new_token_ok [of h ths "Some p"] by (auto simp: rawToken_NewChild_def)
next
  case (CancelStart t h e new h' ths)
  then show ?case
    using cancel_start_ok [of h ths t e] grows_canceled [of t h e] by (auto split: if_splits)
next
  case (Run th h new h' before after)
  then show ?case
    using thread_step_ok [of h before th after] by (auto simp: step_ok_def)
qed

lemma reachable_inv: "reachable s \<Longrightarrow> sys_inv s"
proof (induction rule: reachable.induct)
  case Init
  then show ?case
    by (simp add: sys_inv_def tree_inv_def MaxInt_def)
qed (use sys_step_inv in blast)

section \<open>Sequential cancellation\<close>

text \<open>\<open>u\<close> is \<open>a\<close> or below it.\<close>

definition parent_rel :: "'e heap \<Rightarrow> (nat \<times> nat) set" where
  "parent_rel h = {(c, p). c < length h \<and> tk_parent (h ! c) = Some p}"

definition descends :: "'e heap \<Rightarrow> nat \<Rightarrow> nat \<Rightarrow> bool" where
  "descends h a u \<longleftrightarrow> (u, a) \<in> (parent_rel h)\<^sup>*"

lemma descends_refl [simp]: "descends h a a"
  by (simp add: descends_def)

lemma descends_child: "c < length h \<Longrightarrow> tk_parent (h ! c) = Some a \<Longrightarrow> descends h c u \<Longrightarrow> descends h a u"
  unfolding descends_def parent_rel_def by (rule rtrancl_into_rtrancl) auto

lemma parent_rel_cong:
  "length h' = length h \<Longrightarrow> (\<And>u. u < length h \<Longrightarrow> tk_parent (h' ! u) = tk_parent (h ! u)) \<Longrightarrow>
     parent_rel h' = parent_rel h"
  by (auto simp: parent_rel_def)

lemma grows_parent_rel: "grows h h' \<Longrightarrow> length h' = length h \<Longrightarrow> parent_rel h' = parent_rel h"
  by (rule parent_rel_cong) (auto simp: grows_def)

text \<open>When nothing is pending, cancellation has reached every descendant.\<close>

lemma quiescent_closed:
  assumes "sys_inv (h, [])" and "descends h a u" and "u < length h" and "tk_err (h ! a) \<noteq> None"
  shows "tk_err (h ! u) \<noteq> None"
  using assms(2) unfolding descends_def
proof (induction rule: converse_rtrancl_induct)
  case base
  then show ?case by (rule assms(4))
next
  case (step c p)
  then have c: "c < length h" "tk_parent (h ! c) = Some p"
    by (auto simp: parent_rel_def)
  have "tree_inv h [] []"
    using assms(1) by (simp add: sys_inv_def)
  then have "registered_ok h [] c"
    using c(1) by (rule tree_invD(3))
  then show ?case
    using c step.IH by (auto simp: registered_ok_def)
qed

text \<open>The loop ends, and cancels only descendants of the queued tokens, with the given error.\<close>

lemma drain_returns:
  assumes "sys_inv (h, [TDrain e q])"
  shows "\<exists>h'. drain e q h = Some (Inr h') \<and> sys_inv (h', []) \<and> grows h h' \<and> length h' = length h
           \<and> (\<forall>u < length h. tk_err (h' ! u) \<noteq> tk_err (h ! u) \<longrightarrow>
                tk_err (h' ! u) = Some e \<and> (\<exists>d \<in> set (dq_abs q). descends h d u))"
  using assms
proof (induction "sys_measure (h, [TDrain e q])" arbitrary: h q rule: less_induct)
  case less
  have q: "dq_inv q" and inv: "tree_inv h [] (dq_abs q)"
    using less.prems by (simp_all add: sys_inv_def)
  show ?case
  proof (cases "dq_abs q")
    case Nil
    then obtain q' where "Deque_TryPopFront 0 q = Inr (None, q')"
      using dq.try_pop_Nil [OF q, of 0] by blast
    then show ?thesis
      using inv Nil by (simp add: drain.simps sys_inv_def)
  next
    case (Cons d ds)
    then obtain q1 where q1: "Deque_TryPopFront 0 q = Inr (Some d, q1)" "dq_inv q1" "dq_abs q1 = ds"
      using dq.try_pop_Cons [OF q, of d ds 0] by blast
    have d: "d < length h"
      using inv Cons by (simp add: tree_inv_def pending_ok_def)
    obtain new h1 where st: "thread_step (TDrain e q) h = Inr (new, h1)"
        "step_ok [] (TDrain e q) [] h new h1"
      using drain_step_ok [of h "[]" e q "[]"] less.prems by auto
    obtain r q2 where cs: "cancelSelfAndDetachChildren d e q1 h = Inr (r, q2, h1)" "new = [TDrain e q2]"
      using st(1) q1(1) by (cases "cancelSelfAndDetachChildren d e q1 h") auto
    have unf: "drain e q h = drain e q2 h1"
      using q1(1) cs(1) by (subst drain.simps) simp
    have kids: "dq_abs q2 = ds \<or> dq_abs q2 = ds @ tk_children (h ! d)"
      using cancelSelf_spec [of h "[]" "[d]" q1 "[]" d e] inv Cons q1 d cs(1) by (auto split: if_splits)
    have s1: "sys_inv (h1, [TDrain e q2])" "grows h h1" "length h1 = length h"
      "sys_measure (h1, [TDrain e q2]) < sys_measure (h, [TDrain e q])"
      using st(2) cs(2) by (simp_all add: step_ok_def)
    have ch1: "tk_err (h1 ! u) = Some e \<and> u \<in> set (d # ds)"
      if "u < length h" "tk_err (h1 ! u) \<noteq> tk_err (h ! u)" for u
      using st(2) that Cons by (auto simp: step_ok_def)
    obtain h' where h': "drain e q2 h1 = Some (Inr h')" "sys_inv (h', [])" "grows h1 h'" "length h' = length h1"
        "\<forall>u < length h1. tk_err (h' ! u) \<noteq> tk_err (h1 ! u) \<longrightarrow>
           tk_err (h' ! u) = Some e \<and> (\<exists>d \<in> set (dq_abs q2). descends h1 d u)"
      using less.hyps [OF s1(4,1)] by blast
    have "tk_err (h' ! u) = Some e \<and> (\<exists>d' \<in> set (d # ds). descends h d' u)"
      if u: "u < length h" "tk_err (h' ! u) \<noteq> tk_err (h ! u)" for u
    proof (cases "tk_err (h' ! u) = tk_err (h1 ! u)")
      case True
      then show ?thesis
        using ch1 u by (metis descends_refl)
    next
      case False
      then obtain d' where d': "tk_err (h' ! u) = Some e" "d' \<in> set (dq_abs q2)" "descends h d' u"
        using h'(5) u(1) s1(3) grows_parent_rel [OF s1(2,3)] by (auto simp: descends_def)
      show ?thesis
      proof (cases "d' \<in> set ds")
        case False
        then have "d' \<in> set (tk_children (h ! d))"
          using d'(2) kids by auto
        then have "d' < length h" "tk_parent (h ! d') = Some d"
          using child_facts [OF inv d] by metis+
        then have "descends h d u"
          using d'(3) descends_child by blast
        with d'(1) show ?thesis by simp
      qed (use d' in auto)
    qed
    then show ?thesis
      using unf h'(1-4) s1(2,3) Cons grows_trans by (intro exI [of _ h']) auto
  qed
qed

lemma cancel_result:
  assumes inv: "sys_inv (h, [])" and t: "t < length h" "tk_err (h ! t) = None" and u: "u < length h"
    and h1: "length h1 = length h" "\<forall>u < length h. tk_err (h1 ! u) = tk_err (canceled t e h ! u)"
    and h': "sys_inv (h', [])" "length h' = length h1"
      "\<forall>u < length h1. tk_err (h' ! u) \<noteq> tk_err (h1 ! u) \<longrightarrow>
         tk_err (h' ! u) = Some e \<and> (\<exists>d \<in> set cs. descends h1 d u)"
    and cs: "cs = tk_children (h ! t)"
    and rel: "parent_rel h1 = parent_rel h" "parent_rel h' = parent_rel h" and g: "grows h h'"
  shows "tk_err (h' ! u) = (if descends h t u \<and> tk_err (h ! u) = None then Some e else tk_err (h ! u))"
proof -
  have tree: "tree_inv h [] []"
    using inv by (simp add: sys_inv_def)
  have err_t: "tk_err (h' ! t) \<noteq> None"
    using h'(3) h1 t(1) by (metis canceled_simps(4) option.distinct(1))
  have change: "tk_err (h' ! u) = Some e \<and> descends h t u" if "tk_err (h' ! u) \<noteq> tk_err (h ! u)"
  proof (cases "tk_err (h' ! u) = tk_err (h1 ! u)")
    case True
    then show ?thesis
      using that h1(2) u t(1) by (auto split: if_splits)
  next
    case False
    then obtain d where "tk_err (h' ! u) = Some e" "d \<in> set cs" "descends h d u"
      using h'(3) u h1(1) rel(1) by (auto simp: descends_def)
    moreover from this have "d < length h" "tk_parent (h ! d) = Some t"
      using child_facts [OF tree t(1)] cs by metis+
    ultimately show ?thesis
      using descends_child by blast
  qed
  show ?thesis
  proof (cases "descends h t u \<and> tk_err (h ! u) = None")
    case True
    then have "tk_err (h' ! u) \<noteq> None"
      using quiescent_closed [OF h'(1), of t u] err_t u h'(2) h1(1) rel(2) by (simp add: descends_def)
    then show ?thesis
      using change True by auto
  next
    case False
    then show ?thesis
      using change g u by (auto simp: grows_def)
  qed
qed

lemma rawToken_Cancel_spec:
  assumes "sys_inv (h, [])" and t: "t < length h" and alive: "tk_err (h ! t) = None"
  shows "\<exists>h'. rawToken_Cancel t (Some e) h = Some (Inr (Result_CanceledByUs, h')) \<and> sys_inv (h', [])
           \<and> length h' = length h \<and> grows h h'
           \<and> (\<forall>u < length h. tk_err (h' ! u) =
                (if descends h t u \<and> tk_err (h ! u) = None then Some e else tk_err (h ! u)))"
proof -
  let ?h0 = "canceled t e h"
  have g0: "grows h ?h0"
    by (rule grows_canceled [OF t alive])
  obtain th where th: "cancel_start t e h = Inr ([th], ?h0)" "sys_inv (?h0, [th])" "thr_err th = e"
      "dq_abs (thr_queue th) = tk_children (h ! t)"
      "case th of TUnregister t' _ _ \<Rightarrow> t' = t \<and> tk_parent (h ! t) \<noteq> None | TDrain _ _ \<Rightarrow> tk_parent (h ! t) = None"
    using cancel_start_ok [OF assms(1) t, of e] alive by auto
  obtain q where q: "cancelSelfAndDetachChildren t e NewDeque h = Inr (Result_CanceledByUs, q, ?h0)"
      "th = (case tk_parent (h ! t) of None \<Rightarrow> TDrain e q | Some p \<Rightarrow> TUnregister t e q)"
    using th(1) t
    by (auto simp: cancel_start_def go_bind_Inr_iff split: option.splits CancelResult.splits)
  obtain h1 where h1: "(case tk_parent (?h0 ! t) of None \<Rightarrow> Inr ?h0 | Some p \<Rightarrow> unregisterChild p t ?h0) = Inr h1"
      "sys_inv (h1, [TDrain e q])" "grows ?h0 h1" "length h1 = length h"
      "\<forall>u < length h. tk_err (h1 ! u) = tk_err (?h0 ! u)"
  proof (cases "tk_parent (h ! t)")
    case None
    then show thesis
      using that [of ?h0] th(2) q(2) by simp
  next
    case (Some p)
    have "tree_inv ?h0 (t # []) (dq_abs q)" "dq_inv q"
      using th(2) q(2) Some by (simp_all add: sys_inv_def)
    from tree_inv_unregister [OF this(1), of p] this(2) Some that show thesis
      by (auto simp: sys_inv_def grows_def)
  qed
  obtain h' where h': "drain e q h1 = Some (Inr h')" "sys_inv (h', [])" "grows h1 h'" "length h' = length h1"
      "\<forall>u < length h1. tk_err (h' ! u) \<noteq> tk_err (h1 ! u) \<longrightarrow>
         tk_err (h' ! u) = Some e \<and> (\<exists>d \<in> set (dq_abs q). descends h1 d u)"
    using drain_returns [OF h1(2)] by blast
  have g: "grows h h'" and rel: "parent_rel h1 = parent_rel h" "parent_rel h' = parent_rel h"
    using g0 h1(3,4) h'(3,4) grows_trans grows_parent_rel by (metis canceled_simps(1))+
  have q_abs: "dq_abs q = tk_children (h ! t)"
    using th(4) q(2) by (cases "tk_parent (h ! t)") auto
  have "tk_err (h' ! u) = (if descends h t u \<and> tk_err (h ! u) = None then Some e else tk_err (h ! u))"
    if u: "u < length h" for u
    using cancel_result [OF assms(1) t alive u h1(4,5) h'(2,4,5) q_abs rel g] .
  moreover have "rawToken_Cancel t (Some e) h = Some (Inr (Result_CanceledByUs, h'))"
    using q(1) h1(1) h'(1) by (simp add: rawToken_Cancel_def)
  ultimately show ?thesis
    using h'(2,4) h1(4) g by auto
qed

lemma grows_steps: "sys_step\<^sup>*\<^sup>* s s' \<Longrightarrow> sys_inv s \<Longrightarrow> sys_inv s' \<and> grows (fst s) (fst s')"
proof (induction rule: rtranclp_induct)
  case (step y z)
  then show ?case
    using sys_step_inv grows_trans by blast
qed simp

lemma sys_measure_local:
  "sys_measure (h', new) < sys_measure (h, [th]) \<Longrightarrow>
     sys_measure (h', before @ new @ after) < sys_measure (h, before @ th # after)"
  by (simp add: sys_measure_def)

text \<open>Some small reachable states.\<close>

abbreviation fresh_root :: "'e rawToken" where
  "fresh_root \<equiv> \<lparr>tk_parent = None, tk_parentIdx = 0, tk_done = False, tk_children = [], tk_err = None\<rparr>"

lemma reachable_root: "reachable ([fresh_root], [])"
proof -
  have "sys_step ([], []) ([fresh_root :: 'a rawToken], [])"
    by (rule sys_step.NewRoot [of _ 0]) (simp_all add: newChildToken_def MaxInt_def)
  then show ?thesis
    using reachable.Init reachable.Step by blast
qed

lemma reachable_pair:
  "\<exists>h. reachable (h, []) \<and> length h = 2 \<and> tk_parent (h ! 1) = Some 0
     \<and> tk_err (h ! 0) = None \<and> tk_err (h ! 1) = None"
proof -
  let ?h = "[fresh_root\<lparr>tk_children := [1]\<rparr>,
             \<lparr>tk_parent = Some 0, tk_parentIdx = 0, tk_done = False, tk_children = [], tk_err = None\<rparr> :: 'a rawToken]"
  have "sys_step ([fresh_root], []) (?h, [])"
    by (rule sys_step.NewChild [of 0 _ 1])
       (simp_all add: rawToken_NewChild_def newChildToken_live MaxInt_def)
  then have "reachable (?h, [])"
    using reachable_root reachable.Step by blast
  then show ?thesis
    by (intro exI [of _ ?h]) simp
qed

lemma reachable_canceled: "\<exists>th. reachable (canceled 0 e [fresh_root], [th])"
proof -
  obtain th where "cancel_start 0 e [fresh_root] = Inr ([th], canceled 0 e [fresh_root])"
    using cancel_start_ok [OF reachable_inv [OF reachable_root], of 0 e] by auto
  then show ?thesis
    using sys_step.CancelStart [of 0 "[fresh_root]" e "[th]" _ "[]"] reachable_root reachable.Step
    by fastforce
qed

section \<open>Properties\<close>

text \<open>
  C3. No interleaving of \<open>Cancel\<close> and \<open>NewChild\<close> calls reaches one of the assertions of
  \<^verbatim>\<open>token.go\<close>, the double close of a channel or a deque pre-condition: every next step of a running
  call succeeds, and so do starting a \<open>Cancel\<close> and creating a child on any existing token.
\<close>

theorem cancel_never_panics:
  assumes "reachable (h, ths)"
  shows "(\<forall>th \<in> set ths. is_ok (thread_step th h))
       \<and> (\<forall>t < length h. is_ok (cancel_start t e h))
       \<and> (\<forall>t < length h. int (length h) < MaxInt \<longrightarrow> (\<exists>r. rawToken_NewChild t h = Some (Inr r)))"
proof (intro conjI ballI allI impI)
  have inv: "sys_inv (h, ths)"
    using assms by (rule reachable_inv)
  show "is_ok (thread_step th h)" if "th \<in> set ths" for th
    using thread_step_ok inv split_list [OF that] by (metis is_ok.simps(2))
  show "is_ok (cancel_start t e h)" if "t < length h" for t
    using cancel_start_ok [OF inv that, of e] by (auto simp: is_ok_iff split: if_splits)
  show "\<exists>r. rawToken_NewChild t h = Some (Inr r)" if "t < length h" "int (length h) < MaxInt" for t
    using new_token_ok [OF inv that(2), of "Some t"] that(1) by (auto simp: rawToken_NewChild_def)
qed

theorem cancel_never_panics_witness:
  "reachable ([fresh_root], []) \<and> is_ok (cancel_start 0 ''late'' [fresh_root])"
  using cancel_never_panics [OF reachable_root, of "''late''"] reachable_root by auto

text \<open>
  Cancellation is final: along any further interleaving a canceled token keeps the error it
  was canceled with, and its \<open>done\<close> channel is closed exactly when it has an error.
\<close>

lemma cancel_is_final:
  assumes "reachable (h, ths)" and "sys_step\<^sup>*\<^sup>* (h, ths) (h', ths')" and "t < length h"
    and "rawToken_KeepGoing t h = Some e"
  shows "rawToken_KeepGoing t h' = Some e \<and> rawToken_Done t h'"
proof -
  have "sys_inv (h', ths')" "grows h h'"
    using grows_steps [OF assms(2)] reachable_inv [OF assms(1)] by auto
  moreover from this have "token_ok (h' ! t)"
    using assms(3) by (auto simp: sys_inv_def grows_def intro: tree_invD)
  ultimately show ?thesis
    using assms(3,4) by (auto simp: rawToken_KeepGoing_def rawToken_Done_def grows_def token_ok_def)
qed

text \<open>
  C22. Cancellation propagates and the propagation ends: whenever no \<open>Cancel\<close> call is running, every
  descendant of a canceled token is canceled; and every step of a running call decreases a
  measure, so that calls already running cannot run forever.
\<close>

theorem cancel_propagates:
  assumes "reachable (h, ths)"
  shows "(ths = [] \<and> t < length h \<and> u < length h \<and> descends h t u \<and> rawToken_KeepGoing t h \<noteq> None
            \<longrightarrow> rawToken_KeepGoing u h \<noteq> None)
       \<and> (\<forall>before th after new h'. ths = before @ th # after \<and> thread_step th h = Inr (new, h')
            \<longrightarrow> sys_measure (h', before @ new @ after) < sys_measure (h, ths))"
proof (intro conjI impI allI; elim conjE)
  have inv: "sys_inv (h, ths)"
    using assms by (rule reachable_inv)
  show "rawToken_KeepGoing u h \<noteq> None"
    if "ths = []" "u < length h" "descends h t u" "rawToken_KeepGoing t h \<noteq> None"
    using quiescent_closed [of h t u] inv that by (simp add: rawToken_KeepGoing_def)
  show "sys_measure (h', before @ new @ after) < sys_measure (h, ths)"
    if "ths = before @ th # after" "thread_step th h = Inr (new, h')" for before th after new h'
    using thread_step_ok [of h before th after] inv that by (auto simp: step_ok_def sys_measure_local)
qed

theorem cancel_propagates_witness:
  "\<exists>th new h'. reachable (canceled 0 ''late'' [fresh_root], [th])
     \<and> thread_step th (canceled 0 ''late'' [fresh_root]) = Inr (new, h')
     \<and> sys_measure (h', new) < sys_measure (canceled 0 ''late'' [fresh_root], [th])"
proof -
  let ?h = "canceled 0 ''late'' [fresh_root]"
  obtain th where th: "reachable (?h, [th])"
    using reachable_canceled [of "''late''"] by (rule exE)
  then have "sys_inv (?h, [] @ th # [])"
    using reachable_inv by simp
  then obtain new h' where st: "thread_step th ?h = Inr (new, h')"
    using thread_step_ok by blast
  have "sys_measure (h', [] @ new @ []) < sys_measure (?h, [th])"
    using cancel_propagates [OF th, of 0 0, THEN conjunct2, rule_format, of "[]" th "[]" new h'] st by simp
  with th st show ?thesis
    by auto
qed

text \<open>
  C23. A \<open>Cancel\<close> call on its own returns: an already canceled token is left as it is, and for a
  live token exactly the live tokens at or below it get the given error, all other tokens keep
  theirs. A nil error is the documented pre-condition violation.
\<close>

theorem rawToken_Cancel_correct:
  assumes "reachable (h, [])" and "t < length h"
  shows "\<exists>h'. rawToken_Cancel t (Some e) h =
              Some (Inr (if rawToken_KeepGoing t h = None then Result_CanceledByUs else Result_AlreadyCanceled, h'))
           \<and> length h' = length h
           \<and> (\<forall>u < length h. rawToken_KeepGoing u h' =
                (if descends h t u \<and> rawToken_KeepGoing t h = None \<and> rawToken_KeepGoing u h = None
                 then Some e else rawToken_KeepGoing u h))
           \<and> rawToken_Cancel t None h = Some (Inl (AssertionError
                ''precondition violation: Cancel called with nil error''))"
proof -
  have inv: "sys_inv (h, [])"
    using assms(1) by (rule reachable_inv)
  have nil: "rawToken_Cancel t None h =
      Some (Inl (AssertionError ''precondition violation: Cancel called with nil error''))"
    by (simp add: rawToken_Cancel_def assert_defs)
  show ?thesis
  proof (cases "tk_err (h ! t)")
    case None
    then show ?thesis
      using rawToken_Cancel_spec [OF inv assms(2) None, of e] nil by (auto simp: rawToken_KeepGoing_def)
  next
    case (Some e')
    then have "rawToken_Cancel t (Some e) h = Some (Inr (Result_AlreadyCanceled, h))"
      by (simp add: rawToken_Cancel_def cancelSelfAndDetachChildren_def detachChildren_def)
    with Some show ?thesis
      using nil by (simp add: rawToken_KeepGoing_def)
  qed
qed

theorem rawToken_Cancel_correct_witness:
  "\<exists>h h'. reachable (h, []) \<and> length h = 2 \<and> tk_parent (h ! 1) = Some 0
     \<and> rawToken_Cancel 0 (Some ''late'') h = Some (Inr (Result_CanceledByUs, h'))
     \<and> rawToken_KeepGoing 1 h' = Some ''late''"
proof -
  obtain h :: "string heap" where h: "reachable (h, [])" "length h = 2" "tk_parent (h ! 1) = Some 0"
      "tk_err (h ! 0) = None" "tk_err (h ! 1) = None"
    using reachable_pair by blast
  then have "descends h 0 1"
    using descends_child [of 1 h 0 1] by simp
  then show ?thesis
    using rawToken_Cancel_correct [OF h(1), of 0 "''late''"] h by (auto simp: rawToken_KeepGoing_def)
qed

end
