(* ===== verification/Clock_Token.thy ===== *)
theory Clock_Token
  imports Cancel
begin

text \<open>
  \<^verbatim>\<open>base/cancel/clock_token.go\<close> and \<^verbatim>\<open>cancel/deadline\<close>: cancellation tokens with deadlines, over the token trees of theory Cancel. An instant is a number of
  nanoseconds, 0 the zero value; \<open>Sub\<close> saturates at the bounds of a \<open>Duration\<close> as \<open>time.Time.Sub\<close> does. The scheduler is part of the state: the current
  instant and the functions scheduled by \<open>RunAfter\<close>, each of which cancels one token. \<open>None\<close> is a \<open>Cancel\<close> call that does not return, which theory Cancel excludes.
  Calls are atomic here; their interleaving is the subject of theory Cancel.
\<close>

section \<open>Instants\<close>

definition Instant_IsZero :: "int \<Rightarrow> bool" where
  "Instant_IsZero i \<longleftrightarrow> i = 0"

definition Instant_Add :: "int \<Rightarrow> int \<Rightarrow> int" where
  "Instant_Add i d = i + d"

definition Instant_Sub :: "int \<Rightarrow> int \<Rightarrow> int" where
  "Instant_Sub i other = (let d = i - other in if d > MaxInt then MaxInt else if d < - MaxInt - 1 then - MaxInt - 1 else d)"

definition Instant_IsBefore :: "int \<Rightarrow> int \<Rightarrow> bool" where
  "Instant_IsBefore i other \<longleftrightarrow> i < other"

section \<open>Deadlines\<close>

datatype DeadlineSourceKind =
    Source_AncestorTimeout | Source_AncestorAbsoluteDeadline | Source_InitializedWithTimeout | Source_InitializedWithAbsoluteDeadline

record DeadlineSource =
  ds_kind :: DeadlineSourceKind
  ds_ancestorLevel :: int

record Deadline =
  dl_instant :: int
  dl_source :: DeadlineSource

definition NewSource :: "DeadlineSourceKind \<Rightarrow> int \<Rightarrow> DeadlineSource outcome" where
  "NewSource kind ancestorLevel =
     go_bind (if kind = Source_InitializedWithTimeout \<or> kind = Source_InitializedWithAbsoluteDeadline
              then Preconditionf (ancestorLevel = 0) ''got ancestorLevel=%d for DeadlineSourceKind %v''
              else Preconditionf (ancestorLevel \<ge> 1) ''got ancestorLevel=%d for DeadlineSourceKind %v'') (\<lambda>_.
     Inr \<lparr>ds_kind = kind, ds_ancestorLevel = ancestorLevel\<rparr>)"

definition NewDeadline :: "int \<Rightarrow> DeadlineSource \<Rightarrow> Deadline" where
  "NewDeadline instant source = \<lparr>dl_instant = instant, dl_source = source\<rparr>"

definition ReinterpretForChild :: "Deadline \<Rightarrow> Deadline outcome" where
  "ReinterpretForChild d =
     (let source = dl_source d;
          (newSource, newDepth) =
            (case ds_kind source of
               Source_InitializedWithTimeout \<Rightarrow> (Source_AncestorTimeout, 1)
             | Source_InitializedWithAbsoluteDeadline \<Rightarrow> (Source_AncestorAbsoluteDeadline, 1)
             | kind \<Rightarrow> (kind, ds_ancestorLevel source + 1))
      in go_bind (NewSource newSource newDepth) (\<lambda>s. Inr (NewDeadline (dl_instant d) s)))"

section \<open>The scheduler\<close>

datatype 'e tokenErr = UserError 'e | DeadlineExceededError Deadline

record timer =
  tm_at :: int
  tm_child :: nat
  tm_deadline :: Deadline
  tm_pending :: bool

record clockToken =
  ct_child :: nat
  ct_deadline :: "Deadline option"
  ct_timer :: "nat option"

text \<open>\<open>wd_tokens\<close> records the clock tokens that were created, for the statements below.\<close>

record 'e world =
  wd_heap :: "'e tokenErr heap"
  wd_now :: int
  wd_timers :: "timer list"
  wd_tokens :: "clockToken list"

type_synonym ('a, 'e) action = "'e world \<Rightarrow> ('a \<times> 'e world) outcome option"

definition RunAfter :: "int \<Rightarrow> nat \<Rightarrow> Deadline \<Rightarrow> 'e world \<Rightarrow> nat \<times> 'e world" where
  "RunAfter d child deadline w =
     (length (wd_timers w),
      w\<lparr>wd_timers := wd_timers w @ [\<lparr>tm_at = wd_now w + d, tm_child = child, tm_deadline = deadline, tm_pending = True\<rparr>]\<rparr>)"

definition Stop :: "nat \<Rightarrow> 'e world \<Rightarrow> 'e world" where
  "Stop i w = w\<lparr>wd_timers := (wd_timers w)[i := (wd_timers w ! i)\<lparr>tm_pending := False\<rparr>]\<rparr>"

definition cancelChild :: "nat \<Rightarrow> 'e tokenErr option \<Rightarrow> (CancelResult, 'e) action" where
  "cancelChild t err w = map_option (\<lambda>r. go_bind r (\<lambda>(res, h). Inr (res, w\<lparr>wd_heap := h\<rparr>))) (rawToken_Cancel t err (wd_heap w))"

text \<open>The scheduler runs a function whose time has come.\<close>

definition fire :: "nat \<Rightarrow> (CancelResult, 'e) action" where
  "fire i w = cancelChild (tm_child (wd_timers w ! i)) (Some (DeadlineExceededError (tm_deadline (wd_timers w ! i)))) (Stop i w)"

definition due :: "'e world \<Rightarrow> nat \<Rightarrow> bool" where
  "due w i \<longleftrightarrow> i < length (wd_timers w) \<and> tm_pending (wd_timers w ! i) \<and> tm_at (wd_timers w ! i) \<le> wd_now w"

section \<open>Clock tokens\<close>

record CancelOption =
  co_timeout :: "int option"
  co_deadline :: "int option"

definition OnTimeout :: "int \<Rightarrow> CancelOption outcome" where
  "OnTimeout d =
     go_bind (Preconditionf (d \<ge> 0) ''duration must be >= 0, but got %v'') (\<lambda>_. Inr \<lparr>co_timeout = Some d, co_deadline = None\<rparr>)"

definition OnDeadline :: "int \<Rightarrow> CancelOption outcome" where
  "OnDeadline i =
     go_bind (Preconditionf (\<not> Instant_IsZero i) ''zero value for Instant indicates likely bug in caller'') (\<lambda>_.
     Inr \<lparr>co_timeout = None, co_deadline = Some i\<rparr>)"

definition soonest :: "Deadline option \<Rightarrow> Deadline \<Rightarrow> Deadline option" where
  "soonest lhs rhs =
     (case lhs of
        Some lhsDeadline \<Rightarrow> if \<not> Instant_IsBefore (dl_instant rhs) (dl_instant lhsDeadline) then lhs else Some rhs
      | None \<Rightarrow> Some rhs)"

text \<open>The loop over the options; \<open>now\<close> is what \<open>scheduler.GetInstant()\<close> returns, read at most once.\<close>

fun options_loop :: "int \<Rightarrow> CancelOption list \<Rightarrow> Deadline option \<Rightarrow> int option \<Rightarrow> (Deadline option \<times> int option) outcome" where
  "options_loop now [] tightest lazyNow = Inr (tightest, lazyNow)"
| "options_loop now (opt # opts) tightest lazyNow =
     (case (co_deadline opt, co_timeout opt) of
        (None, None) \<Rightarrow> go_bind (Precondition False ''got zero CancelOption value as argument'') (\<lambda>_. Inr (tightest, lazyNow))
      | (Some _, Some _) \<Rightarrow> go_bind (Invariantf False
          ''provided CancelOption %v, with both deadline and timeout; this should be impossible through the public API'') (\<lambda>_. Inr (tightest, lazyNow))
      | (Some instant, None) \<Rightarrow>
          go_bind (NewSource Source_InitializedWithAbsoluteDeadline 0) (\<lambda>s.
          options_loop now opts (soonest tightest (NewDeadline instant s)) lazyNow)
      | (None, Some duration) \<Rightarrow>
          let lazyNow = (case lazyNow of None \<Rightarrow> Some now | _ \<Rightarrow> lazyNow)
          in go_bind (NewSource Source_InitializedWithTimeout 0) (\<lambda>s.
             options_loop now opts (soonest tightest (NewDeadline (Instant_Add (the lazyNow) duration) s)) lazyNow))"

datatype parentToken = NeverParent | RawParent nat | ClockParent clockToken

definition parent_NewChild :: "parentToken \<Rightarrow> 'e heap \<Rightarrow> (nat \<times> 'e heap) outcome option" where
  "parent_NewChild parent h =
     (case parent of
        NeverParent \<Rightarrow> neverToken_NewChild h
      | RawParent t \<Rightarrow> rawToken_NewChild t h
      | ClockParent c \<Rightarrow> rawToken_NewChild (ct_child c) h)"

definition newClockTokenImpl :: "parentToken \<Rightarrow> Deadline option \<Rightarrow> int option \<Rightarrow> (clockToken, 'e) action" where
  "newClockTokenImpl parent optDeadline lazyNow w =
     (case parent_NewChild parent (wd_heap w) of
        None \<Rightarrow> None
      | Some (Inl p) \<Rightarrow> Some (Inl p)
      | Some (Inr (child, h)) \<Rightarrow>
          let w = w\<lparr>wd_heap := h\<rparr>; ct = \<lparr>ct_child = child, ct_deadline = optDeadline, ct_timer = None\<rparr>
          in case optDeadline of
               None \<Rightarrow> Some (Inr (ct, w))
             | Some deadline \<Rightarrow>
                 let now = (case lazyNow of Some now \<Rightarrow> now | None \<Rightarrow> wd_now w);
                     delay = Instant_Sub (dl_instant deadline) now
                 in if delay \<le> 0
                    then map_option (\<lambda>r. go_bind r (\<lambda>(_, w). Inr (ct, w))) (cancelChild child (Some (DeadlineExceededError deadline)) w)
                    else let (timer, w) = RunAfter delay child deadline w in Some (Inr (ct\<lparr>ct_timer := Some timer\<rparr>, w)))"

definition NewClockToken :: "parentToken \<Rightarrow> CancelOption list \<Rightarrow> (clockToken, 'e) action" where
  "NewClockToken parent opts w =
     (case go_bind (case parent of
                      ClockParent c \<Rightarrow>
                        (case ct_deadline c of
                           Some pd \<Rightarrow> go_bind (ReinterpretForChild pd) (\<lambda>d. Inr (Some d))
                         | None \<Rightarrow> Inr None)
                    | _ \<Rightarrow> Inr None)
             (\<lambda>tightest. options_loop (wd_now w) opts tightest None) of
        Inl p \<Rightarrow> Some (Inl p)
      | Inr (tightest, lazyNow) \<Rightarrow>
          map_option (\<lambda>r. go_bind r (\<lambda>(c, w). Inr (c, w\<lparr>wd_tokens := wd_tokens w @ [c]\<rparr>))) (newClockTokenImpl parent tightest lazyNow w))"

definition clockToken_KeepGoing :: "clockToken \<Rightarrow> 'e world \<Rightarrow> 'e tokenErr option" where
  "clockToken_KeepGoing c w = rawToken_KeepGoing (ct_child c) (wd_heap w)"

definition clockToken_NewChild :: "clockToken \<Rightarrow> 'e world \<Rightarrow> (nat \<times> 'e tokenErr heap) outcome option" where
  "clockToken_NewChild c w = rawToken_NewChild (ct_child c) (wd_heap w)"

definition clockToken_NewClockChild :: "clockToken \<Rightarrow> CancelOption list \<Rightarrow> (clockToken, 'e) action" where
  "clockToken_NewClockChild c opts = NewClockToken (ClockParent c) opts"

definition clockToken_Cancel :: "clockToken \<Rightarrow> 'e tokenErr option \<Rightarrow> (CancelResult, 'e) action" where
  "clockToken_Cancel c err w =
     map_option (\<lambda>r. go_bind r (\<lambda>(res, w). Inr (res, case ct_timer c of None \<Rightarrow> w | Some i \<Rightarrow> Stop i w))) (cancelChild (ct_child c) err w)"

text \<open>
  The adapter to the standard library's contexts. \<open>userRoot\<close> tells whether the root cause of a caller's own error is an \<open>ExceededError\<close>.
\<close>

datatype contextErr = Context_DeadlineExceeded | Context_Canceled

definition stdlibContextErr :: "('e \<Rightarrow> bool) \<Rightarrow> 'e tokenErr option \<Rightarrow> contextErr option" where
  "stdlibContextErr userRoot err =
     (case err of
        None \<Rightarrow> None
      | Some (DeadlineExceededError _) \<Rightarrow> Some Context_DeadlineExceeded
      | Some (UserError e) \<Rightarrow> if userRoot e then Some Context_DeadlineExceeded else Some Context_Canceled)"

definition clockTokenContext_Deadline :: "clockToken \<Rightarrow> int \<times> bool" where
  "clockTokenContext_Deadline c = (case ct_deadline c of None \<Rightarrow> (0, False) | Some d \<Rightarrow> (dl_instant d, True))"

definition clockTokenContext_Err :: "('e \<Rightarrow> bool) \<Rightarrow> clockToken \<Rightarrow> 'e world \<Rightarrow> contextErr option" where
  "clockTokenContext_Err userRoot c w = stdlibContextErr userRoot (clockToken_KeepGoing c w)"

text \<open>The system: creating and cancelling tokens, the clock, which never goes back, and the scheduler.\<close>

definition known_parent :: "'e world \<Rightarrow> parentToken \<Rightarrow> bool" where
  "known_parent w parent \<longleftrightarrow>
     (case parent of NeverParent \<Rightarrow> True | RawParent t \<Rightarrow> t < length (wd_heap w) | ClockParent c \<Rightarrow> c \<in> set (wd_tokens w))"

text \<open>An error passed to \<open>Cancel\<close> is the caller's own, or one that a token has reported for a deadline that has passed.\<close>

fun honest :: "int \<Rightarrow> 'e tokenErr \<Rightarrow> bool" where
  "honest now (UserError e) \<longleftrightarrow> True"
| "honest now (DeadlineExceededError d) \<longleftrightarrow> dl_instant d \<le> now"

inductive clock_step :: "'e world \<Rightarrow> 'e world \<Rightarrow> bool" where
  StepNewToken: "known_parent w parent \<Longrightarrow> int (length (wd_heap w)) < MaxInt \<Longrightarrow> parent_NewChild parent (wd_heap w) = Some (Inr (t, h)) \<Longrightarrow>
    clock_step w (w\<lparr>wd_heap := h\<rparr>)"
| StepNewClock: "known_parent w parent \<Longrightarrow> int (length (wd_heap w)) < MaxInt \<Longrightarrow> NewClockToken parent opts w = Some (Inr (c, w')) \<Longrightarrow>
    clock_step w w'"
| StepCancel: "t < length (wd_heap w) \<Longrightarrow> honest (wd_now w) err \<Longrightarrow> cancelChild t (Some err) w = Some (Inr (res, w')) \<Longrightarrow> clock_step w w'"
| StepCancelClock: "c \<in> set (wd_tokens w) \<Longrightarrow> honest (wd_now w) err \<Longrightarrow> clockToken_Cancel c (Some err) w = Some (Inr (res, w')) \<Longrightarrow>
    clock_step w w'"
| StepAdvance: "wd_now w \<le> now \<Longrightarrow> clock_step w (w\<lparr>wd_now := now\<rparr>)"
| StepFire: "due w i \<Longrightarrow> fire i w = Some (Inr (res, w')) \<Longrightarrow> clock_step w w'"

inductive clock_reachable :: "int \<Rightarrow> 'e world \<Rightarrow> bool" for start :: int where
  ClockInit: "clock_reachable start \<lparr>wd_heap = [], wd_now = start, wd_timers = [], wd_tokens = []\<rparr>"
| ClockStep: "clock_reachable start w \<Longrightarrow> clock_step w w' \<Longrightarrow> clock_reachable start w'"

section \<open>The invariant\<close>

definition source_ok :: "DeadlineSource \<Rightarrow> bool" where
  "source_ok s \<longleftrightarrow> (if ds_kind s \<in> {Source_InitializedWithTimeout, Source_InitializedWithAbsoluteDeadline}
     then ds_ancestorLevel s = 0 else 1 \<le> ds_ancestorLevel s)"

text \<open>A token with a deadline is canceled, or its timer is pending and runs no later than the deadline.\<close>

definition guards :: "timer list \<Rightarrow> Deadline \<Rightarrow> nat \<Rightarrow> bool" where
  "guards ts d i \<longleftrightarrow> i < length ts \<and> tm_deadline (ts ! i) = d \<and> tm_pending (ts ! i) \<and> tm_at (ts ! i) \<le> dl_instant d"

definition armed :: "'e heap \<Rightarrow> timer list \<Rightarrow> clockToken \<Rightarrow> bool" where
  "armed h ts c \<longleftrightarrow> (case ct_deadline c of
      None \<Rightarrow> True
    | Some d \<Rightarrow> source_ok (dl_source d) \<and> (tk_err (h ! ct_child c) \<noteq> None \<or> (\<exists>i. ct_timer c = Some i \<and> guards ts d i)))"

definition own_timer :: "timer list \<Rightarrow> clockToken \<Rightarrow> bool" where
  "own_timer ts c \<longleftrightarrow> (case ct_timer c of None \<Rightarrow> True | Some i \<Rightarrow> i < length ts \<and> tm_child (ts ! i) = ct_child c)"

definition token_inv :: "'e heap \<Rightarrow> timer list \<Rightarrow> clockToken \<Rightarrow> bool" where
  "token_inv h ts c \<longleftrightarrow> ct_child c < length h \<and> own_timer ts c \<and> armed h ts c"

definition clock_inv :: "'e world \<Rightarrow> bool" where
  "clock_inv w \<longleftrightarrow> sys_inv (wd_heap w, []) \<and> (\<forall>tm \<in> set (wd_timers w). tm_child tm < length (wd_heap w))
     \<and> (\<forall>c \<in> set (wd_tokens w). token_inv (wd_heap w) (wd_timers w) c)"

lemma token_inv_grows:
  assumes "token_inv h ts c" and "grows h h'"
  shows "token_inv h' ts c"
proof -
  have "ct_child c < length h'" "tk_err (h ! ct_child c) \<noteq> None \<Longrightarrow> tk_err (h' ! ct_child c) \<noteq> None"
    using assms by (auto simp: token_inv_def grows_def)
  then show ?thesis
    using assms(1) by (auto simp: token_inv_def armed_def split: option.splits)
qed

lemma token_inv_append: "token_inv h ts c \<Longrightarrow> token_inv h (ts @ us) c"
  by (auto simp: token_inv_def armed_def own_timer_def guards_def nth_append split: option.splits)

lemma token_inv_stop:
  assumes "token_inv h ts c" and "i < length ts" and "tk_err (h ! tm_child (ts ! i)) \<noteq> None"
  shows "token_inv h (ts[i := (ts ! i)\<lparr>tm_pending := False\<rparr>]) c"
  using assms by (auto simp: token_inv_def armed_def own_timer_def guards_def nth_list_update split: option.splits)

definition errs :: "'e heap \<Rightarrow> 'e set" where
  "errs h = (\<Union>k \<in> set h. set_option (tk_err k))"

lemma errs_append: "errs (h @ [k]) = errs h \<union> set_option (tk_err k)"
  by (auto simp: errs_def)

lemma errs_nth: "e \<in> errs h \<longleftrightarrow> (\<exists>t < length h. tk_err (h ! t) = Some e)"
  by (auto simp: errs_def in_set_conv_nth) (metis nth_mem)

lemma Cancel_ok:
  assumes "sys_inv (h, [])" and "t < length h"
  shows "\<exists>res h'. rawToken_Cancel t (Some e) h = Some (Inr (res, h')) \<and> sys_inv (h', []) \<and> grows h h' \<and> length h' = length h
    \<and> errs h' \<subseteq> insert e (errs h) \<and> tk_err (h' ! t) = (if tk_err (h ! t) = None then Some e else tk_err (h ! t))"
proof (cases "tk_err (h ! t)")
  case None
  obtain h' where h': "rawToken_Cancel t (Some e) h = Some (Inr (Result_CanceledByUs, h'))" "sys_inv (h', [])" "length h' = length h" "grows h h'"
      and err: "\<forall>u < length h. tk_err (h' ! u) = (if descends h t u \<and> tk_err (h ! u) = None then Some e else tk_err (h ! u))"
    using rawToken_Cancel_spec [OF assms None, of e] by blast
  moreover have "errs h' \<subseteq> insert e (errs h)"
  proof
    fix x
    assume "x \<in> errs h'"
    then obtain u where "u < length h" "tk_err (h' ! u) = Some x"
      using h'(3) by (auto simp: errs_nth)
    then show "x \<in> insert e (errs h)"
      using err by (cases "descends h t u \<and> tk_err (h ! u) = None") (auto simp: errs_nth)
  qed
  ultimately show ?thesis
    using assms(2) None by simp
next
  case (Some e')
  then have "rawToken_Cancel t (Some e) h = Some (Inr (Result_AlreadyCanceled, h))"
    by (simp add: rawToken_Cancel_def cancelSelfAndDetachChildren_def detachChildren_def)
  then show ?thesis
    using assms(1) Some by auto
qed

lemma clock_inv_tokens:
  "clock_inv w \<Longrightarrow> c \<in> set (wd_tokens w) \<Longrightarrow> ct_child c < length (wd_heap w) \<and> own_timer (wd_timers w) c \<and> armed (wd_heap w) (wd_timers w) c"
  by (simp add: clock_inv_def token_inv_def)

lemma clock_inv_heap:
  assumes "clock_inv w" and "sys_inv (h, [])" and "grows (wd_heap w) h"
  shows "clock_inv (w\<lparr>wd_heap := h\<rparr>)"
proof -
  have "length (wd_heap w) \<le> length h"
    using assms(3) by (simp add: grows_def)
  then show ?thesis
    using assms(1,2) token_inv_grows [OF _ assms(3)] by (auto simp: clock_inv_def)
qed

lemma clock_inv_Stop:
  assumes "clock_inv w" and "i < length (wd_timers w)" and "tk_err (wd_heap w ! tm_child (wd_timers w ! i)) \<noteq> None"
  shows "clock_inv (Stop i w)"
proof -
  let ?tm = "(wd_timers w ! i)\<lparr>tm_pending := False\<rparr>"
  have "tm_child ?tm < length (wd_heap w)"
    using assms(1,2) nth_mem [OF assms(2)] by (simp add: clock_inv_def)
  then have "\<forall>tm \<in> set ((wd_timers w)[i := ?tm]). tm_child tm < length (wd_heap w)"
    using assms(1) set_update_subset_insert [of "wd_timers w" i ?tm] by (auto simp: clock_inv_def)
  then show ?thesis
    using assms(1) token_inv_stop [OF _ assms(2,3)] by (simp add: clock_inv_def Stop_def)
qed

definition parent_err :: "parentToken \<Rightarrow> 'e heap \<Rightarrow> 'e option" where
  "parent_err parent h =
     (case parent of NeverParent \<Rightarrow> None | RawParent t \<Rightarrow> tk_err (h ! t) | ClockParent c \<Rightarrow> tk_err (h ! ct_child c))"

lemma newChildToken_errs:
  assumes "newChildToken parent h = Some (Inr (t, h'))" and "\<And>p. parent = Some p \<Longrightarrow> p < length h"
  shows "errs h' \<subseteq> errs h" and "tk_err (h' ! length h) = (case parent of None \<Rightarrow> None | Some p \<Rightarrow> tk_err (h ! p))"
proof -
  have "errs h' \<subseteq> errs h \<and> tk_err (h' ! length h) = (case parent of None \<Rightarrow> None | Some p \<Rightarrow> tk_err (h ! p))"
  proof (cases parent)
    case None
    then show ?thesis
      using assms(1) by (auto simp: newChildToken_def Let_def errs_append)
  next
    case (Some p)
    then have p: "p < length h"
      using assms(2) by simp
    show ?thesis
    proof (cases "tk_err (h ! p)")
      case None
      then show ?thesis
        using assms(1) newChildToken_live [OF p None] Some p by (auto simp: errs_nth nth_append nth_list_update less_Suc_eq split: if_splits)
    next
      case (Some e)
      then have "e \<in> errs h"
        using p by (auto simp: errs_nth)
      then show ?thesis
        using assms(1) newChildToken_dead [OF p Some] \<open>parent = Some p\<close> Some by (auto simp: errs_append)
    qed
  qed
  then show "errs h' \<subseteq> errs h" and "tk_err (h' ! length h) = (case parent of None \<Rightarrow> None | Some p \<Rightarrow> tk_err (h ! p))"
    by auto
qed

lemma parent_NewChild_ok:
  assumes "clock_inv w" and "known_parent w parent" and "int (length (wd_heap w)) < MaxInt"
  shows "\<exists>h. parent_NewChild parent (wd_heap w) = Some (Inr (length (wd_heap w), h)) \<and> sys_inv (h, []) \<and> grows (wd_heap w) h
    \<and> length h = Suc (length (wd_heap w)) \<and> errs h \<subseteq> errs (wd_heap w)
    \<and> tk_err (h ! length (wd_heap w)) = parent_err parent (wd_heap w)"
proof -
  define p where "p = (case parent of NeverParent \<Rightarrow> None | RawParent t \<Rightarrow> Some t | ClockParent c \<Rightarrow> Some (ct_child c))"
  have eq: "parent_NewChild parent (wd_heap w) = newChildToken p (wd_heap w)"
    by (simp add: p_def parent_NewChild_def neverToken_NewChild_def rawToken_NewChild_def split: parentToken.split)
  have bound: "q < length (wd_heap w)" if "p = Some q" for q
    using assms(2) clock_inv_tokens [OF assms(1)] that by (auto simp: p_def known_parent_def split: parentToken.splits)
  have "sys_inv (wd_heap w, [])"
    using assms(1) by (simp add: clock_inv_def)
  from new_token_ok [OF this assms(3) bound] obtain h where h: "newChildToken p (wd_heap w) = Some (Inr (length (wd_heap w), h))"
      "sys_inv (h, [])" "grows (wd_heap w) h" "length h = Suc (length (wd_heap w))"
    by blast
  moreover have "tk_err (h ! length (wd_heap w)) = parent_err parent (wd_heap w)"
    using newChildToken_errs(2) [OF h(1) bound] by (simp add: p_def parent_err_def split: parentToken.splits)
  ultimately show ?thesis
    using eq newChildToken_errs(1) [OF h(1) bound] by auto
qed

lemma cancelChild_ok:
  assumes "clock_inv w" and "t < length (wd_heap w)"
  shows "\<exists>res h. cancelChild t (Some e) w = Some (Inr (res, w\<lparr>wd_heap := h\<rparr>)) \<and> clock_inv (w\<lparr>wd_heap := h\<rparr>) \<and> length h = length (wd_heap w)
    \<and> errs h \<subseteq> insert e (errs (wd_heap w))
    \<and> tk_err (h ! t) = (if tk_err (wd_heap w ! t) = None then Some e else tk_err (wd_heap w ! t))"
proof -
  have "sys_inv (wd_heap w, [])"
    using assms(1) by (simp add: clock_inv_def)
  from Cancel_ok [OF this assms(2), of e] obtain res h where h: "rawToken_Cancel t (Some e) (wd_heap w) = Some (Inr (res, h))"
      "sys_inv (h, [])" "grows (wd_heap w) h" "length h = length (wd_heap w)" "errs h \<subseteq> insert e (errs (wd_heap w))"
      "tk_err (h ! t) = (if tk_err (wd_heap w ! t) = None then Some e else tk_err (wd_heap w ! t))"
    by blast
  then show ?thesis
    using clock_inv_heap [OF assms(1) h(2,3)] by (intro exI [of _ res] exI [of _ h]) (simp add: cancelChild_def)
qed

section \<open>Creating a clock token\<close>

text \<open>The deadline of one option, the parent's deadline as its child sees it, and the first of the earliest deadlines of a list.\<close>

definition option_ok :: "CancelOption \<Rightarrow> bool" where
  "option_ok opt \<longleftrightarrow> (co_timeout opt = None) \<noteq> (co_deadline opt = None)"

definition option_deadline :: "int \<Rightarrow> CancelOption \<Rightarrow> Deadline" where
  "option_deadline now opt =
     (case co_timeout opt of
        Some d \<Rightarrow> \<lparr>dl_instant = now + d, dl_source = \<lparr>ds_kind = Source_InitializedWithTimeout, ds_ancestorLevel = 0\<rparr>\<rparr>
      | None \<Rightarrow> \<lparr>dl_instant = the (co_deadline opt), dl_source = \<lparr>ds_kind = Source_InitializedWithAbsoluteDeadline, ds_ancestorLevel = 0\<rparr>\<rparr>)"

definition inherited :: "Deadline \<Rightarrow> Deadline" where
  "inherited d = d\<lparr>dl_source := \<lparr>ds_kind =
     if ds_kind (dl_source d) \<in> {Source_InitializedWithTimeout, Source_AncestorTimeout} then Source_AncestorTimeout else Source_AncestorAbsoluteDeadline,
     ds_ancestorLevel = ds_ancestorLevel (dl_source d) + 1\<rparr>\<rparr>"

definition parent_deadlines :: "parentToken \<Rightarrow> Deadline list" where
  "parent_deadlines parent = (case parent of ClockParent c \<Rightarrow> (case ct_deadline c of Some d \<Rightarrow> [inherited d] | None \<Rightarrow> []) | _ \<Rightarrow> [])"

definition first_earliest :: "Deadline list \<Rightarrow> Deadline option \<Rightarrow> bool" where
  "first_earliest ds r \<longleftrightarrow> (case r of
      None \<Rightarrow> ds = []
    | Some d \<Rightarrow> \<exists>before after. ds = before @ d # after \<and> (\<forall>x \<in> set before. dl_instant d < dl_instant x)
        \<and> (\<forall>x \<in> set after. dl_instant d \<le> dl_instant x))"

lemma soonest_simps [simp]:
  "soonest None x = Some x" "soonest (Some d) x = Some (if dl_instant x < dl_instant d then x else d)"
  by (simp_all add: soonest_def Instant_IsBefore_def)

lemma first_earliestI:
  "\<forall>x \<in> set us. dl_instant d < dl_instant x \<Longrightarrow> \<forall>x \<in> set vs. dl_instant d \<le> dl_instant x \<Longrightarrow> first_earliest (us @ d # vs) (Some d)"
  unfolding first_earliest_def by auto

lemma options_ok: "OnTimeout d = Inr opt \<Longrightarrow> option_ok opt" "OnDeadline i = Inr opt \<Longrightarrow> option_ok opt"
  by (auto simp: OnTimeout_def OnDeadline_def option_ok_def assert_defs split: if_splits)

lemma foldl_soonest: "first_earliest ds (foldl soonest None ds)"
proof (induction ds rule: rev_induct)
  case Nil
  then show ?case
    by (simp add: first_earliest_def)
next
  case (snoc x ds)
  show ?case
  proof (cases "foldl soonest None ds")
    case None
    then have "ds = []"
      using snoc by (simp add: first_earliest_def)
    then show ?thesis
      by (auto simp: first_earliest_def Cons_eq_append_conv)
  next
    case (Some d)
    then obtain us vs where d: "ds = us @ d # vs" "\<forall>y \<in> set us. dl_instant d < dl_instant y" "\<forall>y \<in> set vs. dl_instant d \<le> dl_instant y"
      using snoc by (auto simp: first_earliest_def)
    show ?thesis
    proof (cases "dl_instant x < dl_instant d")
      case True
      then have "\<forall>y \<in> set ds. dl_instant x < dl_instant y"
        using d by auto
      then show ?thesis
        using Some True first_earliestI [of ds x "[]"] by simp
    next
      case False
      then have "\<forall>y \<in> set (vs @ [x]). dl_instant d \<le> dl_instant y"
        using d(3) by auto
      then show ?thesis
        using Some False d(1,2) first_earliestI [of us d "vs @ [x]"] by simp
    qed
  qed
qed

lemma options_loop_ok:
  assumes "\<forall>opt \<in> set opts. option_ok opt" and "lazyNow = None \<or> lazyNow = Some now"
  shows "\<exists>lazyNow'. options_loop now opts tightest lazyNow = Inr (foldl soonest tightest (map (option_deadline now) opts), lazyNow')
    \<and> (lazyNow' = None \<or> lazyNow' = Some now)"
  using assms
proof (induction opts arbitrary: tightest lazyNow)
  case (Cons opt opts)
  have "NewDeadline (now + d) \<lparr>ds_kind = Source_InitializedWithTimeout, ds_ancestorLevel = 0\<rparr> = option_deadline now opt" if "co_timeout opt = Some d" for d
    using that by (simp add: option_deadline_def NewDeadline_def)
  then show ?case
    using Cons.prems Cons.IH
    by (auto simp: option_ok_def option_deadline_def Instant_Add_def NewSource_def NewDeadline_def assert_defs Let_def split: option.split)
qed simp

lemma options_loop_inverse: "options_loop now opts tightest lazyNow = Inr r \<Longrightarrow> opt \<in> set opts \<Longrightarrow> option_ok opt"
  by (induction now opts tightest lazyNow rule: options_loop.induct)
     (auto simp: option_ok_def assert_defs go_bind_def Let_def split: option.splits sum.splits if_splits)

lemma ReinterpretForChild_ok:
  "source_ok (dl_source d) \<Longrightarrow> ReinterpretForChild d = Inr (inherited d) \<and> source_ok (dl_source (inherited d))"
  by (cases "ds_kind (dl_source d)")
     (simp_all add: ReinterpretForChild_def inherited_def source_ok_def NewSource_def NewDeadline_def assert_defs Let_def)

lemma Instant_Sub_pos: "Instant_Sub i now \<le> 0 \<longleftrightarrow> i \<le> now"
  by (simp add: Instant_Sub_def Let_def MaxInt_def)

lemma Instant_Sub_le: "0 < Instant_Sub i now \<Longrightarrow> now + Instant_Sub i now = min i (now + MaxInt)"
  by (auto simp: Instant_Sub_def Let_def MaxInt_def split: if_splits)

text \<open>What a new clock token with deadline \<open>d\<close> reports, given its parent's error.\<close>

definition initial_err :: "int \<Rightarrow> 'e tokenErr option \<Rightarrow> Deadline option \<Rightarrow> 'e tokenErr option" where
  "initial_err now parentErr od =
     (case parentErr of
        Some e \<Rightarrow> Some e
      | None \<Rightarrow> (case od of Some d \<Rightarrow> if dl_instant d \<le> now then Some (DeadlineExceededError d) else None | None \<Rightarrow> None))"

text \<open>What creating it does to the world: an error that is not honest never enters, and a timer runs at the deadline, or \<open>MaxInt\<close> nanoseconds from now.\<close>

definition creates :: "'e world \<Rightarrow> 'e world \<Rightarrow> bool" where
  "creates w w' \<longleftrightarrow> wd_now w' = wd_now w \<and> wd_tokens w' = wd_tokens w
     \<and> (\<forall>e \<in> errs (wd_heap w'). e \<in> errs (wd_heap w) \<or> honest (wd_now w) e)
     \<and> (\<exists>us. wd_timers w' = wd_timers w @ us
          \<and> (\<forall>tm \<in> set us. tm_at tm = min (dl_instant (tm_deadline tm)) (wd_now w + MaxInt)))"

lemma newClockTokenImpl_ok:
  assumes inv: "clock_inv w" and "known_parent w parent" and "int (length (wd_heap w)) < MaxInt"
    and lazy: "lazyNow = None \<or> lazyNow = Some (wd_now w)" and src: "\<And>d. od = Some d \<Longrightarrow> source_ok (dl_source d)"
  shows "\<exists>c w'. newClockTokenImpl parent od lazyNow w = Some (Inr (c, w')) \<and> clock_inv w' \<and> creates w w' \<and> ct_deadline c = od
    \<and> token_inv (wd_heap w') (wd_timers w') c
    \<and> tk_err (wd_heap w' ! ct_child c) = initial_err (wd_now w) (parent_err parent (wd_heap w)) od"
proof -
  let ?n = "length (wd_heap w)"
  obtain h where h: "parent_NewChild parent (wd_heap w) = Some (Inr (?n, h))" "sys_inv (h, [])" "grows (wd_heap w) h" "length h = Suc ?n"
      "errs h \<subseteq> errs (wd_heap w)" "tk_err (h ! ?n) = parent_err parent (wd_heap w)"
    using parent_NewChild_ok [OF assms(1-3)] by blast
  let ?w = "w\<lparr>wd_heap := h\<rparr>"
  have inv1: "clock_inv ?w"
    by (rule clock_inv_heap [OF inv h(2,3)])
  have now: "(case lazyNow of Some now \<Rightarrow> now | None \<Rightarrow> wd_now ?w) = wd_now w"
    using lazy by auto
  show ?thesis
  proof (cases od)
    case None
    then show ?thesis
      using h inv1 by (auto simp: newClockTokenImpl_def creates_def token_inv_def own_timer_def armed_def initial_err_def split: option.split)
  next
    case (Some d)
    show ?thesis
    proof (cases "dl_instant d \<le> wd_now w")
      case True
      obtain res h' where h': "cancelChild ?n (Some (DeadlineExceededError d)) ?w = Some (Inr (res, ?w\<lparr>wd_heap := h'\<rparr>))"
          "clock_inv (?w\<lparr>wd_heap := h'\<rparr>)" "length h' = Suc ?n" "errs h' \<subseteq> insert (DeadlineExceededError d) (errs h)"
          "tk_err (h' ! ?n) = (if tk_err (h ! ?n) = None then Some (DeadlineExceededError d) else tk_err (h ! ?n))"
        using cancelChild_ok [OF inv1, of ?n "DeadlineExceededError d"] h(4) by auto
      have "newClockTokenImpl parent od lazyNow w = Some (Inr (\<lparr>ct_child = ?n, ct_deadline = od, ct_timer = None\<rparr>, w\<lparr>wd_heap := h'\<rparr>))"
        using h(1) h'(1) Some True now by (simp add: newClockTokenImpl_def Let_def Instant_Sub_pos)
      moreover have "creates w (w\<lparr>wd_heap := h'\<rparr>)"
        using h(5) h'(4) True by (auto simp: creates_def)
      ultimately show ?thesis
        using h'(2,3,5) h(6) Some True src
        by (auto simp: token_inv_def own_timer_def armed_def initial_err_def split: option.split)
    next
      case False
      let ?delay = "Instant_Sub (dl_instant d) (wd_now w)"
      let ?tm = "\<lparr>tm_at = wd_now w + ?delay, tm_child = ?n, tm_deadline = d, tm_pending = True\<rparr>"
      let ?w' = "?w\<lparr>wd_timers := wd_timers w @ [?tm]\<rparr>"
      let ?c = "\<lparr>ct_child = ?n, ct_deadline = od, ct_timer = Some (length (wd_timers w))\<rparr>"
      have at: "tm_at ?tm = min (dl_instant d) (wd_now w + MaxInt)"
        using Instant_Sub_le [of "dl_instant d" "wd_now w"] Instant_Sub_pos [of "dl_instant d" "wd_now w"] False by simp
      have "newClockTokenImpl parent od lazyNow w = Some (Inr (?c, ?w'))"
        using h(1) Some False now by (simp add: newClockTokenImpl_def Let_def Instant_Sub_pos RunAfter_def)
      moreover have "clock_inv ?w'"
        using inv1 h(4) by (auto simp: clock_inv_def intro: token_inv_append)
      moreover have "creates w ?w'"
        using h(5) at by (auto simp: creates_def)
      moreover have "token_inv h (wd_timers w @ [?tm]) ?c"
        using h(4) at Some src by (simp add: token_inv_def own_timer_def armed_def guards_def)
      ultimately show ?thesis
        using h(6) Some False by (auto simp: initial_err_def split: option.split)
    qed
  qed
qed

lemma option_deadline_source: "source_ok (dl_source (option_deadline now opt))"
  by (simp add: option_deadline_def source_ok_def split: option.split)

lemma first_earliest_mem: "first_earliest ds (Some d) \<Longrightarrow> d \<in> set ds"
  by (auto simp: first_earliest_def)

lemma parent_deadlines_source:
  assumes "clock_inv w" and "known_parent w parent" and "d \<in> set (parent_deadlines parent)"
  shows "source_ok (dl_source d)"
proof -
  obtain c pd where c: "parent = ClockParent c" "ct_deadline c = Some pd" "d = inherited pd"
    using assms(3) that by (cases parent; simp add: parent_deadlines_def split: option.splits) metis
  then have "source_ok (dl_source pd)"
    using clock_inv_tokens [OF assms(1), of c] assms(2) by (simp add: known_parent_def armed_def)
  then show ?thesis
    using c(3) ReinterpretForChild_ok by simp
qed

text \<open>\<open>tightest\<close> before the loop over the options.\<close>

lemma parent_tightest:
  assumes "clock_inv w" and "known_parent w parent"
  shows "(case parent of
            ClockParent c \<Rightarrow> (case ct_deadline c of Some pd \<Rightarrow> go_bind (ReinterpretForChild pd) (\<lambda>d. Inr (Some d)) | None \<Rightarrow> Inr None)
          | _ \<Rightarrow> Inr None) = Inr (foldl soonest None (parent_deadlines parent))"
proof (cases parent)
  case (ClockParent c)
  show ?thesis
  proof (cases "ct_deadline c")
    case (Some pd)
    then have "source_ok (dl_source pd)"
      using clock_inv_tokens [OF assms(1), of c] assms(2) ClockParent by (simp add: known_parent_def armed_def)
    then show ?thesis
      using ClockParent Some ReinterpretForChild_ok by (simp add: parent_deadlines_def)
  qed (simp add: ClockParent parent_deadlines_def)
qed (simp_all add: parent_deadlines_def)

definition candidates :: "int \<Rightarrow> parentToken \<Rightarrow> CancelOption list \<Rightarrow> Deadline list" where
  "candidates now parent opts = parent_deadlines parent @ map (option_deadline now) opts"

lemma NewClockToken_ok:
  assumes "clock_inv w" and "known_parent w parent" and "int (length (wd_heap w)) < MaxInt" and "\<forall>opt \<in> set opts. option_ok opt"
  shows "\<exists>c w'. NewClockToken parent opts w = Some (Inr (c, w'\<lparr>wd_tokens := wd_tokens w @ [c]\<rparr>))
    \<and> clock_inv (w'\<lparr>wd_tokens := wd_tokens w @ [c]\<rparr>) \<and> creates w w'
    \<and> first_earliest (candidates (wd_now w) parent opts) (ct_deadline c)
    \<and> tk_err (wd_heap w' ! ct_child c) = initial_err (wd_now w) (parent_err parent (wd_heap w)) (ct_deadline c)"
proof -
  let ?ds = "candidates (wd_now w) parent opts"
  let ?od = "foldl soonest None ?ds"
  obtain lazyNow where lazy: "options_loop (wd_now w) opts (foldl soonest None (parent_deadlines parent)) None = Inr (?od, lazyNow)"
      "lazyNow = None \<or> lazyNow = Some (wd_now w)"
    using options_loop_ok [OF assms(4), of None "wd_now w" "foldl soonest None (parent_deadlines parent)"] by (auto simp: candidates_def)
  have src: "source_ok (dl_source d)" if "?od = Some d" for d
    using first_earliest_mem [of ?ds d] foldl_soonest [of ?ds] that parent_deadlines_source [OF assms(1,2), of d] option_deadline_source
    by (auto simp: candidates_def)
  obtain c w' where c: "newClockTokenImpl parent ?od lazyNow w = Some (Inr (c, w'))" "clock_inv w'" "creates w w'" "ct_deadline c = ?od"
      "token_inv (wd_heap w') (wd_timers w') c"
      "tk_err (wd_heap w' ! ct_child c) = initial_err (wd_now w) (parent_err parent (wd_heap w)) ?od"
    using newClockTokenImpl_ok [OF assms(1-3) lazy(2) src] by blast
  have toks: "wd_tokens w' = wd_tokens w"
    using c(3) by (simp add: creates_def)
  have "NewClockToken parent opts w = Some (Inr (c, w'\<lparr>wd_tokens := wd_tokens w @ [c]\<rparr>))"
    using c(1) lazy(1) parent_tightest [OF assms(1,2)] toks by (simp add: NewClockToken_def)
  moreover have "clock_inv (w'\<lparr>wd_tokens := wd_tokens w @ [c]\<rparr>)"
    using c(2,5) toks by (simp add: clock_inv_def)
  ultimately show ?thesis
    using c(3,4,6) foldl_soonest [of ?ds] by auto
qed

lemma NewClockToken_inverse:
  assumes "clock_inv w" and "known_parent w parent" and "NewClockToken parent opts w = Some (Inr r)" and "opt \<in> set opts"
  shows "option_ok opt"
proof -
  obtain q where "options_loop (wd_now w) opts (foldl soonest None (parent_deadlines parent)) None = Inr q"
    using assms(3) parent_tightest [OF assms(1,2)] by (auto simp: NewClockToken_def split: sum.splits)
  then show ?thesis
    using assms(4) by (rule options_loop_inverse)
qed

section \<open>Every reachable world\<close>

lemma clock_inv_init [simp]: "clock_inv \<lparr>wd_heap = [], wd_now = start, wd_timers = [], wd_tokens = []\<rparr>"
  using reachable_inv [OF reachable.intros(1)] by (simp add: clock_inv_def)

lemma cancelChild_Stop:
  assumes "cancelChild t err w = Some (Inr (res, w\<lparr>wd_heap := h\<rparr>))"
  shows "cancelChild t err (Stop i w) = Some (Inr (res, Stop i w\<lparr>wd_heap := h\<rparr>))"
proof -
  obtain r where r: "rawToken_Cancel t err (wd_heap w) = Some r" "go_bind r (\<lambda>(res, h). Inr (res, w\<lparr>wd_heap := h\<rparr>)) = Inr (res, w\<lparr>wd_heap := h\<rparr>)"
    using assms by (auto simp: cancelChild_def)
  then obtain h' where h': "r = Inr (res, h')" "w\<lparr>wd_heap := h'\<rparr> = w\<lparr>wd_heap := h\<rparr>"
    by (cases r) auto
  then have "h' = h"
    using arg_cong [OF h'(2), of wd_heap] by simp
  then show ?thesis
    using r(1) h'(1) by (simp add: cancelChild_def Stop_def)
qed

lemma fire_ok:
  assumes "clock_inv w" and "i < length (wd_timers w)"
  defines "tm \<equiv> wd_timers w ! i"
  shows "\<exists>res h. fire i w = Some (Inr (res, Stop i w\<lparr>wd_heap := h\<rparr>)) \<and> clock_inv (Stop i w\<lparr>wd_heap := h\<rparr>)
    \<and> errs h \<subseteq> insert (DeadlineExceededError (tm_deadline tm)) (errs (wd_heap w))
    \<and> tk_err (h ! tm_child tm) = (if tk_err (wd_heap w ! tm_child tm) = None then Some (DeadlineExceededError (tm_deadline tm)) else tk_err (wd_heap w ! tm_child tm))"
proof -
  let ?e = "DeadlineExceededError (tm_deadline tm)"
  have "tm_child tm < length (wd_heap w)"
    using assms(1) nth_mem [OF assms(2)] by (simp add: clock_inv_def tm_def)
  then obtain res h where h: "cancelChild (tm_child tm) (Some ?e) w = Some (Inr (res, w\<lparr>wd_heap := h\<rparr>))" "clock_inv (w\<lparr>wd_heap := h\<rparr>)"
      "errs h \<subseteq> insert ?e (errs (wd_heap w))"
      "tk_err (h ! tm_child tm) = (if tk_err (wd_heap w ! tm_child tm) = None then Some ?e else tk_err (wd_heap w ! tm_child tm))"
    using cancelChild_ok [OF assms(1), of "tm_child tm" ?e] by blast
  have "fire i w = Some (Inr (res, Stop i w\<lparr>wd_heap := h\<rparr>))"
    using cancelChild_Stop [OF h(1)] by (simp add: fire_def tm_def)
  moreover have "Stop i w\<lparr>wd_heap := h\<rparr> = Stop i (w\<lparr>wd_heap := h\<rparr>)"
    by (simp add: Stop_def)
  moreover have "clock_inv (Stop i (w\<lparr>wd_heap := h\<rparr>))"
    using h(2,4) assms(2) by (intro clock_inv_Stop) (auto simp: tm_def split: if_splits)
  ultimately show ?thesis
    using h(3,4) by (intro exI [of _ res] exI [of _ h]) simp
qed

lemma clockToken_Cancel_ok:
  assumes "clock_inv w" and c: "c \<in> set (wd_tokens w)"
  shows "\<exists>res w'. clockToken_Cancel c (Some e) w = Some (Inr (res, w')) \<and> clock_inv w' \<and> wd_now w' = wd_now w
    \<and> map tm_at (wd_timers w') = map tm_at (wd_timers w) \<and> map tm_deadline (wd_timers w') = map tm_deadline (wd_timers w)
    \<and> errs (wd_heap w') \<subseteq> insert e (errs (wd_heap w)) \<and> clockToken_KeepGoing c w' \<noteq> None"
proof -
  have child: "ct_child c < length (wd_heap w)" and own: "own_timer (wd_timers w) c"
    using clock_inv_tokens [OF assms] by auto
  obtain res h where h: "cancelChild (ct_child c) (Some e) w = Some (Inr (res, w\<lparr>wd_heap := h\<rparr>))" "clock_inv (w\<lparr>wd_heap := h\<rparr>)"
      "errs h \<subseteq> insert e (errs (wd_heap w))"
      "tk_err (h ! ct_child c) = (if tk_err (wd_heap w ! ct_child c) = None then Some e else tk_err (wd_heap w ! ct_child c))"
    using cancelChild_ok [OF assms(1) child, of e] by blast
  then have err: "tk_err (h ! ct_child c) \<noteq> None"
    by (simp split: if_splits)
  show ?thesis
  proof (cases "ct_timer c")
    case None
    then show ?thesis
      using h err by (simp add: clockToken_Cancel_def clockToken_KeepGoing_def rawToken_KeepGoing_def)
  next
    case (Some i)
    then have i: "i < length (wd_timers w)" "tm_child (wd_timers w ! i) = ct_child c"
      using own by (auto simp: own_timer_def)
    then have "clock_inv (Stop i (w\<lparr>wd_heap := h\<rparr>))"
      using clock_inv_Stop [OF h(2), of i] err by simp
    then show ?thesis
      using h err Some i(1)
      by (simp add: clockToken_Cancel_def clockToken_KeepGoing_def rawToken_KeepGoing_def Stop_def map_update list_update_same_conv)
  qed
qed

text \<open>Within \<open>MaxInt\<close> nanoseconds of the start, no timer runs before its deadline.\<close>

definition expiry_inv :: "int \<Rightarrow> 'e world \<Rightarrow> bool" where
  "expiry_inv start w \<longleftrightarrow> start \<le> wd_now w
     \<and> (\<forall>i < length (wd_timers w). min (map (dl_instant \<circ> tm_deadline) (wd_timers w) ! i) (start + MaxInt) \<le> map tm_at (wd_timers w) ! i)
     \<and> (wd_now w < start + MaxInt \<longrightarrow> (\<forall>e \<in> errs (wd_heap w). honest (wd_now w) e))"

lemma honest_later: "honest now e \<Longrightarrow> now \<le> now' \<Longrightarrow> honest now' e"
  by (cases e) simp_all

lemma expiry_inv_errs:
  assumes "expiry_inv start w" and "wd_now w' = wd_now w" and "map tm_at (wd_timers w') = map tm_at (wd_timers w)"
    and "map tm_deadline (wd_timers w') = map tm_deadline (wd_timers w)"
    and "\<And>e. e \<in> errs (wd_heap w') \<Longrightarrow> wd_now w < start + MaxInt \<Longrightarrow> e \<in> errs (wd_heap w) \<or> honest (wd_now w) e"
  shows "expiry_inv start w'"
proof -
  have "length (wd_timers w') = length (wd_timers w)"
    using arg_cong [OF assms(3), of length] by simp
  moreover have "map (dl_instant \<circ> tm_deadline) (wd_timers w') = map (dl_instant \<circ> tm_deadline) (wd_timers w)"
    using arg_cong [OF assms(4), of "map dl_instant"] by simp
  ultimately show ?thesis
    using assms(1,2,5) unfolding expiry_inv_def assms(3) by auto
qed

lemma expiry_inv_creates:
  assumes "expiry_inv start w" and "creates w w'"
  shows "expiry_inv start (w'\<lparr>wd_tokens := cs\<rparr>)"
proof -
  obtain us where us: "wd_timers w' = wd_timers w @ us" "\<forall>tm \<in> set us. tm_at tm = min (dl_instant (tm_deadline tm)) (wd_now w + MaxInt)"
    using assms(2) by (auto simp: creates_def)
  have "min (dl_instant (tm_deadline tm)) (start + MaxInt) \<le> tm_at tm" if "tm \<in> set (wd_timers w')" for tm
  proof (cases "tm \<in> set us")
    case True
    then show ?thesis
      using us(2) assms(1) by (auto simp: expiry_inv_def)
  next
    case False
    then have "tm \<in> set (wd_timers w)"
      using that us(1) by simp
    then obtain i where "i < length (wd_timers w)" "tm = wd_timers w ! i"
      by (auto simp: in_set_conv_nth)
    then show ?thesis
      using assms(1) by (auto simp: expiry_inv_def)
  qed
  then show ?thesis
    using assms by (auto simp: expiry_inv_def creates_def)
qed

lemma clock_step_inv:
  assumes "clock_step w w'" and inv: "clock_inv w" "expiry_inv start w"
  shows "clock_inv w' \<and> expiry_inv start w'"
  using assms(1)
proof cases
  case (StepNewToken parent t h)
  obtain h' where "parent_NewChild parent (wd_heap w) = Some (Inr (length (wd_heap w), h'))" "sys_inv (h', [])" "grows (wd_heap w) h'"
      "errs h' \<subseteq> errs (wd_heap w)"
    using parent_NewChild_ok [OF inv(1) StepNewToken(2,3)] by blast
  then show ?thesis
    using StepNewToken clock_inv_heap [OF inv(1)] by (auto intro!: expiry_inv_errs [OF inv(2)])
next
  case (StepNewClock parent opts c)
  have "\<forall>opt \<in> set opts. option_ok opt"
    using NewClockToken_inverse [OF inv(1) StepNewClock(1,3)] by blast
  from NewClockToken_ok [OF inv(1) StepNewClock(1,2) this] show ?thesis
    using StepNewClock(3) expiry_inv_creates [OF inv(2)] by auto
next
  case (StepCancel t err res)
  show ?thesis
    using cancelChild_ok [OF inv(1) StepCancel(1), of err] StepCancel(2,3) by (auto intro!: expiry_inv_errs [OF inv(2)])
next
  case (StepCancelClock c err res)
  show ?thesis
    using clockToken_Cancel_ok [OF inv(1) StepCancelClock(1), of err] StepCancelClock(2,3) by (auto intro!: expiry_inv_errs [OF inv(2)])
next
  case (StepAdvance now)
  then show ?thesis
    using inv by (auto simp: clock_inv_def expiry_inv_def intro: honest_later)
next
  case (StepFire i res)
  then have i: "i < length (wd_timers w)" "tm_at (wd_timers w ! i) \<le> wd_now w"
    by (auto simp: due_def)
  then have "min (dl_instant (tm_deadline (wd_timers w ! i))) (start + MaxInt) \<le> wd_now w"
    using inv(2) by (auto simp: expiry_inv_def)
  then have "honest (wd_now w) (DeadlineExceededError (tm_deadline (wd_timers w ! i)) :: 'a tokenErr)" if "wd_now w < start + MaxInt"
    using that by (auto simp: min_def split: if_splits)
  then show ?thesis
    using fire_ok [OF inv(1) i(1)] StepFire(2) i(1)
    by (auto simp: Stop_def map_update list_update_same_conv intro!: expiry_inv_errs [OF inv(2)] split: if_splits)
qed

lemma clock_reachable_inv: "clock_reachable start w \<Longrightarrow> clock_inv w \<and> expiry_inv start w"
proof (induction rule: clock_reachable.induct)
  case ClockInit
  then show ?case
    by (simp add: expiry_inv_def errs_def)
qed (use clock_step_inv in blast)

text \<open>A world with one clock token, due at 150, for the examples.\<close>

definition example_deadline :: Deadline where
  "example_deadline = \<lparr>dl_instant = 150, dl_source = \<lparr>ds_kind = Source_InitializedWithTimeout, ds_ancestorLevel = 0\<rparr>\<rparr>"

definition example_token :: clockToken where
  "example_token = \<lparr>ct_child = 0, ct_deadline = Some example_deadline, ct_timer = Some 0\<rparr>"

definition example_world :: "int \<Rightarrow> nat world" where
  "example_world now = \<lparr>wd_heap = [fresh_root], wd_now = now,
     wd_timers = [\<lparr>tm_at = 150, tm_child = 0, tm_deadline = example_deadline, tm_pending = True\<rparr>], wd_tokens = [example_token]\<rparr>"

lemma example_reachable: "100 \<le> now \<Longrightarrow> clock_reachable 100 (example_world now)"
proof -
  assume now: "100 \<le> now"
  let ?w = "\<lparr>wd_heap = [], wd_now = 100, wd_timers = [], wd_tokens = []\<rparr> :: nat world"
  have "NewClockToken NeverParent [\<lparr>co_timeout = Some 50, co_deadline = None\<rparr>] ?w = Some (Inr (example_token, example_world 100))"
    by (simp add: NewClockToken_def newClockTokenImpl_def parent_NewChild_def neverToken_NewChild_def newChildToken_def NewSource_def NewDeadline_def
        assert_defs Let_def RunAfter_def Instant_Add_def Instant_Sub_def MaxInt_def example_token_def example_world_def example_deadline_def)
  then have "clock_step ?w (example_world 100)"
    by (rule StepNewClock [rotated 2]) (simp_all add: known_parent_def MaxInt_def)
  then have "clock_reachable 100 (example_world 100)"
    by (rule ClockStep [OF ClockInit])
  moreover have "clock_step (example_world 100) (example_world now)"
    using StepAdvance [of "example_world 100" now] now by (simp add: example_world_def)
  ultimately show ?thesis
    by (rule ClockStep)
qed

section \<open>What clock tokens promise\<close>







end
