(* ===== verification/Path_Components.thy ===== *)
theory Path_Components
  imports Assert
begin

text \<open>
  \<^verbatim>\<open>base/internal/pathx/pathx.go\<close>: splitting a path into components, forwards and backwards, and
  the lexical parser for Windows prefixes and DOS device names. A path is a \<open>string\<close> of bytes;
  positions are natural numbers. Where the code stores a position as \<open>uint32\<close> the truncation is
  written out by \<open>u32\<close>.

  The parameter \<open>start\<close> of \<open>components\<close> is captured and assigned by the closure it returns, so the
  model of one iteration returns its new value: it is the state of the iterator.
\<close>

section \<open>Definitions\<close>

subsection \<open>Components\<close>

definition IsWindowsPathSeparator :: "char \<Rightarrow> bool" where
  "IsWindowsPathSeparator c = (c = CHR 0x5C \<or> c = CHR ''/'')"

definition isUnixSeparator :: "char \<Rightarrow> bool" where
  "isUnixSeparator c = (c = CHR ''/'')"

text \<open>The loop of \<open>components\<close> at index \<open>i\<close>: the new value of \<open>start\<close> and the consumer's state.\<close>

function components_loop ::
  "string \<Rightarrow> (char \<Rightarrow> bool) \<Rightarrow> nat \<Rightarrow> nat \<Rightarrow> (string \<Rightarrow> 's \<Rightarrow> bool \<times> 's) \<Rightarrow> 's \<Rightarrow> nat \<times> 's" where
  "components_loop path isPathSeparator i start yield st =
     (if i \<le> length path
      then if i < length path \<and> \<not> isPathSeparator (path ! i)
           then components_loop path isPathSeparator (i + 1) start yield st
           else if start < i
           then (case yield (take (i - start) (drop start path)) st of
                   (False, st') \<Rightarrow> (start, st')
                 | (True, st') \<Rightarrow> components_loop path isPathSeparator (i + 1) (i + 1) yield st')
           else components_loop path isPathSeparator (i + 1) (i + 1) yield st
      else (start, st))"
  by pat_completeness auto
termination by (relation "measure (\<lambda>(path, _, i, _). Suc (length path) - i)") auto

declare components_loop.simps [simp del]

definition components ::
  "string \<Rightarrow> (char \<Rightarrow> bool) \<Rightarrow> nat \<Rightarrow> (string \<Rightarrow> 's \<Rightarrow> bool \<times> 's) \<Rightarrow> 's \<Rightarrow> nat \<times> 's" where
  "components path isPathSeparator start yield st =
     components_loop path isPathSeparator start start yield st"

text \<open>The loop of \<open>componentsBackward\<close>; the argument is \<open>i + 1\<close>, so that 0 ends it.\<close>

fun componentsBackward_loop ::
  "string \<Rightarrow> (char \<Rightarrow> bool) \<Rightarrow> nat \<Rightarrow> nat \<Rightarrow> nat \<Rightarrow> (string \<Rightarrow> 's \<Rightarrow> bool \<times> 's) \<Rightarrow> 's \<Rightarrow> (nat \<times> 's) + 's" where
  "componentsBackward_loop path isPathSeparator start 0 ends yield st = Inl (ends, st)"
| "componentsBackward_loop path isPathSeparator start (Suc i) ends yield st =
     (if i < start then Inl (ends, st)
      else if \<not> isPathSeparator (path ! i)
      then componentsBackward_loop path isPathSeparator start i ends yield st
      else if i + 1 < ends
      then (case yield (take (ends - (i + 1)) (drop (i + 1) path)) st of
              (False, st') \<Rightarrow> Inr st'
            | (True, st') \<Rightarrow> componentsBackward_loop path isPathSeparator start i i yield st')
      else componentsBackward_loop path isPathSeparator start i i yield st)"

definition componentsBackward ::
  "string \<Rightarrow> (char \<Rightarrow> bool) \<Rightarrow> nat \<Rightarrow> (string \<Rightarrow> 's \<Rightarrow> bool \<times> 's) \<Rightarrow> 's \<Rightarrow> 's" where
  "componentsBackward path isPathSeparator start yield st =
     (case componentsBackward_loop path isPathSeparator start (length path) (length path) yield st of
        Inr st' \<Rightarrow> st'
      | Inl (ends, st') \<Rightarrow>
          if start < ends then snd (yield (take (ends - start) (drop start path)) st') else st')"

definition ComponentsUnix :: "string \<Rightarrow> (string \<Rightarrow> 's \<Rightarrow> bool \<times> 's) \<Rightarrow> 's \<Rightarrow> nat \<times> 's" where
  "ComponentsUnix path = components path isUnixSeparator 0"

text \<open>The components as a list, for the loops over a fresh iterator.\<close>

definition components_list :: "string \<Rightarrow> (char \<Rightarrow> bool) \<Rightarrow> nat \<Rightarrow> string list" where
  "components_list path isPathSeparator start =
     snd (components path isPathSeparator start (\<lambda>c acc. (True, acc @ [c])) [])"

subsection \<open>Windows prefixes\<close>

datatype WindowsPathKind =
    WindowsPathKind_Relative | WindowsPathKind_RootRelative | WindowsPathKind_DriveRelative
  | WindowsPathKind_DriveAbsolute | WindowsPathKind_UNC | WindowsPathKind_VerbatimDrive
  | WindowsPathKind_VerbatimUNC | WindowsPathKind_Verbatim | WindowsPathKind_Device

record WindowsPath =
  wp_path :: string
  wp_prefixStart :: nat
  wp_prefixEnd :: nat
  wp_componentsStart :: nat
  wp_kind :: WindowsPathKind

definition u32 :: "nat \<Rightarrow> nat" where
  "u32 n = n mod 2 ^ 32"

definition isWindowsDriveLetter :: "char \<Rightarrow> bool" where
  "isWindowsDriveLetter c =
     (let n = of_char c :: nat in 97 \<le> n \<and> n \<le> 122 \<or> 65 \<le> n \<and> n \<le> 90)"

text \<open>The index of the first separator at or after \<open>i\<close>, or the length.\<close>

function nextSeparator :: "string \<Rightarrow> nat \<Rightarrow> nat" where
  "nextSeparator path i =
     (if i < length path
      then if IsWindowsPathSeparator (path ! i) then i else nextSeparator path (i + 1)
      else length path)"
  by pat_completeness auto
termination by (relation "measure (\<lambda>(path, i). length path - i)") auto

declare nextSeparator.simps [simp del]

definition windowsNextComponentEnd :: "string \<Rightarrow> nat \<Rightarrow> nat \<times> bool" where
  "windowsNextComponentEnd path start =
     (if start \<ge> length path \<or> IsWindowsPathSeparator (path ! start) then (start, False)
      else (nextSeparator path start, True))"

definition windowsPrefixEnd :: "string \<Rightarrow> nat \<Rightarrow> nat \<times> nat" where
  "windowsPrefixEnd path start =
     (case windowsNextComponentEnd path start of
        (ends, ok) \<Rightarrow>
          if \<not> ok then (length path, length path)
          else if ends < length path \<and> IsWindowsPathSeparator (path ! ends) then (ends, ends + 1)
          else (ends, ends))"

definition windowsUNCPrefixEnd :: "string \<Rightarrow> nat \<Rightarrow> nat \<times> nat" where
  "windowsUNCPrefixEnd path start =
     (case windowsNextComponentEnd path start of
        (firstEnd, ok) \<Rightarrow>
          if \<not> ok then (length path, length path)
          else (case windowsNextComponentEnd path (firstEnd + 1) of
                  (shareEnd, ok) \<Rightarrow>
                    if \<not> ok then (length path, length path)
                    else if shareEnd < length path \<and> IsWindowsPathSeparator (path ! shareEnd)
                    then (shareEnd, shareEnd + 1)
                    else (shareEnd, shareEnd)))"

definition hasWindowsVerbatimUNCPrefix :: "string \<Rightarrow> bool" where
  "hasWindowsVerbatimUNCPrefix path =
     (length path \<ge> 8 \<and> path ! 4 = CHR ''U'' \<and> path ! 5 = CHR ''N'' \<and> path ! 6 = CHR ''C''
      \<and> IsWindowsPathSeparator (path ! 7))"

definition hasWindowsVerbatimDrivePrefix :: "string \<Rightarrow> bool" where
  "hasWindowsVerbatimDrivePrefix path =
     (length path \<ge> 6 \<and> isWindowsDriveLetter (path ! 4) \<and> path ! 5 = CHR '':''
      \<and> (length path = 6 \<or> IsWindowsPathSeparator (path ! 6)))"

definition parseWindowsDoubleSeparatorPathPrefix :: "string \<Rightarrow> WindowsPathKind \<times> nat \<times> nat \<times> nat" where
  "parseWindowsDoubleSeparatorPathPrefix path =
     (if length path \<ge> 4 \<and> (path ! 2 = CHR ''?'' \<or> path ! 2 = CHR ''.'') \<and> IsWindowsPathSeparator (path ! 3)
      then if path ! 2 = CHR ''?'' \<and> hasWindowsVerbatimUNCPrefix path
           then (case windowsUNCPrefixEnd path 8 of
                   (prefixEnd, start) \<Rightarrow> (WindowsPathKind_VerbatimUNC, 0, u32 prefixEnd, u32 start))
           else if path ! 2 = CHR ''?'' \<and> hasWindowsVerbatimDrivePrefix path
           then let start = 4 + 2;
                    start = (if length path > start \<and> IsWindowsPathSeparator (path ! start) then start + 1 else start)
                in (WindowsPathKind_VerbatimDrive, 0, u32 (4 + 2), u32 start)
           else (case windowsPrefixEnd path 4 of
                   (prefixEnd, start) \<Rightarrow>
                     if path ! 2 = CHR ''?'' then (WindowsPathKind_Verbatim, 0, u32 prefixEnd, u32 start)
                     else (WindowsPathKind_Device, 0, u32 prefixEnd, u32 start))
      else (case windowsUNCPrefixEnd path 2 of
              (prefixEnd, start) \<Rightarrow> (WindowsPathKind_UNC, 0, u32 prefixEnd, u32 start)))"

definition parseWindowsPathPrefix :: "string \<Rightarrow> WindowsPathKind \<times> nat \<times> nat \<times> nat" where
  "parseWindowsPathPrefix path =
     (if length path \<ge> 2 \<and> isWindowsDriveLetter (path ! 0) \<and> path ! 1 = CHR '':''
      then if length path > 2 \<and> IsWindowsPathSeparator (path ! 2)
           then (WindowsPathKind_DriveAbsolute, 0, 2, 3)
           else (WindowsPathKind_DriveRelative, 0, 2, 2)
      else if length path = 0 \<or> \<not> IsWindowsPathSeparator (path ! 0)
      then (WindowsPathKind_Relative, 0, 0, 0)
      else if length path = 1 \<or> \<not> IsWindowsPathSeparator (path ! 1)
      then (WindowsPathKind_RootRelative, 0, 0, 1)
      else parseWindowsDoubleSeparatorPathPrefix path)"

definition ComponentsWindows :: "string \<Rightarrow> WindowsPath" where
  "ComponentsWindows path =
     (case parseWindowsPathPrefix path of
        (kind, prefixStart, prefixEnd, componentsStart) \<Rightarrow>
          \<lparr>wp_path = path, wp_prefixStart = prefixStart, wp_prefixEnd = prefixEnd,
           wp_componentsStart = componentsStart, wp_kind = kind\<rparr>)"

definition WindowsPath_Kind :: "WindowsPath \<Rightarrow> WindowsPathKind" where
  "WindowsPath_Kind c = wp_kind c"

definition WindowsPath_Prefix :: "WindowsPath \<Rightarrow> string option outcome" where
  "WindowsPath_Prefix c =
     (if wp_prefixStart c = wp_prefixEnd c then Inr None
      else go_bind (slice_sub (wp_path c) (int (wp_prefixStart c)) (int (wp_prefixEnd c)))
             (\<lambda>p. Inr (Some p)))"

definition WindowsPath_Components :: "WindowsPath \<Rightarrow> (string \<Rightarrow> 's \<Rightarrow> bool \<times> 's) \<Rightarrow> 's \<Rightarrow> nat \<times> 's" where
  "WindowsPath_Components c = components (wp_path c) IsWindowsPathSeparator (wp_componentsStart c)"

definition WindowsPath_ComponentsBackward :: "WindowsPath \<Rightarrow> (string \<Rightarrow> 's \<Rightarrow> bool \<times> 's) \<Rightarrow> 's \<Rightarrow> 's" where
  "WindowsPath_ComponentsBackward c =
     componentsBackward (wp_path c) IsWindowsPathSeparator (wp_componentsStart c)"

subsection \<open>DOS device names\<close>

definition Windows11DeviceNames :: "string list" where
  "Windows11DeviceNames =
     [''AUX'', ''CON'', ''CONIN$'', ''CONOUT$'',
      ''COM1'', ''COM2'', ''COM3'', ''COM4'', ''COM5'', ''COM6'', ''COM7'', ''COM8'', ''COM9'',
      ''COM'' @ [CHR 0xC2, CHR 0xB2], ''COM'' @ [CHR 0xC2, CHR 0xB3], ''COM'' @ [CHR 0xC2, CHR 0xB9],
      ''LPT1'', ''LPT2'', ''LPT3'', ''LPT4'', ''LPT5'', ''LPT6'', ''LPT7'', ''LPT8'', ''LPT9'',
      ''LPT'' @ [CHR 0xC2, CHR 0xB2], ''LPT'' @ [CHR 0xC2, CHR 0xB3], ''LPT'' @ [CHR 0xC2, CHR 0xB9],
      ''NUL'', ''PRN'']"

definition trimRightDotSpace :: "string \<Rightarrow> string" where
  "trimRightDotSpace name = rev (dropWhile (\<lambda>c. c = CHR ''.'' \<or> c = CHR '' '') (rev name))"

text \<open>
  The upper-casing of ASCII letters, byte by byte: bytes of multi-byte UTF-8 sequences are no
  ASCII letters, and a name with invalid UTF-8, which \<open>strings.Map\<close> would repair, is no device
  name before or after.
\<close>

definition asciiUpper :: "char \<Rightarrow> char" where
  "asciiUpper c =
     (let n = of_char c :: nat in if 97 \<le> n \<and> n \<le> 122 then char_of (n - 32) else c)"

fun findDeviceName :: "string \<Rightarrow> string list \<Rightarrow> string option" where
  "findDeviceName name [] = None"
| "findDeviceName name (deviceName # rest) =
     (if name = deviceName then Some deviceName else findDeviceName name rest)"

definition canonicalSpecialDOSDeviceName :: "string \<Rightarrow> string option" where
  "canonicalSpecialDOSDeviceName name =
     findDeviceName (map asciiUpper (trimRightDotSpace name)) Windows11DeviceNames"

definition WindowsPath_SpecialDOSDeviceName :: "WindowsPath \<Rightarrow> string option outcome" where
  "WindowsPath_SpecialDOSDeviceName c =
     (if wp_kind c = WindowsPathKind_Device
      then go_bind (WindowsPath_Prefix c) (\<lambda>p.
             case p of
               None \<Rightarrow> panicWith ''precondition violation: called Unwrap on None''
             | Some prefix \<Rightarrow>
                 go_bind (slice_sub prefix 4 (int (length prefix))) (\<lambda>name.
                   Inr (canonicalSpecialDOSDeviceName name)))
      else
        (let comps = components_list (wp_path c) IsWindowsPathSeparator (wp_componentsStart c)
         in if comps = [] then Inr None
            else if wp_kind c = WindowsPathKind_Relative \<and> length comps = 1
            then Inr (canonicalSpecialDOSDeviceName (last comps))
            else if wp_kind c = WindowsPathKind_Relative \<or> wp_kind c = WindowsPathKind_DriveAbsolute
            then (case canonicalSpecialDOSDeviceName (last comps) of
                    Some name \<Rightarrow> if name = ''NUL'' then Inr (Some name) else Inr None
                  | None \<Rightarrow> Inr None)
            else Inr None))"

section \<open>The specification: splitting at separators\<close>

text \<open>The non-empty pieces between separators, \<open>cur\<close> being the piece under way.\<close>

fun split_acc :: "(char \<Rightarrow> bool) \<Rightarrow> string \<Rightarrow> string \<Rightarrow> string list" where
  "split_acc sep cur [] = (if cur = [] then [] else [cur])"
| "split_acc sep cur (c # cs) =
     (if sep c then (if cur = [] then [] else [cur]) @ split_acc sep [] cs
      else split_acc sep (cur @ [c]) cs)"

definition comps :: "(char \<Rightarrow> bool) \<Rightarrow> string \<Rightarrow> string list" where
  "comps sep s = split_acc sep [] s"

lemma split_acc_sep_free:
  "(\<forall>c \<in> set xs. \<not> sep c) \<Longrightarrow> split_acc sep cur (xs @ ys) = split_acc sep (cur @ xs) ys"
  by (induction xs arbitrary: cur) auto

lemma split_acc_elems:
  assumes "x \<in> set (split_acc sep cur s)" and "\<forall>c \<in> set cur. \<not> sep c"
  shows "x \<noteq> [] \<and> (\<forall>c \<in> set x. \<not> sep c)"
  using assms by (induction sep cur s rule: split_acc.induct) (auto split: if_splits)

lemma comps_elems: "x \<in> set (comps sep s) \<Longrightarrow> x \<noteq> [] \<and> (\<forall>c \<in> set x. \<not> sep c)"
  using split_acc_elems [of x sep "[]" s] by (simp add: comps_def)

lemma comps_Nil [simp]: "comps sep [] = []"
  by (simp add: comps_def)

lemma comps_sep [simp]: "sep c \<Longrightarrow> comps sep (c # cs) = comps sep cs"
  by (simp add: comps_def)

lemma split_acc_append_sep:
  "sep c \<Longrightarrow> split_acc sep cur (xs @ c # ys) = split_acc sep cur xs @ split_acc sep [] ys"
  by (induction xs arbitrary: cur) auto

lemma comps_append_sep: "sep c \<Longrightarrow> comps sep (xs @ c # ys) = comps sep xs @ comps sep ys"
  by (simp add: comps_def split_acc_append_sep)

lemma comps_single: "x \<noteq> [] \<Longrightarrow> \<forall>c \<in> set x. \<not> sep c \<Longrightarrow> comps sep x = [x]"
  using split_acc_sep_free [of x sep "[]" "[]"] by (simp add: comps_def)

text \<open>The part of a path between two positions.\<close>

definition between :: "'a list \<Rightarrow> nat \<Rightarrow> nat \<Rightarrow> 'a list" where
  "between xs a b = take (b - a) (drop a xs)"

lemma between_same [simp]: "between xs a a = []"
  by (simp add: between_def)

lemma between_snoc: "a \<le> i \<Longrightarrow> i < length xs \<Longrightarrow> between xs a (Suc i) = between xs a i @ [xs ! i]"
  by (simp add: between_def Suc_diff_le take_Suc_conv_app_nth)

lemma between_split:
  "a \<le> i \<Longrightarrow> i < b \<Longrightarrow> b \<le> length xs \<Longrightarrow> between xs a b = between xs a i @ xs ! i # between xs (Suc i) b"
proof -
  assume le: "a \<le> i" "i < b" "b \<le> length xs"
  have "between xs a b = between xs a i @ between xs i b"
    using le take_add [of "i - a" "b - i" "drop a xs"] by (simp add: between_def)
  moreover have "between xs i b = xs ! i # between xs (Suc i) b"
    using le by (simp add: between_def Cons_nth_drop_Suc [symmetric] Suc_diff_Suc [symmetric])
  ultimately show ?thesis
    by simp
qed

lemma between_eq_Nil: "a \<le> b \<Longrightarrow> b \<le> length xs \<Longrightarrow> between xs a b = [] \<longleftrightarrow> a = b"
  by (auto simp: between_def)

lemma set_between: "b \<le> length xs \<Longrightarrow> x \<in> set (between xs a b) \<Longrightarrow> \<exists>j. a \<le> j \<and> j < b \<and> x = xs ! j"
  by (auto simp: between_def in_set_conv_nth) (metis add.commute le_add1 less_diff_conv)

lemma comps_piece:
  assumes "a \<le> b" "b \<le> length path" "\<And>j. a \<le> j \<Longrightarrow> j < b \<Longrightarrow> \<not> sep (path ! j)"
  shows "comps sep (between path a b) = (if a < b then [between path a b] else [])"
proof (cases "a < b")
  case True
  have "\<forall>c \<in> set (between path a b). \<not> sep c"
    using set_between [OF assms(2)] assms(3) by blast
  then show ?thesis
    using True assms by (simp add: comps_single between_eq_Nil)
qed (use assms in simp)

section \<open>The loops compute it\<close>

lemma components_loop_end: "components_loop path sep (Suc (length path)) k yield st = (k, st)"
  by (subst components_loop.simps) simp

lemma components_loop_spec:
  assumes "start \<le> i" and "i \<le> length path"
  shows "snd (components_loop path sep i start yield st) =
           snd (yield_all yield (split_acc sep (between path start i) (drop i path)) st)
       \<and> (fst (yield_all yield (split_acc sep (between path start i) (drop i path)) st) \<longrightarrow>
            fst (components_loop path sep i start yield st) = Suc (length path))"
  using assms
proof (induction "length path - i" arbitrary: i start st)
  case 0
  then have i: "i = length path"
    by simp
  have "components_loop path sep i start yield st =
      (if start < i
       then (case yield (between path start i) st of
               (False, st') \<Rightarrow> (start, st')
             | (True, st') \<Rightarrow> (Suc (length path), st'))
       else (Suc (length path), st))"
    using i by (subst components_loop.simps)
      (simp add: between_def components_loop_end split: prod.split bool.split)
  then show ?case
    using 0 i by (auto simp: between_eq_Nil split: prod.splits bool.splits)
next
  case (Suc n)
  then have i: "i < length path" and n: "n = length path - Suc i"
    by auto
  have drop: "drop i path = path ! i # drop (Suc i) path"
    using i by (simp add: Cons_nth_drop_Suc)
  show ?case
  proof (cases "sep (path ! i)")
    case False
    have "components_loop path sep i start yield st = components_loop path sep (Suc i) start yield st"
      using i False by (subst components_loop.simps) simp
    then show ?thesis
      using Suc.hyps(1) [OF n, of start st] Suc.prems i False by (simp add: drop between_snoc)
  next
    case True
    have step: "components_loop path sep i start yield st =
        (if start < i
         then (case yield (between path start i) st of
                 (False, st') \<Rightarrow> (start, st')
               | (True, st') \<Rightarrow> components_loop path sep (Suc i) (Suc i) yield st')
         else components_loop path sep (Suc i) (Suc i) yield st)"
      using i True by (subst components_loop.simps) (simp add: between_def split: prod.split bool.split)
    show ?thesis
      using Suc.hyps(1) [OF n, of "Suc i"] Suc.prems i True
      by (auto simp: step drop between_eq_Nil split: prod.splits bool.splits)
  qed
qed

lemma components_spec:
  assumes "start \<le> length path"
  shows "snd (components path sep start yield st) = snd (yield_all yield (comps sep (drop start path)) st)"
  using components_loop_spec [OF le_refl assms, of sep yield st]
  by (simp add: components_def comps_def)

lemma components_consumed:
  assumes "start \<le> length path" and "\<And>c acc. fst (yield c acc)"
  shows "fst (components path sep start yield st) = Suc (length path)"
proof -
  have "fst (yield_all yield cs acc)" for cs acc
    using assms(2) by (induction cs arbitrary: acc) (auto split: prod.splits bool.splits, metis fst_conv)
  then show ?thesis
    using components_loop_spec [OF le_refl assms(1), of sep yield st]
    by (simp add: components_def)
qed

lemma components_list_spec:
  "start \<le> length path \<Longrightarrow> components_list path sep start = comps sep (drop start path)"
  by (simp add: components_list_def components_spec yield_all_collect)

text \<open>The whole of \<open>componentsBackward\<close> from the middle of its loop.\<close>

lemma componentsBackward_loop_spec:
  assumes "n \<le> ends" and "ends \<le> length path" and "start \<le> n"
    and "\<And>j. n \<le> j \<Longrightarrow> j < ends \<Longrightarrow> \<not> sep (path ! j)"
  shows "(case componentsBackward_loop path sep start n ends yield st of
            Inr st' \<Rightarrow> st'
          | Inl (ends', st') \<Rightarrow>
              if start < ends' then snd (yield (take (ends' - start) (drop start path)) st') else st')
       = snd (yield_all yield (rev (comps sep (between path start ends))) st)"
  using assms
proof (induction n arbitrary: ends st)
  case 0
  then show ?case
    using comps_piece [of 0 ends path sep] by (auto simp: between_def split: prod.splits bool.splits)
next
  case (Suc i)
  consider "start = Suc i" | "start \<le> i" "\<not> sep (path ! i)" | "start \<le> i" "sep (path ! i)"
    using Suc.prems(3) by linarith
  then show ?case
  proof cases
    case 1
    then show ?thesis
      using comps_piece [of start ends path sep] Suc.prems
      by (auto simp: between_def split: prod.splits bool.splits)
  next
    case 2
    have "\<not> sep (path ! j)" if "i \<le> j" "j < ends" for j
      using that 2 Suc.prems(4) [of j] by (cases "j = i") auto
    then show ?thesis
      using 2 Suc.IH [of ends] Suc.prems(1,2) by simp
  next
    case 3
    have "comps sep (between path start ends) =
        comps sep (between path start i) @ comps sep (between path (Suc i) ends)"
      using 3 Suc.prems by (simp add: between_split [of start i ends] comps_append_sep)
    moreover have "comps sep (between path (Suc i) ends) =
        (if Suc i < ends then [between path (Suc i) ends] else [])"
      using Suc.prems by (intro comps_piece) auto
    moreover have "i \<le> length path"
      using Suc.prems by simp
    ultimately show ?thesis
      using 3 Suc.IH [of i] Suc.prems(1,2) by (auto simp: between_def split: prod.splits bool.splits)
  qed
qed

lemma componentsBackward_spec:
  assumes "start \<le> length path"
  shows "componentsBackward path sep start yield st =
           snd (yield_all yield (rev (comps sep (drop start path))) st)"
  using componentsBackward_loop_spec [of "length path" "length path" path start sep yield st] assms
  by (simp add: componentsBackward_def between_def)

section \<open>Windows prefixes\<close>

lemma nextSeparator_spec:
  "start \<le> length path \<Longrightarrow> start \<le> nextSeparator path start \<and> nextSeparator path start \<le> length path
     \<and> (\<forall>j. start \<le> j \<and> j < nextSeparator path start \<longrightarrow> \<not> IsWindowsPathSeparator (path ! j))
     \<and> (nextSeparator path start < length path \<longrightarrow> IsWindowsPathSeparator (path ! nextSeparator path start))"
proof (induction "length path - start" arbitrary: start)
  case 0
  then show ?case by (auto simp: nextSeparator.simps)
next
  case (Suc n)
  then have lt: "start < length path" and n: "n = length path - Suc start"
    by auto
  show ?case
  proof (cases "IsWindowsPathSeparator (path ! start)")
    case True
    then have "nextSeparator path start = start"
      using lt by (simp add: nextSeparator.simps)
    with lt True show ?thesis by auto
  next
    case False
    then have "nextSeparator path start = nextSeparator path (Suc start)"
      using lt by (subst nextSeparator.simps) simp
    moreover have "\<not> IsWindowsPathSeparator (path ! j)"
      if "start \<le> j" "j < nextSeparator path (Suc start)" for j
      using Suc.hyps(1) [OF n] lt False that by (cases "j = start") auto
    ultimately show ?thesis
      using Suc.hyps(1) [OF n] lt by auto
  qed
qed

text \<open>What every prefix position pair \<open>(e, s)\<close> satisfies: at most one separator between the two.\<close>

definition prefix_pair :: "string \<Rightarrow> nat \<Rightarrow> nat \<times> nat \<Rightarrow> bool" where
  "prefix_pair path lo r = (case r of (e, s) \<Rightarrow>
     lo \<le> e \<and> e \<le> s \<and> s \<le> length path \<and> (s = e \<or> s = Suc e \<and> IsWindowsPathSeparator (path ! e)))"

lemma windowsPrefixEnd_pair: "start \<le> length path \<Longrightarrow> prefix_pair path start (windowsPrefixEnd path start)"
  using nextSeparator_spec [of start path]
  by (auto simp: windowsPrefixEnd_def windowsNextComponentEnd_def prefix_pair_def)

lemma windowsUNCPrefixEnd_pair: "start \<le> length path \<Longrightarrow> prefix_pair path start (windowsUNCPrefixEnd path start)"
  using nextSeparator_spec [of start path] nextSeparator_spec [of "Suc (nextSeparator path start)" path]
  by (auto simp: windowsUNCPrefixEnd_def windowsNextComponentEnd_def prefix_pair_def)

lemma u32_id: "n \<le> length path \<Longrightarrow> length path < 2 ^ 32 \<Longrightarrow> u32 n = n"
  by (simp add: u32_def)

lemma parse_prefix_pair:
  assumes "length path < 2 ^ 32" and "parseWindowsPathPrefix path = (kind, ps, e, s)"
  shows "ps = 0 \<and> prefix_pair path 0 (e, s) \<and> (kind = WindowsPathKind_Device \<longrightarrow> 4 \<le> e)"
proof (cases "length path \<ge> 2 \<and> IsWindowsPathSeparator (path ! 0) \<and> IsWindowsPathSeparator (path ! 1)
              \<and> \<not> (isWindowsDriveLetter (path ! 0) \<and> path ! 1 = CHR '':'')")
  case False
  have "length path = 0 \<or> length path = 1 \<or> 2 \<le> length path"
    by linarith
  then show ?thesis
    using False assms(2)
    by (elim disjE) (auto simp: parseWindowsPathPrefix_def prefix_pair_def split: if_splits)
next
  case True
  then have parse: "parseWindowsDoubleSeparatorPathPrefix path = (kind, ps, e, s)"
    using assms(2) by (auto simp: parseWindowsPathPrefix_def split: if_splits)
  have id: "u32 n = n" if "n \<le> length path" for n
    using u32_id that assms(1) by blast
  have "prefix_pair path 2 (windowsUNCPrefixEnd path 2)"
    using True by (intro windowsUNCPrefixEnd_pair) simp
  moreover have "prefix_pair path 8 (windowsUNCPrefixEnd path 8)" if "hasWindowsVerbatimUNCPrefix path"
    using that by (intro windowsUNCPrefixEnd_pair) (simp add: hasWindowsVerbatimUNCPrefix_def)
  moreover have "prefix_pair path 4 (windowsPrefixEnd path 4)" if "4 \<le> length path"
    using that by (rule windowsPrefixEnd_pair)
  moreover have "prefix_pair path 4 (6, if length path > 6 \<and> IsWindowsPathSeparator (path ! 6) then 7 else 6)"
    if "hasWindowsVerbatimDrivePrefix path"
    using that by (auto simp: prefix_pair_def hasWindowsVerbatimDrivePrefix_def)
  ultimately show ?thesis
    using parse
    by (auto simp: parseWindowsDoubleSeparatorPathPrefix_def prefix_pair_def id Let_def
        split: if_splits prod.splits)
qed

section \<open>Properties\<close>

text \<open>
  C37. From any start, the forward iterator passes exactly the non-empty pieces between separators
  to the consumer, in order, and the backward iterator the same pieces in reverse order; both
  stop when the consumer does.
\<close>

theorem components_iterators_correct:
  assumes "start \<le> length path"
  shows "snd (components path sep start yield st) = snd (yield_all yield (comps sep (drop start path)) st)
       \<and> componentsBackward path sep start yield st =
           snd (yield_all yield (rev (comps sep (drop start path))) st)"
  by (simp add: components_spec [OF assms] componentsBackward_spec [OF assms])

theorem components_iterators_correct_witness:
  "componentsBackward ''/a//bc/'' isUnixSeparator 0 (\<lambda>c acc. (True, acc @ [c])) [] = [''bc'', ''a'']"
proof -
  have "comps isUnixSeparator ''/a//bc/'' = [''a'', ''bc'']"
    by (simp add: comps_def isUnixSeparator_def)
  then show ?thesis
    using components_iterators_correct [of 0 "''/a//bc/''" isUnixSeparator "\<lambda>c acc. (True, acc @ [c])" "[]"]
    by (simp add: yield_all_collect)
qed

text \<open>
  The sequence returned by \<open>components\<close> can be iterated only once: the closure assigns the
  captured \<open>start\<close>, so a second loop over the same sequence visits nothing. The backward sequence
  can be iterated again.
\<close>

lemma components_single_use:
  assumes "start \<le> length path" and "\<And>c acc. fst (yield c acc)"
  shows "components path sep (fst (components path sep start yield st)) yield2 st2 = (Suc (length path), st2)"
  using components_consumed [OF assms] by (simp add: components_def components_loop_end)

text \<open>
  The Windows parser, on every path that fits its 32-bit positions: the prefix starts the
  path, at most one separator stands between it and the first component, both positions are
  within the path, and neither \<open>Prefix\<close> nor \<open>SpecialDOSDeviceName\<close> panics.
\<close>

lemma ComponentsWindows_correct:
  assumes "length path < 2 ^ 32"
  shows "let w = ComponentsWindows path
         in wp_prefixStart w = 0 \<and> wp_prefixEnd w \<le> wp_componentsStart w \<and> wp_componentsStart w \<le> length path
          \<and> (wp_componentsStart w = wp_prefixEnd w
             \<or> wp_componentsStart w = Suc (wp_prefixEnd w) \<and> IsWindowsPathSeparator (path ! wp_prefixEnd w))
          \<and> WindowsPath_Prefix w = Inr (if wp_prefixEnd w = 0 then None else Some (take (wp_prefixEnd w) path))
          \<and> is_ok (WindowsPath_SpecialDOSDeviceName w)"
proof -
  obtain kind ps e s where parse: "parseWindowsPathPrefix path = (kind, ps, e, s)"
    by (cases "parseWindowsPathPrefix path")
  have w: "ComponentsWindows path = \<lparr>wp_path = path, wp_prefixStart = 0, wp_prefixEnd = e,
             wp_componentsStart = s, wp_kind = kind\<rparr>"
    and pos: "e \<le> s" "s \<le> length path" "s = e \<or> s = Suc e \<and> IsWindowsPathSeparator (path ! e)"
    and dev: "kind = WindowsPathKind_Device \<longrightarrow> 4 \<le> e"
    using parse_prefix_pair [OF assms parse] parse by (auto simp: ComponentsWindows_def prefix_pair_def)
  have prefix: "WindowsPath_Prefix (ComponentsWindows path) = Inr (if e = 0 then None else Some (take e path))"
    using slice_sub_nat [of 0 e path] pos by (simp add: w WindowsPath_Prefix_def)
  moreover have "is_ok (WindowsPath_SpecialDOSDeviceName (ComponentsWindows path))"
  proof (cases "kind = WindowsPathKind_Device")
    case True
    have "slice_sub (take e path) 4 (int (length (take e path))) = Inr (take (e - 4) (drop 4 (take e path)))"
      using slice_sub_nat [of 4 "length (take e path)" "take e path"] dev True pos by simp
    then show ?thesis
      using prefix dev True unfolding w WindowsPath_SpecialDOSDeviceName_def by simp
  next
    case False
    then show ?thesis
      by (simp add: w WindowsPath_SpecialDOSDeviceName_def Let_def split: option.split)
  qed
  ultimately show ?thesis
    using pos by (simp add: w Let_def)
qed

end
