(* ===== verification/Path_Lexical.thy ===== *)
theory Path_Lexical
  imports Path_Components
begin

text \<open>
  \<^verbatim>\<open>base/core/pathx/lexical.go\<close> on Unix: \<open>LexicallyNormalize\<close> with its lazily allocated
  \<open>lexicalBuffer\<close>, every access checked, and the standard library's \<open>filepath.Clean\<close>
  (\<^verbatim>\<open>go/src/internal/filepathlite/path.go\<close>) with its \<open>lazybuf\<close>, from which it is adapted. Both are
  shown to compute the same function of the components of the path; the documented difference,
  the preserved trailing separator, is a theorem. On Unix a path has no volume name, \<open>FromSlash\<close>
  is the identity and \<open>postLexicallyNormalize\<close> and \<open>postClean\<close> do nothing.
\<close>

section \<open>Definitions\<close>

abbreviation sep :: "char \<Rightarrow> bool" where
  "sep \<equiv> isUnixSeparator"

definition VolumeName :: "string \<Rightarrow> string" where
  "VolumeName path = []"

definition FromSlash :: "string \<Rightarrow> string" where
  "FromSlash path = path"

subsection \<open>The lexical buffer\<close>

record lexicalBuffer =
  lb_pathWithoutVolume :: string
  lb_buffer :: "string option"
  lb_writePos :: nat
  lb_originalPath :: string
  lb_volumeLen :: nat

definition byteAt :: "lexicalBuffer \<Rightarrow> nat \<Rightarrow> char outcome" where
  "byteAt b index =
     (case lb_buffer b of
        Some buf \<Rightarrow> slice_get buf (int index)
      | None \<Rightarrow> slice_get (lb_pathWithoutVolume b) (int index))"

definition storeByte :: "string \<Rightarrow> char \<Rightarrow> lexicalBuffer \<Rightarrow> lexicalBuffer outcome" where
  "storeByte buf c b =
     go_bind (slice_set buf (int (lb_writePos b)) c) (\<lambda>buf.
     Inr (b\<lparr>lb_buffer := Some buf, lb_writePos := lb_writePos b + 1\<rparr>))"

definition appendByte :: "char \<Rightarrow> lexicalBuffer \<Rightarrow> lexicalBuffer outcome" where
  "appendByte c b =
     (case lb_buffer b of
        Some buf \<Rightarrow> storeByte buf c b
      | None \<Rightarrow>
          let path = lb_pathWithoutVolume b
          in if lb_writePos b < length path \<and> path ! lb_writePos b = c
             then Inr (b\<lparr>lb_writePos := lb_writePos b + 1\<rparr>)
             else go_bind (slice_sub path 0 (int (lb_writePos b))) (\<lambda>prefix.
                  storeByte (go_copy (replicate (length path) (CHR 0x00)) prefix) c b))"

fun removeLast_loop :: "nat \<Rightarrow> nat \<Rightarrow> lexicalBuffer \<Rightarrow> nat outcome" where
  "removeLast_loop stopPos 0 b = Inr 0"
| "removeLast_loop stopPos (Suc w) b =
     (if Suc w > stopPos
      then go_bind (byteAt b (Suc w)) (\<lambda>c.
           if \<not> sep c then removeLast_loop stopPos w b else Inr (Suc w))
      else Inr (Suc w))"

definition removeLastPathElement :: "nat \<Rightarrow> lexicalBuffer \<Rightarrow> lexicalBuffer outcome" where
  "removeLastPathElement stopPos b =
     go_bind (removeLast_loop stopPos (lb_writePos b - 1) b) (\<lambda>w. Inr (b\<lparr>lb_writePos := w\<rparr>))"

definition lexicalBuffer_string :: "lexicalBuffer \<Rightarrow> string outcome" where
  "lexicalBuffer_string b =
     (case lb_buffer b of
        None \<Rightarrow> slice_sub (lb_originalPath b) 0 (int (lb_volumeLen b + lb_writePos b))
      | Some buf \<Rightarrow>
          go_bind (slice_sub (lb_originalPath b) 0 (int (lb_volumeLen b))) (\<lambda>vol.
          go_bind (slice_sub buf 0 (int (lb_writePos b))) (\<lambda>s. Inr (vol @ s))))"

definition shouldPreserveTrailingSeparator :: "lexicalBuffer \<Rightarrow> bool \<Rightarrow> bool outcome" where
  "shouldPreserveTrailingSeparator b rooted =
     (if lb_writePos b = 0 then Inr False
      else if rooted \<and> lb_writePos b = 1 then Inr False
      else go_bind (if lb_writePos b = 1
                    then go_bind (byteAt b 0) (\<lambda>c. Inr (c = CHR ''.'')) else Inr False) (\<lambda>dot.
           if dot then Inr False
           else go_bind (if lb_writePos b = 2
                         then go_bind (byteAt b 0) (\<lambda>c. if c = CHR ''.'' then
                                go_bind (byteAt b 1) (\<lambda>c. Inr (c = CHR ''.'')) else Inr False)
                         else Inr False) (\<lambda>dotdot.
                if dotdot then Inr False
                else go_bind (byteAt b (lb_writePos b - 1)) (\<lambda>c. Inr (\<not> sep c)))))"

definition hasTrailingPathSeparator :: "string \<Rightarrow> bool" where
  "hasTrailingPathSeparator path = (if path = [] then False else sep (path ! (length path - 1)))"

subsection \<open>The normalization loop\<close>

text \<open>Copying one element; the number of copied bytes bounds the loop.\<close>

function copyElement :: "string \<Rightarrow> nat \<Rightarrow> lexicalBuffer \<Rightarrow> (nat \<times> lexicalBuffer) outcome" where
  "copyElement path readPos b =
     (if readPos < length path \<and> \<not> sep (path ! readPos)
      then go_bind (appendByte (path ! readPos) b) (copyElement path (readPos + 1))
      else Inr (readPos, b))"
  by pat_completeness auto
termination by (relation "measure (\<lambda>(path, r, _). length path - r)") auto

declare copyElement.simps [simp del]

lemma copyElement_mono: "copyElement path r b = Inr (r', b') \<Longrightarrow> r \<le> r'"
proof (induction path r b rule: copyElement.induct)
  case (1 path r b)
  show ?case
  proof (cases "r < length path \<and> \<not> sep (path ! r)")
    case True
    then obtain b1 where "appendByte (path ! r) b = Inr b1" "copyElement path (r + 1) b1 = Inr (r', b')"
      using 1(2) by (subst (asm) copyElement.simps) (auto simp: go_bind_Inr_iff)
    then show ?thesis
      using 1(1) [OF True] by fastforce
  next
    case False
    then show ?thesis
      using 1(2) by (subst (asm) copyElement.simps) auto
  qed
qed

lemma copyElement_progress:
  assumes "copyElement path r b = Inr (r', b')" and "r < length path" and "\<not> sep (path ! r)"
  shows "r < r'"
proof -
  obtain b1 where "copyElement path (r + 1) b1 = Inr (r', b')"
    using assms by (subst (asm) copyElement.simps) (auto simp: go_bind_Inr_iff)
  then show ?thesis
    using copyElement_mono by fastforce
qed

function normalize_loop :: "string \<Rightarrow> bool \<Rightarrow> nat \<Rightarrow> nat \<Rightarrow> lexicalBuffer \<Rightarrow> lexicalBuffer outcome" where
  "normalize_loop path rooted readPos dotDotLimit output =
     (if readPos < length path
      then if sep (path ! readPos)
           then normalize_loop path rooted (readPos + 1) dotDotLimit output
           else if path ! readPos = CHR ''.'' \<and> (readPos + 1 = length path \<or> sep (path ! (readPos + 1)))
           then normalize_loop path rooted (readPos + 1) dotDotLimit output
           else if path ! readPos = CHR ''.'' \<and> path ! (readPos + 1) = CHR ''.''
                   \<and> (readPos + 2 = length path \<or> sep (path ! (readPos + 2)))
           then if lb_writePos output > dotDotLimit
                then go_bind (removeLastPathElement dotDotLimit output) (\<lambda>output.
                     normalize_loop path rooted (readPos + 2) dotDotLimit output)
                else if \<not> rooted
                then go_bind (if lb_writePos output > 0 then appendByte (CHR ''/'') output else Inr output) (\<lambda>output.
                     go_bind (appendByte (CHR ''.'') output) (\<lambda>output.
                     go_bind (appendByte (CHR ''.'') output) (\<lambda>output.
                     normalize_loop path rooted (readPos + 2) (lb_writePos output) output)))
                else normalize_loop path rooted (readPos + 2) dotDotLimit output
           else go_bind (if rooted \<and> lb_writePos output \<noteq> 1 \<or> \<not> rooted \<and> lb_writePos output \<noteq> 0
                         then appendByte (CHR ''/'') output else Inr output) (\<lambda>output.
                go_bind (copyElement path readPos output) (\<lambda>(readPos, output).
                normalize_loop path rooted readPos dotDotLimit output))
      else Inr output)"
  by pat_completeness auto
termination
  by (relation "measure (\<lambda>(path, _, r, _). length path - r)")
     (auto dest: copyElement_progress simp: diff_less_mono2)

declare normalize_loop.simps [simp del]

definition LexicallyNormalize :: "string \<Rightarrow> string outcome" where
  "LexicallyNormalize path =
     (let originalPath = path;
          volumeLen = length (VolumeName path);
          path = drop volumeLen path
      in if path = []
         then if volumeLen > 1 \<and> sep (originalPath ! 0) \<and> sep (originalPath ! 1)
              then Inr (FromSlash originalPath)
              else Inr (originalPath @ ''.'')
         else
           let rooted = sep (path ! 0);
               output = \<lparr>lb_pathWithoutVolume = path, lb_buffer = None, lb_writePos = 0,
                         lb_originalPath = originalPath, lb_volumeLen = volumeLen\<rparr>
           in go_bind (if rooted then appendByte (CHR ''/'') output else Inr output) (\<lambda>output.
              go_bind (normalize_loop path rooted (if rooted then 1 else 0) (if rooted then 1 else 0) output) (\<lambda>output.
              go_bind (if lb_writePos output = 0 then appendByte (CHR ''.'') output else Inr output) (\<lambda>output.
              go_bind (if hasTrailingPathSeparator path
                       then shouldPreserveTrailingSeparator output rooted else Inr False) (\<lambda>preserve.
              go_bind (if preserve then appendByte (CHR ''/'') output else Inr output) (\<lambda>output.
              go_bind (lexicalBuffer_string output) (\<lambda>s. Inr (FromSlash s))))))))"

section \<open>The specification: components on a stack\<close>

fun join_slash :: "string list \<Rightarrow> string" where
  "join_slash [] = []"
| "join_slash [x] = x"
| "join_slash (x # y # xs) = x @ CHR ''/'' # join_slash (y # xs)"

definition render :: "bool \<Rightarrow> string list \<Rightarrow> string" where
  "render rooted stack = (if rooted then ''/'' else []) @ join_slash stack"

definition norm_step :: "bool \<Rightarrow> string list \<Rightarrow> string \<Rightarrow> string list" where
  "norm_step rooted stack c =
     (if c = ''.'' then stack
      else if c = ''..''
      then if stack \<noteq> [] \<and> last stack \<noteq> ''..'' then butlast stack
           else if rooted then stack else stack @ [''..'']
      else stack @ [c])"

definition norm_comps :: "bool \<Rightarrow> string list \<Rightarrow> string list" where
  "norm_comps rooted cs = foldl (norm_step rooted) [] cs"

text \<open>The normal form of a non-empty path, without a trailing separator.\<close>

definition clean_spec :: "string \<Rightarrow> string" where
  "clean_spec path =
     (let rooted = path \<noteq> [] \<and> sep (hd path); out = render rooted (norm_comps rooted (comps sep path))
      in if out = [] then ''.'' else out)"

text \<open>A stack of normalized components: leading \<open>..\<close> (never below a root), then real elements.\<close>

definition real_elem :: "string \<Rightarrow> bool" where
  "real_elem x \<longleftrightarrow> x \<noteq> [] \<and> (\<forall>c \<in> set x. \<not> sep c) \<and> x \<noteq> ''.'' \<and> x \<noteq> ''..''"

definition norm_stack :: "bool \<Rightarrow> nat \<Rightarrow> string list \<Rightarrow> bool" where
  "norm_stack rooted k real \<longleftrightarrow> (rooted \<longrightarrow> k = 0) \<and> (\<forall>x \<in> set real. real_elem x)"

lemma sep_slash [simp]: "sep (CHR ''/'')"
  by (simp add: isUnixSeparator_def)

lemma join_slash_snoc:
  "join_slash (xs @ [x]) = (if xs = [] then x else join_slash xs @ CHR ''/'' # x)"
  by (induction xs rule: join_slash.induct) auto

lemma join_slash_append:
  "xs \<noteq> [] \<Longrightarrow> ys \<noteq> [] \<Longrightarrow> join_slash (xs @ ys) = join_slash xs @ CHR ''/'' # join_slash ys"
  by (induction xs rule: join_slash.induct) (auto simp: neq_Nil_conv)

lemma join_slash_Nil_iff: "(\<And>x. x \<in> set xs \<Longrightarrow> x \<noteq> []) \<Longrightarrow> join_slash xs = [] \<longleftrightarrow> xs = []"
  by (cases xs rule: join_slash.cases) auto

lemma render_snoc:
  "render rooted (xs @ [x]) = render rooted xs @ (if xs = [] then [] else ''/'') @ x"
  by (simp add: render_def join_slash_snoc)

lemma stack_elems_ne:
  assumes "norm_stack rooted k real" and "x \<in> set (replicate k ''..'' @ real)"
  shows "x \<noteq> []"
  using assms by (auto simp: norm_stack_def real_elem_def)

lemma render_length:
  assumes "norm_stack rooted k real"
  shows "length (render rooted (replicate k ''..'')) < length (render rooted (replicate k ''..'' @ real)) \<longleftrightarrow> real \<noteq> []"
proof (cases "real = []")
  case False
  have "join_slash real \<noteq> []"
    using join_slash_Nil_iff [of real] assms False by (auto simp: norm_stack_def real_elem_def)
  then show ?thesis
    using False by (cases "k = 0") (auto simp: render_def join_slash_append)
qed simp

lemma render_base:
  assumes "norm_stack rooted k real"
  shows "length (render rooted (replicate k ''..'' @ real)) = (if rooted then 1 else 0)
           \<longleftrightarrow> replicate k ''..'' @ real = []"
  using join_slash_Nil_iff [of "replicate k ''..'' @ real"] stack_elems_ne [OF assms]
  by (auto simp: render_def)

section \<open>The buffer holds the output\<close>

definition lb_out :: "lexicalBuffer \<Rightarrow> string" where
  "lb_out b = take (lb_writePos b) (case lb_buffer b of None \<Rightarrow> lb_pathWithoutVolume b | Some buf \<Rightarrow> buf)"

definition lb_ok :: "string \<Rightarrow> lexicalBuffer \<Rightarrow> bool" where
  "lb_ok path b \<longleftrightarrow> lb_pathWithoutVolume b = path \<and> lb_originalPath b = path \<and> lb_volumeLen b = 0
     \<and> lb_writePos b \<le> length path
     \<and> (case lb_buffer b of None \<Rightarrow> True | Some buf \<Rightarrow> length buf = length path)"

lemma length_lb_out: "lb_ok path b \<Longrightarrow> length (lb_out b) = lb_writePos b"
  by (auto simp: lb_ok_def lb_out_def split: option.splits)

lemma byteAt_spec: "lb_ok path b \<Longrightarrow> i < lb_writePos b \<Longrightarrow> byteAt b i = Inr (lb_out b ! i)"
  by (auto simp: lb_ok_def lb_out_def byteAt_def split: option.splits)

lemma appendByte_spec:
  assumes "lb_ok path b" and "lb_writePos b < length path"
  shows "\<exists>b'. appendByte c b = Inr b' \<and> lb_ok path b' \<and> lb_out b' = lb_out b @ [c]
           \<and> lb_writePos b' = lb_writePos b + 1"
proof (cases "lb_buffer b")
  case (Some buf)
  then show ?thesis
    using assms
    by (simp add: appendByte_def storeByte_def lb_ok_def lb_out_def take_Suc_conv_app_nth)
next
  case None
  then show ?thesis
    using assms
    by (auto simp: appendByte_def storeByte_def lb_ok_def lb_out_def go_copy_def take_Suc_conv_app_nth
        nth_append list_update_append)
qed

lemma lexicalBuffer_string_spec: "lb_ok path b \<Longrightarrow> lexicalBuffer_string b = Inr (lb_out b)"
  by (auto simp: lexicalBuffer_string_def lb_ok_def lb_out_def split: option.splits)

text \<open>Going back to the last separator at or after \<open>stop\<close>, or to \<open>stop\<close> itself.\<close>

lemma removeLast_loop_spec:
  assumes "lb_ok path b" and "lb_out b = pre @ suf" and "length pre \<le> w" and "w < lb_writePos b"
    and "\<And>i. length pre < i \<Longrightarrow> i \<le> w \<Longrightarrow> \<not> sep (lb_out b ! i)"
    and "stop \<le> length pre" and "length pre = stop \<or> sep (lb_out b ! length pre)"
  shows "removeLast_loop stop w b = Inr (length pre)"
  using assms(3-5)
proof (induction w)
  case 0
  then show ?case by simp
next
  case (Suc w)
  have at: "byteAt b (Suc w) = Inr (lb_out b ! Suc w)"
    using byteAt_spec [OF assms(1)] Suc.prems(2) by simp
  show ?case
  proof (cases "Suc w = length pre")
    case True
    show ?thesis
      by (simp only: removeLast_loop.simps at) (use assms(6,7) True in auto)
  next
    case False
    then show ?thesis
      using Suc.IH Suc.prems assms(6) at by simp
  qed
qed

lemma removeLastPathElement_spec:
  assumes "lb_ok path b" and "lb_out b = pre @ suf" and "suf \<noteq> []"
    and "\<And>i. 0 < i \<Longrightarrow> i < length suf \<Longrightarrow> \<not> sep (suf ! i)"
    and "stop \<le> length pre" and "length pre = stop \<or> sep (hd suf)"
  shows "\<exists>b'. removeLastPathElement stop b = Inr b' \<and> lb_ok path b' \<and> lb_out b' = pre"
proof -
  have w: "lb_writePos b = length pre + length suf"
    using length_lb_out [OF assms(1)] assms(2) by simp
  have "removeLast_loop stop (lb_writePos b - 1) b = Inr (length pre)"
  proof (rule removeLast_loop_spec [OF assms(1,2)])
    show "\<not> sep (lb_out b ! i)" if "length pre < i" "i \<le> lb_writePos b - 1" for i
      using assms(2,3) assms(4) [of "i - length pre"] that w by (auto simp: nth_append)
    show "length pre = stop \<or> sep (lb_out b ! length pre)"
      using assms(2,3,6) by (auto simp: nth_append hd_conv_nth)
    obtain n where "length suf = Suc n"
      using assms(3) by (cases suf) auto
    then show "length pre \<le> lb_writePos b - 1" "lb_writePos b - 1 < lb_writePos b"
      using w by auto
  qed (rule assms(5))
  moreover have "lb_out (b\<lparr>lb_writePos := length pre\<rparr>) = take (length pre) (lb_out b)"
    using w by (auto simp: lb_out_def min_def split: option.splits)
  moreover have "lb_ok path (b\<lparr>lb_writePos := length pre\<rparr>)"
    using assms(1) w by (auto simp: lb_ok_def split: option.splits)
  ultimately show ?thesis
    using assms(2) by (simp add: removeLastPathElement_def)
qed

section \<open>One element of the path\<close>

text \<open>The element that starts at \<open>r\<close>.\<close>

definition elem_at :: "string \<Rightarrow> nat \<Rightarrow> string" where
  "elem_at path r = takeWhile (\<lambda>c. \<not> sep c) (drop r path)"

lemma elem_at_next:
  assumes "r + length (elem_at path r) < length path"
  shows "sep (path ! (r + length (elem_at path r)))"
proof -
  have "length (takeWhile (\<lambda>c. \<not> sep c) (drop r path)) < length (drop r path)"
    using assms by (simp add: elem_at_def)
  from nth_length_takeWhile [OF this] show ?thesis
    using assms by (simp add: elem_at_def)
qed

lemma elem_at_end: "r \<le> length path \<Longrightarrow> r + length (elem_at path r) \<le> length path"
  using length_takeWhile_le [of "\<lambda>c. \<not> sep c" "drop r path"] by (simp add: elem_at_def)

lemma elem_at_nth: "i < length (elem_at path r) \<Longrightarrow> r \<le> length path \<Longrightarrow> path ! (r + i) = elem_at path r ! i"
  using takeWhile_nth [of i "\<lambda>c. \<not> sep c" "drop r path"] elem_at_end [of r path] by (simp add: elem_at_def)

lemma elem_at_sep_free: "c \<in> set (elem_at path r) \<Longrightarrow> \<not> sep c"
  by (auto simp: elem_at_def dest: set_takeWhileD)

lemma elem_at_ne: "r < length path \<Longrightarrow> \<not> sep (path ! r) \<Longrightarrow> elem_at path r \<noteq> []"
  by (simp add: elem_at_def Cons_nth_drop_Suc [symmetric])

lemma comps_elem_at:
  assumes "r < length path" and "\<not> sep (path ! r)"
  shows "comps sep (drop r path) = elem_at path r # comps sep (drop (r + length (elem_at path r)) path)"
proof -
  let ?x = "elem_at path r"
  have split: "drop r path = ?x @ drop (r + length ?x) path"
    by (metis add.commute drop_drop elem_at_def takeWhile_dropWhile_id dropWhile_eq_drop)
  show ?thesis
  proof (cases "r + length ?x < length path")
    case True
    then have "drop (r + length ?x) path = path ! (r + length ?x) # drop (Suc (r + length ?x)) path"
      by (simp add: Cons_nth_drop_Suc)
    then show ?thesis
      using split elem_at_next [OF True] comps_single [of ?x sep] elem_at_ne [OF assms] elem_at_sep_free
      by (metis append_Cons append_Nil comps_append_sep comps_sep)
  next
    case False
    then show ?thesis
      using split comps_single [of ?x sep] elem_at_ne [OF assms] elem_at_sep_free by simp
  qed
qed

text \<open>The two tests of the loop recognize the elements \<open>.\<close> and \<open>..\<close>.\<close>

lemma elem_at_length_iff:
  assumes "r < length path" and "\<not> sep (path ! r)" and "0 < n" and "r + n \<le> length path"
    and "\<And>i. i < n \<Longrightarrow> \<not> sep (path ! (r + i))"
  shows "length (elem_at path r) = n \<longleftrightarrow> r + n = length path \<or> sep (path ! (r + n))"
proof -
  have "n \<le> length (elem_at path r)"
  proof (rule ccontr)
    assume "\<not> n \<le> length (elem_at path r)"
    then show False
      using elem_at_next [of r path] assms(4,5) by auto
  qed
  moreover have "\<not> sep (path ! (r + n))" if "n < length (elem_at path r)"
    using elem_at_nth [OF that] elem_at_sep_free [OF nth_mem [OF that]] assms(1) by simp
  moreover have "r + length (elem_at path r) < length path \<or> r + length (elem_at path r) = length path"
    using elem_at_end [of r path] assms(1) by linarith
  ultimately show ?thesis
    using elem_at_next [of r path] by (cases "n = length (elem_at path r)") auto
qed

lemma elem_dot_iff:
  assumes "r < length path" and "\<not> sep (path ! r)"
  shows "path ! r = CHR ''.'' \<and> (r + 1 = length path \<or> sep (path ! (r + 1))) \<longleftrightarrow> elem_at path r = ''.''"
proof -
  have "length (elem_at path r) = 1 \<longleftrightarrow> r + 1 = length path \<or> sep (path ! (r + 1))"
    using assms by (intro elem_at_length_iff) auto
  moreover have "elem_at path r = ''.'' \<longleftrightarrow> length (elem_at path r) = 1 \<and> elem_at path r ! 0 = CHR ''.''"
    by (cases "elem_at path r") auto
  ultimately show ?thesis
    using elem_at_nth [of 0 path r] elem_at_ne [OF assms] assms(1) by auto
qed

lemma elem_dotdot_iff:
  assumes "r < length path" and "\<not> sep (path ! r)" and "elem_at path r \<noteq> ''.''"
  shows "path ! r = CHR ''.'' \<and> path ! (r + 1) = CHR ''.'' \<and> (r + 2 = length path \<or> sep (path ! (r + 2)))
           \<longleftrightarrow> elem_at path r = ''..''"
proof (cases "path ! r = CHR ''.'' \<and> path ! (r + 1) = CHR ''.'' \<and> r + 1 < length path")
  case True
  have "length (elem_at path r) = 2 \<longleftrightarrow> r + 2 = length path \<or> sep (path ! (r + 2))"
    using assms(1,2) True by (intro elem_at_length_iff) (auto simp: less_2_cases_iff isUnixSeparator_def)
  moreover have "elem_at path r = ''..''" if "length (elem_at path r) = 2"
    using that True elem_at_nth [of 0 path r] elem_at_nth [of 1 path r]
    by (auto simp: numeral_2_eq_2 length_Suc_conv)
  ultimately show ?thesis
    using True by auto
next
  case False
  have "path ! r = CHR ''.'' \<and> path ! (r + 1) = CHR ''.'' \<and> r + 1 < length path" if "elem_at path r = ''..''"
    using that elem_at_nth [of 0 path r] elem_at_nth [of 1 path r] elem_at_end [of r path] assms(1) by simp
  moreover have "r + 1 < length path" if "path ! r = CHR ''.''"
    using that assms elem_dot_iff [OF assms(1,2)] by auto
  ultimately show ?thesis
    using False by blast
qed

section \<open>The loop computes the specification\<close>

text \<open>The state of the loop at \<open>r\<close> with the stack \<open>replicate k ''..'' @ real\<close> in the buffer.\<close>

definition loop_inv :: "string \<Rightarrow> bool \<Rightarrow> nat \<Rightarrow> nat \<Rightarrow> lexicalBuffer \<Rightarrow> nat \<Rightarrow> string list \<Rightarrow> bool" where
  "loop_inv path rooted r limit b k real \<longleftrightarrow>
     lb_ok path b \<and> norm_stack rooted k real \<and> lb_out b = render rooted (replicate k ''..'' @ real)
   \<and> limit = length (render rooted (replicate k ''..'')) \<and> r \<le> length path \<and> lb_writePos b \<le> r
   \<and> (0 < r \<and> sep (path ! (r - 1)) \<and> replicate k ''..'' @ real \<noteq> [] \<longrightarrow> lb_writePos b < r)
   \<and> (r < length path \<and> \<not> sep (path ! r) \<longrightarrow> r = 0 \<or> sep (path ! (r - 1)))
   \<and> (rooted \<longrightarrow> 0 < r)"

lemma loop_inv_gap:
  assumes "loop_inv path rooted r limit b k real" and "r < length path" and "\<not> sep (path ! r)"
    and "replicate k ''..'' @ real \<noteq> []"
  shows "lb_writePos b < r"
proof (cases "r = 0")
  case True
  then have "lb_out b = []"
    using assms(1) length_lb_out by (fastforce simp: loop_inv_def)
  moreover have "\<not> rooted"
    using assms(1) True by (simp add: loop_inv_def)
  ultimately show ?thesis
    using assms(1,4) render_base [of rooted k real] by (simp add: loop_inv_def)
next
  case False
  then show ?thesis
    using assms by (auto simp: loop_inv_def)
qed

lemma loop_inv_sep:
  assumes "loop_inv path rooted r limit b k real" and "r < length path" and "sep (path ! r)"
  shows "loop_inv path rooted (r + 1) limit b k real"
  using assms by (auto simp: loop_inv_def)

text \<open>After an element has been read, the position is at a separator or at the end.\<close>

lemma loop_inv_elem:
  assumes "lb_ok path b" and "norm_stack rooted k real" and "lb_out b = render rooted (replicate k ''..'' @ real)"
    and "limit = length (render rooted (replicate k ''..''))"
    and "r < length path" and "\<not> sep (path ! r)" and "r' = r + length (elem_at path r)" and "lb_writePos b \<le> r'"
  shows "loop_inv path rooted r' limit b k real"
proof -
  obtain n where n: "length (elem_at path r) = Suc n"
    using elem_at_ne [OF assms(5,6)] by (cases "elem_at path r") auto
  then have "\<not> sep (path ! (r + n))"
    using elem_at_nth [of n path r] elem_at_sep_free [of "elem_at path r ! n" path r] assms(5) by simp
  moreover have "r' - 1 = r + n" "0 < r'"
    using n assms(7) by simp_all
  ultimately show ?thesis
    using assms elem_at_end [of r path] elem_at_next [of r path] by (auto simp: loop_inv_def)
qed

lemma copyElement_spec:
  assumes "lb_ok path b" and "r \<le> length path" and "lb_writePos b \<le> r"
  shows "\<exists>b'. copyElement path r b = Inr (r + length (elem_at path r), b') \<and> lb_ok path b'
           \<and> lb_out b' = lb_out b @ elem_at path r"
  using assms
proof (induction "length path - r" arbitrary: r b)
  case 0
  then show ?case
    by (subst copyElement.simps) (simp add: elem_at_def)
next
  case (Suc n)
  then have r: "r < length path" and n: "n = length path - (r + 1)"
    by auto
  show ?case
  proof (cases "sep (path ! r)")
    case True
    then have "elem_at path r = []"
      using r by (simp add: elem_at_def Cons_nth_drop_Suc [symmetric])
    with True show ?thesis
      using Suc.prems by (subst copyElement.simps) simp
  next
    case False
    have x: "elem_at path r = path ! r # elem_at path (r + 1)"
      using r False by (simp add: elem_at_def Cons_nth_drop_Suc [symmetric])
    obtain b1 where b1: "appendByte (path ! r) b = Inr b1" "lb_ok path b1" "lb_out b1 = lb_out b @ [path ! r]"
        "lb_writePos b1 = lb_writePos b + 1"
      using appendByte_spec [of path b "path ! r"] Suc.prems r by auto
    then obtain b' where "copyElement path (r + 1) b1 = Inr (r + 1 + length (elem_at path (r + 1)), b')"
        "lb_ok path b'" "lb_out b' = lb_out b1 @ elem_at path (r + 1)"
      using Suc.hyps(1) [OF n b1(2)] r Suc.prems(3) by auto
    then show ?thesis
      using r False b1 x by (subst copyElement.simps) simp
  qed
qed

lemma norm_step_dotdot:
  assumes "norm_stack rooted k real"
  shows "norm_step rooted (replicate k ''..'' @ real) ''..'' =
    (if real \<noteq> [] then replicate k ''..'' @ butlast real
     else if rooted then replicate k ''..'' else replicate (Suc k) ''..'')"
proof (cases "real = []")
  case True
  then show ?thesis
    by (auto simp: norm_step_def replicate_append_same)
next
  case False
  then have "last real \<noteq> ''..''"
    using assms last_in_set [of real] by (auto simp: norm_stack_def real_elem_def)
  then show ?thesis
    using False by (simp add: norm_step_def butlast_append)
qed

lemma step_dotdot_remove:
  assumes inv: "loop_inv path rooted r limit b k real" and r: "r < length path" "\<not> sep (path ! r)"
    and x: "elem_at path r = ''..''" and w: "lb_writePos b > limit"
  shows "\<exists>b'. removeLastPathElement limit b = Inr b' \<and> loop_inv path rooted (r + 2) limit b' k (butlast real)"
proof -
  have ok: "lb_ok path b" and st: "norm_stack rooted k real"
    and out: "lb_out b = render rooted (replicate k ''..'' @ real)"
    and limit: "limit = length (render rooted (replicate k ''..''))" and le: "lb_writePos b \<le> r"
    using inv by (simp_all add: loop_inv_def)
  have "real \<noteq> []"
    using render_length [OF st] w length_lb_out [OF ok] out limit by simp
  then obtain ys y where real: "real = ys @ [y]"
    by (cases real rule: rev_cases) auto
  then have y: "y \<noteq> []" "\<And>c. c \<in> set y \<Longrightarrow> \<not> sep c"
    using st by (auto simp: norm_stack_def real_elem_def)
  let ?s = "replicate k ''..'' @ ys"
  let ?pre = "render rooted ?s" and ?suf = "(if ?s = [] then [] else ''/'') @ y"
  have "lb_out b = ?pre @ ?suf"
    using render_snoc [of rooted ?s y] out real by simp
  moreover have "\<not> sep (?suf ! i)" if "0 < i" "i < length ?suf" for i
    using that y(2) by (auto simp: nth_append nth_Cons' split: if_splits)
  moreover have "limit \<le> length ?pre"
    using render_length [of rooted k ys] st limit real by (cases "ys = []") (auto simp: norm_stack_def)
  moreover have "length ?pre = limit \<or> sep (hd ?suf)"
    using limit by (cases "?s = []") auto
  ultimately obtain b' where b': "removeLastPathElement limit b = Inr b'" "lb_ok path b'" "lb_out b' = ?pre"
    using removeLastPathElement_spec [OF ok, of ?pre ?suf limit] y(1) by auto
  have "length ?pre \<le> length (lb_out b)"
    using \<open>lb_out b = ?pre @ ?suf\<close> by simp
  then have "lb_writePos b' \<le> r + 2"
    using length_lb_out [OF b'(2)] length_lb_out [OF ok] b'(3) le by simp
  then have "loop_inv path rooted (r + 2) limit b' k ys"
    using b' st limit real x r by (intro loop_inv_elem [of path b' rooted k ys limit r]) (auto simp: norm_stack_def)
  then show ?thesis
    using b'(1) real by auto
qed

lemma step_append:
  assumes inv: "loop_inv path rooted r limit b k real" and r: "r < length path" "\<not> sep (path ! r)"
  shows "\<exists>b'. (if rooted \<and> lb_writePos b \<noteq> 1 \<or> \<not> rooted \<and> lb_writePos b \<noteq> 0
               then appendByte (CHR ''/'') b else Inr b) = Inr b'
           \<and> lb_ok path b' \<and> lb_writePos b' \<le> r
           \<and> lb_out b' = lb_out b @ (if replicate k ''..'' @ real = [] then [] else ''/'')"
proof -
  have ok: "lb_ok path b" and st: "norm_stack rooted k real"
    and out: "lb_out b = render rooted (replicate k ''..'' @ real)" and le: "lb_writePos b \<le> r"
    using inv by (simp_all add: loop_inv_def)
  have empty: "(rooted \<and> lb_writePos b \<noteq> 1 \<or> \<not> rooted \<and> lb_writePos b \<noteq> 0) \<longleftrightarrow> replicate k ''..'' @ real \<noteq> []"
    using render_base [OF st] length_lb_out [OF ok] out by (auto split: if_splits)
  show ?thesis
  proof (cases "replicate k ''..'' @ real = []")
    case True
    then have "\<not> (rooted \<and> lb_writePos b \<noteq> 1 \<or> \<not> rooted \<and> lb_writePos b \<noteq> 0)"
      using empty by blast
    then show ?thesis
      using True ok le by (simp only: if_False) simp
  next
    case False
    then have "lb_writePos b < r"
      using loop_inv_gap [OF inv r] by blast
    then obtain b' where "appendByte (CHR ''/'') b = Inr b'" "lb_ok path b'" "lb_out b' = lb_out b @ ''/''"
        "lb_writePos b' = lb_writePos b + 1"
      using appendByte_spec [OF ok, of "CHR ''/''"] r(1) by auto
    moreover have "rooted \<and> lb_writePos b \<noteq> 1 \<or> \<not> rooted \<and> lb_writePos b \<noteq> 0"
      using empty False by blast
    ultimately show ?thesis
      using False \<open>lb_writePos b < r\<close> by (simp only: if_True) auto
  qed
qed

lemma step_dotdot_append:
  assumes inv: "loop_inv path False r limit b k []" and r: "r < length path" "\<not> sep (path ! r)"
    and x: "elem_at path r = ''..''"
  shows "\<exists>b1 b2 b'. (if lb_writePos b > 0 then appendByte (CHR ''/'') b else Inr b) = Inr b1
           \<and> appendByte (CHR ''.'') b1 = Inr b2 \<and> appendByte (CHR ''.'') b2 = Inr b'
           \<and> loop_inv path False (r + 2) (lb_writePos b') b' (Suc k) []"
proof -
  obtain b1 where b1: "(if lb_writePos b > 0 then appendByte (CHR ''/'') b else Inr b) = Inr b1"
      "lb_ok path b1" "lb_writePos b1 \<le> r" "lb_out b1 = lb_out b @ (if k = 0 then [] else ''/'')"
    using step_append [OF inv r] by (auto split: if_splits)
  have end2: "r + 2 \<le> length path"
    using elem_at_end [of r path] x r(1) by simp
  obtain b2 where b2: "appendByte (CHR ''.'') b1 = Inr b2" "lb_ok path b2" "lb_out b2 = lb_out b1 @ ''.''"
      "lb_writePos b2 = lb_writePos b1 + 1"
    using appendByte_spec [OF b1(2), of "CHR ''.''"] b1(3) r(1) by auto
  obtain b3 where b3: "appendByte (CHR ''.'') b2 = Inr b3" "lb_ok path b3" "lb_out b3 = lb_out b2 @ ''.''"
      "lb_writePos b3 = lb_writePos b2 + 1"
    using appendByte_spec [OF b2(2), of "CHR ''.''"] b1(3) b2(4) end2 by auto
  have "lb_out b3 = render False (replicate (Suc k) ''..'')"
    using b3(3) b2(3) b1(4) inv render_snoc [of False "replicate k ''..''" "''..''"]
    by (simp add: loop_inv_def replicate_append_same)
  then have "loop_inv path False (r + 2) (lb_writePos b3) b3 (Suc k) []"
    using b1(3) b2(4) b3 length_lb_out [OF b3(2)] x r
    by (intro loop_inv_elem [of path b3 False "Suc k" "[]" _ r]) (auto simp: norm_stack_def)
  then show ?thesis
    using b1(1) b2(1) b3(1) by blast
qed

lemma step_real:
  assumes inv: "loop_inv path rooted r limit b k real" and r: "r < length path" "\<not> sep (path ! r)"
    and x: "elem_at path r \<noteq> ''.''" "elem_at path r \<noteq> ''..''"
  shows "\<exists>b1 b'. (if rooted \<and> lb_writePos b \<noteq> 1 \<or> \<not> rooted \<and> lb_writePos b \<noteq> 0
                  then appendByte (CHR ''/'') b else Inr b) = Inr b1
           \<and> copyElement path r b1 = Inr (r + length (elem_at path r), b')
           \<and> loop_inv path rooted (r + length (elem_at path r)) limit b' k (real @ [elem_at path r])"
proof -
  obtain b1 where b1: "(if rooted \<and> lb_writePos b \<noteq> 1 \<or> \<not> rooted \<and> lb_writePos b \<noteq> 0
                  then appendByte (CHR ''/'') b else Inr b) = Inr b1"
      "lb_ok path b1" "lb_writePos b1 \<le> r"
      "lb_out b1 = lb_out b @ (if replicate k ''..'' @ real = [] then [] else ''/'')"
    using step_append [OF inv r] by blast
  obtain b' where b': "copyElement path r b1 = Inr (r + length (elem_at path r), b')" "lb_ok path b'"
      "lb_out b' = lb_out b1 @ elem_at path r"
    using copyElement_spec [OF b1(2) _ b1(3)] r(1) by auto
  have out: "lb_out b' = render rooted (replicate k ''..'' @ (real @ [elem_at path r]))"
    using b'(3) b1(4) inv render_snoc [of rooted "replicate k ''..'' @ real" "elem_at path r"]
    by (simp add: loop_inv_def)
  have w: "lb_writePos b' \<le> r + length (elem_at path r)"
    using length_lb_out [OF b'(2)] length_lb_out [OF b1(2)] b'(3) b1(3) by simp
  have "norm_stack rooted k (real @ [elem_at path r])"
    using inv x elem_at_ne [OF r] elem_at_sep_free by (auto simp: loop_inv_def norm_stack_def real_elem_def)
  then have "loop_inv path rooted (r + length (elem_at path r)) limit b' k (real @ [elem_at path r])"
    using out w b'(2) inv r by (intro loop_inv_elem) (auto simp: loop_inv_def)
  then show ?thesis
    using b1(1) b'(1) by blast
qed

text \<open>The result of the loop: the normal form, with room for a trailing separator if there was one.\<close>

definition loop_result :: "string \<Rightarrow> bool \<Rightarrow> lexicalBuffer \<Rightarrow> string list \<Rightarrow> bool" where
  "loop_result path rooted b stack \<longleftrightarrow> lb_ok path b \<and> lb_out b = render rooted stack
     \<and> (\<exists>k real. norm_stack rooted k real \<and> stack = replicate k ''..'' @ real)
     \<and> (path \<noteq> [] \<and> sep (last path) \<and> stack \<noteq> [] \<longrightarrow> lb_writePos b < length path)"

lemma normalize_loop_elem:
  assumes "r < length path" and "\<not> sep (path ! r)"
  shows "normalize_loop path rooted r limit b =
    (if elem_at path r = ''.'' then normalize_loop path rooted (r + 1) limit b
     else if elem_at path r = ''..''
     then if lb_writePos b > limit
          then go_bind (removeLastPathElement limit b) (\<lambda>b. normalize_loop path rooted (r + 2) limit b)
          else if \<not> rooted
          then go_bind (if lb_writePos b > 0 then appendByte (CHR ''/'') b else Inr b) (\<lambda>b.
               go_bind (appendByte (CHR ''.'') b) (\<lambda>b.
               go_bind (appendByte (CHR ''.'') b) (\<lambda>b.
               normalize_loop path rooted (r + 2) (lb_writePos b) b)))
          else normalize_loop path rooted (r + 2) limit b
     else go_bind (if rooted \<and> lb_writePos b \<noteq> 1 \<or> \<not> rooted \<and> lb_writePos b \<noteq> 0
                   then appendByte (CHR ''/'') b else Inr b) (\<lambda>b.
          go_bind (copyElement path r b) (\<lambda>(r, b). normalize_loop path rooted r limit b)))"
proof -
  have c1: "(path ! r = CHR ''.'' \<and> (r + 1 = length path \<or> sep (path ! (r + 1)))) = (elem_at path r = ''.'')"
    using elem_dot_iff [OF assms] by blast
  show ?thesis
  proof (cases "elem_at path r = ''.''")
    case True
    show ?thesis
      by (subst normalize_loop.simps) (simp only: assms c1 True refl if_True if_False)
  next
    case False
    then have "(path ! r = CHR ''.'' \<and> path ! (r + 1) = CHR ''.''
        \<and> (r + 2 = length path \<or> sep (path ! (r + 2)))) = (elem_at path r = ''..'')"
      using elem_dotdot_iff [OF assms] by blast
    with False show ?thesis
      by (subst normalize_loop.simps) (simp only: assms c1 if_True if_False)
  qed
qed

text \<open>One element of the path: the loop goes on behind it, with the state that the stack of elements then has.\<close>

lemma normalize_loop_dotdot:
  assumes inv: "loop_inv path rooted r limit b k real" and r: "r < length path" "\<not> sep (path ! r)" and x: "elem_at path r = ''..''"
  shows "\<exists>l b' k' real'. normalize_loop path rooted r limit b = normalize_loop path rooted (r + 2) l b'
    \<and> loop_inv path rooted (r + 2) l b' k' real' \<and> replicate k' ''..'' @ real' = norm_step rooted (replicate k ''..'' @ real) ''..''"
proof -
  have w: "lb_writePos b > limit \<longleftrightarrow> real \<noteq> []"
    using inv render_length [of rooted k real] length_lb_out [of path b] by (simp add: loop_inv_def)
  have dd: "norm_step rooted (replicate k ''..'' @ real) ''..'' = (if real \<noteq> [] then replicate k ''..'' @ butlast real
      else if rooted then replicate k ''..'' else replicate (Suc k) ''..'')"
    using inv by (intro norm_step_dotdot) (simp add: loop_inv_def)
  consider (up) "real \<noteq> []" | (keep) "real = []" "\<not> rooted" | (root) "real = []" "rooted"
    by blast
  then show ?thesis
  proof cases
    case up
    then obtain b' where b': "removeLastPathElement limit b = Inr b'" "loop_inv path rooted (r + 2) limit b' k (butlast real)"
      using step_dotdot_remove [OF inv r x] w by blast
    moreover have "normalize_loop path rooted r limit b = normalize_loop path rooted (r + 2) limit b'"
      using r x up w b'(1) by (simp add: normalize_loop_elem [of r])
    ultimately show ?thesis
      using up dd by auto
  next
    case keep
    then have "loop_inv path False r limit b k []" "\<not> lb_writePos b > limit"
      using inv w by simp_all
    from step_dotdot_append [OF this(1) r x] obtain b1 b2 b' where
      b': "(if lb_writePos b > 0 then appendByte (CHR ''/'') b else Inr b) = Inr b1"
        "appendByte (CHR ''.'') b1 = Inr b2" "appendByte (CHR ''.'') b2 = Inr b'"
        "loop_inv path False (r + 2) (lb_writePos b') b' (Suc k) []"
      by blast
    have "normalize_loop path rooted r limit b = normalize_loop path rooted (r + 2) (lb_writePos b') b'"
      using r x keep \<open>\<not> lb_writePos b > limit\<close>
      by (simp only: normalize_loop_elem [of r] b'(1-3) not_False_eq_True if_True if_False go_bind_Inr prod.case) simp
    then show ?thesis
      using b'(4) keep dd by (metis append_Nil2)
  next
    case root
    have "loop_inv path rooted (r + 2) limit b k real"
      using inv r x root loop_inv_elem [of path b rooted k real limit r] by (auto simp: loop_inv_def)
    moreover have "normalize_loop path rooted r limit b = normalize_loop path rooted (r + 2) limit b"
      using r x root w by (simp add: normalize_loop_elem [of r])
    ultimately show ?thesis
      using root dd by auto
  qed
qed

lemma normalize_loop_step:
  assumes inv: "loop_inv path rooted r limit b k real" and r: "r < length path" "\<not> sep (path ! r)"
  defines "x \<equiv> elem_at path r"
  shows "\<exists>l b' k' real'. normalize_loop path rooted r limit b = normalize_loop path rooted (r + length x) l b'
    \<and> loop_inv path rooted (r + length x) l b' k' real' \<and> replicate k' ''..'' @ real' = norm_step rooted (replicate k ''..'' @ real) x"
proof -
  consider (dot) "x = ''.''" | (dotdot) "x = ''..''" | (elem) "x \<noteq> ''.''" "x \<noteq> ''..''"
    by blast
  then show ?thesis
  proof cases
    case dot
    have "loop_inv path rooted (r + length x) limit b k real"
      using inv r dot unfolding x_def by (intro loop_inv_elem) (auto simp: loop_inv_def)
    moreover have "normalize_loop path rooted r limit b = normalize_loop path rooted (r + length x) limit b"
      using r dot unfolding x_def by (simp add: normalize_loop_elem [of r])
    ultimately show ?thesis
      using dot by (auto simp: norm_step_def)
  next
    case dotdot
    then show ?thesis
      using normalize_loop_dotdot [OF inv r] by (simp add: x_def)
  next
    case elem
    from step_real [OF inv r elem [unfolded x_def]] obtain b1 b' where
      b': "(if rooted \<and> lb_writePos b \<noteq> 1 \<or> \<not> rooted \<and> lb_writePos b \<noteq> 0 then appendByte (CHR ''/'') b else Inr b) = Inr b1"
        "copyElement path r b1 = Inr (r + length x, b')" "loop_inv path rooted (r + length x) limit b' k (real @ [x])"
      unfolding x_def by blast
    have "normalize_loop path rooted r limit b = normalize_loop path rooted (r + length x) limit b'"
      using r elem b'(2) unfolding x_def
      by (simp only: normalize_loop_elem [of r] b'(1) not_False_eq_True if_True if_False go_bind_Inr prod.case)
    moreover have "norm_step rooted (replicate k ''..'' @ real) x = replicate k ''..'' @ (real @ [x])"
      using elem by (simp add: norm_step_def)
    ultimately show ?thesis
      using b'(3) by metis
  qed
qed

lemma normalize_loop_spec:
  assumes "loop_inv path rooted r limit b k real"
  shows "\<exists>b'. normalize_loop path rooted r limit b = Inr b'
           \<and> loop_result path rooted b' (foldl (norm_step rooted) (replicate k ''..'' @ real) (comps sep (drop r path)))"
  using assms
proof (induction "length path - r" arbitrary: r limit b k real rule: less_induct)
  case less
  note inv = less.prems
  consider (fin) "r = length path" | (gap) "r < length path" "sep (path ! r)" | (elem) "r < length path" "\<not> sep (path ! r)"
    using inv by (auto simp: loop_inv_def le_less)
  then show ?case
  proof cases
    case fin
    then have "normalize_loop path rooted r limit b = Inr b"
      by (subst normalize_loop.simps) simp
    then show ?thesis
      using inv fin by (auto simp: loop_inv_def loop_result_def last_conv_nth)
  next
    case gap
    then have "normalize_loop path rooted r limit b = normalize_loop path rooted (r + 1) limit b"
      by (subst normalize_loop.simps) simp
    moreover have "drop r path = path ! r # drop (r + 1) path"
      using gap(1) by (simp add: Cons_nth_drop_Suc)
    ultimately show ?thesis
      using less.hyps [OF _ loop_inv_sep [OF inv gap]] gap by simp
  next
    case elem
    let ?x = "elem_at path r"
    obtain l b' k' real' where step: "normalize_loop path rooted r limit b = normalize_loop path rooted (r + length ?x) l b'"
        "loop_inv path rooted (r + length ?x) l b' k' real'" "replicate k' ''..'' @ real' = norm_step rooted (replicate k ''..'' @ real) ?x"
      using normalize_loop_step [OF inv elem] by blast
    have "length path - (r + length ?x) < length path - r"
      using elem_at_ne [OF elem] elem(1) by (intro diff_less_mono2) simp_all
    then show ?thesis
      using less.hyps [OF _ step(2)] step(1,3) comps_elem_at [OF elem] by simp
  qed
qed

section \<open>\<open>LexicallyNormalize\<close>\<close>

definition normalize_spec :: "string \<Rightarrow> string" where
  "normalize_spec path =
     (let out = clean_spec path
      in if path \<noteq> [] \<and> sep (last path) \<and> out \<notin> {''.'', ''..'', ''/''} then out @ ''/'' else out)"

lemma shouldPreserve_spec:
  assumes "lb_ok path b"
  shows "shouldPreserveTrailingSeparator b rooted =
    Inr (lb_out b \<noteq> [] \<and> \<not> (rooted \<and> length (lb_out b) = 1) \<and> lb_out b \<noteq> ''.'' \<and> lb_out b \<noteq> ''..''
         \<and> \<not> sep (last (lb_out b)))"
proof -
  have w: "lb_writePos b = length (lb_out b)"
    using length_lb_out [OF assms] by simp
  have at: "byteAt b i = Inr (lb_out b ! i)" if "i < length (lb_out b)" for i
    using byteAt_spec [OF assms] that w by simp
  show ?thesis
  proof (cases "lb_out b" rule: remdups_adj.cases)
    case 1
    then show ?thesis
      by (simp add: shouldPreserveTrailingSeparator_def w)
  next
    case (2 x)
    then show ?thesis
      using at [of 0] by (auto simp: shouldPreserveTrailingSeparator_def w)
  next
    case (3 x y xs)
    have "last (lb_out b) = lb_out b ! (length (lb_out b) - 1)"
      using 3 by (intro last_conv_nth) simp
    then show ?thesis
      using 3 at [of 0] at [of 1] at [of "length (lb_out b) - 1"]
      by (auto simp: shouldPreserveTrailingSeparator_def w)
  qed
qed

lemma last_render:
  assumes "norm_stack rooted k real" and "replicate k ''..'' @ real \<noteq> []"
  shows "\<not> sep (last (render rooted (replicate k ''..'' @ real)))"
proof -
  let ?s = "replicate k ''..'' @ real"
  have x: "last ?s \<noteq> []" "\<not> sep (last (last ?s))"
  proof -
    have "real_elem (last real)" if "real \<noteq> []"
      using assms(1) that by (simp add: norm_stack_def)
    moreover have "last ?s = ''..''" if "real = []"
      using that assms(2) by (simp add: last_replicate)
    ultimately show "last ?s \<noteq> []" "\<not> sep (last (last ?s))"
      by (cases "real = []"; simp add: real_elem_def isUnixSeparator_def)+
  qed
  have "render rooted ?s = render rooted (butlast ?s) @ (if butlast ?s = [] then [] else ''/'') @ last ?s"
    using render_snoc [of rooted "butlast ?s" "last ?s"] assms(2) by simp
  then show ?thesis
    using x by (metis append_is_Nil_conv last_appendR)
qed

lemma first_buffer:
  assumes "path \<noteq> []"
  defines "b0 \<equiv> \<lparr>lb_pathWithoutVolume = path, lb_buffer = None, lb_writePos = 0,
                 lb_originalPath = path, lb_volumeLen = 0\<rparr>"
  shows "\<exists>b. (if sep (path ! 0) then appendByte (CHR ''/'') b0 else Inr b0) = Inr b
    \<and> loop_inv path (sep (path ! 0)) (if sep (path ! 0) then 1 else 0) (if sep (path ! 0) then 1 else 0) b 0 []"
proof (cases "sep (path ! 0)")
  case True
  then have "path ! 0 = CHR ''/''" "path = CHR ''/'' # tl path"
    using assms(1) by (cases path; simp add: isUnixSeparator_def)+
  then have "appendByte (CHR ''/'') b0 = Inr (b0\<lparr>lb_writePos := 1\<rparr>)" "take 1 path = ''/''"
    using assms(1) by (simp add: appendByte_def b0_def, metis One_nat_def take0 take_Suc_Cons)
  then show ?thesis
    using True assms(1)
    by (auto simp: loop_inv_def lb_ok_def b0_def norm_stack_def lb_out_def render_def Suc_le_eq)
next
  case False
  then show ?thesis
    using assms(1) by (simp add: loop_inv_def lb_ok_def b0_def norm_stack_def lb_out_def render_def)
qed

lemma comps_rooted: "path \<noteq> [] \<Longrightarrow> comps sep (drop (if sep (path ! 0) then 1 else 0) path) = comps sep path"
  by (cases path) auto

lemma LexicallyNormalize_loop:
  assumes "path \<noteq> []"
  obtains b b' stack where
    "(if sep (path ! 0) then appendByte (CHR ''/'')
        \<lparr>lb_pathWithoutVolume = path, lb_buffer = None, lb_writePos = 0, lb_originalPath = path, lb_volumeLen = 0\<rparr>
      else Inr \<lparr>lb_pathWithoutVolume = path, lb_buffer = None, lb_writePos = 0,
                lb_originalPath = path, lb_volumeLen = 0\<rparr>) = Inr b"
    "normalize_loop path (sep (path ! 0)) (if sep (path ! 0) then 1 else 0) (if sep (path ! 0) then 1 else 0) b = Inr b'"
    "loop_result path (sep (path ! 0)) b' stack"
    "stack = norm_comps (sep (path ! 0)) (comps sep path)"
proof -
  obtain b where b: "(if sep (path ! 0) then appendByte (CHR ''/'')
        \<lparr>lb_pathWithoutVolume = path, lb_buffer = None, lb_writePos = 0, lb_originalPath = path, lb_volumeLen = 0\<rparr>
      else Inr \<lparr>lb_pathWithoutVolume = path, lb_buffer = None, lb_writePos = 0,
                lb_originalPath = path, lb_volumeLen = 0\<rparr>) = Inr b"
    "loop_inv path (sep (path ! 0)) (if sep (path ! 0) then 1 else 0) (if sep (path ! 0) then 1 else 0) b 0 []"
    using first_buffer [OF assms] by blast
  from normalize_loop_spec [OF b(2)] comps_rooted [OF assms] that [OF b(1)] show thesis
    by (auto simp: norm_comps_def)
qed

lemma append_dot_if_empty:
  assumes "lb_ok path b" and "path \<noteq> []"
  shows "\<exists>b2. (if lb_writePos b = 0 then appendByte (CHR ''.'') b else Inr b) = Inr b2 \<and> lb_ok path b2
           \<and> lb_out b2 = (if lb_out b = [] then ''.'' else lb_out b) \<and> (lb_out b \<noteq> [] \<longrightarrow> b2 = b)"
proof (cases "lb_writePos b = 0")
  case True
  then have "lb_out b = []"
    using length_lb_out [OF assms(1)] by simp
  then show ?thesis
    using appendByte_spec [OF assms(1), of "CHR ''.''"] True assms(2) by auto
next
  case False
  then have "lb_out b \<noteq> []"
    using length_lb_out [OF assms(1)] by auto
  then show ?thesis
    using False assms(1) by simp
qed

text \<open>A trailing separator is kept unless the clean path is one of three.\<close>

lemma keep_trailing_iff:
  assumes st: "norm_stack rooted k real" and c: "c = (if render rooted (replicate k ''..'' @ real) = [] then ''.'' else render rooted (replicate k ''..'' @ real))"
  shows "(c \<noteq> [] \<and> \<not> (rooted \<and> length c = 1) \<and> c \<noteq> ''.'' \<and> c \<noteq> ''..'' \<and> \<not> sep (last c)) \<longleftrightarrow> c \<notin> {''.'', ''..'', ''/''}"
proof (cases "replicate k ''..'' @ real = []")
  case True
  then have "c = (if rooted then ''/'' else ''.'')"
    using c by (simp add: render_def)
  then show ?thesis by auto
next
  case False
  let ?out = "render rooted (replicate k ''..'' @ real)"
  have ne: "?out \<noteq> []" "\<not> sep (last ?out)"
    using last_render [OF st False] render_base [OF st] False by (auto simp: render_def split: if_splits)
  moreover have "length ?out \<noteq> 1" if rooted
    using that render_base [OF st] False by simp
  ultimately show ?thesis
    by (auto simp: c)
qed

lemma LexicallyNormalize_spec: "LexicallyNormalize path = Inr (normalize_spec path)"
proof (cases "path = []")
  case True
  then show ?thesis
    by (simp add: LexicallyNormalize_def VolumeName_def normalize_spec_def clean_spec_def render_def norm_comps_def)
next
  case False
  let ?rt = "sep (path ! 0)"
  from LexicallyNormalize_loop [OF False] obtain b b' stack where loop:
    "(if ?rt then appendByte (CHR ''/'')
        \<lparr>lb_pathWithoutVolume = path, lb_buffer = None, lb_writePos = 0, lb_originalPath = path, lb_volumeLen = 0\<rparr>
      else Inr \<lparr>lb_pathWithoutVolume = path, lb_buffer = None, lb_writePos = 0,
                lb_originalPath = path, lb_volumeLen = 0\<rparr>) = Inr b"
    "normalize_loop path ?rt (if ?rt then 1 else 0) (if ?rt then 1 else 0) b = Inr b'"
    "loop_result path ?rt b' stack" and stack: "stack = norm_comps ?rt (comps sep path)" .
  obtain k real where ks: "norm_stack ?rt k real" "stack = replicate k ''..'' @ real"
    and ok: "lb_ok path b'" and out: "lb_out b' = render ?rt stack"
    and room: "sep (last path) \<and> stack \<noteq> [] \<longrightarrow> lb_writePos b' < length path"
    using loop(3) False by (auto simp: loop_result_def)
  have clean: "clean_spec path = (if lb_out b' = [] then ''.'' else lb_out b')"
    using False by (simp add: clean_spec_def stack out hd_conv_nth Let_def)
  have "stack \<noteq> [] \<longrightarrow> lb_out b' \<noteq> []"
    using render_base [OF ks(1)] ks(2) out by (auto simp: render_def split: if_splits)
  then obtain b2 where b2: "(if lb_writePos b' = 0 then appendByte (CHR ''.'') b' else Inr b') = Inr b2"
      "lb_ok path b2" "lb_out b2 = clean_spec path" "stack \<noteq> [] \<longrightarrow> b2 = b'"
    unfolding clean using append_dot_if_empty [OF ok False] by blast
  let ?keep = "clean_spec path \<noteq> [] \<and> \<not> (?rt \<and> length (clean_spec path) = 1) \<and> clean_spec path \<noteq> ''.''
      \<and> clean_spec path \<noteq> ''..'' \<and> \<not> sep (last (clean_spec path))"
  have keep: "?keep \<longleftrightarrow> clean_spec path \<notin> {''.'', ''..'', ''/''}"
    using clean out ks(2) by (intro keep_trailing_iff [OF ks(1)]) simp
  obtain b3 where b3: "(if sep (last path) \<and> ?keep then appendByte (CHR ''/'') b2 else Inr b2) = Inr b3"
      "lb_ok path b3" "lb_out b3 = normalize_spec path"
  proof (cases "sep (last path) \<and> ?keep")
    case True
    then have "stack \<noteq> []"
      using clean out by (auto simp: render_def split: if_splits)
    then obtain b3 where "appendByte (CHR ''/'') b2 = Inr b3" "lb_ok path b3" "lb_out b3 = lb_out b2 @ ''/''"
      using True room b2(4) appendByte_spec [OF b2(2), of "CHR ''/''"] by auto
    moreover have "normalize_spec path = lb_out b2 @ ''/''"
      using True keep b2(3) \<open>path \<noteq> []\<close> by (simp add: normalize_spec_def Let_def)
    ultimately show thesis
      using that [of b3] True by (simp only: if_True simp_thms)
  next
    case False
    then have "normalize_spec path = lb_out b2"
      using keep b2(3) by (auto simp: normalize_spec_def Let_def)
    then show thesis
      using that [of b2] False b2(2) by (simp only: if_False simp_thms)
  qed
  have trail: "hasTrailingPathSeparator path = sep (last path)"
    using False by (simp add: hasTrailingPathSeparator_def last_conv_nth)
  have preserve: "(if hasTrailingPathSeparator path then shouldPreserveTrailingSeparator b2 ?rt else Inr False)
      = Inr (sep (last path) \<and> ?keep)"
    using shouldPreserve_spec [OF b2(2), of ?rt] b2(3) trail by simp
  show ?thesis
    unfolding LexicallyNormalize_def VolumeName_def FromSlash_def Let_def
    by (simp only: list.size(3) drop_0 False if_False go_bind_Inr loop(1,2) b2(1) preserve b3(1)
        lexicalBuffer_string_spec [OF b3(2)] b3(3))
qed

section \<open>The standard library's \<open>Clean\<close>\<close>

record lazybuf =
  lz_path :: string
  lz_buf :: "string option"
  lz_w :: nat
  lz_volAndPath :: string
  lz_volLen :: nat

definition lazybuf_index :: "lazybuf \<Rightarrow> nat \<Rightarrow> char outcome" where
  "lazybuf_index b i =
     (case lz_buf b of Some buf \<Rightarrow> slice_get buf (int i) | None \<Rightarrow> slice_get (lz_path b) (int i))"

definition lazybuf_append :: "char \<Rightarrow> lazybuf \<Rightarrow> lazybuf outcome" where
  "lazybuf_append c b =
     (if lz_buf b = None \<and> lz_w b < length (lz_path b) \<and> lz_path b ! lz_w b = c
      then Inr (b\<lparr>lz_w := lz_w b + 1\<rparr>)
      else go_bind (case lz_buf b of
                      Some buf \<Rightarrow> Inr buf
                    | None \<Rightarrow> go_bind (slice_sub (lz_path b) 0 (int (lz_w b))) (\<lambda>prefix.
                                Inr (go_copy (replicate (length (lz_path b)) (CHR 0x00)) prefix))) (\<lambda>buf.
           go_bind (slice_set buf (int (lz_w b)) c) (\<lambda>buf.
           Inr (b\<lparr>lz_buf := Some buf, lz_w := lz_w b + 1\<rparr>))))"

definition lazybuf_string :: "lazybuf \<Rightarrow> string outcome" where
  "lazybuf_string b =
     (case lz_buf b of
        None \<Rightarrow> slice_sub (lz_volAndPath b) 0 (int (lz_volLen b + lz_w b))
      | Some buf \<Rightarrow>
          go_bind (slice_sub (lz_volAndPath b) 0 (int (lz_volLen b))) (\<lambda>vol.
          go_bind (slice_sub buf 0 (int (lz_w b))) (\<lambda>s. Inr (vol @ s))))"

fun Clean_backtrack :: "nat \<Rightarrow> nat \<Rightarrow> lazybuf \<Rightarrow> nat outcome" where
  "Clean_backtrack dotdot 0 out = Inr 0"
| "Clean_backtrack dotdot (Suc w) out =
     (if Suc w > dotdot
      then go_bind (lazybuf_index out (Suc w)) (\<lambda>c.
           if \<not> sep c then Clean_backtrack dotdot w out else Inr (Suc w))
      else Inr (Suc w))"

function Clean_copy :: "string \<Rightarrow> nat \<Rightarrow> lazybuf \<Rightarrow> (nat \<times> lazybuf) outcome" where
  "Clean_copy path r out =
     (if r < length path \<and> \<not> sep (path ! r)
      then go_bind (lazybuf_append (path ! r) out) (Clean_copy path (r + 1))
      else Inr (r, out))"
  by pat_completeness auto
termination by (relation "measure (\<lambda>(path, r, _). length path - r)") auto

declare Clean_copy.simps [simp del]

text \<open>The two buffers are the same structure, and their operations correspond.\<close>

definition to_lexical :: "lazybuf \<Rightarrow> lexicalBuffer" where
  "to_lexical b = \<lparr>lb_pathWithoutVolume = lz_path b, lb_buffer = lz_buf b, lb_writePos = lz_w b,
                   lb_originalPath = lz_volAndPath b, lb_volumeLen = lz_volLen b\<rparr>"

definition map_ok :: "('a \<Rightarrow> 'b) \<Rightarrow> 'a outcome \<Rightarrow> 'b outcome" where
  "map_ok f m = go_bind m (\<lambda>x. Inr (f x))"

lemma map_ok_simps [simp]: "map_ok f (Inr x) = Inr (f x)" "map_ok f (Inl p) = Inl p"
  by (simp_all add: map_ok_def)

lemma map_ok_bind: "map_ok f (go_bind m g) = go_bind m (\<lambda>x. map_ok f (g x))"
  by (cases m) auto

lemma bind_map_ok: "go_bind (map_ok f m) g = go_bind m (\<lambda>x. g (f x))"
  by (cases m) auto

lemma to_lexical_append: "appendByte c (to_lexical b) = map_ok to_lexical (lazybuf_append c b)"
  by (cases "lz_buf b")
     (auto simp: appendByte_def lazybuf_append_def storeByte_def to_lexical_def map_ok_bind go_bind_assoc Let_def
       intro!: go_bind_cong)

lemma to_lexical_index: "byteAt (to_lexical b) i = lazybuf_index b i"
  by (cases "lz_buf b") (simp_all add: byteAt_def lazybuf_index_def to_lexical_def)

lemma to_lexical_string: "lexicalBuffer_string (to_lexical b) = lazybuf_string b"
  by (cases "lz_buf b") (simp_all add: lexicalBuffer_string_def lazybuf_string_def to_lexical_def)

lemma to_lexical_backtrack: "removeLast_loop stop w (to_lexical b) = Clean_backtrack stop w b"
  by (induction w) (auto simp: to_lexical_index intro!: go_bind_cong)

lemma to_lexical_copy: "copyElement path r (to_lexical b) = map_ok (map_prod id to_lexical) (Clean_copy path r b)"
proof (induction path r b rule: Clean_copy.induct)
  case (1 path r b)
  show ?case
  proof (cases "r < length path \<and> \<not> sep (path ! r)")
    case True
    then have "copyElement path r (to_lexical b) =
        go_bind (lazybuf_append (path ! r) b) (\<lambda>b'. copyElement path (r + 1) (to_lexical b'))"
      by (subst copyElement.simps) (simp add: to_lexical_append bind_map_ok)
    moreover have "map_ok (map_prod id to_lexical) (Clean_copy path r b) =
        go_bind (lazybuf_append (path ! r) b) (\<lambda>b'. map_ok (map_prod id to_lexical) (Clean_copy path (r + 1) b'))"
      using True by (subst Clean_copy.simps) (simp add: map_ok_bind)
    moreover have "go_bind (lazybuf_append (path ! r) b) (\<lambda>b'. copyElement path (r + 1) (to_lexical b')) =
        go_bind (lazybuf_append (path ! r) b) (\<lambda>b'. map_ok (map_prod id to_lexical) (Clean_copy path (r + 1) b'))"
      by (rule go_bind_cong [OF refl]) (rule 1 [OF True])
    ultimately show ?thesis
      by (simp only:)
  next
    case False
    show ?thesis
      by (subst copyElement.simps, subst Clean_copy.simps)
         (simp only: False if_False map_ok_simps map_prod_simp id_apply)
  qed
qed

lemma Clean_copy_progress:
  assumes "Clean_copy path r b = Inr (r', b')" and "r < length path" and "\<not> sep (path ! r)"
  shows "r < r'"
  using copyElement_progress [of path r "to_lexical b" r' "to_lexical b'"] assms by (simp add: to_lexical_copy)

function Clean_loop :: "string \<Rightarrow> bool \<Rightarrow> nat \<Rightarrow> nat \<Rightarrow> lazybuf \<Rightarrow> lazybuf outcome" where
  "Clean_loop path rooted r dotdot out =
     (if r < length path
      then if sep (path ! r) then Clean_loop path rooted (r + 1) dotdot out
           else if path ! r = CHR ''.'' \<and> (r + 1 = length path \<or> sep (path ! (r + 1)))
           then Clean_loop path rooted (r + 1) dotdot out
           else if path ! r = CHR ''.'' \<and> path ! (r + 1) = CHR ''.'' \<and> (r + 2 = length path \<or> sep (path ! (r + 2)))
           then if lz_w out > dotdot
                then go_bind (Clean_backtrack dotdot (lz_w out - 1) out) (\<lambda>w.
                     Clean_loop path rooted (r + 2) dotdot (out\<lparr>lz_w := w\<rparr>))
                else if \<not> rooted
                then go_bind (if lz_w out > 0 then lazybuf_append (CHR ''/'') out else Inr out) (\<lambda>out.
                     go_bind (lazybuf_append (CHR ''.'') out) (\<lambda>out.
                     go_bind (lazybuf_append (CHR ''.'') out) (\<lambda>out.
                     Clean_loop path rooted (r + 2) (lz_w out) out)))
                else Clean_loop path rooted (r + 2) dotdot out
           else go_bind (if rooted \<and> lz_w out \<noteq> 1 \<or> \<not> rooted \<and> lz_w out \<noteq> 0
                         then lazybuf_append (CHR ''/'') out else Inr out) (\<lambda>out.
                go_bind (Clean_copy path r out) (\<lambda>(r, out).
                Clean_loop path rooted r dotdot out))
      else Inr out)"
  by pat_completeness auto
termination
  by (relation "measure (\<lambda>(path, _, r, _). length path - r)")
     (auto dest: Clean_copy_progress simp: diff_less_mono2)

declare Clean_loop.simps [simp del]

definition Clean :: "string \<Rightarrow> string outcome" where
  "Clean path =
     (let originalPath = path;
          volLen = length (VolumeName path);
          path = drop volLen path
      in if path = []
         then if volLen > 1 \<and> sep (originalPath ! 0) \<and> sep (originalPath ! 1)
              then Inr (FromSlash originalPath)
              else Inr (originalPath @ ''.'')
         else
           let rooted = sep (path ! 0);
               out = \<lparr>lz_path = path, lz_buf = None, lz_w = 0, lz_volAndPath = originalPath, lz_volLen = volLen\<rparr>
           in go_bind (if rooted then lazybuf_append (CHR ''/'') out else Inr out) (\<lambda>out.
              go_bind (Clean_loop path rooted (if rooted then 1 else 0) (if rooted then 1 else 0) out) (\<lambda>out.
              go_bind (if lz_w out = 0 then lazybuf_append (CHR ''.'') out else Inr out) (\<lambda>out.
              go_bind (lazybuf_string out) (\<lambda>s. Inr (FromSlash s))))))"

lemma to_lexical_w [simp]: "lb_writePos (to_lexical b) = lz_w b"
  "(to_lexical b)\<lparr>lb_writePos := w\<rparr> = to_lexical (b\<lparr>lz_w := w\<rparr>)"
  by (simp_all add: to_lexical_def)

lemma if_map_ok: "(if P then map_ok f m else Inr (f x)) = map_ok f (if P then m else Inr x)"
  by simp

lemma to_lexical_remove:
  "removeLastPathElement stop (to_lexical b) =
     map_ok to_lexical (go_bind (Clean_backtrack stop (lz_w b - 1) b) (\<lambda>w. Inr (b\<lparr>lz_w := w\<rparr>)))"
  by (simp add: removeLastPathElement_def to_lexical_backtrack map_ok_bind)

lemma to_lexical_loop:
  "normalize_loop path rooted r limit (to_lexical b) = map_ok to_lexical (Clean_loop path rooted r limit b)"
proof (induction path rooted r limit b rule: Clean_loop.induct)
  case (1 path rooted r limit b)
  let ?dot = "path ! r = CHR ''.'' \<and> (r + 1 = length path \<or> sep (path ! (r + 1)))"
  let ?dd = "path ! r = CHR ''.'' \<and> path ! (r + 1) = CHR ''.'' \<and> (r + 2 = length path \<or> sep (path ! (r + 2)))"
  note conv = to_lexical_w if_map_ok to_lexical_append to_lexical_remove to_lexical_copy
    bind_map_ok map_ok_bind map_ok_simps go_bind_assoc go_bind_Inr
  consider (stop) "\<not> r < length path" | (sep) "r < length path" "sep (path ! r)"
    | (dot) "r < length path" "\<not> sep (path ! r)" "?dot"
    | (up) "r < length path" "\<not> sep (path ! r)" "\<not> ?dot" "?dd" "lz_w b > limit"
    | (keep) "r < length path" "\<not> sep (path ! r)" "\<not> ?dot" "?dd" "\<not> lz_w b > limit" "\<not> rooted"
    | (root) "r < length path" "\<not> sep (path ! r)" "\<not> ?dot" "?dd" "\<not> lz_w b > limit" "rooted"
    | (elem) "r < length path" "\<not> sep (path ! r)" "\<not> ?dot" "\<not> ?dd"
    by argo
  then show ?case
  proof cases
    case stop
    then show ?thesis
      by (subst normalize_loop.simps, subst Clean_loop.simps) simp
  next
    case sep
    then show ?thesis
      using 1(1) [OF sep] by (subst normalize_loop.simps, subst Clean_loop.simps) simp
  next
    case dot
    show ?thesis
      by (subst normalize_loop.simps, subst Clean_loop.simps)
         (simp only: if_P [OF dot(1)] if_not_P [OF dot(2)] if_P [OF dot(3)] 1(2) [OF dot])
  next
    case up
    show ?thesis
      by (subst normalize_loop.simps, subst Clean_loop.simps)
         (simp only: if_P [OF up(1)] if_not_P [OF up(2)] if_not_P [OF up(3)] if_P [OF up(4)] if_P [OF up(5)] conv,
          rule go_bind_cong [OF refl], rule 1(3) [OF up])
  next
    case keep
    show ?thesis
      by (subst normalize_loop.simps, subst Clean_loop.simps)
         (simp only: if_P [OF keep(1)] if_not_P [OF keep(2)] if_not_P [OF keep(3)] if_P [OF keep(4)]
            if_not_P [OF keep(5)] if_P [OF keep(6)] conv, (rule go_bind_cong [OF refl])+,
          rule 1(4) [OF keep])
  next
    case root
    have nn: "\<not> \<not> rooted"
      using root(6) by simp
    show ?thesis
      by (subst normalize_loop.simps, subst Clean_loop.simps)
         (simp only: if_P [OF root(1)] if_not_P [OF root(2)] if_not_P [OF root(3)] if_P [OF root(4)]
            to_lexical_w if_not_P [OF root(5)] if_not_P [OF nn] 1(5) [OF root(1-5) nn])
  next
    case elem
    show ?thesis
      by (subst normalize_loop.simps, subst Clean_loop.simps)
         (simp only: if_P [OF elem(1)] if_not_P [OF elem(2)] if_not_P [OF elem(3)] if_not_P [OF elem(4)] conv,
          (rule go_bind_cong [OF refl])+,
          auto simp: map_prod_def intro!: 1(6) [OF elem])
  qed
qed

section \<open>Normal forms\<close>

definition normal_stack :: "bool \<Rightarrow> string list \<Rightarrow> bool" where
  "normal_stack rooted stack \<longleftrightarrow> (\<exists>k real. norm_stack rooted k real \<and> stack = replicate k ''..'' @ real)"

definition sep_free :: "string list \<Rightarrow> bool" where
  "sep_free cs \<longleftrightarrow> (\<forall>x \<in> set cs. x \<noteq> [] \<and> (\<forall>c \<in> set x. \<not> sep c))"

lemma sep_free_simps [simp]:
  "sep_free []" "sep_free (x # xs) \<longleftrightarrow> x \<noteq> [] \<and> (\<forall>c \<in> set x. \<not> sep c) \<and> sep_free xs"
  "sep_free (xs @ ys) \<longleftrightarrow> sep_free xs \<and> sep_free ys"
  by (auto simp: sep_free_def)

lemma sep_free_comps [simp]: "sep_free (comps sep path)"
  using comps_elems by (auto simp: sep_free_def)

lemma normal_stack_sep_free: "normal_stack rooted s \<Longrightarrow> sep_free s"
proof -
  assume "normal_stack rooted s"
  then obtain k real where "norm_stack rooted k real" "s = replicate k ''..'' @ real"
    unfolding normal_stack_def by blast
  moreover have "\<forall>c \<in> set ''..''. \<not> sep c"
    by (simp add: isUnixSeparator_def)
  ultimately show ?thesis
    unfolding sep_free_def by (simp add: norm_stack_def real_elem_def ball_Un)
qed

lemma comps_join_slash: "sep_free s \<Longrightarrow> comps sep (join_slash s) = s"
  by (induction s rule: join_slash.induct) (auto simp: comps_single comps_append_sep)

lemma comps_render [simp]: "sep_free s \<Longrightarrow> comps sep (render rooted s) = s"
  by (simp add: render_def comps_join_slash)

lemma normal_stack_Nil [simp]: "normal_stack rooted []"
  by (auto simp: normal_stack_def norm_stack_def)

lemma normal_stack_butlast:
  assumes "normal_stack rooted s" and "s \<noteq> []"
  shows "normal_stack rooted (butlast s)"
proof -
  obtain k real where s: "norm_stack rooted k real" "s = replicate k ''..'' @ real"
    using assms(1) by (auto simp: normal_stack_def)
  show ?thesis
  proof (cases "real = []")
    case True
    then have "butlast s = replicate (k - 1) ''..'' @ []"
      using s by (metis append_Nil2 butlast_conv_take length_replicate take_replicate min.absorb1 diff_le_self)
    then show ?thesis
      using s True unfolding normal_stack_def norm_stack_def by (metis diff_0_eq_0)
  next
    case False
    then have "butlast s = replicate k ''..'' @ butlast real"
      using s by (simp add: butlast_append)
    then show ?thesis
      using s unfolding normal_stack_def norm_stack_def by (metis in_set_butlastD)
  qed
qed

lemma norm_step_normal:
  assumes "normal_stack rooted s" and "c \<noteq> []" and "\<forall>x \<in> set c. \<not> sep x"
  shows "normal_stack rooted (norm_step rooted s c)"
proof -
  obtain k real where s: "norm_stack rooted k real" "s = replicate k ''..'' @ real"
    using assms(1) by (auto simp: normal_stack_def)
  consider "c = ''.''" | "c = ''..''" "s \<noteq> []" "last s \<noteq> ''..''"
    | "c = ''..''" "s = [] \<or> last s = ''..''" | "c \<noteq> ''.''" "c \<noteq> ''..''"
    by blast
  then show ?thesis
  proof cases
    case 2
    then show ?thesis
      using normal_stack_butlast [OF assms(1)] by (simp add: norm_step_def)
  next
    case 3
    then have real: "real = []"
      using s by (cases "real = []") (auto simp: norm_stack_def real_elem_def)
    then have "s @ [''..''] = replicate (Suc k) ''..'' @ []"
      using s(2) by (simp add: replicate_append_same)
    moreover have "norm_stack rooted (Suc k) []" if "\<not> rooted"
      using that by (simp add: norm_stack_def)
    ultimately have "\<not> rooted \<Longrightarrow> normal_stack rooted (s @ [''..''])"
      unfolding normal_stack_def by blast
    then show ?thesis
      using 3 assms(1) by (auto simp: norm_step_def)
  next
    case 4
    then have "norm_stack rooted k (real @ [c])"
      using s assms(2,3) by (auto simp: norm_stack_def real_elem_def)
    moreover have "norm_step rooted s c = replicate k ''..'' @ (real @ [c])"
      using 4 s by (simp add: norm_step_def)
    ultimately show ?thesis
      unfolding normal_stack_def by blast
  qed (use assms in \<open>simp add: norm_step_def\<close>)
qed

lemma norm_comps_Nil [simp]: "norm_comps rooted [] = []"
  by (simp add: norm_comps_def)

lemma norm_comps_snoc: "norm_comps rooted (cs @ [c]) = norm_step rooted (norm_comps rooted cs) c"
  by (simp add: norm_comps_def)

lemma norm_comps_normal: "sep_free cs \<Longrightarrow> normal_stack rooted (norm_comps rooted cs)"
  by (induction cs rule: rev_induct) (auto simp: norm_comps_snoc norm_step_normal)

lemma norm_step_push:
  assumes "normal_stack rooted (s @ [c])"
  shows "norm_step rooted s c = s @ [c]"
proof -
  obtain k real where s: "norm_stack rooted k real" "s @ [c] = replicate k ''..'' @ real"
    using assms by (auto simp: normal_stack_def)
  show ?thesis
  proof (cases real rule: rev_cases)
    case Nil
    then have "s @ [c] = replicate k ''..''"
      using s(2) by simp
    then have "set (s @ [c]) \<subseteq> {''..''}"
      by (metis set_replicate_conv_if empty_subsetI order_refl)
    moreover have "k \<noteq> 0"
      using \<open>s @ [c] = replicate k ''..''\<close> by (metis snoc_eq_iff_butlast replicate_0)
    moreover have "last s = ''..''" if "s \<noteq> []"
      using calculation(1) last_in_set [OF that] by (metis Un_iff set_append singletonD subsetD)
    ultimately show ?thesis
      using s(1) by (auto simp: norm_step_def norm_stack_def)
  next
    case (snoc ys y)
    then show ?thesis
      using s by (auto simp: norm_step_def norm_stack_def real_elem_def)
  qed
qed

lemma norm_comps_id: "normal_stack rooted s \<Longrightarrow> norm_comps rooted s = s"
proof (induction s rule: rev_induct)
  case (snoc c s)
  then have "normal_stack rooted s"
    using normal_stack_butlast [of rooted "s @ [c]"] by simp
  then show ?case
    using snoc norm_step_push [OF snoc.prems] by (simp add: norm_comps_snoc)
qed simp

lemma render_eq_Nil_iff: "sep_free s \<Longrightarrow> render rooted s = [] \<longleftrightarrow> \<not> rooted \<and> s = []"
  using join_slash_Nil_iff [of s] by (auto simp: render_def sep_free_def)

lemma hd_join_slash: "s \<noteq> [] \<Longrightarrow> hd s \<noteq> [] \<Longrightarrow> hd (join_slash s) = hd (hd s)"
  by (cases s rule: join_slash.cases) auto

lemma hd_render: "sep_free s \<Longrightarrow> render rooted s \<noteq> [] \<Longrightarrow> sep (hd (render rooted s)) \<longleftrightarrow> rooted"
  by (cases s) (auto simp: render_def hd_join_slash isUnixSeparator_def split: if_splits)

lemma clean_spec_render:
  assumes "normal_stack rooted s"
  shows "clean_spec (render rooted s) = (if \<not> rooted \<and> s = [] then ''.'' else render rooted s)"
proof -
  note free = normal_stack_sep_free [OF assms]
  have "(render rooted s \<noteq> [] \<and> sep (hd (render rooted s))) = rooted"
    using hd_render [OF free, of rooted] render_eq_Nil_iff [OF free, of rooted] by blast
  then show ?thesis
    using render_eq_Nil_iff [OF free, of rooted]
    by (simp only: clean_spec_def Let_def comps_render [OF free] norm_comps_id [OF assms])
qed

text \<open>Every normal form is \<open>.\<close> or the rendering of a normal stack.\<close>

lemma clean_spec_cases:
  obtains (dot) "clean_spec path = ''.''" "\<not> (path \<noteq> [] \<and> sep (hd path))"
      "norm_comps False (comps sep path) = []"
    | (stack) rooted s where "clean_spec path = render rooted s" "normal_stack rooted s" "rooted \<or> s \<noteq> []"
      "rooted \<longleftrightarrow> path \<noteq> [] \<and> sep (hd path)" "s = norm_comps rooted (comps sep path)"
proof -
  define rt where "rt \<longleftrightarrow> path \<noteq> [] \<and> sep (hd path)"
  define s where "s = norm_comps rt (comps sep path)"
  have n: "normal_stack rt s"
    unfolding s_def by (rule norm_comps_normal) simp
  have c: "clean_spec path = (if render rt s = [] then ''.'' else render rt s)"
    by (simp only: clean_spec_def Let_def rt_def s_def)
  show thesis
  proof (cases "rt \<or> s \<noteq> []")
    case True
    then have "render rt s \<noteq> []"
      using render_eq_Nil_iff [OF normal_stack_sep_free [OF n], of rt] by blast
    then show thesis
      using stack [OF _ n True _ s_def] c rt_def by simp
  next
    case False
    then have rs: "rt = False" "s = []"
      by auto
    have "clean_spec path = ''.''"
      using c unfolding rs by (simp add: render_def)
    moreover have "\<not> (path \<noteq> [] \<and> sep (hd path))"
      using rs(1) rt_def by blast
    moreover have "norm_comps False (comps sep path) = []"
      using s_def unfolding rs by (rule sym)
    ultimately show thesis
      by (rule dot)
  qed
qed

lemma clean_spec_idem: "clean_spec (clean_spec path) = clean_spec path"
proof (cases path rule: clean_spec_cases)
  case dot
  have "comps sep ''.'' = [''.'']"
    by (rule comps_single) (auto simp: isUnixSeparator_def)
  then show ?thesis
    unfolding dot by (simp add: clean_spec_def norm_comps_def norm_step_def render_def isUnixSeparator_def)
next
  case (stack rooted s)
  then show ?thesis
    using clean_spec_render [of rooted s] by (auto split: if_splits)
qed

lemma clean_spec_append_sep: "path \<noteq> [] \<Longrightarrow> clean_spec (path @ ''/'') = clean_spec path"
  using comps_append_sep [of sep "CHR ''/''" path "[]"] by (simp add: clean_spec_def)

lemma normalize_spec_idem: "normalize_spec (normalize_spec path) = normalize_spec path"
proof -
  let ?c = "clean_spec path"
  have ne: "?c \<noteq> []"
    by (simp add: clean_spec_def Let_def)
  have last: "\<not> sep (last ?c)" if "?c \<noteq> ''/''"
  proof (cases path rule: clean_spec_cases)
    case (stack rooted s)
    then obtain k real where "norm_stack rooted k real" "s = replicate k ''..'' @ real"
      unfolding normal_stack_def by blast
    then show ?thesis
      using last_render [of rooted k real] that stack(1,3) by (cases "s = []") (auto simp: render_def)
  qed (simp add: isUnixSeparator_def)
  show ?thesis
    using ne last clean_spec_idem [of path] clean_spec_append_sep [OF ne]
    by (auto simp: normalize_spec_def Let_def)
qed

lemma Clean_spec: "Clean path = Inr (clean_spec path)"
proof (cases "path = []")
  case True
  then show ?thesis
    by (simp add: Clean_def VolumeName_def clean_spec_def render_def norm_comps_def)
next
  case False
  let ?rt = "sep (path ! 0)"
  let ?b = "\<lparr>lz_path = path, lz_buf = None, lz_w = 0, lz_volAndPath = path, lz_volLen = 0\<rparr>"
  let ?first = "if ?rt then lazybuf_append (CHR ''/'') ?b else Inr ?b"
  have first: "map_ok to_lexical ?first = (if ?rt then appendByte (CHR ''/'') (to_lexical ?b) else Inr (to_lexical ?b))"
    by (simp add: to_lexical_append)
  have lex: "to_lexical ?b = \<lparr>lb_pathWithoutVolume = path, lb_buffer = None, lb_writePos = 0,
      lb_originalPath = path, lb_volumeLen = 0\<rparr>"
    by (simp add: to_lexical_def)
  from LexicallyNormalize_loop [OF False, folded lex, folded first] obtain b b' stack where loop:
    "map_ok to_lexical ?first = Inr b"
    "normalize_loop path ?rt (if ?rt then 1 else 0) (if ?rt then 1 else 0) b = Inr b'"
    "loop_result path ?rt b' stack" and stack: "stack = norm_comps ?rt (comps sep path)" .
  obtain z z' where z: "?first = Inr z" "b = to_lexical z"
    "Clean_loop path ?rt (if ?rt then 1 else 0) (if ?rt then 1 else 0) z = Inr z'" "b' = to_lexical z'"
  proof -
    obtain z where "?first = Inr z" "b = to_lexical z"
      using loop(1) by (cases ?first) auto
    moreover from this loop(2) obtain z' where
      "Clean_loop path ?rt (if ?rt then 1 else 0) (if ?rt then 1 else 0) z = Inr z'" "b' = to_lexical z'"
      by (cases "Clean_loop path ?rt (if ?rt then 1 else 0) (if ?rt then 1 else 0) z")
         (auto simp: to_lexical_loop)
    ultimately show thesis
      using that by blast
  qed
  have ok: "lb_ok path b'" and out: "lb_out b' = render ?rt stack"
    using loop(3) by (auto simp: loop_result_def)
  have clean: "clean_spec path = (if lb_out b' = [] then ''.'' else lb_out b')"
    using False by (simp add: clean_spec_def stack out hd_conv_nth Let_def)
  obtain b2 where b2: "(if lb_writePos b' = 0 then appendByte (CHR ''.'') b' else Inr b') = Inr b2"
      "lb_ok path b2" "lb_out b2 = clean_spec path"
    unfolding clean using append_dot_if_empty [OF ok False] by blast
  then obtain z2 where z2: "(if lz_w z' = 0 then lazybuf_append (CHR ''.'') z' else Inr z') = Inr z2"
      "b2 = to_lexical z2"
    by (cases "lz_w z' = 0"; cases "lazybuf_append (CHR ''.'') z'") (auto simp: z(4) to_lexical_append)
  show ?thesis
    unfolding Clean_def VolumeName_def FromSlash_def Let_def
    using lexicalBuffer_string_spec [OF b2(2)] b2(3)
    by (simp only: list.size(3) drop_0 False if_False go_bind_Inr z(1,3) z2 to_lexical_string)
qed

section \<open>Claims\<close>

text \<open>
  C4. The documented contract of LexicallyNormalize: on every path it returns (no index of its
  lazily allocated buffer is ever out of range) what the standard library's Clean returns, followed by
  one separator exactly when the path ended in one and the cleaned path is none of \<open>.\<close>, \<open>..\<close> and
  the root. Both equal the rendering of the components pushed on a stack, where \<open>.\<close> is dropped and
  \<open>..\<close> pops the last real element.\<close>

theorem LexicallyNormalize_is_Clean:
  "\<exists>s. Clean path = Inr s \<and> s = clean_spec path \<and>
       LexicallyNormalize path =
         Inr (if path \<noteq> [] \<and> sep (last path) \<and> s \<notin> {''.'', ''..'', ''/''} then s @ ''/'' else s)"
  by (simp add: Clean_spec LexicallyNormalize_spec normalize_spec_def Let_def)

text \<open>
  LexicallyNormalize is idempotent: a path that has gone through it, which is what the
  typed path wrappers carry, is a fixed point; and so is a cleaned path of Clean.\<close>

lemma LexicallyNormalize_idempotent:
  "go_bind (LexicallyNormalize path) LexicallyNormalize = LexicallyNormalize path
   \<and> go_bind (Clean path) Clean = Clean path"
  by (simp add: LexicallyNormalize_spec normalize_spec_idem Clean_spec clean_spec_idem)

end
