(* ===== verification/Path_Std.thy ===== *)
theory Path_Std
  imports Path_Lexical
begin

text \<open>
  The parts of the standard library's \<^verbatim>\<open>path/filepath\<close> (Unix build) that the typed paths are built
  on: \<open>IsAbs\<close>, \<open>Split\<close>, \<open>Dir\<close>, \<open>Join\<close> and \<open>Rel\<close>, translated from \<^verbatim>\<open>internal/filepathlite/path.go\<close>,
  \<^verbatim>\<open>path/filepath/path.go\<close> and \<^verbatim>\<open>path/filepath/path_unix.go\<close>. Each is then described on the stack of
  components of Path_Lexical.
\<close>

section \<open>Definitions\<close>

definition IsAbs :: "string \<Rightarrow> bool" where
  "IsAbs path = (take 1 path = ''/'')"

text \<open>The loop of \<open>Split\<close> and \<open>Dir\<close>; the argument is \<open>i + 1\<close>, so that 0 ends it.\<close>

fun lastSep_loop :: "string \<Rightarrow> nat \<Rightarrow> nat \<Rightarrow> nat" where
  "lastSep_loop path vol 0 = 0"
| "lastSep_loop path vol (Suc i) =
     (if i \<ge> vol \<and> \<not> sep (path ! i) then lastSep_loop path vol i else Suc i)"

definition Split :: "string \<Rightarrow> string \<times> string" where
  "Split path =
     (let vol = VolumeName path; i = lastSep_loop path (length vol) (length path)
      in (take i path, drop i path))"

definition Dir :: "string \<Rightarrow> string outcome" where
  "Dir path =
     (let vol = VolumeName path; i = lastSep_loop path (length vol) (length path)
      in go_bind (slice_sub path (int (length vol)) (int i)) (\<lambda>p.
         go_bind (Clean p) (\<lambda>dir.
         if dir = ''.'' \<and> length vol > 2 then Inr vol else Inr (vol @ dir))))"

text \<open>\<open>join_slash\<close> is \<open>strings.Join(elem, string(Separator))\<close>.\<close>

fun Join :: "string list \<Rightarrow> string outcome" where
  "Join [] = Inr []"
| "Join (e # es) = (if e \<noteq> [] then Clean (join_slash (e # es)) else Join es)"

function skipWord :: "string \<Rightarrow> nat \<Rightarrow> nat" where
  "skipWord s i = (if i < length s \<and> s ! i \<noteq> CHR ''/'' then skipWord s (i + 1) else i)"
  by pat_completeness auto
termination by (relation "measure (\<lambda>(s, i). length s - i)") auto

declare skipWord.simps [simp del]

lemma skipWord_ge: "i \<le> skipWord s i"
  by (induction s i rule: skipWord.induct) (subst skipWord.simps, auto)

text \<open>
  The loop of \<open>Rel\<close> that positions both paths at the first differing elements: \<open>None\<close> when both paths
  are exhausted, otherwise \<open>(b0, bi, t0, ti)\<close>. The positions never pass the ends of the paths, so the
  test for both being at the end is written with \<open>\<le>\<close>.
\<close>

function Rel_loop :: "string \<Rightarrow> string \<Rightarrow> nat \<Rightarrow> nat \<Rightarrow> (nat \<times> nat \<times> nat \<times> nat) option" where
  "Rel_loop base targ b0 t0 =
     (let bi = skipWord base b0; ti = skipWord targ t0
      in if between targ t0 ti \<noteq> between base b0 bi then Some (b0, bi, t0, ti)
         else let bi = (if bi < length base then bi + 1 else bi);
                  ti = (if ti < length targ then ti + 1 else ti)
              in if length base \<le> bi \<and> length targ \<le> ti then None
                 else Rel_loop base targ bi ti)"
  by pat_completeness auto
termination
  apply (relation "measure (\<lambda>(base, targ, b0, t0). (length base - b0) + (length targ - t0))")
   apply simp
  subgoal for base targ b0 t0 bi ti bi' ti'
    using skipWord_ge [of b0 base] skipWord_ge [of t0 targ] by (auto split: if_splits)
  done

declare Rel_loop.simps [simp del]

text \<open>\<open>copy(buf[n:], src)\<close>.\<close>

definition copy_at :: "string \<Rightarrow> nat \<Rightarrow> string \<Rightarrow> string outcome" where
  "copy_at buf n src =
     go_bind (slice_sub buf (int n) (int (length buf))) (\<lambda>rest. Inr (take n buf @ go_copy rest src))"

fun Rel_fill :: "nat \<Rightarrow> nat \<Rightarrow> string \<Rightarrow> (nat \<times> string) outcome" where
  "Rel_fill 0 n buf = Inr (n, buf)"
| "Rel_fill (Suc seps) n buf =
     go_bind (slice_set buf (int n) (CHR ''/'')) (\<lambda>buf.
     go_bind (copy_at buf (n + 1) ''..'') (\<lambda>buf.
     Rel_fill seps (n + 3) buf))"

definition Rel_up :: "string \<Rightarrow> string \<Rightarrow> nat \<Rightarrow> nat \<Rightarrow> string outcome" where
  "Rel_up base targ b0 t0 =
     (let tl = length targ;
          seps = count_list (drop b0 base) (CHR ''/'');
          size = 2 + seps * 3 + (if tl \<noteq> t0 then 1 + tl - t0 else 0);
          buf = go_copy (replicate size (CHR 0x00)) ''..''
      in go_bind (Rel_fill seps 2 buf) (\<lambda>(n, buf).
         go_bind (if t0 \<noteq> tl
                  then go_bind (slice_set buf (int n) (CHR ''/'')) (\<lambda>buf.
                       copy_at buf (n + 1) (drop t0 targ))
                  else Inr buf) (\<lambda>buf.
         Clean buf)))"

datatype RelError = Rel_cannot_make_relative string string

definition Rel :: "string \<Rightarrow> string \<Rightarrow> (RelError + string) outcome" where
  "Rel basePath targPath =
     (let baseVol = VolumeName basePath; targVol = VolumeName targPath
      in go_bind (Clean basePath) (\<lambda>base.
         go_bind (Clean targPath) (\<lambda>targ.
         if targ = base then Inr (Inr ''.'')
         else
           let base = drop (length baseVol) base;
               targ = drop (length targVol) targ;
               base = (if base = ''.'' then [] else if base = [] \<and> length baseVol > 2 then ''/'' else base);
               baseSlashed = (length base > 0 \<and> base ! 0 = CHR ''/'');
               targSlashed = (length targ > 0 \<and> targ ! 0 = CHR ''/'')
           in if baseSlashed \<noteq> targSlashed \<or> baseVol \<noteq> targVol
              then Inr (Inl (Rel_cannot_make_relative targPath basePath))
              else case Rel_loop base targ 0 0 of
                     None \<Rightarrow> Inr (Inr ''.'')
                   | Some (b0, bi, t0, ti) \<Rightarrow>
                       if between base b0 bi = ''..''
                       then Inr (Inl (Rel_cannot_make_relative targPath basePath))
                       else if b0 \<noteq> length base
                       then go_bind (Rel_up base targ b0 t0) (\<lambda>s. Inr (Inr s))
                       else Inr (Inr (drop t0 targ)))))"

section \<open>\<open>Split\<close>, \<open>Dir\<close> and \<open>Join\<close> on components\<close>

lemma lastSep_loop_spec:
  assumes "n \<le> length path"
  shows "lastSep_loop path 0 n \<le> n \<and> (\<forall>c \<in> set (between path (lastSep_loop path 0 n) n). \<not> sep c)
    \<and> (lastSep_loop path 0 n > 0 \<longrightarrow> sep (path ! (lastSep_loop path 0 n - 1)))"
  using assms
proof (induction n)
  case (Suc n)
  show ?case
  proof (cases "sep (path ! n)")
    case False
    let ?k = "lastSep_loop path 0 n"
    have "between path ?k (Suc n) = between path ?k n @ [path ! n]"
      using Suc take_Suc_conv_app_nth [of "n - ?k" "drop ?k path"]
      by (simp add: between_def Suc_diff_le diff_less_mono)
    then show ?thesis
      using Suc False by auto
  qed simp
qed simp

lemma Split_spec:
  obtains i where "Split path = (take i path, drop i path)" "\<forall>c \<in> set (drop i path). \<not> sep c"
    "i > 0 \<longrightarrow> sep (path ! (i - 1))" "i \<le> length path" "i = lastSep_loop path 0 (length path)"
  using lastSep_loop_spec [of "length path" path]
  by (auto simp: Split_def VolumeName_def Let_def between_def intro: that)

lemma Dir_spec: "Dir path = Inr (clean_spec (fst (Split path)))"
proof -
  have "lastSep_loop path 0 (length path) \<le> length path"
    using lastSep_loop_spec [of "length path" path] by simp
  then show ?thesis
    by (simp add: Dir_def Split_def VolumeName_def Let_def slice_sub_def Clean_spec)
qed

lemma Join_spec: "Join es = Inr (if \<forall>e \<in> set es. e = [] then [] else clean_spec (join_slash (dropWhile (\<lambda>e. e = []) es)))"
  by (induction es) (auto simp: Clean_spec)

lemma comps_join: "comps sep (join_slash es) = concat (map (comps sep) es)"
  by (induction es rule: join_slash.induct) (auto simp: comps_append_sep)

lemma hd_join_Cons: "e \<noteq> [] \<Longrightarrow> hd (join_slash (e # es)) = hd e" "e \<noteq> [] \<Longrightarrow> join_slash (e # es) \<noteq> []"
  by (cases es; simp)+

text \<open>Joining onto a non-empty path folds the components of all elements over the stack.\<close>

lemma Join_Cons:
  assumes "e \<noteq> []"
  defines "rt \<equiv> sep (hd e)"
  shows "Join (e # es) =
    Inr (let out = render rt (norm_comps rt (concat (map (comps sep) (e # es)))) in if out = [] then ''.'' else out)"
  using assms hd_join_Cons [OF assms(1), of es]
  by (simp only: Join.simps if_True Clean_spec clean_spec_def comps_join Let_def simp_thms not_False_eq_True)

section \<open>\<open>Rel\<close> on components\<close>

fun strip_common :: "'a list \<Rightarrow> 'a list \<Rightarrow> 'a list \<times> 'a list" where
  "strip_common [] ys = ([], ys)"
| "strip_common (x # xs) [] = (x # xs, [])"
| "strip_common (x # xs) (y # ys) = (if x = y then strip_common xs ys else (x # xs, y # ys))"

definition first_word :: "string list \<Rightarrow> string" where
  "first_word ws = (case ws of [] \<Rightarrow> [] | w # _ \<Rightarrow> w)"

lemma skipWord_free:
  assumes "\<forall>c \<in> set w. \<not> sep c" and "drop i s = w @ rest" and "rest \<noteq> [] \<longrightarrow> hd rest = CHR ''/''"
  shows "skipWord s i = i + length w"
  using assms
proof (induction w arbitrary: i)
  case Nil
  then have "\<not> (i < length s \<and> s ! i \<noteq> CHR ''/'')"
    by (metis append_Nil drop_eq_Nil2 hd_drop_conv_nth leD)
  then show ?case
    by (subst skipWord.simps) auto
next
  case (Cons c w)
  then have "i < length s" "s ! i = c" "drop (Suc i) s = w @ rest"
    by (metis append_Cons drop_all list.distinct(1) not_le, metis append_Cons nth_via_drop,
        metis append_Cons drop_Suc list.sel(3) tl_drop)
  moreover have "c \<noteq> CHR ''/''"
    using Cons.prems(1) by (auto simp: isUnixSeparator_def)
  ultimately show ?case
    using Cons.IH [of "Suc i"] Cons.prems(1,3) by (subst skipWord.simps) simp
qed

lemma skipWord_word:
  assumes "drop i s = join_slash ws" and "sep_free ws" and "i \<le> length s"
  defines "j \<equiv> skipWord s i"
  defines "k \<equiv> (if j < length s then j + 1 else j)"
  shows "between s i j = first_word ws \<and> drop k s = join_slash (tl ws) \<and> k \<le> length s
    \<and> (length s \<le> k) = (tl ws = [])"
proof (cases ws rule: join_slash.cases)
  case 1
  then have "i = length s" "j = length s"
    using assms(1,3) skipWord_free [of "[]" i s "[]"] by (auto simp: j_def)
  then show ?thesis
    using 1 by (simp add: k_def first_word_def)
  next
  case (2 w)
  then have "j = i + length w" "length s = i + length w"
    using assms skipWord_free [of w i s "[]"] by (auto simp: j_def dest: arg_cong [where f = length])
  then show ?thesis
    using 2 assms(1) by (simp add: k_def first_word_def between_def)
  next
  case (3 w v vs)
  let ?rest = "join_slash (v # vs)"
  have ds: "drop i s = w @ CHR ''/'' # ?rest"
    using 3 assms(1) by simp
  then have j: "j = i + length w"
    using 3 assms skipWord_free [of w i s "CHR ''/'' # ?rest"] by (auto simp: j_def)
  have "length s = i + length w + 1 + length ?rest"
    using arg_cong [OF ds, of length] assms(3) by simp
  moreover have "?rest \<noteq> []"
    using 3 assms(2) hd_join_Cons(2) by auto
  moreover have "drop (i + length w + 1) s = ?rest"
    using arg_cong [OF ds, of "drop (length w + 1)"] by (simp add: add.commute add.left_commute)
  ultimately show ?thesis
    using 3 ds j by (simp add: k_def first_word_def between_def)
qed

lemma first_word_eq:
  "sep_free xs \<Longrightarrow> sep_free ys \<Longrightarrow>
   first_word ys = first_word xs \<longleftrightarrow> xs = [] \<and> ys = [] \<or> (\<exists>w xs' ys'. xs = w # xs' \<and> ys = w # ys')"
  by (cases xs; cases ys) (auto simp: first_word_def)

lemma Rel_loop_stop:
  "between targ t0 (skipWord targ t0) \<noteq> between base b0 (skipWord base b0) \<Longrightarrow>
   Rel_loop base targ b0 t0 = Some (b0, skipWord base b0, t0, skipWord targ t0)"
  by (subst Rel_loop.simps) (simp add: Let_def)

lemma Rel_loop_end:
  "drop b0 base = [] \<Longrightarrow> drop t0 targ = [] \<Longrightarrow> Rel_loop base targ b0 t0 = None"
  using skipWord_free [of "[]" b0 base "[]"] skipWord_free [of "[]" t0 targ "[]"]
  by (subst Rel_loop.simps) (simp add: Let_def)

lemma Rel_loop_spec:
  assumes "drop b0 base = join_slash bs" and "sep_free bs" and "b0 \<le> length base"
    and "drop t0 targ = join_slash ts" and "sep_free ts" and "t0 \<le> length targ"
  shows "if bs = ts then Rel_loop base targ b0 t0 = None
    else \<exists>b0' bi t0' ti. Rel_loop base targ b0 t0 = Some (b0', bi, t0', ti)
      \<and> drop b0' base = join_slash (fst (strip_common bs ts)) \<and> b0' \<le> length base
      \<and> drop t0' targ = join_slash (snd (strip_common bs ts)) \<and> t0' \<le> length targ
      \<and> between base b0' bi = first_word (fst (strip_common bs ts))"
  using assms
proof (induction bs ts arbitrary: b0 t0 rule: strip_common.induct)
  case (1 ys)
  note b = skipWord_word [OF 1(1-3)] and t = skipWord_word [OF 1(4-6)]
  show ?case
  proof (cases "ys = []")
    case True
    then show ?thesis
      using 1 Rel_loop_end [of b0 base t0 targ] by simp
  next
    case False
    then have "between targ t0 (skipWord targ t0) \<noteq> between base b0 (skipWord base b0)"
      using b t 1 first_word_eq [of "[]" ys] by simp
    from Rel_loop_stop [OF this] show ?thesis
      using b False 1 by auto
  qed
next
  case (2 x xs)
  note b = skipWord_word [OF 2(1-3)] and t = skipWord_word [OF 2(4-6)]
  have "between targ t0 (skipWord targ t0) \<noteq> between base b0 (skipWord base b0)"
    using b t 2 first_word_eq [of "x # xs" "[]"] by simp
  from Rel_loop_stop [OF this] show ?case
    using b 2 by auto
next
  case (3 x xs y ys)
  note b = skipWord_word [OF 3(2-4)] and t = skipWord_word [OF 3(5-7)]
  show ?case
  proof (cases "x = y")
    case True
    let ?b = "if skipWord base b0 < length base then skipWord base b0 + 1 else skipWord base b0"
    let ?t = "if skipWord targ t0 < length targ then skipWord targ t0 + 1 else skipWord targ t0"
    have step: "Rel_loop base targ b0 t0 = (if xs = [] \<and> ys = [] then None else Rel_loop base targ ?b ?t)"
      using b t True by (subst Rel_loop.simps) (simp only: Let_def first_word_def list.case list.sel simp_thms if_False)
    have "sep_free xs" "sep_free ys"
      using 3 by simp_all
    from 3(1) [OF True, of ?b ?t] b t this show ?thesis
      unfolding step using True by auto
  next
    case False
    then show ?thesis
      using b t 3(2-7) Rel_loop_stop [of targ t0 base b0] by (simp add: first_word_def)
  qed
qed

lemma count_join_slash: "sep_free ws \<Longrightarrow> count_list (join_slash ws) (CHR ''/'') = length ws - 1"
  by (induction ws rule: join_slash.induct) (auto simp: count_list_0_iff isUnixSeparator_def)

lemma strip_common_props:
  assumes "strip_common xs ys = (xs', ys')"
  obtains zs where "xs = zs @ xs'" "ys = zs @ ys'" "xs' = [] \<or> ys' = [] \<or> hd xs' \<noteq> hd ys'"
proof -
  have "\<exists>zs. xs = zs @ xs' \<and> ys = zs @ ys' \<and> (xs' = [] \<or> ys' = [] \<or> hd xs' \<noteq> hd ys')"
    using assms
  proof (induction xs ys rule: strip_common.induct)
    case (3 x xs y ys)
    then show ?case
      by (cases "x = y") (auto intro: exI [of _ "x # _"])
  qed auto
  then show thesis
    using that by blast
qed

lemma slice_set_append: "length pre = n \<Longrightarrow> slice_set (pre @ x # rest) (int n) v = Inr (pre @ v # rest)"
  by (auto simp: slice_set_def)

lemma copy_at_append:
  "length pre = n \<Longrightarrow> length src \<le> length rest \<Longrightarrow>
   copy_at (pre @ rest) n src = Inr (pre @ src @ drop (length src) rest)"
  by (simp add: copy_at_def slice_sub_def go_copy_def)

lemma Rel_fill_spec:
  "length pre = n \<Longrightarrow> 3 * seps \<le> length rest \<Longrightarrow>
   Rel_fill seps n (pre @ rest) =
     Inr (n + 3 * seps, pre @ concat (replicate seps ''/..'') @ drop (3 * seps) rest)"
proof (induction seps arbitrary: n pre rest)
  case (Suc seps)
  then obtain r rest' where rest: "rest = r # rest'" "2 + 3 * seps \<le> length rest'"
    by (cases rest) auto
  have "slice_set (pre @ rest) (int n) (CHR ''/'') = Inr ((pre @ ''/'') @ rest')"
    using Suc.prems rest by (simp add: slice_set_def list_update_append)
  moreover have "copy_at ((pre @ ''/'') @ rest') (n + 1) ''..'' = Inr ((pre @ ''/..'') @ drop 2 rest')"
    using Suc.prems rest copy_at_append [of "pre @ ''/''" "n + 1" "''..''" rest'] by (simp add: numeral_2_eq_2)
  moreover have "Rel_fill seps (n + 3) ((pre @ ''/..'') @ drop 2 rest') =
      Inr (n + 3 + 3 * seps, (pre @ ''/..'') @ concat (replicate seps ''/..'') @ drop (3 * seps) (drop 2 rest'))"
    using Suc.prems rest by (intro Suc.IH) auto
  ultimately show ?case
    using rest by (simp add: numeral_3_eq_3)
qed simp

lemma join_slash_dots: "join_slash (replicate (Suc k) ''..'') = ''..'' @ concat (replicate k ''/..'')"
  by (induction k) simp_all

lemma Rel_up_spec:
  assumes "drop b0 base = join_slash bs" and "sep_free bs" and "bs \<noteq> []"
    and "drop t0 targ = join_slash ts" and "sep_free ts" and "t0 \<le> length targ"
  shows "Rel_up base targ b0 t0 = Inr (clean_spec (join_slash (replicate (length bs) ''..'' @ ts)))"
proof -
  define k where "k = length bs - 1"
  have k: "length bs = Suc k" "count_list (drop b0 base) (CHR ''/'') = k"
    using assms(1-3) count_join_slash [OF assms(2)] by (cases bs; simp add: k_def)+
  have dots: "join_slash (replicate (length bs) ''..'') = ''..'' @ concat (replicate k ''/..'')"
    unfolding k(1) by (rule join_slash_dots)
  have t0: "t0 = length targ \<longleftrightarrow> ts = []"
    using assms(4-6) join_slash_Nil_iff [of ts] by (auto simp: sep_free_def)
  let ?rest = "replicate (k * 3 + (if length targ \<noteq> t0 then 1 + length targ - t0 else 0)) (CHR 0x00)"
  have fill: "Rel_fill k 2 (''..'' @ ?rest) =
      Inr (2 + 3 * k, (''..'' @ concat (replicate k ''/..'')) @ drop (3 * k) ?rest)"
    using Rel_fill_spec [of "''..''" 2 k ?rest] by simp
  have size: "go_copy (replicate (2 + k * 3 + (if length targ \<noteq> t0 then 1 + length targ - t0 else 0)) (CHR 0x00)) ''..''
      = ''..'' @ ?rest"
    by (simp add: go_copy_def)
  show ?thesis
  proof (cases "ts = []")
    case True
    then show ?thesis
      using fill size t0 dots by (simp add: Rel_up_def k Clean_spec Let_def del: replicate.simps(2))
  next
    case False
    then have ne: "length targ \<noteq> t0" "t0 < length targ"
      using t0 assms(6) by auto
    let ?pre = "''..'' @ concat (replicate k ''/..'')"
    have pre: "length ?pre = 2 + 3 * k"
      by (simp add: length_concat sum_list_replicate)
    have drop: "drop (3 * k) (replicate (k * 3 + (1 + length targ - t0)) (CHR 0x00)) = CHR 0x00 # replicate (length targ - t0) (CHR 0x00)"
    proof -
      have "k * 3 + (1 + length targ - t0) - 3 * k = Suc (length targ - t0)"
        using ne by simp
      then show ?thesis
        by (simp only: drop_replicate replicate.simps)
    qed
    have set: "slice_set (?pre @ CHR 0x00 # replicate (length targ - t0) (CHR 0x00)) (int (2 + 3 * k)) (CHR ''/'')
        = Inr ((?pre @ ''/'') @ replicate (length targ - t0) (CHR 0x00))"
      using slice_set_append [OF pre, of "CHR 0x00" "replicate (length targ - t0) (CHR 0x00)" "CHR ''/''"]
      by (simp only: append_assoc append_Cons append_Nil)
    have copy: "copy_at ((?pre @ ''/'') @ replicate (length targ - t0) (CHR 0x00)) (2 + 3 * k + 1) (drop t0 targ)
        = Inr ((?pre @ ''/'') @ drop t0 targ)"
      using copy_at_append [of "?pre @ ''/''" "2 + 3 * k + 1" "drop t0 targ" "replicate (length targ - t0) (CHR 0x00)"] pre
      by simp
    have "join_slash (replicate (length bs) ''..'' @ ts) = (?pre @ ''/'') @ drop t0 targ"
      using join_slash_append [of "replicate (length bs) ''..''" ts] dots False assms(3,4) by simp
    then show ?thesis
      unfolding Rel_up_def Let_def k size fill
      using set copy ne by (simp only: go_bind_Inr drop prod.case if_True Clean_spec not_sym simp_thms)
  qed
qed

lemma render_True: "render True s = CHR ''/'' # join_slash s"
  by (simp add: render_def)

lemma join_slash_inj: "sep_free xs \<Longrightarrow> sep_free ys \<Longrightarrow> join_slash xs = join_slash ys \<longleftrightarrow> xs = ys"
  by (metis comps_join_slash)

lemma Rel_loop_rooted:
  assumes "\<not> (bs = [] \<and> ts = [])" and "sep_free bs" and "sep_free ts"
  shows "Rel_loop (render True bs) (render True ts) 0 0 = Rel_loop (render True bs) (render True ts) 1 1"
proof -
  have "skipWord (render True s) 0 = 0" for s
    by (subst skipWord.simps) (simp add: render_True)
  moreover have "\<not> (join_slash bs = [] \<and> join_slash ts = [])"
    using assms join_slash_inj [of _ "[]"] by auto
  ultimately show ?thesis
    by (subst Rel_loop.simps) (auto simp: Let_def render_True)
qed

text \<open>For two absolute paths, \<open>Rel\<close> goes up from the base to the longest common prefix and down again.\<close>

lemma Rel_abs_spec:
  assumes "clean_spec basePath = render True bs" and "clean_spec targPath = render True ts"
    and "normal_stack True bs" and "normal_stack True ts"
  shows "Rel basePath targPath =
    Inr (Inr (if bs = ts then ''.''
              else case strip_common bs ts of (up, down) \<Rightarrow> join_slash (replicate (length up) ''..'' @ down)))"
proof (cases "bs = ts")
  case True
  then show ?thesis
    using assms by (simp add: Rel_def Clean_spec)
next
  case False
  note free = normal_stack_sep_free [OF assms(3)] normal_stack_sep_free [OF assms(4)]
  let ?base = "render True bs" and ?targ = "render True ts"
  obtain up down where strip: "strip_common bs ts = (up, down)"
    by fastforce
  obtain zs where zs: "bs = zs @ up" "ts = zs @ down"
    using strip_common_props [OF strip] by metis
  have real: "\<forall>x \<in> set bs \<union> set ts. real_elem x"
    using assms(3,4) by (auto simp: normal_stack_def norm_stack_def)
  have free': "sep_free up" "sep_free down"
    using free zs by simp_all
  have loop: "Rel_loop ?base ?targ 0 0 = Rel_loop ?base ?targ 1 1"
    using False free by (intro Rel_loop_rooted) auto
  from Rel_loop_spec [of 1 ?base bs 1 ?targ ts] obtain b0 bi t0 ti where pos:
      "Rel_loop ?base ?targ 1 1 = Some (b0, bi, t0, ti)" "drop b0 ?base = join_slash up" "b0 \<le> length ?base"
      "drop t0 ?targ = join_slash down" "t0 \<le> length ?targ" "between ?base b0 bi = first_word up"
    using False free strip by (auto simp: render_True)
  have word: "first_word up \<noteq> ''..''"
    using real zs by (cases up) (auto simp: first_word_def real_elem_def)
  have neq: "?base \<noteq> ?targ"
    using False join_slash_inj [OF free] by (simp add: render_True)
  have ne_dot: "?base \<noteq> ''.''" "?base \<noteq> []" "?base ! 0 = CHR ''/''" "?targ ! 0 = CHR ''/''" "?targ \<noteq> []"
    by (simp_all add: render_True)
  have b0: "b0 = length ?base \<longleftrightarrow> up = []"
    using pos(2,3) join_slash_Nil_iff [of up] free'(1) by (auto simp: sep_free_def)
  have rel: "Rel basePath targPath =
      (if up \<noteq> [] then go_bind (Rel_up ?base ?targ b0 t0) (\<lambda>s. Inr (Inr s)) else Inr (Inr (join_slash down)))"
    unfolding Rel_def VolumeName_def Clean_spec assms(1,2) Let_def
    using neq ne_dot pos word b0 by (auto simp: loop)
  show ?thesis
  proof (cases "up = []")
    case True
    then show ?thesis
      using rel False strip by simp
  next
    case up_ne: False
    have "normal_stack False (replicate (length up) ''..'' @ down)"
      using real zs unfolding normal_stack_def norm_stack_def by auto
    moreover have "replicate (length up) ''..'' @ down \<noteq> []"
      using up_ne by simp
    ultimately have "clean_spec (join_slash (replicate (length up) ''..'' @ down)) =
        join_slash (replicate (length up) ''..'' @ down)"
      using clean_spec_render [of False "replicate (length up) ''..'' @ down"] by (simp add: render_def)
    then show ?thesis
      using rel up_ne False strip Rel_up_spec [OF pos(2) free'(1) up_ne pos(4) free'(2) pos(5)] by simp
  qed
qed

end
