(* ===== verification/Fsx_Name.thy ===== *)
theory Fsx_Name
  imports Path_Components Core_Types "HOL-Library.List_Lexorder" "HOL-Library.Char_ord"
begin

text \<open>
  \<^verbatim>\<open>base/fsx/fsx_name\<close>: validated single-component names and the extraction of the base name of a path,
  on Unix. \<open>quote\<close> stands for the \<^verbatim>\<open>%q\<close> verb of \<^verbatim>\<open>fmt.Sprintf\<close>.
\<close>

section \<open>Definitions\<close>

record Name =
  nm_value :: string

datatype NameParseErrorKind = ParseErrorKind_EmptyName | ParseErrorKind_HasPathSeparators

record NameParseError =
  npe_kind :: NameParseErrorKind
  npe_name :: string

datatype BaseNameErrorKind =
  BaseNameErrorKind_EmptyString | BaseNameErrorKind_EndsWithPathSeparator | BaseNameErrorKind_NoBaseName

record BaseNameError =
  bne_kind :: BaseNameErrorKind
  bne_path :: string

definition Name_String :: "Name \<Rightarrow> string" where
  "Name_String n = nm_value n"

text \<open>\<open>strings.Compare\<close> orders strings lexicographically by bytes.\<close>

definition Name_Compare :: "Name \<Rightarrow> Name \<Rightarrow> int" where
  "Name_Compare n p = cmp_Compare (nm_value n) (nm_value p)"

definition hasPathSeparators :: "string \<Rightarrow> bool" where
  "hasPathSeparators s \<longleftrightarrow> CHR ''/'' \<in> set s"

definition Name_Parse :: "string \<Rightarrow> NameParseError + Name" where
  "Name_Parse s =
     (if s = [] then Inl \<lparr>npe_kind = ParseErrorKind_EmptyName, npe_name = []\<rparr>
      else if hasPathSeparators s then Inl \<lparr>npe_kind = ParseErrorKind_HasPathSeparators, npe_name = s\<rparr>
      else Inr \<lparr>nm_value = s\<rparr>)"

definition Name_New :: "string \<Rightarrow> Name outcome" where
  "Name_New s =
     (case Name_Parse s of
        Inl err \<Rightarrow> go_bind (Preconditionf False ''%v'') (\<lambda>_. Inr \<lparr>nm_value = []\<rparr>)
      | Inr n \<Rightarrow> go_bind (Preconditionf True ''%v'') (\<lambda>_. Inr n))"

definition NameParseError_Name :: "NameParseError \<Rightarrow> string outcome" where
  "NameParseError_Name e =
     go_bind (Preconditionf (npe_kind e = ParseErrorKind_HasPathSeparators)
                ''e.kind should be ParseErrorKind_HasPathSeparators'') (\<lambda>_. Inr (npe_name e))"

definition NameParseError_Error :: "(string \<Rightarrow> string) \<Rightarrow> NameParseError \<Rightarrow> string" where
  "NameParseError_Error quote e =
     (case npe_kind e of
        ParseErrorKind_EmptyName \<Rightarrow> ''empty file/directory name''
      | ParseErrorKind_HasPathSeparators \<Rightarrow> ''name '' @ quote (npe_name e) @ '' contains path separator(s)'')"

text \<open>The loop over the components keeps the last one, starting from the empty string.\<close>

definition ExtractBaseName :: "string \<Rightarrow> BaseNameError + Name" where
  "ExtractBaseName path =
     (if path = [] then Inl \<lparr>bne_kind = BaseNameErrorKind_EmptyString, bne_path = path\<rparr>
      else if isUnixSeparator (path ! (length path - 1))
      then Inl \<lparr>bne_kind = BaseNameErrorKind_EndsWithPathSeparator, bne_path = path\<rparr>
      else let base = snd (ComponentsUnix path (\<lambda>component _. (True, component)) [])
           in if base = ''.'' \<or> base = ''..'' \<or> base = []
              then Inl \<lparr>bne_kind = BaseNameErrorKind_NoBaseName, bne_path = path\<rparr>
              else Inr \<lparr>nm_value = base\<rparr>)"

definition BaseNameError_Error :: "(string \<Rightarrow> string) \<Rightarrow> BaseNameError \<Rightarrow> string" where
  "BaseNameError_Error quote e =
     (case bne_kind e of
        BaseNameErrorKind_EmptyString \<Rightarrow> ''cannot extract base name from empty path string''
      | BaseNameErrorKind_EndsWithPathSeparator \<Rightarrow>
          ''path '' @ quote (bne_path e) @ '' ends with a path separator; cannot extract base name''
      | BaseNameErrorKind_NoBaseName \<Rightarrow> ''path '' @ quote (bne_path e) @ '' has no concrete base name'')"

definition MustExtractBaseName :: "(string \<Rightarrow> string) \<Rightarrow> string \<Rightarrow> Name outcome" where
  "MustExtractBaseName quote path =
     (case ExtractBaseName path of
        Inl err \<Rightarrow> go_bind (Precondition False (BaseNameError_Error quote err)) (\<lambda>_. Inr \<lparr>nm_value = []\<rparr>)
      | Inr name \<Rightarrow> Inr name)"

section \<open>Names\<close>

definition name_ok :: "Name \<Rightarrow> bool" where
  "name_ok n \<longleftrightarrow> nm_value n \<noteq> [] \<and> (\<forall>c \<in> set (nm_value n). \<not> isUnixSeparator c)"

lemma Name_Parse_ok: "Name_Parse s = Inr n \<longleftrightarrow> n = \<lparr>nm_value = s\<rparr> \<and> name_ok n"
  by (auto simp: Name_Parse_def name_ok_def hasPathSeparators_def isUnixSeparator_def)

lemma Name_New_ok: "Name_New s = Inr n \<longleftrightarrow> n = \<lparr>nm_value = s\<rparr> \<and> name_ok n"
  by (cases "Name_Parse s") (auto simp: Name_New_def assert_defs Name_Parse_ok [symmetric])

lemma yield_all_last:
  "snd (yield_all (\<lambda>x _. (True, x)) xs s) = (if xs = [] then s else last xs)"
  by (induction xs arbitrary: s) auto

lemma ExtractBaseName_loop:
  "snd (ComponentsUnix path (\<lambda>component _. (True, component)) []) =
     (if comps isUnixSeparator path = [] then [] else last (comps isUnixSeparator path))"
  using components_spec [of 0 path isUnixSeparator "\<lambda>component _. (True, component)" "[]"]
  by (simp add: ComponentsUnix_def yield_all_last)

lemma comps_ends_with:
  assumes "path \<noteq> []" and "\<not> isUnixSeparator (last path)"
  obtains pre where "path = pre @ last (comps isUnixSeparator path)" "comps isUnixSeparator path \<noteq> []"
    "pre = [] \<or> isUnixSeparator (last pre)"
proof -
  let ?sep = isUnixSeparator
  define b where "b = rev (takeWhile (\<lambda>c. \<not> ?sep c) (rev path))"
  define pre where "pre = rev (dropWhile (\<lambda>c. \<not> ?sep c) (rev path))"
  have path: "path = pre @ b"
    by (simp add: pre_def b_def flip: rev_append)
  have free: "\<forall>c \<in> set b. \<not> ?sep c"
    by (auto simp: b_def dest: set_takeWhileD)
  have "b \<noteq> []"
    using assms by (cases path rule: rev_cases) (auto simp: b_def)
  then have single: "comps ?sep b = [b]"
    using free by (rule comps_single)
  have pre: "pre = [] \<or> ?sep (last pre)"
    using hd_dropWhile [of "\<lambda>c. \<not> ?sep c" "rev path"] by (auto simp: pre_def last_rev)
  then have "comps ?sep path = comps ?sep pre @ [b]"
  proof (cases pre rule: rev_cases)
    case (snoc p c)
    then show ?thesis
      using pre path single comps_append_sep [of ?sep c p b] comps_append_sep [of ?sep c p "[]"] by simp
  qed (use path single in simp)
  then show thesis
    using that [of pre] path pre by simp
qed

lemma comps_last:
  assumes "dir = [] \<or> sep (last dir)" and "x \<noteq> []" and "\<forall>c \<in> set x. \<not> sep c"
  shows "last (comps sep (dir @ x)) = x"
proof (cases dir rule: rev_cases)
  case (snoc p c)
  then show ?thesis
    using assms comps_append_sep [of sep c p x] by (simp add: comps_single)
qed (use assms in \<open>simp add: comps_single\<close>)

text \<open>
  C38. ExtractBaseName returns a name exactly for the paths that end in a concrete component: the
  path is the name after nothing or after a separator, the name is not \<open>.\<close> or \<open>..\<close> and satisfies the
  guarantee of Name (non-empty, no separator, so Parse accepts it); and the three error kinds are
  exactly the empty path, a path ending in a separator and a path ending in \<open>.\<close> or \<open>..\<close>.\<close>

theorem ExtractBaseName_correct:
  "(ExtractBaseName path = Inr n \<longleftrightarrow>
      Name_Parse (nm_value n) = Inr n \<and> nm_value n \<notin> {''.'', ''..''} \<and>
      (\<exists>dir. path = dir @ nm_value n \<and> (dir = [] \<or> isUnixSeparator (last dir))))
   \<and> (ExtractBaseName path = Inl e \<longleftrightarrow> bne_path e = path \<and>
      (case bne_kind e of
         BaseNameErrorKind_EmptyString \<Rightarrow> path = []
       | BaseNameErrorKind_EndsWithPathSeparator \<Rightarrow> path \<noteq> [] \<and> isUnixSeparator (last path)
       | BaseNameErrorKind_NoBaseName \<Rightarrow>
           \<exists>dir. (path = dir @ ''.'' \<or> path = dir @ ''..'') \<and> (dir = [] \<or> isUnixSeparator (last dir))))"
proof (cases "path = [] \<or> isUnixSeparator (last path)")
  case True
  have none: "path \<noteq> dir @ x" if "x \<noteq> []" "\<forall>c \<in> set x. \<not> isUnixSeparator c" for dir x
    using that True by (metis append_is_Nil_conv last_appendR last_in_set)
  have dots: "(\<exists>dir. (path = dir @ ''.'' \<or> path = dir @ ''..'') \<and> (dir = [] \<or> isUnixSeparator (last dir))) = False"
    using none [of "''.''"] none [of "''..''"] by (simp add: isUnixSeparator_def)
  have name: "(Name_Parse (nm_value n) = Inr n \<and> nm_value n \<notin> {''.'', ''..''} \<and>
      (\<exists>dir. path = dir @ nm_value n \<and> (dir = [] \<or> isUnixSeparator (last dir)))) = False"
    using none [of "nm_value n"] by (auto simp: Name_Parse_ok name_ok_def)
  have eq: "ExtractBaseName path = Inl \<lparr>bne_kind = if path = [] then BaseNameErrorKind_EmptyString
      else BaseNameErrorKind_EndsWithPathSeparator, bne_path = path\<rparr>"
    using True by (auto simp: ExtractBaseName_def last_conv_nth)
  show ?thesis
    unfolding name dots eq using True by (cases e; cases "bne_kind e") auto
next
  case False
  then obtain pre where pre: "path = pre @ last (comps isUnixSeparator path)" "comps isUnixSeparator path \<noteq> []"
      "pre = [] \<or> isUnixSeparator (last pre)"
    using comps_ends_with by blast
  let ?b = "last (comps isUnixSeparator path)"
  have b: "?b \<noteq> [] \<and> (\<forall>c \<in> set ?b. \<not> isUnixSeparator c)"
    using comps_elems [OF last_in_set [OF pre(2)]] .
  have uniq: "x = ?b" if "path = dir @ x" "dir = [] \<or> isUnixSeparator (last dir)" "x \<noteq> []"
      "\<forall>c \<in> set x. \<not> isUnixSeparator c" for dir x
    using comps_last [OF that(2,3,4)] that(1) by simp
  have eq: "ExtractBaseName path = (if ?b = ''.'' \<or> ?b = ''..''
      then Inl \<lparr>bne_kind = BaseNameErrorKind_NoBaseName, bne_path = path\<rparr> else Inr \<lparr>nm_value = ?b\<rparr>)"
    using False pre(2) b last_conv_nth [of path] by (simp add: ExtractBaseName_def ExtractBaseName_loop)
  have dots: "(\<exists>dir. (path = dir @ ''.'' \<or> path = dir @ ''..'') \<and> (dir = [] \<or> isUnixSeparator (last dir)))
      \<longleftrightarrow> ?b = ''.'' \<or> ?b = ''..''"
    using uniq [of _ "''.''"] uniq [of _ "''..''"] pre by (auto simp: isUnixSeparator_def)
  have name: "(Name_Parse (nm_value n) = Inr n \<and> nm_value n \<notin> {''.'', ''..''} \<and>
      (\<exists>dir. path = dir @ nm_value n \<and> (dir = [] \<or> isUnixSeparator (last dir))))
      \<longleftrightarrow> nm_value n = ?b \<and> ?b \<notin> {''.'', ''..''}"
    using uniq [of _ "nm_value n"] pre b by (auto simp: Name_Parse_ok name_ok_def)
  show ?thesis
    unfolding name dots eq using False by (cases e; cases n; cases "bne_kind e") auto
qed

end
