(* ===== verification/Path_Types.thy ===== *)
theory Path_Types
  imports Path_Std Fsx_Name
begin

text \<open>
  \<^verbatim>\<open>base/core/pathx/pathx.go\<close> and \<^verbatim>\<open>errors.go\<close>: the typed paths \<open>AbsPath\<close>, \<open>RelPath\<close> and \<open>RootRelPath\<close> on
  Unix, over the standard library functions of Path_Std. The invariants \<open>abs_ok\<close> and \<open>rel_ok\<close> are the
  guarantees documented on the types; the operations that keep them, the containment check and the
  round trip between absolute and root-relative paths are the theorems.
\<close>

section \<open>Definitions\<close>

record AbsPath =
  ap_value :: string

record RelPath =
  rp_value :: string

datatype AbsPathParseErrorKind = AbsPathParseErrorKind_Empty | AbsPathParseErrorKind_NotAbsolute

record AbsPathParseError =
  ape_kind :: AbsPathParseErrorKind
  ape_inputPath :: string

datatype RelPathParseErrorKind = RelPathParseErrorKind_Empty | RelPathParseErrorKind_NotRelative

record RelPathParseError =
  rpe_kind :: RelPathParseErrorKind
  rpe_inputPath :: string

definition NewAbsPathParseError :: "AbsPathParseErrorKind \<Rightarrow> string \<Rightarrow> AbsPathParseError outcome" where
  "NewAbsPathParseError kind inputPath =
     go_bind (case kind of
                AbsPathParseErrorKind_Empty \<Rightarrow>
                  Preconditionf (inputPath = []) ''input path should be empty for AbsPathParseErrorKind_Empty''
              | AbsPathParseErrorKind_NotAbsolute \<Rightarrow>
                  Preconditionf (inputPath \<noteq> []) ''input path should be non-empty for AbsPathParseErrorKind_NotAbsolute'')
       (\<lambda>_. Inr \<lparr>ape_kind = kind, ape_inputPath = inputPath\<rparr>)"

definition NewRelPathParseError :: "RelPathParseErrorKind \<Rightarrow> string \<Rightarrow> RelPathParseError outcome" where
  "NewRelPathParseError kind inputPath =
     go_bind (case kind of
                RelPathParseErrorKind_Empty \<Rightarrow>
                  Preconditionf (inputPath = []) ''input path should be empty for RelPathParseErrorKind_Empty''
              | RelPathParseErrorKind_NotRelative \<Rightarrow>
                  Preconditionf (inputPath \<noteq> []) ''input path should be non-empty for RelPathParseErrorKind_NotRelative'')
       (\<lambda>_. Inr \<lparr>rpe_kind = kind, rpe_inputPath = inputPath\<rparr>)"

definition HasPathSeparators :: "string \<Rightarrow> bool" where
  "HasPathSeparators s \<longleftrightarrow> (\<exists>c \<in> set s. sep c)"

definition ParseAbsPath :: "string \<Rightarrow> (AbsPathParseError + AbsPath) outcome" where
  "ParseAbsPath path =
     (if path = [] then go_bind (NewAbsPathParseError AbsPathParseErrorKind_Empty path) (\<lambda>e. Inr (Inl e))
      else if \<not> IsAbs path
      then go_bind (NewAbsPathParseError AbsPathParseErrorKind_NotAbsolute path) (\<lambda>e. Inr (Inl e))
      else go_bind (LexicallyNormalize path) (\<lambda>s. Inr (Inr \<lparr>ap_value = s\<rparr>)))"

definition MustParseAbsPath :: "string \<Rightarrow> AbsPath outcome" where
  "MustParseAbsPath path =
     go_bind (ParseAbsPath path) (\<lambda>r. case r of
        Inr absPath \<Rightarrow> Inr absPath
      | Inl err \<Rightarrow>
          go_bind (case ape_kind err of
                     AbsPathParseErrorKind_Empty \<Rightarrow>
                       Preconditionf False ''MustParseAbsPath called with empty path''
                   | AbsPathParseErrorKind_NotAbsolute \<Rightarrow>
                       Preconditionf False ''MustParseAbsPath called with non-absolute path: %q'')
            (\<lambda>_. Inr \<lparr>ap_value = []\<rparr>))"

definition AbsPath_Compare :: "AbsPath \<Rightarrow> AbsPath \<Rightarrow> int" where
  "AbsPath_Compare p other = cmp_Compare (ap_value p) (ap_value other)"

definition rootLen :: "AbsPath \<Rightarrow> nat" where
  "rootLen p =
     (let n = length (VolumeName (ap_value p))
      in if n < length (ap_value p) \<and> sep (ap_value p ! n) then n + 1 else n)"

definition AbsPath_Dir :: "AbsPath \<Rightarrow> AbsPath option" where
  "AbsPath_Dir p =
     (let v = ap_value p; r = rootLen p
      in if length v = r then None
         else if sep (v ! (length v - 1)) then Some \<lparr>ap_value = take (length v - 1) v\<rparr>
         else let lastSep = lastSep_loop v r (length v)
              in if lastSep \<le> r then Some \<lparr>ap_value = take r v\<rparr>
                 else Some \<lparr>ap_value = take (lastSep - 1) v\<rparr>)"

definition AbsPath_Split :: "AbsPath \<Rightarrow> (AbsPath \<times> Name) outcome" where
  "AbsPath_Split p =
     (case Split (ap_value p) of (dir, file) \<Rightarrow>
        go_bind (MustParseAbsPath dir) (\<lambda>d. go_bind (Name_New file) (\<lambda>n. Inr (d, n))))"

text \<open>The loop of \<open>Ancestors\<close>, for both path types: the prefixes before the separators at \<open>i\<close> and above.\<close>

function ancestors_loop :: "string \<Rightarrow> nat \<Rightarrow> (string \<Rightarrow> 's \<Rightarrow> bool \<times> 's) \<Rightarrow> 's \<Rightarrow> 's" where
  "ancestors_loop v i yield st =
     (if i < length v
      then if \<not> sep (v ! i) then ancestors_loop v (i + 1) yield st
           else if i = length v - 1 then st
           else (case yield (take i v) st of
                   (False, st') \<Rightarrow> st'
                 | (True, st') \<Rightarrow> ancestors_loop v (i + 1) yield st')
      else st)"
  by pat_completeness auto
termination by (relation "measure (\<lambda>(v, i, _). length v - i)") auto

declare ancestors_loop.simps [simp del]

definition AbsPath_Ancestors :: "AbsPath \<Rightarrow> (AbsPath \<Rightarrow> 's \<Rightarrow> bool \<times> 's) \<Rightarrow> 's \<Rightarrow> 's" where
  "AbsPath_Ancestors p yield st =
     ancestors_loop (ap_value p) (rootLen p) (\<lambda>s. yield \<lparr>ap_value = s\<rparr>) st"

definition Dot :: RelPath where
  "Dot = \<lparr>rp_value = ''.''\<rparr>"

definition ParseRelPath :: "string \<Rightarrow> (RelPathParseError + RelPath) outcome" where
  "ParseRelPath path =
     (if path = [] then go_bind (NewRelPathParseError RelPathParseErrorKind_Empty path) (\<lambda>e. Inr (Inl e))
      else if IsAbs path
      then go_bind (NewRelPathParseError RelPathParseErrorKind_NotRelative path) (\<lambda>e. Inr (Inl e))
      else go_bind (LexicallyNormalize path) (\<lambda>s. Inr (Inr \<lparr>rp_value = s\<rparr>)))"

definition MustParseRelPath :: "string \<Rightarrow> RelPath outcome" where
  "MustParseRelPath path =
     go_bind (ParseRelPath path) (\<lambda>r. case r of
        Inr relPath \<Rightarrow> Inr relPath
      | Inl err \<Rightarrow>
          go_bind (case rpe_kind err of
                     RelPathParseErrorKind_Empty \<Rightarrow>
                       Preconditionf False ''MustParseRelPath called with empty path''
                   | RelPathParseErrorKind_NotRelative \<Rightarrow>
                       Preconditionf False ''MustParseRelPath called with absolute path: %q'')
            (\<lambda>_. Inr \<lparr>rp_value = []\<rparr>))"

definition RelPath_Compare :: "RelPath \<Rightarrow> RelPath \<Rightarrow> int" where
  "RelPath_Compare p other = cmp_Compare (rp_value p) (rp_value other)"

definition RelPath_Dir :: "RelPath \<Rightarrow> RelPath option outcome" where
  "RelPath_Dir p =
     go_bind (Dir (rp_value p)) (\<lambda>parent.
     if parent = rp_value p \<or> parent = ''.'' then Inr None
     else go_bind (MustParseRelPath parent) (\<lambda>r. Inr (Some r)))"

definition RelPath_Join :: "RelPath \<Rightarrow> RelPath \<Rightarrow> RelPath outcome" where
  "RelPath_Join p rel = go_bind (Join [rp_value p, rp_value rel]) MustParseRelPath"

definition RelPath_RelativeTo :: "RelPath \<Rightarrow> RelPath \<Rightarrow> RelPath outcome" where
  "RelPath_RelativeTo p base =
     (if rp_value base = ''.'' then Inr p
      else
        let n = length (rp_value base);
            ok = (take n (rp_value p) = rp_value base);
            suffix = (if ok then drop n (rp_value p) else rp_value p)
        in go_bind (Preconditionf ok ''base %q is not an ancestor of %q'') (\<lambda>_.
           if suffix = [] then Inr Dot
           else go_bind (Preconditionf (sep (suffix ! 0)) ''base %q is not an ancestor of %q'') (\<lambda>_.
                Inr \<lparr>rp_value = drop 1 suffix\<rparr>)))"

definition RelPath_JoinOne :: "RelPath \<Rightarrow> Name \<Rightarrow> RelPath outcome" where
  "RelPath_JoinOne p name = go_bind (Join [rp_value p, Name_String name]) MustParseRelPath"

text \<open>The loop of both \<open>JoinComponents\<close>.\<close>

fun checkElems :: "string list \<Rightarrow> string list \<Rightarrow> string list outcome" where
  "checkElems parts [] = Inr parts"
| "checkElems parts (elem # elems) =
     go_bind (Preconditionf (\<not> HasPathSeparators elem) ''path element contains separator: %q'') (\<lambda>_.
     checkElems (parts @ [elem]) elems)"

definition RelPath_JoinComponents :: "RelPath \<Rightarrow> string list \<Rightarrow> RelPath outcome" where
  "RelPath_JoinComponents p pathElems =
     go_bind (checkElems [rp_value p] pathElems) (\<lambda>parts. go_bind (Join parts) MustParseRelPath)"

definition RelPath_Ancestors :: "RelPath \<Rightarrow> (RelPath \<Rightarrow> 's \<Rightarrow> bool \<times> 's) \<Rightarrow> 's \<Rightarrow> 's" where
  "RelPath_Ancestors p yield st =
     (if rp_value p = ''.'' then st
      else ancestors_loop (rp_value p) 0 (\<lambda>s. yield \<lparr>rp_value = s\<rparr>) st)"

definition RelPath_Components :: "RelPath \<Rightarrow> (string \<Rightarrow> 's \<Rightarrow> bool \<times> 's) \<Rightarrow> 's \<Rightarrow> 's" where
  "RelPath_Components p yield st = snd (ComponentsUnix (rp_value p) yield st)"

text \<open>The body of the loop, as the consumer of the iterator: \<open>None\<close> once it has returned false.\<close>

definition contains_step :: "string \<Rightarrow> nat option \<Rightarrow> bool \<times> nat option" where
  "contains_step component depth =
     (case depth of
        None \<Rightarrow> (False, None)
      | Some d \<Rightarrow>
          if component = ''.'' then (True, Some d)
          else if component = ''..'' then if d = 0 then (False, None) else (True, Some (d - 1))
          else (True, Some (d + 1)))"

definition lexicallyContainsUnix :: "RelPath \<Rightarrow> bool" where
  "lexicallyContainsUnix p \<longleftrightarrow> RelPath_Components p contains_step (Some 0) \<noteq> None"

definition lexicallyContainsSlow :: "AbsPath \<Rightarrow> RelPath \<Rightarrow> bool outcome" where
  "lexicallyContainsSlow p child =
     go_bind (Join [ap_value p, rp_value child]) (\<lambda>j.
     go_bind (Rel (ap_value p) j) (\<lambda>r.
     Inr (case r of Inl err \<Rightarrow> False | Inr rel \<Rightarrow> rel \<noteq> ''..'' \<and> take 3 rel \<noteq> ''../'')))"

definition AbsPath_LexicallyContains :: "AbsPath \<Rightarrow> RelPath \<Rightarrow> bool" where
  "AbsPath_LexicallyContains p child \<longleftrightarrow> lexicallyContainsUnix child"

definition AbsPath_Join :: "AbsPath \<Rightarrow> RelPath \<Rightarrow> AbsPath outcome" where
  "AbsPath_Join p rel = go_bind (Join [ap_value p, rp_value rel]) MustParseAbsPath"

definition AbsPath_AppendExtension :: "AbsPath \<Rightarrow> string \<Rightarrow> AbsPath outcome" where
  "AbsPath_AppendExtension p ext =
     go_bind (if length (ap_value p) = 0 then Precondition False ''empty path''
              else Preconditionf (\<not> HasPathSeparators (drop (length (ap_value p) - 1) (ap_value p)))
                     ''path %q ends with a path separator; so it's not a valid file path'') (\<lambda>_.
     MustParseAbsPath (ap_value p @ ext))"

definition AbsPath_JoinComponents :: "AbsPath \<Rightarrow> string list \<Rightarrow> AbsPath outcome" where
  "AbsPath_JoinComponents p pathElems =
     go_bind (checkElems [ap_value p] pathElems) (\<lambda>parts. go_bind (Join parts) MustParseAbsPath)"

record RootRelPath =
  rr_root :: AbsPath
  rr_value :: RelPath

definition NewRootRelPath :: "AbsPath \<Rightarrow> RelPath \<Rightarrow> RootRelPath outcome" where
  "NewRootRelPath root subpath =
     go_bind (Preconditionf (AbsPath_LexicallyContains root subpath) ''subpath %q escapes root %q'') (\<lambda>_.
     Inr \<lparr>rr_root = root, rr_value = subpath\<rparr>)"

definition AbsPath_MakeRelativeTo :: "AbsPath \<Rightarrow> AbsPath \<Rightarrow> RootRelPath option outcome" where
  "AbsPath_MakeRelativeTo p root =
     go_bind (Rel (ap_value root) (ap_value p)) (\<lambda>r. case r of
        Inl err \<Rightarrow> Inr None
      | Inr rel \<Rightarrow>
          if rel = ''..'' \<or> take 3 rel = ''../'' then Inr None
          else go_bind (MustParseRelPath rel) (\<lambda>rp. go_bind (NewRootRelPath root rp) (\<lambda>rr. Inr (Some rr))))"

definition RootRelPath_Compare :: "RootRelPath \<Rightarrow> RootRelPath \<Rightarrow> int" where
  "RootRelPath_Compare p other =
     (let c = AbsPath_Compare (rr_root p) (rr_root other)
      in if c \<noteq> 0 then c else RelPath_Compare (rr_value p) (rr_value other))"

definition RootRelPath_AsAbsPath :: "RootRelPath \<Rightarrow> AbsPath outcome" where
  "RootRelPath_AsAbsPath p = AbsPath_Join (rr_root p) (rr_value p)"

definition RootRelPath_Rel :: "RootRelPath \<Rightarrow> RelPath" where
  "RootRelPath_Rel p = rr_value p"

text \<open>\<^verbatim>\<open>internal/pathx.LexicallyContains\<close>, on plain strings.\<close>

definition LexicallyContains :: "string \<Rightarrow> string \<Rightarrow> bool outcome" where
  "LexicallyContains root child =
     go_bind (Join [root, child]) (\<lambda>j.
     go_bind (Rel root j) (\<lambda>r.
     Inr (case r of Inl err \<Rightarrow> False | Inr rel \<Rightarrow> take 2 rel \<noteq> ''..'')))"

section \<open>The invariants and their stack forms\<close>

definition abs_ok :: "AbsPath \<Rightarrow> bool" where
  "abs_ok p \<longleftrightarrow> ap_value p \<noteq> [] \<and> IsAbs (ap_value p) \<and> LexicallyNormalize (ap_value p) = Inr (ap_value p)"

definition rel_ok :: "RelPath \<Rightarrow> bool" where
  "rel_ok p \<longleftrightarrow> rp_value p \<noteq> [] \<and> \<not> IsAbs (rp_value p) \<and> LexicallyNormalize (rp_value p) = Inr (rp_value p)"

definition abs_form :: "string \<Rightarrow> string list \<Rightarrow> bool \<Rightarrow> bool" where
  "abs_form v s trail \<longleftrightarrow> normal_stack True s \<and> (trail \<longrightarrow> s \<noteq> []) \<and>
     v = render True s @ (if trail then ''/'' else [])"

definition rel_form :: "string \<Rightarrow> string list \<Rightarrow> bool \<Rightarrow> bool" where
  "rel_form v s trail \<longleftrightarrow> normal_stack False s \<and> (trail \<longrightarrow> s \<noteq> [] \<and> s \<noteq> [''..'']) \<and>
     v = (if s = [] then ''.'' else join_slash s) @ (if trail then ''/'' else [])"

lemma IsAbs_iff: "IsAbs v \<longleftrightarrow> v \<noteq> [] \<and> sep (hd v)"
  by (cases v) (auto simp: IsAbs_def isUnixSeparator_def)

lemma normal_stack_elem: "normal_stack rooted s \<Longrightarrow> x \<in> set s \<Longrightarrow> x = ''..'' \<or> real_elem x"
  by (auto simp: normal_stack_def norm_stack_def)

lemma join_slash_single_char:
  assumes "normal_stack False s" and "s \<noteq> []"
  shows "join_slash s \<noteq> ''.''" and "join_slash s \<noteq> ''/''" and "join_slash s = ''..'' \<longleftrightarrow> s = [''..'']"
proof -
  note free = normal_stack_sep_free [OF assms(1)]
  have c: "comps sep ''.'' = [''.'']" "comps sep ''/'' = []" "comps sep ''..'' = [''..'']"
    by (simp_all add: comps_single isUnixSeparator_def comps_def)
  have s: "comps sep (join_slash s) = s"
    by (rule comps_join_slash [OF free])
  have "s \<noteq> [''.'']"
    using normal_stack_elem [OF assms(1), of "''.''"] by (auto simp: real_elem_def)
  then show "join_slash s \<noteq> ''.''" "join_slash s \<noteq> ''/''" "join_slash s = ''..'' \<longleftrightarrow> s = [''..'']"
    using s c assms(2) by force+
qed

lemma normalize_spec_abs:
  assumes "IsAbs path"
  defines "s \<equiv> norm_comps True (comps sep path)"
  shows "abs_form (normalize_spec path) s (sep (last path) \<and> s \<noteq> [])" and "clean_spec path = render True s"
proof -
  have path: "path \<noteq> []" "sep (hd path)"
    using assms(1) by (simp_all add: IsAbs_iff)
  have n: "normal_stack True s"
    unfolding s_def by (rule norm_comps_normal) simp
  show c: "clean_spec path = render True s"
    using path by (simp add: clean_spec_def s_def Let_def render_True)
  have "render True s \<notin> {''.'', ''..'', ''/''} \<longleftrightarrow> s \<noteq> []"
    using join_slash_Nil_iff [of s] normal_stack_sep_free [OF n] by (auto simp: render_True sep_free_def)
  then show "abs_form (normalize_spec path) s (sep (last path) \<and> s \<noteq> [])"
    using n c path by (auto simp: abs_form_def normalize_spec_def Let_def)
qed

lemma normalize_spec_rel:
  assumes "path \<noteq> []" and "\<not> IsAbs path"
  defines "s \<equiv> norm_comps False (comps sep path)"
  shows "rel_form (normalize_spec path) s (sep (last path) \<and> s \<noteq> [] \<and> s \<noteq> [''..''])"
    and "clean_spec path = (if s = [] then ''.'' else join_slash s)"
proof -
  have rt: "\<not> sep (hd path)"
    using assms(1,2) by (simp add: IsAbs_iff)
  have n: "normal_stack False s"
    unfolding s_def by (rule norm_comps_normal) simp
  have "join_slash s = [] \<longleftrightarrow> s = []"
    using join_slash_Nil_iff [of s] normal_stack_sep_free [OF n] by (auto simp: sep_free_def)
  then show c: "clean_spec path = (if s = [] then ''.'' else join_slash s)"
    using rt by (auto simp: clean_spec_def s_def Let_def render_def)
  have "clean_spec path \<notin> {''.'', ''..'', ''/''} \<longleftrightarrow> s \<noteq> [] \<and> s \<noteq> [''..'']"
    using join_slash_single_char [OF n] by (auto simp: c)
  then show "rel_form (normalize_spec path) s (sep (last path) \<and> s \<noteq> [] \<and> s \<noteq> [''..''])"
    using n c assms(1) by (auto simp: rel_form_def normalize_spec_def Let_def)
qed

lemma abs_form_comps: "abs_form v s trail \<Longrightarrow> comps sep v = s"
  using comps_append_sep [of sep "CHR ''/''" "render True s" "[]"] normal_stack_sep_free
  by (auto simp: abs_form_def)

lemma rel_form_comps: "rel_form v s trail \<Longrightarrow> comps sep v = (if s = [] then [''.''] else s)"
  using comps_append_sep [of sep "CHR ''/''" "join_slash s" "[]"] comps_join_slash [OF normal_stack_sep_free, of False s]
  by (auto simp: rel_form_def comps_single isUnixSeparator_def)

lemma abs_ok_form: "abs_ok p \<longleftrightarrow> (\<exists>s trail. abs_form (ap_value p) s trail)"
proof
  assume "abs_ok p"
  then show "\<exists>s trail. abs_form (ap_value p) s trail"
    using normalize_spec_abs(1) [of "ap_value p"] by (auto simp: abs_ok_def LexicallyNormalize_spec)
next
  assume "\<exists>s trail. abs_form (ap_value p) s trail"
  then obtain s trail where f: "abs_form (ap_value p) s trail"
    by blast
  let ?v = "ap_value p"
  have v: "IsAbs ?v" "norm_comps True (comps sep ?v) = s"
    using f abs_form_comps [OF f] by (auto simp: abs_form_def render_True IsAbs_def norm_comps_id)
  obtain k real where s: "norm_stack True k real" "s = replicate k ''..'' @ real"
    using f unfolding abs_form_def normal_stack_def by blast
  have "(sep (last ?v) \<and> s \<noteq> []) = trail"
    using f last_render [OF s(1)] s(2) by (cases "s = []") (auto simp: abs_form_def)
  then have "abs_form (normalize_spec ?v) s trail"
    using normalize_spec_abs(1) [OF v(1)] v(2) by simp
  then show "abs_ok p"
    using f v by (auto simp: abs_ok_def abs_form_def IsAbs_def LexicallyNormalize_spec)
qed

lemma rel_ok_form: "rel_ok p \<longleftrightarrow> (\<exists>s trail. rel_form (rp_value p) s trail)"
proof
  assume "rel_ok p"
  then show "\<exists>s trail. rel_form (rp_value p) s trail"
    using normalize_spec_rel(1) [of "rp_value p"] by (auto simp: rel_ok_def LexicallyNormalize_spec)
next
  assume "\<exists>s trail. rel_form (rp_value p) s trail"
  then obtain s trail where f: "rel_form (rp_value p) s trail"
    by blast
  let ?v = "rp_value p"
  have n: "normal_stack False s"
    using f by (simp add: rel_form_def)
  have ne: "?v \<noteq> []"
    using f join_slash_Nil_iff [of s] normal_stack_sep_free [OF n] by (auto simp: rel_form_def sep_free_def)
  moreover have "\<not> sep (hd ?v)"
    using f hd_render [OF normal_stack_sep_free [OF n], of False] render_eq_Nil_iff [OF normal_stack_sep_free [OF n], of False]
    by (auto simp: rel_form_def render_def isUnixSeparator_def)
  ultimately have abs: "\<not> IsAbs ?v"
    by (simp add: IsAbs_iff)
  have stack: "norm_comps False (comps sep ?v) = s"
    using rel_form_comps [OF f] norm_comps_id [OF n] by (auto simp: norm_comps_def norm_step_def)
  obtain k real where s: "norm_stack False k real" "s = replicate k ''..'' @ real"
    using n unfolding normal_stack_def by blast
  have "(sep (last ?v) \<and> s \<noteq> [] \<and> s \<noteq> [''..'']) = trail"
    using f last_render [OF s(1)] s(2) by (cases "s = []") (auto simp: rel_form_def render_def)
  then have "rel_form (normalize_spec ?v) s trail"
    using normalize_spec_rel(1) [OF ne abs] stack by simp
  then show "rel_ok p"
    using f ne abs by (auto simp: rel_ok_def rel_form_def LexicallyNormalize_spec)
qed

section \<open>Operations on stack forms\<close>

lemma ParseAbsPath_abs: "IsAbs path \<Longrightarrow> ParseAbsPath path = Inr (Inr \<lparr>ap_value = normalize_spec path\<rparr>)"
  by (auto simp: ParseAbsPath_def LexicallyNormalize_spec IsAbs_def)

lemma ParseRelPath_rel:
  "path \<noteq> [] \<Longrightarrow> \<not> IsAbs path \<Longrightarrow> ParseRelPath path = Inr (Inr \<lparr>rp_value = normalize_spec path\<rparr>)"
  by (simp add: ParseRelPath_def LexicallyNormalize_spec)

lemma MustParseAbsPath_abs: "IsAbs path \<Longrightarrow> MustParseAbsPath path = Inr \<lparr>ap_value = normalize_spec path\<rparr>"
  by (simp add: MustParseAbsPath_def ParseAbsPath_abs)

lemma MustParseRelPath_rel:
  "path \<noteq> [] \<Longrightarrow> \<not> IsAbs path \<Longrightarrow> MustParseRelPath path = Inr \<lparr>rp_value = normalize_spec path\<rparr>"
  by (simp add: MustParseRelPath_def ParseRelPath_rel)

lemma abs_form_fixed: "abs_form v s trail \<Longrightarrow> IsAbs v \<and> normalize_spec v = v"
  using abs_ok_form [of "\<lparr>ap_value = v\<rparr>"] by (auto simp: abs_ok_def LexicallyNormalize_spec)

lemma rel_form_fixed: "rel_form v s trail \<Longrightarrow> v \<noteq> [] \<and> \<not> IsAbs v \<and> normalize_spec v = v"
  using rel_ok_form [of "\<lparr>rp_value = v\<rparr>"] by (auto simp: rel_ok_def LexicallyNormalize_spec)

lemma MustParseAbsPath_form: "abs_form v s trail \<Longrightarrow> MustParseAbsPath v = Inr \<lparr>ap_value = v\<rparr>"
  using abs_form_fixed MustParseAbsPath_abs by simp

lemma MustParseRelPath_form: "rel_form v s trail \<Longrightarrow> MustParseRelPath v = Inr \<lparr>rp_value = v\<rparr>"
  using rel_form_fixed MustParseRelPath_rel by simp

lemma abs_form_render: "normal_stack True s \<Longrightarrow> abs_form (render True s) s False"
  by (simp add: abs_form_def)

lemma rel_form_render: "normal_stack False s \<Longrightarrow> rel_form (if s = [] then ''.'' else join_slash s) s False"
  by (simp add: rel_form_def)

lemma norm_comps_append: "norm_comps rooted (xs @ ys) = foldl (norm_step rooted) (norm_comps rooted xs) ys"
  by (simp add: norm_comps_def)

lemma sep_free_concat: "sep_free (concat (map (comps sep) ws))"
  using comps_elems by (fastforce simp: sep_free_def)

lemma Join_abs:
  fixes ws :: "string list"
  assumes "abs_form v s trail"
  defines "t \<equiv> foldl (norm_step True) s (concat (map (comps sep) ws))"
  shows "go_bind (Join (v # ws)) MustParseAbsPath = Inr \<lparr>ap_value = render True t\<rparr>" and "normal_stack True t"
    and "Join (v # ws) = Inr (render True t)"
proof -
  have n: "normal_stack True s"
    using assms(1) by (simp add: abs_form_def)
  have t: "norm_comps True (concat (map (comps sep) (v # ws))) = t"
    using abs_form_comps [OF assms(1)] norm_comps_id [OF n] by (simp add: norm_comps_append t_def)
  show nt: "normal_stack True t"
    unfolding t [symmetric] by (rule norm_comps_normal [OF sep_free_concat])
  have "v \<noteq> []" "sep (hd v)"
    using abs_form_fixed [OF assms(1)] by (simp_all add: IsAbs_iff)
  then show j: "Join (v # ws) = Inr (render True t)"
    using Join_Cons [of v ws] t by (simp add: Let_def render_True)
  show "go_bind (Join (v # ws)) MustParseAbsPath = Inr \<lparr>ap_value = render True t\<rparr>"
    using MustParseAbsPath_form [OF abs_form_render [OF nt]] unfolding j by simp
qed

lemma Join_rel:
  fixes ws :: "string list"
  assumes "rel_form v s trail"
  defines "t \<equiv> foldl (norm_step False) s (concat (map (comps sep) ws))"
  shows "go_bind (Join (v # ws)) MustParseRelPath = Inr \<lparr>rp_value = if t = [] then ''.'' else join_slash t\<rparr>"
    and "normal_stack False t"
proof -
  have n: "normal_stack False s"
    using assms(1) by (simp add: rel_form_def)
  have t: "norm_comps False (concat (map (comps sep) (v # ws))) = t"
    using rel_form_comps [OF assms(1)] norm_comps_id [OF n]
    by (auto simp: norm_comps_append t_def norm_comps_def norm_step_def)
  show nt: "normal_stack False t"
    unfolding t [symmetric] by (rule norm_comps_normal [OF sep_free_concat])
  have "v \<noteq> []" "\<not> sep (hd v)"
    using rel_form_fixed [OF assms(1)] by (auto simp: IsAbs_iff)
  moreover have "join_slash t = [] \<longleftrightarrow> t = []"
    using join_slash_Nil_iff [of t] normal_stack_sep_free [OF nt] by (auto simp: sep_free_def)
  ultimately have j: "Join (v # ws) = Inr (if t = [] then ''.'' else join_slash t)"
    using Join_Cons [of v ws] t by (simp add: Let_def render_def)
  show "go_bind (Join (v # ws)) MustParseRelPath = Inr \<lparr>rp_value = if t = [] then ''.'' else join_slash t\<rparr>"
    using MustParseRelPath_form [OF rel_form_render [OF nt]] unfolding j by simp
qed

lemma checkElems_ok: "\<forall>e \<in> set elems. \<not> HasPathSeparators e \<Longrightarrow> checkElems parts elems = Inr (parts @ elems)"
  by (induction elems arbitrary: parts) auto

lemma checkElems_Inr: "checkElems parts elems = Inr r \<Longrightarrow> \<forall>e \<in> set elems. \<not> HasPathSeparators e"
  by (induction elems arbitrary: parts) (auto split: if_splits simp: assert_defs)

lemma lastSep_loop_free:
  assumes "\<And>i. k \<le> i \<Longrightarrow> i < n \<Longrightarrow> \<not> sep (path ! i)" and "vol \<le> k" and "k \<le> n"
  shows "lastSep_loop path vol n = lastSep_loop path vol k"
  using assms
proof (induction n)
  case (Suc n)
  then show ?case
    by (cases "k = Suc n") auto
qed simp

lemma lastSep_loop_at: "k \<le> vol \<or> k > 0 \<and> sep (path ! (k - 1)) \<Longrightarrow> lastSep_loop path vol k = k"
  by (cases k) auto

lemma lastSep_loop_append:
  assumes "\<forall>c \<in> set x. \<not> sep c" and "vol \<le> length pre" and "length pre \<le> vol \<or> pre \<noteq> [] \<and> sep (last pre)"
  shows "lastSep_loop (pre @ x) vol (length (pre @ x)) = length pre"
proof -
  have "lastSep_loop (pre @ x) vol (length (pre @ x)) = lastSep_loop (pre @ x) vol (length pre)"
    using assms by (intro lastSep_loop_free) (auto simp: nth_append)
  also have "\<dots> = length pre"
    using assms by (intro lastSep_loop_at) (auto simp: nth_append last_conv_nth)
  finally show ?thesis .
qed

lemma rootLen_form: "abs_form v s trail \<Longrightarrow> rootLen \<lparr>ap_value = v\<rparr> = 1"
  by (auto simp: abs_form_def rootLen_def VolumeName_def render_True)

lemma AbsPath_Dir_form:
  assumes "abs_form v s trail"
  shows "AbsPath_Dir \<lparr>ap_value = v\<rparr> =
    (if s = [] then None else if trail then Some \<lparr>ap_value = render True s\<rparr>
     else Some \<lparr>ap_value = render True (butlast s)\<rparr>)"
proof (cases s rule: rev_cases)
  case Nil
  then show ?thesis
    using assms rootLen_form [OF assms] by (simp add: AbsPath_Dir_def abs_form_def render_True Let_def)
next
  case (snoc s' x)
  have free: "sep_free s"
    using assms normal_stack_sep_free by (auto simp: abs_form_def)
  then have x: "x \<noteq> []" "\<forall>c \<in> set x. \<not> sep c" "sep_free s'"
    using snoc by simp_all
  show ?thesis
  proof (cases trail)
    case True
    then show ?thesis
      using assms snoc join_slash_Nil_iff [of s] free rootLen_form [OF assms]
      by (auto simp: AbsPath_Dir_def abs_form_def render_True Let_def nth_append sep_free_def)
  next
    case False
    define pre where "pre = (if s' = [] then ''/'' else render True s' @ ''/'')"
    have v: "v = pre @ x"
      using assms snoc False by (simp add: abs_form_def pre_def render_True join_slash_snoc)
    have pre: "pre \<noteq> []" "sep (last pre)" "length pre = 1 \<longleftrightarrow> s' = []" "length pre \<ge> 1"
      by (simp_all add: pre_def render_True)
    have loop: "lastSep_loop v 1 (length v) = length pre"
      unfolding v using x pre by (intro lastSep_loop_append) auto
    have "\<not> sep (last v)" "v \<noteq> []" "length v \<noteq> 1"
      using x pre(1,4) v last_in_set [of x] by (auto simp: Suc_le_eq add_is_1)
    then have "length v \<noteq> 1" "\<not> sep (v ! (length v - 1))"
      using last_conv_nth [of v] by auto
    then have "AbsPath_Dir \<lparr>ap_value = v\<rparr> =
        (if length pre \<le> 1 then Some \<lparr>ap_value = take 1 v\<rparr> else Some \<lparr>ap_value = take (length pre - 1) v\<rparr>)"
      using rootLen_form [OF assms] loop by (simp add: AbsPath_Dir_def Let_def)
    moreover have "take (length pre - 1) v = render True s'" if "s' \<noteq> []"
      using that by (simp add: v pre_def)
    moreover have "take 1 v = render True s'" if "s' = []"
      using that by (simp add: v pre_def render_True)
    moreover have "length pre \<le> 1 \<longleftrightarrow> s' = []"
      using pre(3,4) by linarith
    ultimately show ?thesis
      using snoc False by simp
  qed
qed

lemma ancestors_skip:
  assumes "\<forall>c \<in> set w. \<not> sep c"
  shows "ancestors_loop (pre @ w @ rest) (length pre) yield st = ancestors_loop (pre @ w @ rest) (length pre + length w) yield st"
  using assms
proof (induction w arbitrary: pre)
  case (Cons c w)
  have "ancestors_loop (pre @ (c # w) @ rest) (length pre) yield st =
      ancestors_loop (pre @ (c # w) @ rest) (length pre + 1) yield st"
    using Cons.prems by (subst ancestors_loop.simps) simp
  then show ?case
    using Cons.IH [of "pre @ [c]"] Cons.prems by simp
qed simp

lemma ancestors_spec:
  assumes "sep_free ws" and "trail \<longrightarrow> ws \<noteq> []"
  shows "ancestors_loop (pre @ join_slash ws @ (if trail then ''/'' else [])) (length pre) yield st =
    snd (yield_all yield (map (\<lambda>k. pre @ join_slash (take k ws)) [1..<length ws]) st)"
  using assms
proof (induction ws arbitrary: pre st rule: join_slash.induct)
  case 1
  then show ?case
    by (subst ancestors_loop.simps) simp
next
  case (2 w)
  have "ancestors_loop (pre @ w @ (if trail then ''/'' else [])) (length pre + length w) yield st = st"
    by (cases trail; subst ancestors_loop.simps; simp only: if_True if_False; simp)
  then show ?case
    using 2 ancestors_skip [of w pre "if trail then ''/'' else []" yield st] by simp
next
  case (3 w v ws)
  let ?tr = "if trail then ''/'' else []"
  let ?pre = "pre @ w @ ''/''"
  let ?rest = "join_slash (v # ws) @ ?tr"
  have ne: "join_slash (v # ws) \<noteq> []"
    using 3 hd_join_Cons(2) [of v ws] by simp
  have IH: "ancestors_loop (?pre @ ?rest) (length ?pre) yield st' =
      snd (yield_all yield (map (\<lambda>k. ?pre @ join_slash (take k (v # ws))) [1..<length (v # ws)]) st')" for st'
    using 3 by (intro "3.IH") auto
  have list: "map (\<lambda>k. pre @ join_slash (take k (w # v # ws))) [1..<length (w # v # ws)] =
      (pre @ w) # map (\<lambda>k. ?pre @ join_slash (take k (v # ws))) [1..<length (v # ws)]"
  proof -
    have up: "[1..<length (w # v # ws)] = 1 # map Suc [1..<length (v # ws)]"
      using upt_conv_Cons [of 1 "Suc (Suc (length ws))"] by (simp add: map_Suc_upt del: upt_Suc)
    have "join_slash (take (Suc k) (w # v # ws)) = w @ CHR ''/'' # join_slash (take k (v # ws))" if "k \<ge> 1" for k
      using that by (cases k) auto
    then show ?thesis
      unfolding up by (auto simp: o_def)
  qed
  have "ancestors_loop (pre @ w @ CHR ''/'' # ?rest) (length pre + length w) yield st =
      (case yield (pre @ w) st of (False, st') \<Rightarrow> st'
       | (True, st') \<Rightarrow> ancestors_loop (pre @ w @ CHR ''/'' # ?rest) (length pre + length w + 1) yield st')"
    using ne by (subst ancestors_loop.simps) (simp add: nth_append)
  moreover have "ancestors_loop (pre @ w @ CHR ''/'' # ?rest) (length pre) yield st =
      ancestors_loop (pre @ w @ CHR ''/'' # ?rest) (length pre + length w) yield st"
    using ancestors_skip [of w pre "CHR ''/'' # ?rest" yield st] 3 by simp
  moreover have "pre @ join_slash (w # v # ws) @ ?tr = pre @ w @ CHR ''/'' # ?rest"
    "?pre @ ?rest = pre @ w @ CHR ''/'' # ?rest" "length ?pre = length pre + length w + 1"
    by simp_all
  ultimately have "ancestors_loop (pre @ join_slash (w # v # ws) @ ?tr) (length pre) yield st =
      (case yield (pre @ w) st of (False, st') \<Rightarrow> st' | (True, st') \<Rightarrow> ancestors_loop (?pre @ ?rest) (length ?pre) yield st')"
    by (simp only:)
  moreover obtain ok st' where "yield (pre @ w) st = (ok, st')"
    by fastforce
  ultimately show ?case
    unfolding list IH by (cases ok) (simp_all only: yield_all.simps prod.case bool.case snd_conv)
qed

section \<open>Containment and relative paths\<close>

lemma foldl_norm_real: "\<forall>x \<in> set cs. real_elem x \<Longrightarrow> foldl (norm_step rooted) s cs = s @ cs"
  by (induction cs arbitrary: s) (auto simp: norm_step_def real_elem_def)

lemma normal_True_real: "normal_stack True s \<longleftrightarrow> (\<forall>x \<in> set s. real_elem x)"
  by (auto simp: normal_stack_def norm_stack_def)

lemma normal_no_dots:
  assumes "normal_stack False s" and "s = [] \<or> hd s \<noteq> ''..''"
  shows "\<forall>x \<in> set s. real_elem x"
proof -
  obtain k real where "norm_stack False k real" "s = replicate k ''..'' @ real"
    using assms(1) unfolding normal_stack_def by blast
  then show ?thesis
    using assms(2) by (cases k) (auto simp: norm_stack_def)
qed

lemma real_normal: "\<forall>x \<in> set s. real_elem x \<Longrightarrow> normal_stack rooted s"
  unfolding normal_stack_def norm_stack_def by (rule exI [of _ 0]) simp

lemma contains_real: "\<forall>x \<in> set cs. real_elem x \<Longrightarrow> snd (yield_all contains_step cs (Some d)) = Some (d + length cs)"
  by (induction cs arbitrary: d) (auto simp: contains_step_def real_elem_def)

text \<open>A normalized child is contained exactly when it does not start with \<open>..\<close>.\<close>

lemma lexicallyContains_form:
  assumes "rel_form v s trail"
  shows "lexicallyContainsUnix \<lparr>rp_value = v\<rparr> \<longleftrightarrow> s = [] \<or> hd s \<noteq> ''..''"
proof -
  have n: "normal_stack False s"
    using assms by (simp add: rel_form_def)
  have c: "lexicallyContainsUnix \<lparr>rp_value = v\<rparr> \<longleftrightarrow>
      snd (yield_all contains_step (if s = [] then [''.''] else s) (Some 0)) \<noteq> None"
    using components_spec [of 0 v isUnixSeparator contains_step "Some 0"] rel_form_comps [OF assms]
    by (simp add: lexicallyContainsUnix_def RelPath_Components_def ComponentsUnix_def)
  show ?thesis
  proof (cases "s = [] \<or> hd s \<noteq> ''..''")
    case True
    then show ?thesis
      using c contains_real [of s 0] normal_no_dots [OF n True] by (auto simp: contains_step_def)
  next
    case False
    then obtain s' where "s = ''..'' # s'"
      by (cases s) auto
    then show ?thesis
      using c by (simp add: contains_step_def)
  qed
qed

lemma join_slash_no_dots:
  assumes "\<forall>x \<in> set s. real_elem x"
  shows "join_slash s \<noteq> ''..''" and "take 3 (join_slash s) \<noteq> ''../''"
proof -
  have "comps sep (join_slash s) = s"
    using normal_stack_sep_free [OF real_normal [OF assms, of True]] by (rule comps_join_slash)
  moreover have "comps sep ''..'' = [''..'']"
    by (simp add: comps_single isUnixSeparator_def)
  moreover have "comps sep (''../'' @ r) = ''..'' # comps sep r" for r
    using comps_append_sep [of sep "CHR ''/''" "''..''" r] calculation(2) by simp
  moreover have "''..'' \<notin> set s"
    using assms by (auto simp: real_elem_def)
  ultimately show "join_slash s \<noteq> ''..''" "take 3 (join_slash s) \<noteq> ''../''"
    by (metis list.set_intros(1), metis append_take_drop_id list.set_intros(1))
qed

lemma dots_prefix:
  assumes "k > 0"
  shows "join_slash (replicate k ''..'' @ s) = ''..'' \<or> take 3 (join_slash (replicate k ''..'' @ s)) = ''../''"
  using assms by (cases k; cases "replicate (k - 1) ''..'' @ s") auto

definition is_prefix :: "'a list \<Rightarrow> 'a list \<Rightarrow> bool" where
  "is_prefix xs ys \<longleftrightarrow> (\<exists>zs. ys = xs @ zs)"

lemma strip_common_prefix: "fst (strip_common xs ys) = [] \<longleftrightarrow> is_prefix xs ys"
  by (induction xs ys rule: strip_common.induct) (auto simp: is_prefix_def)

lemma strip_common_append [simp]: "strip_common xs (xs @ zs) = ([], zs)"
  by (induction xs) (cases zs; simp)+

text \<open>What \<open>filepath.Rel\<close> answers for normalized absolute paths.\<close>

lemma Rel_forms:
  assumes "abs_form r sr tr" and "abs_form v sv tv"
  shows "\<exists>rel. Rel r v = Inr (Inr rel) \<and> (rel = ''..'' \<or> take 3 rel = ''../'' \<longleftrightarrow> \<not> is_prefix sr sv)
    \<and> (is_prefix sr sv \<longrightarrow> rel = (if sr = sv then ''.'' else join_slash (drop (length sr) sv)))"
proof -
  have n: "normal_stack True sr" "normal_stack True sv"
    using assms by (simp_all add: abs_form_def)
  have c: "clean_spec r = render True sr" "clean_spec v = render True sv"
    using assms normalize_spec_abs(2) abs_form_fixed abs_form_comps norm_comps_id [OF n(1)] norm_comps_id [OF n(2)]
    by metis+
  have rel: "Rel r v = Inr (Inr (if sr = sv then ''.''
      else case strip_common sr sv of (up, down) \<Rightarrow> join_slash (replicate (length up) ''..'' @ down)))"
    by (rule Rel_abs_spec [OF c n])
  show ?thesis
  proof (cases "is_prefix sr sv")
    case True
    then obtain zs where zs: "sv = sr @ zs"
      by (auto simp: is_prefix_def)
    then have "\<forall>x \<in> set zs. real_elem x"
      using n(2) by (simp add: normal_True_real)
    then show ?thesis
      using rel zs True join_slash_no_dots [of zs] by auto
  next
    case False
    obtain up down where strip: "strip_common sr sv = (up, down)"
      by fastforce
    then have "up \<noteq> []"
      using False strip_common_prefix [of sr sv] by auto
    then show ?thesis
      using rel strip False dots_prefix [of "length up" down] by (auto simp: is_prefix_def)
  qed
qed

lemma AbsPath_Join_form:
  assumes "abs_form v s trail"
  shows "AbsPath_Join \<lparr>ap_value = v\<rparr> rel = Inr \<lparr>ap_value = render True (foldl (norm_step True) s (comps sep (rp_value rel)))\<rparr>"
  using Join_abs(1) [OF assms, of "[rp_value rel]"] by (simp add: AbsPath_Join_def)

lemma rel_form_join:
  assumes "rel_form w sw tw" and "sw = [] \<or> hd sw \<noteq> ''..''"
  shows "foldl (norm_step True) s (comps sep w) = s @ sw"
  using assms rel_form_comps [OF assms(1)] foldl_norm_real [of sw True s] normal_no_dots [of sw]
  by (auto simp: rel_form_def norm_step_def)

lemma MakeRelativeTo_form:
  assumes "abs_form r sr tr" and "abs_form v sv tv"
  shows "AbsPath_MakeRelativeTo \<lparr>ap_value = v\<rparr> \<lparr>ap_value = r\<rparr> =
    Inr (if is_prefix sr sv
         then Some \<lparr>rr_root = \<lparr>ap_value = r\<rparr>,
                    rr_value = \<lparr>rp_value = if sr = sv then ''.'' else join_slash (drop (length sr) sv)\<rparr>\<rparr>
         else None)"
proof (cases "is_prefix sr sv")
  case False
  then show ?thesis
    using Rel_forms [OF assms] by (auto simp: AbsPath_MakeRelativeTo_def)
next
  case True
  then obtain zs where zs: "sv = sr @ zs"
    by (auto simp: is_prefix_def)
  then have real: "\<forall>x \<in> set zs. real_elem x"
    using assms(2) by (simp add: normal_True_real abs_form_def)
  let ?rel = "if zs = [] then ''.'' else join_slash zs"
  have form: "rel_form ?rel zs False"
    using real_normal [OF real] by (rule rel_form_render)
  have "zs = [] \<or> hd zs \<noteq> ''..''"
    using real by (cases zs) (auto simp: real_elem_def)
  then have "AbsPath_LexicallyContains \<lparr>ap_value = r\<rparr> \<lparr>rp_value = ?rel\<rparr>"
    using lexicallyContains_form [OF form] by (simp add: AbsPath_LexicallyContains_def)
  moreover have eq: "(if sr = sv then ''.'' else join_slash (drop (length sr) sv)) = ?rel"
    using zs by auto
  moreover obtain rel where "Rel r v = Inr (Inr rel)" "\<not> (rel = ''..'' \<or> take 3 rel = ''../'')" "rel = ?rel"
    using Rel_forms [OF assms] True unfolding eq by blast
  ultimately show ?thesis
    using MustParseRelPath_form [OF form] True
    by (simp add: AbsPath_MakeRelativeTo_def NewRootRelPath_def)
qed

section \<open>The remaining operations on stack forms\<close>

lemma checkElems_fails: "\<exists>e \<in> set elems. HasPathSeparators e \<Longrightarrow> \<not> is_ok (checkElems parts elems)"
  by (induction elems arbitrary: parts) (auto simp: assert_defs)

lemma abs_okE:
  assumes "abs_ok p"
  obtains v s trail where "p = \<lparr>ap_value = v\<rparr>" "abs_form v s trail" "comps sep v = s"
  using assms abs_form_comps abs_ok_form by (metis AbsPath.cases AbsPath.select_convs(1))

lemma rel_okE:
  assumes "rel_ok p"
  obtains v s trail where "p = \<lparr>rp_value = v\<rparr>" "rel_form v s trail"
  using assms rel_ok_form by (metis RelPath.cases RelPath.select_convs(1))

lemma abs_formI: "abs_form v s trail \<Longrightarrow> abs_ok \<lparr>ap_value = v\<rparr>"
  by (auto simp: abs_ok_form)

lemma rel_formI: "rel_form v s trail \<Longrightarrow> rel_ok \<lparr>rp_value = v\<rparr>"
  by (auto simp: rel_ok_form)

lemma Join_rel_ok:
  assumes "rel_form v s trail"
  shows "\<exists>q. go_bind (Join (v # ws)) MustParseRelPath = Inr q \<and> rel_ok q"
  using Join_rel(1) [OF assms, of ws] rel_formI [OF rel_form_render [OF Join_rel(2) [OF assms, of ws]]] by blast

lemma normal_stack_take: "normal_stack rooted s \<Longrightarrow> normal_stack rooted (take k s)"
proof (induction "length s - k" arbitrary: k)
  case (Suc n)
  then have "take k s = butlast (take (Suc k) s)" "take (Suc k) s \<noteq> []"
    by (auto simp: butlast_take)
  then show ?case
    using Suc.hyps(1) [of "Suc k"] Suc.hyps(2) Suc.prems normal_stack_butlast by simp
qed simp

lemma normal_stack_drop: "normal_stack False s \<Longrightarrow> normal_stack False (drop k s)"
proof -
  assume "normal_stack False s"
  then obtain j real where "\<forall>x \<in> set real. real_elem x" "s = replicate j ''..'' @ real"
    by (auto simp: normal_stack_def norm_stack_def)
  moreover from this have "drop k s = replicate (j - k) ''..'' @ drop (k - j) real"
    by simp
  ultimately show ?thesis
    unfolding normal_stack_def norm_stack_def by (metis in_set_dropD)
qed

lemma trail_iff:
  assumes "abs_form v s trail" and "s \<noteq> []"
  shows "sep (last v) \<longleftrightarrow> trail"
proof -
  obtain k real where "norm_stack True k real" "s = replicate k ''..'' @ real"
    using assms(1) unfolding abs_form_def normal_stack_def by blast
  then show ?thesis
    using assms last_render [of True k real] by (auto simp: abs_form_def)
qed

lemma root_last: "abs_form v [] trail \<Longrightarrow> sep (last v)"
  by (auto simp: abs_form_def render_True)

lemma Split_append:
  assumes "\<forall>c \<in> set x. \<not> sep c" and "pre = [] \<or> sep (last pre)"
  shows "Split (pre @ x) = (pre, x)"
  using lastSep_loop_append [OF assms(1), of 0 pre] assms(2)
  by (cases "pre = []") (auto simp: Split_def VolumeName_def)

lemma render_snoc_split:
  assumes "normal_stack True (s @ [x])"
  obtains pre trail where "render True (s @ [x]) = pre @ x" "abs_form pre s trail" "sep (last pre)"
    "x \<noteq> []" "\<forall>c \<in> set x. \<not> sep c"
proof -
  have n: "normal_stack True s"
    using normal_stack_butlast [OF assms] by simp
  have x: "x \<noteq> []" "\<forall>c \<in> set x. \<not> sep c"
    using normal_stack_sep_free [OF assms] by simp_all
  show thesis
  proof (cases "s = []")
    case True
    then show thesis
      using that [of "''/''" False] x n by (simp add: abs_form_def render_True)
  next
    case False
    then show thesis
      using that [of "render True s @ ''/''" True] x n by (simp add: abs_form_def render_True join_slash_snoc)
  qed
qed

lemma AbsPath_Split_form:
  assumes "abs_form v (s @ [x]) False"
  shows "\<exists>d n. AbsPath_Split \<lparr>ap_value = v\<rparr> = Inr (d, n) \<and> abs_ok d \<and> name_ok n \<and> nm_value n = x
    \<and> comps sep (ap_value d) = s \<and> AbsPath_JoinComponents d [nm_value n] = Inr \<lparr>ap_value = v\<rparr>"
proof -
  have n: "normal_stack True (s @ [x])" and v: "v = render True (s @ [x])"
    using assms by (simp_all add: abs_form_def)
  obtain pre trail where pre: "render True (s @ [x]) = pre @ x" "abs_form pre s trail" "sep (last pre)"
      "x \<noteq> []" "\<forall>c \<in> set x. \<not> sep c"
    using render_snoc_split [OF n] .
  have "Split v = (pre, x)"
    unfolding v pre(1) using pre by (intro Split_append) auto
  moreover have name: "name_ok \<lparr>nm_value = x\<rparr>"
    using pre by (simp add: name_ok_def)
  ultimately have "AbsPath_Split \<lparr>ap_value = v\<rparr> = Inr (\<lparr>ap_value = pre\<rparr>, \<lparr>nm_value = x\<rparr>)"
    using MustParseAbsPath_form [OF pre(2)] Name_New_ok [of x "\<lparr>nm_value = x\<rparr>"] by (simp add: AbsPath_Split_def)
  moreover have "AbsPath_JoinComponents \<lparr>ap_value = pre\<rparr> [x] = Inr \<lparr>ap_value = v\<rparr>"
  proof -
    have "real_elem x"
      using n by (simp add: normal_True_real)
    then have "foldl (norm_step True) s (comps sep x) = s @ [x]"
      using comps_single [OF pre(4,5)] by (simp add: norm_step_def real_elem_def)
    then show ?thesis
      using checkElems_ok [of "[x]" "[pre]"] Join_abs(1) [OF pre(2), of "[x]"] pre(5) v
      by (simp add: AbsPath_JoinComponents_def HasPathSeparators_def)
  qed
  ultimately show ?thesis
    using name abs_formI [OF pre(2)] abs_form_comps [OF pre(2)] by auto
qed

lemma AbsPath_Split_fails:
  assumes "abs_form v s trail" and "sep (last v)"
  shows "\<not> is_ok (AbsPath_Split \<lparr>ap_value = v\<rparr>)"
proof -
  have "Split (v @ []) = (v, [])"
    using assms by (intro Split_append) auto
  then show ?thesis
    using MustParseAbsPath_form [OF assms(1)]
    by (simp add: AbsPath_Split_def Name_New_def Name_Parse_def assert_defs)
qed

lemma yield_all_map: "yield_all yield (map f xs) st = yield_all (\<lambda>x. yield (f x)) xs st"
  by (induction xs arbitrary: st) (auto split: prod.splits bool.splits)

lemma clean_spec_join:
  assumes "normal_stack False s" and "s \<noteq> []"
  shows "clean_spec (join_slash s) = join_slash s" and "clean_spec (join_slash s @ ''/'') = join_slash s"
    and "join_slash s \<noteq> []"
proof -
  show ne: "join_slash s \<noteq> []"
    using join_slash_Nil_iff [of s] normal_stack_sep_free [OF assms(1)] assms(2) by (auto simp: sep_free_def)
  show c: "clean_spec (join_slash s) = join_slash s"
    using clean_spec_render [OF assms(1)] assms(2) by (simp add: render_def)
  show "clean_spec (join_slash s @ ''/'') = join_slash s"
    using clean_spec_append_sep [OF ne] c by simp
qed

lemma RelPath_Dir_form:
  assumes "rel_form v s trail"
  shows "RelPath_Dir \<lparr>rp_value = v\<rparr> =
    Inr (if s = [] \<or> \<not> trail \<and> length s = 1 then None
         else Some \<lparr>rp_value = join_slash (if trail then s else butlast s)\<rparr>)"
proof -
  have n: "normal_stack False s"
    using assms by (simp add: rel_form_def)
  have none: "clean_spec [] = ''.''"
    by (simp add: clean_spec_def render_def)
  show ?thesis
  proof (cases s rule: rev_cases)
    case Nil
    then have "v = ''.''"
      using assms by (auto simp: rel_form_def)
    then show ?thesis
      using Nil none Split_append [of "''.''" "[]"]
      by (simp add: RelPath_Dir_def Dir_spec isUnixSeparator_def)
  next
    case (snoc s' x)
    have x: "x \<noteq> []" "\<forall>c \<in> set x. \<not> sep c" "normal_stack False s'" "s \<noteq> []"
      using snoc normal_stack_sep_free [OF n] normal_stack_butlast [OF n] by auto
    have parse: "MustParseRelPath (join_slash t) = Inr \<lparr>rp_value = join_slash t\<rparr>" "join_slash t \<noteq> ''.''"
      if "normal_stack False t" "t \<noteq> []" for t
      using MustParseRelPath_form [OF rel_form_render [OF that(1)]] that join_slash_single_char(1) by auto
    show ?thesis
    proof (cases trail)
      case True
      then have v: "v = join_slash s @ ''/''"
        using assms x(4) by (auto simp: rel_form_def)
      have "Split (v @ []) = (v, [])"
        using v by (intro Split_append) auto
      then have "Dir v = Inr (join_slash s)"
        using clean_spec_join(2) [OF n x(4)] v by (simp add: Dir_spec)
      moreover have "join_slash s \<noteq> v"
        unfolding v by simp
      ultimately show ?thesis
        using parse [OF n x(4)] True x(4) by (simp add: RelPath_Dir_def)
    next
      case False
      then have v: "v = join_slash s"
        using assms x(4) by (auto simp: rel_form_def)
      show ?thesis
      proof (cases "s' = []")
        case True
        then show ?thesis
          using v snoc False none Split_append [of x "[]"] x(2) by (simp add: RelPath_Dir_def Dir_spec)
      next
        case s'_ne: False
        then have v': "v = (join_slash s' @ ''/'') @ x"
          using v snoc by (simp add: join_slash_snoc)
        have "Split v = (join_slash s' @ ''/'', x)"
          unfolding v' using x(2) by (intro Split_append) auto
        then have "Dir v = Inr (join_slash s')"
          using clean_spec_join(2) [OF x(3) s'_ne] by (simp add: Dir_spec)
        moreover have "join_slash s' \<noteq> v"
          unfolding v' by simp
        ultimately show ?thesis
          using parse [OF x(3) s'_ne] False x(4) s'_ne snoc by (simp add: RelPath_Dir_def)
      qed
    qed
  qed
qed

lemma RelPath_Ancestors_form:
  assumes "rel_form v s trail"
  shows "RelPath_Ancestors \<lparr>rp_value = v\<rparr> yield st =
    snd (yield_all yield (map (\<lambda>k. \<lparr>rp_value = join_slash (take k s)\<rparr>) [1..<length s]) st)"
proof (cases "s = []")
  case True
  then show ?thesis
    using assms by (auto simp: rel_form_def RelPath_Ancestors_def)
next
  case False
  have n: "normal_stack False s"
    using assms by (simp add: rel_form_def)
  have v: "v = [] @ join_slash s @ (if trail then ''/'' else [])"
    using assms False by (simp add: rel_form_def)
  have "v \<noteq> ''.''"
    using v join_slash_single_char [OF n False] clean_spec_join(3) [OF n False]
    by (cases trail) (auto simp: append_eq_Cons_conv)
  then show ?thesis
    using ancestors_spec [OF normal_stack_sep_free [OF n], of trail "[]" "\<lambda>u. yield \<lparr>rp_value = u\<rparr>" st] v False
    by (simp add: RelPath_Ancestors_def yield_all_map)
qed

lemma AppendExtension_form:
  assumes "abs_form v s trail"
  shows "if sep (last v) then \<not> is_ok (AbsPath_AppendExtension \<lparr>ap_value = v\<rparr> ext)
    else \<exists>q. AbsPath_AppendExtension \<lparr>ap_value = v\<rparr> ext = Inr q \<and> abs_ok q"
proof -
  have v: "v \<noteq> []" "IsAbs v"
    using abs_form_fixed [OF assms] by (auto simp: IsAbs_def)
  then obtain u c where "v = u @ [c]"
    by (cases v rule: rev_cases) auto
  then have "drop (length v - 1) v = [last v]"
    by simp
  moreover have "IsAbs (v @ ext)"
    using v by (simp add: IsAbs_iff)
  ultimately show ?thesis
    using v MustParseAbsPath_abs [of "v @ ext"] abs_formI [OF normalize_spec_abs(1) [of "v @ ext"]]
    by (auto simp: AbsPath_AppendExtension_def HasPathSeparators_def assert_defs)
qed

lemma AbsPath_Dir_ok:
  assumes "abs_form v s trail"
  shows "case AbsPath_Dir \<lparr>ap_value = v\<rparr> of None \<Rightarrow> v = ''/'' | Some q \<Rightarrow> v \<noteq> ''/'' \<and> abs_ok q"
proof -
  have "normal_stack True s" "s \<noteq> [] \<Longrightarrow> normal_stack True (butlast s)"
    using assms normal_stack_butlast by (auto simp: abs_form_def)
  moreover have "v = ''/'' \<longleftrightarrow> s = []"
    using assms join_slash_Nil_iff [of s] normal_stack_sep_free [of True s]
    by (auto simp: abs_form_def render_True sep_free_def)
  ultimately show ?thesis
    using AbsPath_Dir_form [OF assms] by (auto intro: abs_formI [OF abs_form_render])
qed

section \<open>Claims\<close>


lemma abs_ok_slash_a: "abs_ok \<lparr>ap_value = ''/a''\<rparr>" "abs_ok \<lparr>ap_value = ''/a/b''\<rparr>"
  by (rule abs_formI [of _ "[''a'']" False] abs_formI [of _ "[''a'', ''b'']" False];
      simp add: abs_form_def normal_True_real real_elem_def isUnixSeparator_def render_True)+


text \<open>
  The parents of an absolute path, on its components: Dir drops a trailing separator, or the
  last component; Ancestors yields exactly the proper non-empty prefixes, shortest first, until the consumer
  stops; Split panics exactly on a path that ends in a separator (a root or a kept trailing separator), and
  otherwise returns the parent and the last component, which JoinComponents puts back together.\<close>

lemma AbsPath_parents:
  assumes "abs_ok p"
  defines "cs \<equiv> comps sep (ap_value p)"
  shows "map_option (\<lambda>q. comps sep (ap_value q)) (AbsPath_Dir p) =
      (if cs = [] then None else Some (if sep (last (ap_value p)) then cs else butlast cs))
    \<and> AbsPath_Ancestors p yield st =
        snd (yield_all yield (map (\<lambda>k. \<lparr>ap_value = render True (take k cs)\<rparr>) [1..<length cs]) st)
    \<and> (if sep (last (ap_value p)) then \<not> is_ok (AbsPath_Split p)
       else \<exists>d n. AbsPath_Split p = Inr (d, n) \<and> abs_ok d \<and> name_ok n \<and> comps sep (ap_value d) @ [nm_value n] = cs
              \<and> AbsPath_JoinComponents d [nm_value n] = Inr p)"
proof -
  obtain v s trail where p: "p = \<lparr>ap_value = v\<rparr>" "abs_form v s trail" and cs: "cs = s"
    using abs_okE [OF assms(1)] unfolding cs_def by (metis AbsPath.select_convs(1))
  have n: "normal_stack True s"
    using p(2) by (simp add: abs_form_def)
  have dir: "map_option (\<lambda>q. comps sep (ap_value q)) (AbsPath_Dir p) =
      (if cs = [] then None else Some (if sep (last (ap_value p)) then cs else butlast cs))"
    using AbsPath_Dir_form [OF p(2)] trail_iff [OF p(2)] normal_stack_sep_free [OF n]
      normal_stack_sep_free [OF normal_stack_butlast [OF n]] p(1) cs by auto
  have anc: "AbsPath_Ancestors p yield st =
      snd (yield_all yield (map (\<lambda>k. \<lparr>ap_value = render True (take k cs)\<rparr>) [1..<length cs]) st)"
  proof -
    have "v = ''/'' @ join_slash s @ (if trail then ''/'' else [])" "trail \<longrightarrow> s \<noteq> []"
      using p(2) by (simp_all add: abs_form_def render_True)
    then have "AbsPath_Ancestors p yield st = snd (yield_all (\<lambda>u. yield \<lparr>ap_value = u\<rparr>)
        (map (\<lambda>k. ''/'' @ join_slash (take k s)) [1..<length s]) st)"
      using ancestors_spec [OF normal_stack_sep_free [OF n], of trail "''/''" "\<lambda>u. yield \<lparr>ap_value = u\<rparr>" st]
        rootLen_form [OF p(2)] p(1) by (cases trail) (simp_all add: AbsPath_Ancestors_def)
    then show ?thesis
      using cs by (simp add: yield_all_map render_True o_def)
  qed
  have "if sep (last (ap_value p)) then \<not> is_ok (AbsPath_Split p)
       else \<exists>d n. AbsPath_Split p = Inr (d, n) \<and> abs_ok d \<and> name_ok n \<and> comps sep (ap_value d) @ [nm_value n] = cs
              \<and> AbsPath_JoinComponents d [nm_value n] = Inr p"
  proof (cases "sep (last v)")
    case True
    then show ?thesis
      using AbsPath_Split_fails [OF p(2)] p(1) by simp
  next
    case False
    then have "s \<noteq> []" "\<not> trail"
      using root_last trail_iff [OF p(2)] p(2) by auto
    moreover from this obtain s' x where "s = s' @ [x]"
      by (cases s rule: rev_cases) auto
    ultimately show ?thesis
      using AbsPath_Split_form [of v s' x] p False cs by auto
  qed
  with dir anc show ?thesis
    by blast
qed

text \<open>
  C36. RelPath keeps its guarantee (non-empty, not absolute, a fixed point of LexicallyNormalize):
  ParseRelPath never panics and accepts exactly the non-empty paths that are not absolute; Join,
  JoinOne and Dir never panic; JoinComponents panics exactly when an element contains a separator;
  every path they return and every ancestor satisfies the guarantee.\<close>

theorem RelPath_operations_ok:
  assumes "rel_ok p"
  shows "(\<exists>r. ParseRelPath path = Inr r \<and>
           (case r of Inl e \<Rightarrow> (path = [] \<or> IsAbs path) \<and> rpe_inputPath e = path
                    | Inr q \<Rightarrow> path \<noteq> [] \<and> \<not> IsAbs path \<and> rel_ok q))
    \<and> (\<exists>q. RelPath_Join p rel = Inr q \<and> rel_ok q)
    \<and> (\<exists>q. RelPath_JoinOne p name = Inr q \<and> rel_ok q)
    \<and> (if \<exists>e \<in> set elems. HasPathSeparators e then \<not> is_ok (RelPath_JoinComponents p elems)
       else \<exists>q. RelPath_JoinComponents p elems = Inr q \<and> rel_ok q)
    \<and> (\<exists>d. RelPath_Dir p = Inr d \<and> pred_option rel_ok d)
    \<and> (\<exists>qs. list_all rel_ok qs \<and> RelPath_Ancestors p yield st = snd (yield_all yield qs st))"
proof -
  obtain v s trail where p: "p = \<lparr>rp_value = v\<rparr>" "rel_form v s trail"
    using rel_okE [OF assms] .
  have n: "normal_stack False s"
    using p(2) by (simp add: rel_form_def)
  have okI: "rel_ok \<lparr>rp_value = join_slash t\<rparr>" if "normal_stack False t" "t \<noteq> []" for t
    using rel_formI [OF rel_form_render [OF that(1)]] that(2) by simp
  have "\<exists>r. ParseRelPath path = Inr r \<and>
           (case r of Inl e \<Rightarrow> (path = [] \<or> IsAbs path) \<and> rpe_inputPath e = path
                    | Inr q \<Rightarrow> path \<noteq> [] \<and> \<not> IsAbs path \<and> rel_ok q)"
  proof (cases "path \<noteq> [] \<and> \<not> IsAbs path")
    case True
    then show ?thesis
      using ParseRelPath_rel [of path] rel_formI [OF normalize_spec_rel(1) [of path]] by simp
  qed (auto simp: ParseRelPath_def NewRelPathParseError_def)
  moreover have "\<exists>q. RelPath_Join p rel = Inr q \<and> rel_ok q" "\<exists>q. RelPath_JoinOne p name = Inr q \<and> rel_ok q"
    using Join_rel_ok [OF p(2)] p(1) by (simp_all only: RelPath_Join_def RelPath_JoinOne_def RelPath.select_convs)
  moreover have "if \<exists>e \<in> set elems. HasPathSeparators e then \<not> is_ok (RelPath_JoinComponents p elems)
       else \<exists>q. RelPath_JoinComponents p elems = Inr q \<and> rel_ok q"
    using Join_rel_ok [OF p(2), of elems] p(1) checkElems_ok [of elems "[v]"] checkElems_fails [of elems "[v]"]
    by (auto simp: RelPath_JoinComponents_def simp del: Join.simps dest: not_ok_bind)
  moreover have "\<exists>d. RelPath_Dir p = Inr d \<and> pred_option rel_ok d"
    using RelPath_Dir_form [OF p(2)] p(1) okI [OF n] okI [OF normal_stack_butlast [OF n]] n
    by (cases s rule: rev_cases) (auto simp: Suc_length_conv)
  moreover have "\<exists>qs. list_all rel_ok qs \<and> RelPath_Ancestors p yield st = snd (yield_all yield qs st)"
    using RelPath_Ancestors_form [OF p(2), of yield st] p(1)
    by (intro exI [of _ "map (\<lambda>k. \<lparr>rp_value = join_slash (take k s)\<rparr>) [1..<length s]"])
       (auto simp: list_all_iff Suc_le_eq intro!: okI [OF normal_stack_take [OF n]])
  ultimately show ?thesis
    by blast
qed

lemma rel_ok_examples:
  "rel_ok \<lparr>rp_value = ''a/''\<rparr>" "rel_ok \<lparr>rp_value = ''a''\<rparr>" "rel_ok \<lparr>rp_value = ''a/b''\<rparr>" "rel_ok \<lparr>rp_value = ''../a''\<rparr>"
proof -
  have r: "real_elem ''a''" "real_elem ''b''"
    by (simp_all add: real_elem_def isUnixSeparator_def)
  have n: "normal_stack False [''a'']" "normal_stack False [''a'', ''b'']"
    using r by (simp_all add: real_normal)
  have "norm_stack False 1 [''a'']"
    using r by (simp add: norm_stack_def)
  then have n': "normal_stack False [''..'', ''a'']"
    unfolding normal_stack_def by (metis append_Cons append_Nil replicate_0 replicate_Suc One_nat_def)
  show "rel_ok \<lparr>rp_value = ''a/''\<rparr>" "rel_ok \<lparr>rp_value = ''a''\<rparr>" "rel_ok \<lparr>rp_value = ''a/b''\<rparr>" "rel_ok \<lparr>rp_value = ''../a''\<rparr>"
    using n n' rel_formI [of "''a/''" "[''a'']" True] rel_formI [of "''a''" "[''a'']" False]
      rel_formI [of "''a/b''" "[''a'', ''b'']" False] rel_formI [of "''../a''" "[''..'', ''a'']" False]
    by (simp_all add: rel_form_def)
qed

theorem RelPath_operations_ok_witness:
  "\<exists>q. RelPath_Join \<lparr>rp_value = ''a/b''\<rparr> \<lparr>rp_value = ''../a''\<rparr> = Inr q \<and> rel_ok q"
  by (rule RelPath_operations_ok [OF rel_ok_examples(3), THEN conjunct2, THEN conjunct1])

text \<open>A contained child: the join on components, and the slow check.\<close>

lemma contained_child:
  assumes "abs_form r sr tr" and "rel_form v s trail" and "lexicallyContainsUnix \<lparr>rp_value = v\<rparr>"
  shows "AbsPath_Join \<lparr>ap_value = r\<rparr> \<lparr>rp_value = v\<rparr> = Inr \<lparr>ap_value = render True (sr @ s)\<rparr>"
    and "abs_form (render True (sr @ s)) (sr @ s) False" and "filter (\<lambda>x. x \<noteq> ''.'') (comps sep v) = s"
    and "lexicallyContainsSlow \<lparr>ap_value = r\<rparr> \<lparr>rp_value = v\<rparr> = Inr True"
proof -
  have nd: "s = [] \<or> hd s \<noteq> ''..''"
    using assms(3) lexicallyContains_form [OF assms(2)] by simp
  have real: "\<forall>x \<in> set s. real_elem x"
    using assms(2) nd by (intro normal_no_dots) (simp_all add: rel_form_def)
  have "normal_stack True (sr @ s)"
    using real assms(1) by (auto simp: normal_True_real abs_form_def)
  then show form: "abs_form (render True (sr @ s)) (sr @ s) False"
    by (rule abs_form_render)
  show "AbsPath_Join \<lparr>ap_value = r\<rparr> \<lparr>rp_value = v\<rparr> = Inr \<lparr>ap_value = render True (sr @ s)\<rparr>"
    using AbsPath_Join_form [OF assms(1)] rel_form_join [OF assms(2) nd] by simp
  show "filter (\<lambda>x. x \<noteq> ''.'') (comps sep v) = s"
    using rel_form_comps [OF assms(2)] real by (auto simp: real_elem_def filter_id_conv)
  have "Join [r, v] = Inr (render True (sr @ s))"
    using Join_abs(3) [OF assms(1), of "[v]"] rel_form_join [OF assms(2) nd] by simp
  moreover obtain rel where "Rel r (render True (sr @ s)) = Inr (Inr rel)" "\<not> (rel = ''..'' \<or> take 3 rel = ''../'')"
    using Rel_forms [OF assms(1) form] by (auto simp: is_prefix_def)
  ultimately show "lexicallyContainsSlow \<lparr>ap_value = r\<rparr> \<lparr>rp_value = v\<rparr> = Inr True"
    by (simp add: lexicallyContainsSlow_def del: Join.simps)
qed

lemma containment_checks_differ:
  "\<not> AbsPath_LexicallyContains \<lparr>ap_value = ''/a''\<rparr> \<lparr>rp_value = ''../a''\<rparr>
   \<and> lexicallyContainsSlow \<lparr>ap_value = ''/a''\<rparr> \<lparr>rp_value = ''../a''\<rparr> = Inr True"
proof -
  have form: "abs_form ''/a'' [''a''] False"
    by (simp add: abs_form_def normal_True_real real_elem_def isUnixSeparator_def render_True)
  have dd: "comps sep ''../a'' = [''..'', ''a'']"
    by (simp add: comps_def isUnixSeparator_def)
  have "Join [''/a'', ''../a''] = Inr ''/a''"
    using Join_abs(3) [OF form, of "[''../a'']"] dd by (simp add: norm_step_def render_True)
  moreover have "Rel ''/a'' ''/a'' = Inr (Inr ''.'')"
    by (simp add: Rel_def Clean_spec)
  moreover have "snd (components ''../a'' sep 0 contains_step (Some 0)) = None"
    using components_spec [of 0 "''../a''" isUnixSeparator contains_step "Some 0"] dd
    by (simp add: contains_step_def)
  ultimately show ?thesis
    by (simp add: lexicallyContainsSlow_def AbsPath_LexicallyContains_def lexicallyContainsUnix_def
        RelPath_Components_def ComponentsUnix_def del: Join.simps)
qed

text \<open>
  C34. Containment. For normalized paths LexicallyContains answers whether no component of the child
  is \<open>..\<close>. When it answers true, the join has the root's components as a prefix, followed by those of the
  child, and the slow check through \<open>filepath.Rel\<close> agrees; when it answers false the two checks may differ,
  as for the root \<open>/a\<close> and the child \<open>../a\<close>, which the slow check accepts.\<close>

theorem LexicallyContains_correct:
  assumes "abs_ok root" and "rel_ok child"
  shows "(AbsPath_LexicallyContains root child \<longleftrightarrow> ''..'' \<notin> set (comps sep (rp_value child)))
    \<and> (AbsPath_LexicallyContains root child \<longrightarrow>
         (\<exists>q. AbsPath_Join root child = Inr q \<and>
              comps sep (ap_value q) = comps sep (ap_value root) @ filter (\<lambda>c. c \<noteq> ''.'') (comps sep (rp_value child)))
         \<and> lexicallyContainsSlow root child = Inr True)
    \<and> (\<not> AbsPath_LexicallyContains \<lparr>ap_value = ''/a''\<rparr> \<lparr>rp_value = ''../a''\<rparr>
       \<and> lexicallyContainsSlow \<lparr>ap_value = ''/a''\<rparr> \<lparr>rp_value = ''../a''\<rparr> = Inr True)"
proof -
  obtain r sr tr where r: "root = \<lparr>ap_value = r\<rparr>" "abs_form r sr tr" "comps sep r = sr"
    using abs_okE [OF assms(1)] .
  obtain v s trail where c: "child = \<lparr>rp_value = v\<rparr>" "rel_form v s trail"
    using rel_okE [OF assms(2)] .
  have n: "normal_stack False s"
    using c(2) by (simp add: rel_form_def)
  have iff: "s = [] \<or> hd s \<noteq> ''..'' \<longleftrightarrow> ''..'' \<notin> set s"
    using normal_no_dots [OF n] by (cases s) (auto simp: real_elem_def)
  have "AbsPath_LexicallyContains root child \<longleftrightarrow> ''..'' \<notin> set (comps sep (rp_value child))"
    using lexicallyContains_form [OF c(2)] rel_form_comps [OF c(2)] c(1) iff by (simp add: AbsPath_LexicallyContains_def)
  moreover have "(\<exists>q. AbsPath_Join root child = Inr q \<and>
          comps sep (ap_value q) = comps sep (ap_value root) @ filter (\<lambda>c. c \<noteq> ''.'') (comps sep (rp_value child)))
      \<and> lexicallyContainsSlow root child = Inr True" if "AbsPath_LexicallyContains root child"
    using contained_child [OF r(2) c(2)] abs_form_comps r c that
    by (auto simp: AbsPath_LexicallyContains_def)
  ultimately show ?thesis
    using containment_checks_differ by blast
qed

theorem LexicallyContains_correct_witness:
  "AbsPath_LexicallyContains \<lparr>ap_value = ''/a''\<rparr> \<lparr>rp_value = ''a/b''\<rparr>"
proof -
  have "comps sep ''a/b'' = [''a'', ''b'']"
    by (simp add: comps_def isUnixSeparator_def)
  then show ?thesis
    using LexicallyContains_correct [OF abs_ok_slash_a(1) rel_ok_examples(3)] by simp
qed

lemma MakeRelativeTo_back:
  assumes "abs_form r sr tr" and "abs_form v sv tv"
  shows "\<exists>q. AbsPath_MakeRelativeTo \<lparr>ap_value = v\<rparr> \<lparr>ap_value = r\<rparr> = Inr q \<and>
      (case q of
         None \<Rightarrow> \<not> is_prefix sr sv
       | Some rr \<Rightarrow> is_prefix sr sv \<and> rr_root rr = \<lparr>ap_value = r\<rparr>
           \<and> rel_ok (rr_value rr) \<and> RootRelPath_AsAbsPath rr = Inr \<lparr>ap_value = clean_spec v\<rparr>)"
proof (cases "is_prefix sr sv")
  case False
  then show ?thesis
    using MakeRelativeTo_form [OF assms] by simp
next
  case True
  then obtain zs where zs: "sv = sr @ zs"
    by (auto simp: is_prefix_def)
  have nv: "normal_stack True sv"
    using assms(2) by (simp add: abs_form_def)
  then have real: "\<forall>x \<in> set zs. real_elem x"
    using zs by (simp add: normal_True_real)
  let ?rel = "if zs = [] then ''.'' else join_slash zs"
  have form: "rel_form ?rel zs False"
    by (rule rel_form_render [OF real_normal [OF real]])
  have "zs = [] \<or> hd zs \<noteq> ''..''"
    using real by (cases zs) (auto simp: real_elem_def)
  then have "AbsPath_Join \<lparr>ap_value = r\<rparr> \<lparr>rp_value = ?rel\<rparr> = Inr \<lparr>ap_value = render True sv\<rparr>"
    using AbsPath_Join_form [OF assms(1), of "\<lparr>rp_value = ?rel\<rparr>"] rel_form_join [OF form, of sr] zs by simp
  moreover have "clean_spec v = render True sv"
    using normalize_spec_abs(2) [of v] abs_form_fixed [OF assms(2)] abs_form_comps [OF assms(2)] norm_comps_id [OF nv]
    by simp
  moreover have "AbsPath_MakeRelativeTo \<lparr>ap_value = v\<rparr> \<lparr>ap_value = r\<rparr> =
      Inr (Some \<lparr>rr_root = \<lparr>ap_value = r\<rparr>, rr_value = \<lparr>rp_value = ?rel\<rparr>\<rparr>)"
    using MakeRelativeTo_form [OF assms] True zs by auto
  ultimately show ?thesis
    using True rel_formI [OF form] by (auto simp: RootRelPath_AsAbsPath_def simp del: if_split)
qed

lemma MakeRelativeTo_anchored:
  assumes "abs_form r sr tr" and "rel_form w s trail" and "lexicallyContainsUnix \<lparr>rp_value = w\<rparr>"
  shows "\<exists>rr q. NewRootRelPath \<lparr>ap_value = r\<rparr> \<lparr>rp_value = w\<rparr> = Inr rr \<and> RootRelPath_AsAbsPath rr = Inr q \<and> abs_ok q \<and>
      AbsPath_MakeRelativeTo q \<lparr>ap_value = r\<rparr> =
        Inr (Some \<lparr>rr_root = \<lparr>ap_value = r\<rparr>, rr_value = \<lparr>rp_value = clean_spec w\<rparr>\<rparr>)"
proof -
  note c = contained_child [OF assms]
  have nw: "normal_stack False s"
    using assms(2) by (simp add: rel_form_def)
  have "clean_spec w = (if s = [] then ''.'' else join_slash s)"
    using normalize_spec_rel(2) [of w] rel_form_fixed [OF assms(2)] rel_form_comps [OF assms(2)] norm_comps_id [OF nw]
    by (auto simp: norm_comps_def norm_step_def)
  moreover have "AbsPath_MakeRelativeTo \<lparr>ap_value = render True (sr @ s)\<rparr> \<lparr>ap_value = r\<rparr> =
      Inr (Some \<lparr>rr_root = \<lparr>ap_value = r\<rparr>, rr_value = \<lparr>rp_value = if s = [] then ''.'' else join_slash s\<rparr>\<rparr>)"
    using MakeRelativeTo_form [OF assms(1) c(2)] by (auto simp: is_prefix_def)
  ultimately show ?thesis
    using assms(3) c(1) abs_formI [OF c(2)]
    by (auto simp: NewRootRelPath_def RootRelPath_AsAbsPath_def AbsPath_LexicallyContains_def)
qed



text \<open>
  RelativeTo, for the bases that Ancestors yields (proper prefixes of the components, with no
  trailing separator): the result is the remaining components, it satisfies the guarantee of RelPath,
  and joining it onto the base gives the path back. The remaining components must not be a lone \<open>..\<close>
  followed by a trailing separator.\<close>

lemma RelativeTo_ancestor:
  assumes "rel_ok p" and "comps sep (rp_value p) = bs @ ws" and "bs \<noteq> []" and "ws \<noteq> []"
    and "\<not> (ws = [''..''] \<and> sep (last (rp_value p)))"
  shows "\<exists>q. RelPath_RelativeTo p \<lparr>rp_value = join_slash bs\<rparr> = Inr q \<and> rel_ok q \<and> comps sep (rp_value q) = ws
    \<and> RelPath_Join \<lparr>rp_value = join_slash bs\<rparr> q = Inr \<lparr>rp_value = clean_spec (rp_value p)\<rparr>"
proof -
  obtain v s trail where p: "p = \<lparr>rp_value = v\<rparr>" "rel_form v s trail"
    using rel_okE [OF assms(1)] .
  have n: "normal_stack False s"
    using p(2) by (simp add: rel_form_def)
  have "length (comps sep v) \<ge> 2"
    using assms(2-4) p(1) by (cases bs; cases ws) auto
  then have s: "s = bs @ ws"
    using rel_form_comps [OF p(2)] assms(2) p(1) by (cases "s = []") auto
  have nb: "normal_stack False bs"
    using normal_stack_take [OF n, of "length bs"] s by simp
  have nw: "normal_stack False ws"
    using normal_stack_drop [OF n, of "length bs"] s by simp
  let ?tr = "if trail then ''/'' else []"
  have v: "v = join_slash bs @ CHR ''/'' # join_slash ws @ ?tr"
    using p(2) s assms(3,4) by (simp add: rel_form_def join_slash_append)
  have "ws \<noteq> [''..''] \<or> \<not> trail"
    using assms(5) v p(1) by auto
  then have form: "rel_form (join_slash ws @ ?tr) ws trail"
    using nw assms(4) by (auto simp: rel_form_def)
  have base: "join_slash bs \<noteq> ''.''"
    by (rule join_slash_single_char(1) [OF nb assms(3)])
  have rel: "RelPath_RelativeTo p \<lparr>rp_value = join_slash bs\<rparr> = Inr \<lparr>rp_value = join_slash ws @ ?tr\<rparr>"
    using base p(1) v by (simp add: RelPath_RelativeTo_def Let_def)
  have bform: "rel_form (join_slash bs) bs False"
    using nb assms(3) by (simp add: rel_form_def)
  have wcomps: "comps sep (join_slash ws @ ?tr) = ws"
    using rel_form_comps [OF form] assms(4) by simp
  have fold: "foldl (norm_step False) bs ws = s"
    using norm_comps_append [of False bs ws] norm_comps_id [OF nb] norm_comps_id [OF n] s by simp
  have "RelPath_Join \<lparr>rp_value = join_slash bs\<rparr> \<lparr>rp_value = join_slash ws @ ?tr\<rparr> = Inr \<lparr>rp_value = join_slash s\<rparr>"
    using Join_rel(1) [OF bform, of "[join_slash ws @ ?tr]"] wcomps fold s assms(3)
    by (simp add: RelPath_Join_def del: Join.simps)
  moreover have "clean_spec v = join_slash s"
    using normalize_spec_rel(2) [of v] rel_form_fixed [OF p(2)] rel_form_comps [OF p(2)] norm_comps_id [OF n] s assms(3)
    by auto
  ultimately show ?thesis
    using rel rel_formI [OF form] wcomps p(1) by simp
qed

text \<open>
  Gaps of the path operations at trailing separators and at names that start with two dots.
  RelativeTo of \<open>a/\<close> and its equal \<open>a\<close> returns the empty path, which RelPath guarantees never to hold, and
  RelativeTo panics for \<open>a/b\<close> and its ancestor \<open>a/\<close>; the string version of LexicallyContains rejects
  the child \<open>..a\<close>, which lies inside every root.\<close>

lemma RelPath_gaps:
  "rel_ok \<lparr>rp_value = ''a/''\<rparr> \<and> rel_ok \<lparr>rp_value = ''a''\<rparr> \<and> rel_ok \<lparr>rp_value = ''a/b''\<rparr>
   \<and> RelPath_RelativeTo \<lparr>rp_value = ''a/''\<rparr> \<lparr>rp_value = ''a''\<rparr> = Inr \<lparr>rp_value = []\<rparr> \<and> \<not> rel_ok \<lparr>rp_value = []\<rparr>
   \<and> \<not> is_ok (RelPath_RelativeTo \<lparr>rp_value = ''a/b''\<rparr> \<lparr>rp_value = ''a/''\<rparr>)
   \<and> LexicallyContains ''/a'' ''..a'' = Inr False \<and> Join [''/a'', ''..a''] = Inr ''/a/..a''"
proof -
  have a: "abs_form ''/a'' [''a''] False" and b: "abs_form ''/a/..a'' [''a'', ''..a''] False"
    by (simp_all add: abs_form_def normal_True_real real_elem_def isUnixSeparator_def render_True)
  have "comps sep ''..a'' = [''..a'']"
    by (simp add: comps_def isUnixSeparator_def)
  then have join: "Join [''/a'', ''..a''] = Inr ''/a/..a''"
    using Join_abs(3) [OF a, of "[''..a'']"] by (simp add: norm_step_def render_True)
  have "is_prefix [''a''] [''a'', ''..a'']"
    by (simp add: is_prefix_def)
  then have "Rel ''/a'' ''/a/..a'' = Inr (Inr ''..a'')"
    using Rel_forms [OF a b] by auto
  then have "LexicallyContains ''/a'' ''..a'' = Inr False"
    using join by (simp add: LexicallyContains_def del: Join.simps)
  moreover have "RelPath_RelativeTo \<lparr>rp_value = ''a/''\<rparr> \<lparr>rp_value = ''a''\<rparr> = Inr \<lparr>rp_value = []\<rparr>"
    "\<not> is_ok (RelPath_RelativeTo \<lparr>rp_value = ''a/b''\<rparr> \<lparr>rp_value = ''a/''\<rparr>)"
    by (simp_all add: RelPath_RelativeTo_def Let_def isUnixSeparator_def assert_defs)
  moreover have "\<not> rel_ok \<lparr>rp_value = []\<rparr>"
    by (simp add: rel_ok_def)
  ultimately show ?thesis
    using rel_ok_examples(1-3) join by blast
qed

end
