(* ===== verification/Workspace_Config.thy ===== *)
theory Workspace_Config
  imports Path_Types Collections
begin

text \<open>
  \<^verbatim>\<open>misc/internal/config\<close>: the workspace configuration of the sync tool, which folders are forks of which repositories and which upstream branches a
  local branch follows, and its validation. \<open>errorx.Join\<close> collects errors in a list, empty for nil; each message with
  its arguments is a constructor of \<open>configError\<close>. Decoding the JSON text is not part of the model.
\<close>

section \<open>Types\<close>

type_synonym GitHubRepo = string

record ForkedFolderJSON =
  ffj_Folder :: string
  ffj_GitHubProject :: string
  ffj_AutoSync :: "bool option"

record UpstreamRepoJSON =
  urj_GitHubProject :: string
  urj_Branch :: string

record BranchMappingJSON =
  bmj_LocalBranch :: string
  bmj_Upstream :: "UpstreamRepoJSON list"

record WorkspaceConfigJSON =
  wcj_ForkedFolders :: "ForkedFolderJSON list"
  wcj_BranchMappings :: "BranchMappingJSON list"

record ForkedFolder =
  ff_Folder :: string
  ff_GitHubRepo :: GitHubRepo
  ff_AutoSync :: bool

record UpstreamRepo =
  ur_GitHubRepo :: GitHubRepo
  ur_Branch :: string

record BranchMapping =
  bm_LocalBranch :: string
  bm_UpstreamMap :: "(GitHubRepo, UpstreamRepo) gomap"

record WorkspaceConfig =
  wc_ForkedFolders :: "(RelPath, ForkedFolder) gomap"
  wc_BranchMappings :: "(string, BranchMapping) gomap"

datatype configError =
    ForkedFoldersEmpty
  | InvalidFolder RelPathParseError
  | DuplicateFolder string
  | InvalidForkedProject string string
  | DuplicateProject GitHubRepo
  | BranchMappingsEmpty
  | EmptyLocalBranch
  | EmptyUpstreamList string
  | DuplicateLocalBranch string
  | InvalidUpstreamProject string string
  | EmptyUpstreamBranch string string
  | DuplicateUpstream string GitHubRepo
  | NonForkedProject string GitHubRepo
  | MissingUpstream string GitHubRepo

section \<open>Validation\<close>

definition strings_Cut :: "char \<Rightarrow> string \<Rightarrow> string \<times> string \<times> bool" where
  "strings_Cut c0 s =
     (let before = takeWhile (\<lambda>c. c \<noteq> c0) s
      in if before = s then (s, [], False) else (before, drop (length before + 1) s, True))"

text \<open>The error of \<open>parseGitHubRepo\<close> names its argument only.\<close>

definition parseGitHubRepo :: "string \<Rightarrow> GitHubRepo option" where
  "parseGitHubRepo s =
     (let (owner, repo, ok) = strings_Cut (CHR ''/'') s
      in if \<not> ok \<or> owner = [] \<or> repo = [] \<or> CHR ''/'' \<in> set repo then None else Some s)"

fun folders_loop ::
  "ForkedFolderJSON list \<Rightarrow> (RelPath, ForkedFolder) gomap \<Rightarrow> GitHubRepo Set \<Rightarrow> configError list \<Rightarrow>
   ((RelPath, ForkedFolder) gomap \<times> GitHubRepo Set \<times> configError list) outcome" where
  "folders_loop [] folders repos err = Inr (folders, repos, err)"
| "folders_loop (j # js) folders repos err =
     go_bind (ParseRelPath (ffj_Folder j)) (\<lambda>r.
     let (folder, err) = (case r of Inr folder \<Rightarrow> (folder, err) | Inl e \<Rightarrow> (\<lparr>rp_value = []\<rparr>, err @ [InvalidFolder e]))
     in if gm_get folders folder \<noteq> None then folders_loop js folders repos (err @ [DuplicateFolder (ffj_Folder j)])
        else case parseGitHubRepo (ffj_GitHubProject j) of
               None \<Rightarrow> folders_loop js folders repos (err @ [InvalidForkedProject (ffj_Folder j) (ffj_GitHubProject j)])
             | Some repo \<Rightarrow>
                 go_bind (Set_Insert repo repos) (\<lambda>(res, repos).
                 if \<not> InsertResult_AsBool res then folders_loop js folders repos (err @ [DuplicateProject repo])
                 else go_bind (gm_set folders folder
                        \<lparr>ff_Folder = ffj_Folder j, ff_GitHubRepo = repo,
                         ff_AutoSync = (case ffj_AutoSync j of Some b \<Rightarrow> b | None \<Rightarrow> True)\<rparr>) (\<lambda>folders.
                      folders_loop js folders repos err)))"

definition validateForkedFolders ::
  "ForkedFolderJSON list \<Rightarrow> ((RelPath, ForkedFolder) gomap \<times> GitHubRepo Set \<times> configError list) outcome" where
  "validateForkedFolders js =
     go_bind (folders_loop js (Some []) NewSet (if js = [] then [ForkedFoldersEmpty] else [])) (\<lambda>(folders, repos, err).
     if err \<noteq> [] then Inr (None, repos, err) else Inr (folders, repos, []))"

fun upstream_loop ::
  "string \<Rightarrow> GitHubRepo Set \<Rightarrow> UpstreamRepoJSON list \<Rightarrow> (GitHubRepo, UpstreamRepo) gomap \<Rightarrow> configError list \<Rightarrow>
   ((GitHubRepo, UpstreamRepo) gomap \<times> configError list) outcome" where
  "upstream_loop local forkedRepos [] upstreamMap err = Inr (upstreamMap, err)"
| "upstream_loop local forkedRepos (j # js) upstreamMap err =
     (case parseGitHubRepo (urj_GitHubProject j) of
        None \<Rightarrow> upstream_loop local forkedRepos js upstreamMap (err @ [InvalidUpstreamProject local (urj_GitHubProject j)])
      | Some repo \<Rightarrow>
          if urj_Branch j = [] then upstream_loop local forkedRepos js upstreamMap (err @ [EmptyUpstreamBranch local (urj_GitHubProject j)])
          else if gm_get upstreamMap repo \<noteq> None then upstream_loop local forkedRepos js upstreamMap (err @ [DuplicateUpstream local repo])
          else if \<not> Set_Contains forkedRepos repo then upstream_loop local forkedRepos js upstreamMap (err @ [NonForkedProject local repo])
          else go_bind (gm_set upstreamMap repo \<lparr>ur_GitHubRepo = repo, ur_Branch = urj_Branch j\<rparr>) (\<lambda>upstreamMap.
               upstream_loop local forkedRepos js upstreamMap err))"

fun missing_loop :: "string \<Rightarrow> (GitHubRepo, UpstreamRepo) gomap \<Rightarrow> GitHubRepo list \<Rightarrow> configError list \<Rightarrow> configError list" where
  "missing_loop local upstreamMap [] err = err"
| "missing_loop local upstreamMap (repo # repos) err =
     missing_loop local upstreamMap repos (if gm_get upstreamMap repo = None then err @ [MissingUpstream local repo] else err)"

fun mappings_loop ::
  "GitHubRepo Set \<Rightarrow> BranchMappingJSON list \<Rightarrow> (string, BranchMapping) gomap \<Rightarrow> configError list \<Rightarrow>
   ((string, BranchMapping) gomap \<times> configError list) outcome" where
  "mappings_loop forkedRepos [] mappings err = Inr (mappings, err)"
| "mappings_loop forkedRepos (j # js) mappings err =
     (if bmj_LocalBranch j = [] then mappings_loop forkedRepos js mappings (err @ [EmptyLocalBranch])
      else if bmj_Upstream j = [] then mappings_loop forkedRepos js mappings (err @ [EmptyUpstreamList (bmj_LocalBranch j)])
      else if gm_get mappings (bmj_LocalBranch j) \<noteq> None
      then mappings_loop forkedRepos js mappings (err @ [DuplicateLocalBranch (bmj_LocalBranch j)])
      else go_bind (upstream_loop (bmj_LocalBranch j) forkedRepos (bmj_Upstream j) (Some []) err) (\<lambda>(upstreamMap, err).
           let err = missing_loop (bmj_LocalBranch j) upstreamMap (SortedValues forkedRepos) err
           in go_bind (gm_set mappings (bmj_LocalBranch j) \<lparr>bm_LocalBranch = bmj_LocalBranch j, bm_UpstreamMap = upstreamMap\<rparr>) (\<lambda>mappings.
              mappings_loop forkedRepos js mappings err)))"

definition validateBranchMappings :: "BranchMappingJSON list \<Rightarrow> GitHubRepo Set \<Rightarrow> ((string, BranchMapping) gomap \<times> configError list) outcome" where
  "validateBranchMappings js forkedRepos =
     go_bind (mappings_loop forkedRepos js (Some []) (if js = [] then [BranchMappingsEmpty] else [])) (\<lambda>(mappings, err).
     if err \<noteq> [] then Inr (None, err) else Inr (mappings, []))"

definition Validate :: "WorkspaceConfigJSON \<Rightarrow> (configError list + WorkspaceConfig) outcome" where
  "Validate wcJSON =
     go_bind (validateForkedFolders (wcj_ForkedFolders wcJSON)) (\<lambda>(forkedFolders, forkedRepos, err).
     if err \<noteq> [] then Inr (Inl err)
     else go_bind (validateBranchMappings (wcj_BranchMappings wcJSON) forkedRepos) (\<lambda>(branchMappings, err).
          if err \<noteq> [] then Inr (Inl err)
          else Inr (Inr \<lparr>wc_ForkedFolders = forkedFolders, wc_BranchMappings = branchMappings\<rparr>)))"

section \<open>Queries\<close>

datatype lookupError = NoBranchMapping string | NotForkedFolder RelPath | NotConfigured RelPath string

definition UpstreamForProject :: "WorkspaceConfig \<Rightarrow> string \<Rightarrow> RelPath \<Rightarrow> lookupError + UpstreamRepo" where
  "UpstreamForProject wc localBranch project =
     (case gm_get (wc_BranchMappings wc) localBranch of
        None \<Rightarrow> Inl (NoBranchMapping localBranch)
      | Some mapping \<Rightarrow>
          (case gm_get (wc_ForkedFolders wc) project of
             None \<Rightarrow> Inl (NotForkedFolder project)
           | Some forkedFolder \<Rightarrow>
               (case gm_get (bm_UpstreamMap mapping) (ff_GitHubRepo forkedFolder) of
                  None \<Rightarrow> Inl (NotConfigured project localBranch)
                | Some upstream \<Rightarrow> Inr upstream)))"

section \<open>The specification\<close>

definition project_ok :: "string \<Rightarrow> bool" where
  "project_ok s \<longleftrightarrow> (\<exists>owner repo. s = owner @ ''/'' @ repo \<and> owner \<noteq> [] \<and> repo \<noteq> [] \<and> CHR ''/'' \<notin> set owner \<and> CHR ''/'' \<notin> set repo)"

lemma parseGitHubRepo_spec: "parseGitHubRepo s = (if project_ok s then Some s else None)"
proof -
  let ?owner = "takeWhile (\<lambda>c. c \<noteq> CHR ''/'') s"
  have noslash: "CHR ''/'' \<notin> set ?owner"
    by (auto dest: set_takeWhileD)
  show ?thesis
  proof (cases "CHR ''/'' \<in> set s")
    case True
    then obtain owner repo where s: "s = owner @ CHR ''/'' # repo" "CHR ''/'' \<notin> set owner"
      by (meson split_list_first)
    then have owner: "?owner = owner"
      by (simp add: takeWhile_append)
    have "owner = o' \<and> repo = r'" if "s = o' @ CHR ''/'' # r'" "CHR ''/'' \<notin> set o'" "CHR ''/'' \<notin> set r'" for o' r'
      using append_Cons_eq_iff [OF that(2,3), of owner repo] that(1) s(1) by simp
    then have "project_ok s \<longleftrightarrow> owner \<noteq> [] \<and> repo \<noteq> [] \<and> CHR ''/'' \<notin> set repo"
      using s by (auto simp: project_ok_def)
    then show ?thesis
      using s owner by (auto simp: parseGitHubRepo_def strings_Cut_def Let_def)
  next
    case False
    then have "?owner = s"
      by (auto simp: takeWhile_eq_all_conv)
    then have "strings_Cut (CHR ''/'') s = (s, [], False)"
      by (simp add: strings_Cut_def)
    moreover have "\<not> project_ok s"
      using False by (auto simp: project_ok_def)
    ultimately show ?thesis
      by (simp add: parseGitHubRepo_def)
  qed
qed

text \<open>The folder an entry names, as the key of the map; what the map holds for it.\<close>

definition folder_ok :: "string \<Rightarrow> bool" where
  "folder_ok folder \<longleftrightarrow> folder \<noteq> [] \<and> hd folder \<noteq> CHR ''/''"

definition folder_key :: "ForkedFolderJSON \<Rightarrow> RelPath" where
  "folder_key j = \<lparr>rp_value = normalize_spec (ffj_Folder j)\<rparr>"

definition folder_of :: "ForkedFolderJSON \<Rightarrow> ForkedFolder" where
  "folder_of j = \<lparr>ff_Folder = ffj_Folder j, ff_GitHubRepo = ffj_GitHubProject j, ff_AutoSync = (ffj_AutoSync j \<noteq> Some False)\<rparr>"

definition folders_valid :: "ForkedFolderJSON list \<Rightarrow> bool" where
  "folders_valid js \<longleftrightarrow> (\<forall>j \<in> set js. folder_ok (ffj_Folder j) \<and> project_ok (ffj_GitHubProject j))
     \<and> distinct (map folder_key js) \<and> distinct (map ffj_GitHubProject js)"

definition mapping_valid :: "GitHubRepo set \<Rightarrow> BranchMappingJSON \<Rightarrow> bool" where
  "mapping_valid repos m \<longleftrightarrow> bmj_LocalBranch m \<noteq> [] \<and> bmj_Upstream m \<noteq> [] \<and> (\<forall>u \<in> set (bmj_Upstream m). urj_Branch u \<noteq> [])
     \<and> distinct (map urj_GitHubProject (bmj_Upstream m)) \<and> urj_GitHubProject ` set (bmj_Upstream m) = repos"

definition config_valid :: "WorkspaceConfigJSON \<Rightarrow> bool" where
  "config_valid wc \<longleftrightarrow> wcj_ForkedFolders wc \<noteq> [] \<and> folders_valid (wcj_ForkedFolders wc)
     \<and> wcj_BranchMappings wc \<noteq> [] \<and> distinct (map bmj_LocalBranch (wcj_BranchMappings wc))
     \<and> (\<forall>m \<in> set (wcj_BranchMappings wc). mapping_valid (ffj_GitHubProject ` set (wcj_ForkedFolders wc)) m)"

section \<open>The loops\<close>

text \<open>
  What a loop over keyed entries does to a map: it adds a value for each entry, under distinct new keys.
\<close>

definition extends_by :: "('k, 'v) gomap \<Rightarrow> ('j \<Rightarrow> 'k) \<Rightarrow> ('j \<Rightarrow> 'v) \<Rightarrow> 'j list \<Rightarrow> ('k, 'v) gomap \<Rightarrow> bool" where
  "extends_by m key val js m' \<longleftrightarrow> (\<forall>j \<in> set js. gm_get m' (key j) = Some (val j)) \<and> (\<forall>k. k \<notin> key ` set js \<longrightarrow> gm_get m' k = gm_get m k)"

lemma extends_by_Nil [simp]: "extends_by m key val [] m"
  by (simp add: extends_by_def)

lemma extends_by_Cons:
  "extends_by (Some (AList.update (key j) (val j) al)) key val js m' \<Longrightarrow> key j \<notin> key ` set js \<Longrightarrow> extends_by (Some al) key val (j # js) m'"
  by (auto simp: extends_by_def)

lemma extends_by_dom:
  assumes "extends_by (Some []) key val js m"
  shows "{k. gm_get m k \<noteq> None} = key ` set js"
proof -
  have "gm_get m k \<noteq> None \<longleftrightarrow> k \<in> key ` set js" for k
    using assms by (cases "k \<in> key ` set js") (auto simp: extends_by_def)
  then show ?thesis
    by auto
qed

lemma ParseRelPath_cases:
  "(folder_ok s \<and> ParseRelPath s = Inr (Inr \<lparr>rp_value = normalize_spec s\<rparr>)) \<or> (\<not> folder_ok s \<and> (\<exists>e. ParseRelPath s = Inr (Inl e)))"
proof (cases "folder_ok s")
  case True
  then have "s \<noteq> []" "\<not> IsAbs s"
    by (auto simp: folder_ok_def IsAbs_def neq_Nil_conv)
  then show ?thesis
    using True ParseRelPath_rel by simp
next
  case False
  then show ?thesis
    by (cases s) (auto simp: folder_ok_def ParseRelPath_def IsAbs_def NewRelPathParseError_def assert_defs)
qed

text \<open>Valid entries whose folders and projects are new to the maps.\<close>

definition folders_fit :: "ForkedFolderJSON list \<Rightarrow> (RelPath, ForkedFolder) gomap \<Rightarrow> GitHubRepo Set \<Rightarrow> bool" where
  "folders_fit js folders repos \<longleftrightarrow> folders_valid js \<and> (\<forall>j \<in> set js. gm_get folders (folder_key j) = None)
     \<and> ffj_GitHubProject ` set js \<inter> set_abs repos = {}"

definition entry_new :: "ForkedFolderJSON \<Rightarrow> (RelPath, ForkedFolder) gomap \<Rightarrow> GitHubRepo Set \<Rightarrow> bool" where
  "entry_new j folders repos \<longleftrightarrow> folder_ok (ffj_Folder j) \<and> project_ok (ffj_GitHubProject j) \<and> gm_get folders (folder_key j) = None
     \<and> ffj_GitHubProject j \<notin> set_abs repos"

lemma folders_step:
  assumes "set_inv repos" and "folders = Some al"
  shows "\<exists>folders' repos' es. folders_loop (j # js) folders repos err = folders_loop js folders' repos' (err @ es) \<and> set_inv repos' \<and> folders' \<noteq> None
    \<and> (es = [] \<longleftrightarrow> entry_new j folders repos)
    \<and> (entry_new j folders repos \<longrightarrow> folders' = Some (AList.update (folder_key j) (folder_of j) al) \<and> set_abs repos' = insert (ffj_GitHubProject j) (set_abs repos))"
proof -
  let ?p = "ffj_GitHubProject j" and ?s = "ffj_Folder j"
  obtain repos1 where ins: "Set_Insert ?p repos = Inr (if ?p \<in> set_abs repos then KeptOld else InsertedNew, repos1)"
      "set_inv repos1" "set_abs repos1 = insert ?p (set_abs repos)"
    using Set_Insert_spec [OF assms(1), of ?p] by blast
  obtain folder es where parse: "\<exists>r. ParseRelPath ?s = Inr r \<and>
      (case r of Inr folder \<Rightarrow> (folder, err) | Inl e \<Rightarrow> (\<lparr>rp_value = []\<rparr>, err @ [InvalidFolder e])) = (folder, err @ es)"
      "es = [] \<longleftrightarrow> folder_ok ?s" "folder_ok ?s \<Longrightarrow> folder = folder_key j"
    using ParseRelPath_cases [of ?s] by (auto simp: folder_key_def)
  consider (dup) "gm_get folders folder \<noteq> None" | (proj) "gm_get folders folder = None" "\<not> project_ok ?p"
    | (known) "gm_get folders folder = None" "project_ok ?p" "?p \<in> set_abs repos"
    | (fresh) "gm_get folders folder = None" "project_ok ?p" "?p \<notin> set_abs repos"
    by blast
  then show ?thesis
  proof cases
    case dup
    then show ?thesis
      using parse assms(1,2)
      by (intro exI [of _ folders] exI [of _ repos] exI [of _ "es @ [DuplicateFolder ?s]"]) (auto simp: entry_new_def)
  next
    case proj
    then show ?thesis
      using parse assms(1,2)
      by (intro exI [of _ folders] exI [of _ repos] exI [of _ "es @ [InvalidForkedProject ?s ?p]"]) (auto simp: entry_new_def parseGitHubRepo_spec)
  next
    case known
    then show ?thesis
      using parse ins assms(2)
      by (intro exI [of _ folders] exI [of _ repos1] exI [of _ "es @ [DuplicateProject ?p]"]) (auto simp: entry_new_def parseGitHubRepo_spec)
  next
    case fresh
    have "(case ffj_AutoSync j of Some b \<Rightarrow> b | None \<Rightarrow> True) = (ffj_AutoSync j \<noteq> Some False)"
      by (simp split: option.split)
    then show ?thesis
      using fresh parse ins assms(2)
      by (intro exI [of _ "Some (AList.update folder (folder_of j) al)"] exI [of _ repos1] exI [of _ es])
         (auto simp: entry_new_def parseGitHubRepo_spec folder_of_def)
  qed
qed

lemma folders_loop_spec:
  assumes "set_inv repos" and "folders \<noteq> None"
  shows "\<exists>folders' repos' more. folders_loop js folders repos err = Inr (folders', repos', err @ more)
    \<and> (more = [] \<longleftrightarrow> folders_fit js folders repos)
    \<and> (more = [] \<longrightarrow> extends_by folders folder_key folder_of js folders' \<and> set_inv repos'
         \<and> set_abs repos' = set_abs repos \<union> ffj_GitHubProject ` set js)"
  using assms
proof (induction js arbitrary: folders repos err)
  case Nil
  then show ?case
    by (simp add: folders_fit_def folders_valid_def)
next
  case (Cons j js)
  obtain al where al: "folders = Some al"
    using Cons.prems(2) by blast
  let ?new = "entry_new j folders repos"
  obtain f1 r1 es where step: "folders_loop (j # js) folders repos err = folders_loop js f1 r1 (err @ es)" "set_inv r1" "f1 \<noteq> None"
      "es = [] \<longleftrightarrow> ?new"
      "?new \<longrightarrow> f1 = Some (AList.update (folder_key j) (folder_of j) al) \<and> set_abs r1 = insert (ffj_GitHubProject j) (set_abs repos)"
    using folders_step [OF Cons.prems(1) al, of j js err] by blast
  obtain f' r' more where ih: "folders_loop js f1 r1 (err @ es) = Inr (f', r', (err @ es) @ more)"
      "more = [] \<longleftrightarrow> folders_fit js f1 r1"
      "more = [] \<longrightarrow> extends_by f1 folder_key folder_of js f' \<and> set_inv r' \<and> set_abs r' = set_abs r1 \<union> ffj_GitHubProject ` set js"
    using Cons.IH [OF step(2,3)] by blast
  have fit: "folders_fit (j # js) folders repos \<longleftrightarrow> es @ more = []"
  proof (cases ?new)
    case True
    have "(\<forall>k \<in> set js. gm_get f1 (folder_key k) = None) \<longleftrightarrow>
        folder_key j \<notin> folder_key ` set js \<and> (\<forall>k \<in> set js. gm_get folders (folder_key k) = None)"
      using True step(5) al by (auto simp: image_iff split: if_splits)
    then show ?thesis
      using True step(4,5) ih(2) by (auto simp: entry_new_def folders_fit_def folders_valid_def)
  next
    case False
    then show ?thesis
      using step(4) by (auto simp: entry_new_def folders_fit_def folders_valid_def)
  qed
  have "extends_by folders folder_key folder_of (j # js) f'" "set_inv r'" "set_abs r' = set_abs repos \<union> ffj_GitHubProject ` set (j # js)"
    if "es @ more = []"
  proof -
    have "folder_key j \<notin> folder_key ` set js"
      using that fit by (simp add: folders_fit_def folders_valid_def)
    then show "extends_by folders folder_key folder_of (j # js) f'" "set_inv r'" "set_abs r' = set_abs repos \<union> ffj_GitHubProject ` set (j # js)"
      using that step(4,5) ih(3) al by (auto intro: extends_by_Cons)
  qed
  then show ?case
    using step(1) ih(1) fit by (intro exI [of _ f'] exI [of _ r'] exI [of _ "es @ more"]) auto
qed

definition upstream_of :: "UpstreamRepoJSON \<Rightarrow> UpstreamRepo" where
  "upstream_of u = \<lparr>ur_GitHubRepo = urj_GitHubProject u, ur_Branch = urj_Branch u\<rparr>"

definition add_upstreams :: "UpstreamRepoJSON list \<Rightarrow> (GitHubRepo \<times> UpstreamRepo) list \<Rightarrow> (GitHubRepo \<times> UpstreamRepo) list" where
  "add_upstreams = fold (\<lambda>u. AList.update (urj_GitHubProject u) (upstream_of u))"

definition mapping_of :: "BranchMappingJSON \<Rightarrow> BranchMapping" where
  "mapping_of j = \<lparr>bm_LocalBranch = bmj_LocalBranch j, bm_UpstreamMap = Some (add_upstreams (bmj_Upstream j) [])\<rparr>"

lemma add_upstreams_simps [simp]:
  "add_upstreams [] al = al"
  "add_upstreams (u # us) al = add_upstreams us (AList.update (urj_GitHubProject u) (upstream_of u) al)"
  by (simp_all add: add_upstreams_def)

lemma add_upstreams_extends:
  "distinct (map urj_GitHubProject us) \<Longrightarrow> extends_by (Some al) urj_GitHubProject upstream_of us (Some (add_upstreams us al))"
  by (induction us arbitrary: al) (auto intro: extends_by_Cons)

definition upstreams_fit :: "GitHubRepo set \<Rightarrow> UpstreamRepoJSON list \<Rightarrow> (GitHubRepo, UpstreamRepo) gomap \<Rightarrow> bool" where
  "upstreams_fit repos us m \<longleftrightarrow> distinct (map urj_GitHubProject us)
     \<and> (\<forall>u \<in> set us. urj_Branch u \<noteq> [] \<and> urj_GitHubProject u \<in> repos \<and> gm_get m (urj_GitHubProject u) = None)"

lemma upstream_loop_spec:
  assumes "set_abs repos \<subseteq> Collect project_ok"
  shows "\<exists>m' more. upstream_loop local repos us (Some al) err = Inr (m', err @ more) \<and> m' \<noteq> None
    \<and> (more = [] \<longleftrightarrow> upstreams_fit (set_abs repos) us (Some al)) \<and> (more = [] \<longrightarrow> m' = Some (add_upstreams us al))"
proof (induction us arbitrary: al err)
  case Nil
  then show ?case
    by (simp add: upstreams_fit_def)
next
  case (Cons u us)
  let ?p = "urj_GitHubProject u" and ?fit = "upstreams_fit (set_abs repos) (u # us) (Some al)"
  let ?new = "project_ok ?p \<and> urj_Branch u \<noteq> [] \<and> gm_get (Some al) ?p = None \<and> ?p \<in> set_abs repos"
  let ?al = "AList.update ?p (upstream_of u) al"
  have contains: "Set_Contains repos ?p \<longleftrightarrow> ?p \<in> set_abs repos"
    by (simp add: set_abs_def)
  show ?case
  proof (cases ?new)
    case True
    have "upstream_loop local repos (u # us) (Some al) err = upstream_loop local repos us (Some ?al) err"
      using True contains by (simp add: parseGitHubRepo_spec upstream_of_def)
    moreover have "?fit \<longleftrightarrow> upstreams_fit (set_abs repos) us (Some ?al)"
      using True by (auto simp: upstreams_fit_def image_iff split: if_splits)
    ultimately show ?thesis
      using Cons.IH [of ?al err] by simp
  next
    case False
    have "\<exists>e. upstream_loop local repos (u # us) (Some al) err = upstream_loop local repos us (Some al) (err @ [e])"
      using False contains
      by (cases "project_ok ?p"; cases "urj_Branch u = []"; cases "gm_get (Some al) ?p = None") (auto simp: parseGitHubRepo_spec)
    then obtain e where "upstream_loop local repos (u # us) (Some al) err = upstream_loop local repos us (Some al) (err @ [e])"
      by blast
    moreover have "\<not> ?fit"
      using False assms by (auto simp: upstreams_fit_def)
    ultimately show ?thesis
      using Cons.IH [of al "err @ [e]"] by auto
  qed
qed

lemma missing_loop_spec: "\<exists>more. missing_loop local m repos err = err @ more \<and> (more = [] \<longleftrightarrow> (\<forall>r \<in> set repos. gm_get m r \<noteq> None))"
proof (induction repos arbitrary: err)
  case (Cons r repos)
  show ?case
    using Cons [of "err @ [MissingUpstream local r]"] Cons [of err] by (cases "gm_get m r") auto
qed simp

lemma set_SortedValues: "set (SortedValues s) = set_abs s"
  by (simp add: SortedValues_def set_abs_entries)

lemma mapping_loops:
  assumes "set_abs repos \<subseteq> Collect project_ok"
  shows "\<exists>m err1 more. upstream_loop local repos us (Some []) err = Inr (m, err1)
    \<and> missing_loop local m (SortedValues repos) err1 = err @ more
    \<and> (more = [] \<longleftrightarrow> upstreams_fit (set_abs repos) us (Some []) \<and> urj_GitHubProject ` set us = set_abs repos)
    \<and> (more = [] \<longrightarrow> m = Some (add_upstreams us []))"
proof -
  obtain m0 es where es: "upstream_loop local repos us (Some []) err = Inr (m0, err @ es)"
      "es = [] \<longleftrightarrow> upstreams_fit (set_abs repos) us (Some [])" "es = [] \<longrightarrow> m0 = Some (add_upstreams us [])"
    using upstream_loop_spec [OF assms, of local us "[]" err] by blast
  obtain fs where fs: "missing_loop local m0 (SortedValues repos) (err @ es) = (err @ es) @ fs" "fs = [] \<longleftrightarrow> (\<forall>r \<in> set_abs repos. gm_get m0 r \<noteq> None)"
    using missing_loop_spec [of local m0 "SortedValues repos" "err @ es"] by (auto simp: set_SortedValues)
  have "fs = [] \<longleftrightarrow> urj_GitHubProject ` set us = set_abs repos" if "es = []"
  proof -
    have "distinct (map urj_GitHubProject us)" "urj_GitHubProject ` set us \<subseteq> set_abs repos"
      using es(2) that by (auto simp: upstreams_fit_def)
    moreover have "gm_get m0 r \<noteq> None \<longleftrightarrow> r \<in> urj_GitHubProject ` set us" for r
      using add_upstreams_extends [OF calculation(1), of "[]"] es(3) that by (force simp: extends_by_def)
    ultimately show ?thesis
      using fs(2) by auto
  qed
  then show ?thesis
    using es fs by (intro exI [of _ m0] exI [of _ "err @ es"] exI [of _ "es @ fs"]) auto
qed

lemma mappings_step:
  assumes "set_abs repos \<subseteq> Collect project_ok"
  shows "\<exists>m' es. mappings_loop repos (j # js) (Some al) err = mappings_loop repos js m' (err @ es) \<and> m' \<noteq> None
    \<and> (es = [] \<longleftrightarrow> mapping_valid (set_abs repos) j \<and> gm_get (Some al) (bmj_LocalBranch j) = None)
    \<and> (es = [] \<longrightarrow> m' = Some (AList.update (bmj_LocalBranch j) (mapping_of j) al))"
proof -
  let ?b = "bmj_LocalBranch j" and ?us = "bmj_Upstream j"
  consider (branch) "?b = []" | (upstream) "?b \<noteq> []" "?us = []" | (dup) "?b \<noteq> []" "?us \<noteq> []" "gm_get (Some al) ?b \<noteq> None"
    | (new) "?b \<noteq> []" "?us \<noteq> []" "gm_get (Some al) ?b = None"
    by blast
  then show ?thesis
  proof cases
    case branch
    then show ?thesis
      by (intro exI [of _ "Some al"] exI [of _ "[EmptyLocalBranch]"]) (simp add: mapping_valid_def)
  next
    case upstream
    then show ?thesis
      by (intro exI [of _ "Some al"] exI [of _ "[EmptyUpstreamList ?b]"]) (simp add: mapping_valid_def)
  next
    case dup
    then show ?thesis
      by (intro exI [of _ "Some al"] exI [of _ "[DuplicateLocalBranch ?b]"]) auto
  next
    case new
    obtain m err1 es where loops: "upstream_loop ?b repos ?us (Some []) err = Inr (m, err1)" "missing_loop ?b m (SortedValues repos) err1 = err @ es"
        "es = [] \<longleftrightarrow> upstreams_fit (set_abs repos) ?us (Some []) \<and> urj_GitHubProject ` set ?us = set_abs repos"
        "es = [] \<longrightarrow> m = Some (add_upstreams ?us [])"
      using mapping_loops [OF assms, of ?b ?us err] by blast
    have "mapping_valid (set_abs repos) j \<longleftrightarrow> es = []"
      using new loops(3) by (auto simp: mapping_valid_def upstreams_fit_def)
    then show ?thesis
      using new loops by (intro exI [of _ "Some (AList.update ?b \<lparr>bm_LocalBranch = ?b, bm_UpstreamMap = m\<rparr> al)"] exI [of _ es]) (simp add: mapping_of_def)
  qed
qed

lemma mappings_loop_spec:
  assumes "set_abs repos \<subseteq> Collect project_ok"
  shows "\<exists>m' more. mappings_loop repos js (Some al) err = Inr (m', err @ more)
    \<and> (more = [] \<longleftrightarrow> distinct (map bmj_LocalBranch js) \<and> (\<forall>j \<in> set js. mapping_valid (set_abs repos) j \<and> gm_get (Some al) (bmj_LocalBranch j) = None))
    \<and> (more = [] \<longrightarrow> extends_by (Some al) bmj_LocalBranch mapping_of js m')"
proof (induction js arbitrary: al err)
  case (Cons j js)
  let ?b = "bmj_LocalBranch j"
  let ?new = "mapping_valid (set_abs repos) j \<and> gm_get (Some al) ?b = None"
  obtain al1 es where step: "mappings_loop repos (j # js) (Some al) err = mappings_loop repos js (Some al1) (err @ es)"
      "es = [] \<longleftrightarrow> ?new" "es = [] \<longrightarrow> al1 = AList.update ?b (mapping_of j) al"
    using mappings_step [OF assms, of j js al err] by fastforce
  obtain m' more where ih: "mappings_loop repos js (Some al1) (err @ es) = Inr (m', (err @ es) @ more)"
      "more = [] \<longleftrightarrow> distinct (map bmj_LocalBranch js) \<and> (\<forall>j \<in> set js. mapping_valid (set_abs repos) j \<and> gm_get (Some al1) (bmj_LocalBranch j) = None)"
      "more = [] \<longrightarrow> extends_by (Some al1) bmj_LocalBranch mapping_of js m'"
    using Cons.IH [of al1 "err @ es"] by blast
  have all: "es @ more = [] \<longleftrightarrow> distinct (map bmj_LocalBranch (j # js))
      \<and> (\<forall>k \<in> set (j # js). mapping_valid (set_abs repos) k \<and> gm_get (Some al) (bmj_LocalBranch k) = None)"
  proof (cases "es = []")
    case True
    have "(\<forall>k \<in> set js. gm_get (Some al1) (bmj_LocalBranch k) = None) \<longleftrightarrow>
        ?b \<notin> bmj_LocalBranch ` set js \<and> (\<forall>k \<in> set js. gm_get (Some al) (bmj_LocalBranch k) = None)"
      using True step(3) by (auto simp: image_iff split: if_splits)
    then show ?thesis
      using True step(2) ih(2) by auto
  next
    case False
    then show ?thesis
      using step(2) by auto
  qed
  then have "extends_by (Some al) bmj_LocalBranch mapping_of (j # js) m'" if "es @ more = []"
    using that step(3) ih(3) by (auto intro: extends_by_Cons)
  then show ?case
    using step(1) ih(1) all by (intro exI [of _ m'] exI [of _ "es @ more"]) auto
qed simp

section \<open>Properties\<close>

lemma validateForkedFolders_spec:
  "\<exists>folders repos err. validateForkedFolders js = Inr (folders, repos, err) \<and> (err = [] \<longleftrightarrow> js \<noteq> [] \<and> folders_valid js)
    \<and> (err = [] \<longrightarrow> extends_by (Some []) folder_key folder_of js folders \<and> set_abs repos = ffj_GitHubProject ` set js)"
proof -
  let ?err = "if js = [] then [ForkedFoldersEmpty] else []"
  obtain folders repos more where loop: "folders_loop js (Some []) NewSet ?err = Inr (folders, repos, ?err @ more)"
      "more = [] \<longleftrightarrow> folders_fit js (Some []) NewSet"
      "more = [] \<longrightarrow> extends_by (Some []) folder_key folder_of js folders \<and> set_abs repos = ffj_GitHubProject ` set js"
    using folders_loop_spec [OF NewSet_spec(1), of "Some []" js ?err] unfolding NewSet_spec(2) by auto
  have "folders_fit js (Some []) NewSet \<longleftrightarrow> folders_valid js"
    by (simp add: folders_fit_def NewSet_spec)
  then show ?thesis
    using loop by (cases "?err @ more = []") (auto simp: validateForkedFolders_def split: if_splits)
qed

lemma validateBranchMappings_spec:
  assumes "set_abs repos \<subseteq> Collect project_ok"
  shows "\<exists>mappings err. validateBranchMappings js repos = Inr (mappings, err)
    \<and> (err = [] \<longleftrightarrow> js \<noteq> [] \<and> distinct (map bmj_LocalBranch js) \<and> (\<forall>j \<in> set js. mapping_valid (set_abs repos) j))
    \<and> (err = [] \<longrightarrow> extends_by (Some []) bmj_LocalBranch mapping_of js mappings)"
proof -
  let ?err = "if js = [] then [BranchMappingsEmpty] else []"
  obtain mappings more where loop: "mappings_loop repos js (Some []) ?err = Inr (mappings, ?err @ more)"
      "more = [] \<longleftrightarrow> distinct (map bmj_LocalBranch js) \<and> (\<forall>j \<in> set js. mapping_valid (set_abs repos) j)"
      "more = [] \<longrightarrow> extends_by (Some []) bmj_LocalBranch mapping_of js mappings"
    using mappings_loop_spec [OF assms, of js "[]" ?err] by auto
  then show ?thesis
    by (cases "?err @ more = []") (auto simp: validateBranchMappings_def split: if_splits)
qed

lemma Validate_spec:
  "\<exists>r. Validate wc = Inr r \<and> (case r of
      Inl err \<Rightarrow> err \<noteq> [] \<and> \<not> config_valid wc
    | Inr cfg \<Rightarrow> config_valid wc \<and> extends_by (Some []) folder_key folder_of (wcj_ForkedFolders wc) (wc_ForkedFolders cfg)
        \<and> extends_by (Some []) bmj_LocalBranch mapping_of (wcj_BranchMappings wc) (wc_BranchMappings cfg))"
proof -
  let ?js = "wcj_ForkedFolders wc" and ?ms = "wcj_BranchMappings wc"
  obtain folders repos err where v: "validateForkedFolders ?js = Inr (folders, repos, err)" "err = [] \<longleftrightarrow> ?js \<noteq> [] \<and> folders_valid ?js"
      "err = [] \<longrightarrow> extends_by (Some []) folder_key folder_of ?js folders \<and> set_abs repos = ffj_GitHubProject ` set ?js"
    using validateForkedFolders_spec [of ?js] by blast
  show ?thesis
  proof (cases "err = []")
    case False
    then show ?thesis
      using v by (auto simp: Validate_def config_valid_def)
  next
    case True
    then have repos: "set_abs repos = ffj_GitHubProject ` set ?js" "set_abs repos \<subseteq> Collect project_ok"
      using v(2,3) by (auto simp: folders_valid_def)
    obtain mappings err' where m: "validateBranchMappings ?ms repos = Inr (mappings, err')"
        "err' = [] \<longleftrightarrow> ?ms \<noteq> [] \<and> distinct (map bmj_LocalBranch ?ms) \<and> (\<forall>j \<in> set ?ms. mapping_valid (set_abs repos) j)"
        "err' = [] \<longrightarrow> extends_by (Some []) bmj_LocalBranch mapping_of ?ms mappings"
      using validateBranchMappings_spec [OF repos(2), of ?ms] by blast
    have "config_valid wc \<longleftrightarrow> err' = []"
      using m(2) v(2) True repos(1) by (auto simp: config_valid_def)
    then show ?thesis
      using v True m by (cases "err' = []") (simp_all add: Validate_def)
  qed
qed

lemma Validate_valid:
  assumes "config_valid wc"
  shows "\<exists>cfg. Validate wc = Inr (Inr cfg)"
  using Validate_spec [of wc]
proof (elim exE conjE)
  fix r
  assume "Validate wc = Inr r" "case r of
      Inl err \<Rightarrow> err \<noteq> [] \<and> \<not> config_valid wc
    | Inr cfg \<Rightarrow> config_valid wc \<and> extends_by (Some []) folder_key folder_of (wcj_ForkedFolders wc) (wc_ForkedFolders cfg)
        \<and> extends_by (Some []) bmj_LocalBranch mapping_of (wcj_BranchMappings wc) (wc_BranchMappings cfg)"
  then show ?thesis
    using assms by (cases r) auto
qed

text \<open>An example; two spellings of a folder that differ in a trailing separator are different keys.\<close>

definition example_config :: WorkspaceConfigJSON where
  "example_config =
    \<lparr>wcj_ForkedFolders = [\<lparr>ffj_Folder = ''./go'', ffj_GitHubProject = ''a/b'', ffj_AutoSync = None\<rparr>,
                          \<lparr>ffj_Folder = ''go/'', ffj_GitHubProject = ''c/d'', ffj_AutoSync = Some False\<rparr>],
     wcj_BranchMappings = [\<lparr>bmj_LocalBranch = ''main'', bmj_Upstream =
       [\<lparr>urj_GitHubProject = ''c/d'', urj_Branch = ''x''\<rparr>, \<lparr>urj_GitHubProject = ''a/b'', urj_Branch = ''y''\<rparr>]\<rparr>]\<rparr>"

lemma example_keys: "normalize_spec ''./go'' = ''go''" "normalize_spec ''go/'' = ''go/''"
  by code_simp+

lemma example_valid: "config_valid example_config"
proof -
  have "project_ok ''a/b''" "project_ok ''c/d''"
    unfolding project_ok_def by (intro exI [of _ "''a''"] exI [of _ "''b''"], simp) (intro exI [of _ "''c''"] exI [of _ "''d''"], simp)
  then show ?thesis
    by (auto simp: config_valid_def example_config_def folders_valid_def mapping_valid_def folder_ok_def folder_key_def example_keys)
qed

text \<open>
  C15. Validation never panics. It accepts exactly the configurations in which there are forked folders and branch mappings, the folders are relative paths
  that are different after normalisation, the projects are of the form owner/repo and all different, the local branches are
  different and not empty, and every mapping gives one non-empty upstream branch for each forked project and for no other. The
  result has exactly the folders of the configuration, each with its project, synced automatically unless it says otherwise; a
  rejected configuration has at least one error.
\<close>

theorem Validate_correct:
  "if config_valid wc
   then \<exists>cfg. Validate wc = Inr (Inr cfg)
     \<and> (\<forall>j \<in> set (wcj_ForkedFolders wc). gm_get (wc_ForkedFolders cfg) (folder_key j) =
          Some \<lparr>ff_Folder = ffj_Folder j, ff_GitHubRepo = ffj_GitHubProject j, ff_AutoSync = (ffj_AutoSync j \<noteq> Some False)\<rparr>)
     \<and> {p. gm_get (wc_ForkedFolders cfg) p \<noteq> None} = folder_key ` set (wcj_ForkedFolders wc)
     \<and> {b. gm_get (wc_BranchMappings cfg) b \<noteq> None} = bmj_LocalBranch ` set (wcj_BranchMappings wc)
   else \<exists>err. err \<noteq> [] \<and> Validate wc = Inr (Inl err)"
proof -
  obtain r where r: "Validate wc = Inr r" "case r of
      Inl err \<Rightarrow> err \<noteq> [] \<and> \<not> config_valid wc
    | Inr cfg \<Rightarrow> config_valid wc \<and> extends_by (Some []) folder_key folder_of (wcj_ForkedFolders wc) (wc_ForkedFolders cfg)
        \<and> extends_by (Some []) bmj_LocalBranch mapping_of (wcj_BranchMappings wc) (wc_BranchMappings cfg)"
    using Validate_spec [of wc] by blast
  show ?thesis
  proof (cases r)
    case (Inl err)
    then show ?thesis
      using r by auto
  next
    case (Inr cfg)
    then have "config_valid wc" and ext: "extends_by (Some []) folder_key folder_of (wcj_ForkedFolders wc) (wc_ForkedFolders cfg)"
        "extends_by (Some []) bmj_LocalBranch mapping_of (wcj_BranchMappings wc) (wc_BranchMappings cfg)"
      using r(2) by auto
    then show ?thesis
      using Inr r(1) extends_by_dom [OF ext(1)] extends_by_dom [OF ext(2)] by (simp add: extends_by_def folder_of_def)
  qed
qed

theorem Validate_correct_witness:
  "\<exists>cfg. Validate example_config = Inr (Inr cfg)
     \<and> gm_get (wc_ForkedFolders cfg) \<lparr>rp_value = ''go''\<rparr> = Some \<lparr>ff_Folder = ''./go'', ff_GitHubRepo = ''a/b'', ff_AutoSync = True\<rparr>
     \<and> {p. gm_get (wc_ForkedFolders cfg) p \<noteq> None} = {\<lparr>rp_value = ''go''\<rparr>, \<lparr>rp_value = ''go/''\<rparr>}"
  using Validate_correct [of example_config] example_valid
  by (auto simp: example_config_def folder_key_def example_keys)

text \<open>
  C27. In an accepted configuration every forked folder has an upstream branch on every local branch: the lookup gives the project of the folder and the
  branch that the mapping of the local branch names for it. It fails for other branches, and then for other folders.
\<close>

theorem UpstreamForProject_total:
  assumes "Validate wc = Inr (Inr cfg)"
  shows "(\<forall>m \<in> set (wcj_BranchMappings wc). \<forall>j \<in> set (wcj_ForkedFolders wc). \<exists>u \<in> set (bmj_Upstream m).
        urj_GitHubProject u = ffj_GitHubProject j
        \<and> UpstreamForProject cfg (bmj_LocalBranch m) (folder_key j) = Inr \<lparr>ur_GitHubRepo = ffj_GitHubProject j, ur_Branch = urj_Branch u\<rparr>)
    \<and> (b \<notin> bmj_LocalBranch ` set (wcj_BranchMappings wc) \<longrightarrow> UpstreamForProject cfg b p = Inl (NoBranchMapping b))
    \<and> (b \<in> bmj_LocalBranch ` set (wcj_BranchMappings wc) \<and> p \<notin> folder_key ` set (wcj_ForkedFolders wc) \<longrightarrow>
         UpstreamForProject cfg b p = Inl (NotForkedFolder p))"
proof (intro conjI ballI impI)
  have valid: "config_valid wc" and ext: "extends_by (Some []) folder_key folder_of (wcj_ForkedFolders wc) (wc_ForkedFolders cfg)"
      "extends_by (Some []) bmj_LocalBranch mapping_of (wcj_BranchMappings wc) (wc_BranchMappings cfg)"
    using Validate_spec [of wc] assms by auto
  show "UpstreamForProject cfg b p = Inl (NoBranchMapping b)" if "b \<notin> bmj_LocalBranch ` set (wcj_BranchMappings wc)"
    using that ext(2) by (simp add: UpstreamForProject_def extends_by_def)
  show "UpstreamForProject cfg b p = Inl (NotForkedFolder p)"
    if "b \<in> bmj_LocalBranch ` set (wcj_BranchMappings wc) \<and> p \<notin> folder_key ` set (wcj_ForkedFolders wc)"
    using that ext by (auto simp: UpstreamForProject_def extends_by_def)
  fix m j
  assume mj: "m \<in> set (wcj_BranchMappings wc)" "j \<in> set (wcj_ForkedFolders wc)"
  then have m: "distinct (map urj_GitHubProject (bmj_Upstream m))"
      "urj_GitHubProject ` set (bmj_Upstream m) = ffj_GitHubProject ` set (wcj_ForkedFolders wc)"
    using valid by (auto simp: config_valid_def mapping_valid_def)
  then obtain u where u: "u \<in> set (bmj_Upstream m)" "urj_GitHubProject u = ffj_GitHubProject j"
    using mj(2) by (metis image_iff)
  have "gm_get (Some (add_upstreams (bmj_Upstream m) [])) (ffj_GitHubProject j) = Some (upstream_of u)"
    using add_upstreams_extends [OF m(1), of "[]"] u by (auto simp: extends_by_def)
  then have "UpstreamForProject cfg (bmj_LocalBranch m) (folder_key j) = Inr (upstream_of u)"
    using ext mj by (simp add: UpstreamForProject_def extends_by_def mapping_of_def folder_of_def)
  then show "\<exists>u \<in> set (bmj_Upstream m). urj_GitHubProject u = ffj_GitHubProject j
      \<and> UpstreamForProject cfg (bmj_LocalBranch m) (folder_key j) = Inr \<lparr>ur_GitHubRepo = ffj_GitHubProject j, ur_Branch = urj_Branch u\<rparr>"
    using u by (auto simp: upstream_of_def)
qed

theorem UpstreamForProject_total_witness:
  "\<exists>cfg. Validate example_config = Inr (Inr cfg)
     \<and> UpstreamForProject cfg ''main'' \<lparr>rp_value = ''go''\<rparr> = Inr \<lparr>ur_GitHubRepo = ''a/b'', ur_Branch = ''y''\<rparr>
     \<and> UpstreamForProject cfg ''dev'' \<lparr>rp_value = ''go''\<rparr> = Inl (NoBranchMapping ''dev'')"
proof -
  obtain cfg where cfg: "Validate example_config = Inr (Inr cfg)"
    using Validate_valid [OF example_valid] by blast
  have "UpstreamForProject cfg ''main'' \<lparr>rp_value = ''go''\<rparr> = Inr \<lparr>ur_GitHubRepo = ''a/b'', ur_Branch = ''y''\<rparr>"
      "UpstreamForProject cfg ''dev'' \<lparr>rp_value = ''go''\<rparr> = Inl (NoBranchMapping ''dev'')"
    using UpstreamForProject_total [OF cfg, of "''dev''" "\<lparr>rp_value = ''go''\<rparr>"] by (simp_all add: example_config_def folder_key_def example_keys)
  then show ?thesis
    using cfg by blast
qed

end
