(* ===== verification/Ranges.thy ===== *)
theory Ranges
  imports Core_Types
begin

text \<open>
  \<^verbatim>\<open>base/ranges/ranges.go\<close>: half-open spans over Go's fixed-width integer types and the
  seven-way relation between two spans. A value of a numeric type is an \<open>int\<close> within the bounds
  of the type; the type itself (signedness and width) is a \<open>Numeric\<close> record, and arithmetic that
  may overflow is wrapped explicitly by \<open>num_wrap\<close>.
\<close>

section \<open>Data\<close>

record Numeric =
  num_signed :: bool
  num_bits :: nat

definition num_min :: "Numeric \<Rightarrow> int" where
  "num_min t = (if num_signed t then - (2 ^ (num_bits t - 1)) else 0)"

definition num_max :: "Numeric \<Rightarrow> int" where
  "num_max t = (if num_signed t then 2 ^ (num_bits t - 1) - 1 else 2 ^ num_bits t - 1)"

definition num_fits :: "Numeric \<Rightarrow> int \<Rightarrow> bool" where
  "num_fits t x \<longleftrightarrow> num_min t \<le> x \<and> x \<le> num_max t"

definition num_wrap :: "Numeric \<Rightarrow> int \<Rightarrow> int" where
  "num_wrap t x = (x - num_min t) mod 2 ^ num_bits t + num_min t"

text \<open>Go's \<open>int\<close>, on the 64-bit platforms the code targets, and \<open>int32\<close>.\<close>

definition go_int :: Numeric where
  "go_int = \<lparr>num_signed = True, num_bits = 64\<rparr>"

definition go_int32 :: Numeric where
  "go_int32 = \<lparr>num_signed = True, num_bits = 32\<rparr>"

record Span =
  span_start :: int
  span_end :: int

datatype Relation =
    Relation_BeforeStart | Relation_OverlapsStart | Relation_IsCoveredBy | Relation_Equal
  | Relation_Covers | Relation_OverlapsEnd | Relation_AfterEnd

section \<open>Operations\<close>

definition NewSpan :: "int \<Rightarrow> int \<Rightarrow> Span outcome" where
  "NewSpan start stop =
     go_bind (if stop < start then Preconditionf False ''end %v before start %v'' else Inr ())
       (\<lambda>_. Inr \<lparr>span_start = start, span_end = stop\<rparr>)"

definition Span_Start :: "Span \<Rightarrow> int" where
  "Span_Start s = span_start s"

definition Span_End :: "Span \<Rightarrow> int" where
  "Span_End s = span_end s"

definition Span_IsEmpty :: "Span \<Rightarrow> bool" where
  "Span_IsEmpty s = (span_start s = span_end s)"

definition Span_Contains :: "Span \<Rightarrow> int \<Rightarrow> bool" where
  "Span_Contains s v = (span_start s \<le> v \<and> v < span_end s)"

definition Span_Length :: "Numeric \<Rightarrow> Span \<Rightarrow> int BoundsChecked" where
  "Span_Length t s =
     (let len = num_wrap t (span_end s - span_start s)
      in if len < 0 then Overflowed 0 else InRange len)"

definition Span_CompareStrict :: "Span \<Rightarrow> Span \<Rightarrow> int" where
  "Span_CompareStrict s other =
     (let c = cmp_Compare (span_start s) (span_start other)
      in if c \<noteq> 0 then c else cmp_Compare (span_end s) (span_end other))"

definition Span_Overlaps :: "Span \<Rightarrow> Span \<Rightarrow> Relation" where
  "Span_Overlaps s other =
     (if span_start s = span_start other \<and> span_end s = span_end other then Relation_Equal
      else if span_end s \<le> span_start other then Relation_BeforeStart
      else if span_start s \<ge> span_end other then Relation_AfterEnd
      else if span_start s \<le> span_start other \<and> span_end s \<ge> span_end other then Relation_Covers
      else if span_start s \<ge> span_start other \<and> span_end s \<le> span_end other
           then Relation_IsCoveredBy
      else if span_start s < span_start other then Relation_OverlapsStart
      else Relation_OverlapsEnd)"

fun Relation_Inverse :: "Relation \<Rightarrow> Relation" where
  "Relation_Inverse Relation_BeforeStart = Relation_AfterEnd"
| "Relation_Inverse Relation_AfterEnd = Relation_BeforeStart"
| "Relation_Inverse Relation_Covers = Relation_IsCoveredBy"
| "Relation_Inverse Relation_IsCoveredBy = Relation_Covers"
| "Relation_Inverse Relation_OverlapsStart = Relation_OverlapsEnd"
| "Relation_Inverse Relation_OverlapsEnd = Relation_OverlapsStart"
| "Relation_Inverse Relation_Equal = Relation_Equal"

fun Relation_String :: "Relation \<Rightarrow> string" where
  "Relation_String Relation_BeforeStart = ''before-start''"
| "Relation_String Relation_OverlapsStart = ''overlaps-start''"
| "Relation_String Relation_IsCoveredBy = ''is-covered-by''"
| "Relation_String Relation_Equal = ''equal''"
| "Relation_String Relation_Covers = ''covers''"
| "Relation_String Relation_OverlapsEnd = ''overlaps-end''"
| "Relation_String Relation_AfterEnd = ''after-end''"

section \<open>Facts\<close>

text \<open>The invariant \<open>NewSpan\<close> establishes, and the set of values a span contains.\<close>

definition span_wf :: "Span \<Rightarrow> bool" where
  "span_wf s \<longleftrightarrow> span_start s \<le> span_end s"

definition span_set :: "Span \<Rightarrow> int set" where
  "span_set s = {v. Span_Contains s v}"

lemma NewSpan_ok: "start \<le> stop \<Longrightarrow> \<exists>s. NewSpan start stop = Inr s \<and> span_wf s"
  by (simp add: NewSpan_def span_wf_def)

lemma NewSpan_wf: "NewSpan start stop = Inr s \<Longrightarrow> span_wf s"
  by (auto simp: NewSpan_def span_wf_def assert_defs split: if_splits)

lemma span_set_interval: "span_set s = {span_start s ..< span_end s}"
  by (auto simp: span_set_def Span_Contains_def)

lemma num_wrap_id:
  assumes "num_bits t > 0" "num_fits t x"
  shows "num_wrap t x = x"
proof -
  have "2 ^ num_bits t = 2 * (2 ^ (num_bits t - 1) :: int)"
    using assms(1) by (simp flip: power_Suc)
  then have "0 \<le> x - num_min t" "x - num_min t < 2 ^ num_bits t"
    using assms(2) by (auto simp: num_fits_def num_min_def num_max_def split: if_splits)
  then show ?thesis
    by (simp add: num_wrap_def)
qed

lemma num_wrap_over:
  assumes "num_bits t > 0" "num_signed t" "num_max t < x" "x < 2 ^ num_bits t"
  shows "num_wrap t x = x - 2 ^ num_bits t"
proof -
  have p: "2 ^ num_bits t = 2 * (2 ^ (num_bits t - 1) :: int)"
    using assms(1) by (simp flip: power_Suc)
  have "(x - num_min t) mod 2 ^ num_bits t = (x - num_min t - 2 ^ num_bits t) mod 2 ^ num_bits t"
    by simp
  also have "\<dots> = x - num_min t - 2 ^ num_bits t"
    by (rule mod_pos_pos_trivial) (use assms p in \<open>auto simp: num_min_def num_max_def\<close>)
  finally show ?thesis
    by (simp add: num_wrap_def)
qed

text \<open>\<open>CompareStrict\<close> is the lexicographic order on the two ends.\<close>

lemma Span_CompareStrict_lex:
  "Span_CompareStrict s u =
     (if span_start s < span_start u \<or> span_start s = span_start u \<and> span_end s < span_end u then -1
      else if span_start s = span_start u \<and> span_end s = span_end u then 0 else 1)"
  by (auto simp: Span_CompareStrict_def cmp_Compare_def)

lemma interval_facts:
  fixes a b c d :: int
  assumes "a < b" and "c < d"
  shows "{a..<b} = {c..<d} \<longleftrightarrow> a = c \<and> b = d"
    and "{a..<b} \<inter> {c..<d} = {} \<longleftrightarrow> b \<le> c \<or> d \<le> a"
    and "{c..<d} \<subset> {a..<b} \<longleftrightarrow> a \<le> c \<and> d \<le> b \<and> (a \<noteq> c \<or> b \<noteq> d)"
proof -
  show eq: "{a..<b} = {c..<d} \<longleftrightarrow> a = c \<and> b = d"
    using assms by (simp add: atLeastLessThan_eq_iff)
  show "{a..<b} \<inter> {c..<d} = {} \<longleftrightarrow> b \<le> c \<or> d \<le> a"
    using assms by auto
  show "{c..<d} \<subset> {a..<b} \<longleftrightarrow> a \<le> c \<and> d \<le> b \<and> (a \<noteq> c \<or> b \<noteq> d)"
    using assms eq by (simp add: psubset_eq atLeastLessThan_subset_iff) auto
qed

section \<open>Properties\<close>

text \<open>
  C39. The length of a well-formed span whose ends are values of its numeric type: the true
  length when that fits the type, and \<open>Overflowed\<close> exactly when it does not. For unsigned types
  it always fits.
\<close>

theorem Span_Length_exact:
  assumes "num_bits t > 0" and "span_wf s"
    and "num_fits t (span_start s)" and "num_fits t (span_end s)"
  shows "Span_Length t s =
           (if num_fits t (span_end s - span_start s) then InRange (span_end s - span_start s)
            else Overflowed 0)"
    (is "_ = (if num_fits t ?len then _ else _)")
proof (cases "num_fits t ?len")
  case True
  then show ?thesis
    using assms(1,2) by (simp add: Span_Length_def num_wrap_id span_wf_def)
next
  case False
  have p: "2 ^ num_bits t = 2 * (2 ^ (num_bits t - 1) :: int)"
    using assms(1) by (simp flip: power_Suc)
  have "num_signed t" "num_max t < ?len" "?len < 2 ^ num_bits t"
    using assms False p zero_less_power [of "2 :: int" "num_bits t - 1"]
    by (auto simp: num_fits_def num_min_def num_max_def span_wf_def split: if_splits)
  then have "num_wrap t ?len < 0"
    using assms(1) num_wrap_over by simp
  with False show ?thesis
    by (simp add: Span_Length_def)
qed

theorem Span_Length_exact_witness:
  "Span_Length \<lparr>num_signed = True, num_bits = 8\<rparr> \<lparr>span_start = -100, span_end = 100\<rparr> = Overflowed 0
   \<and> Span_Length \<lparr>num_signed = False, num_bits = 8\<rparr> \<lparr>span_start = 5, span_end = 205\<rparr> = InRange 200"
  using Span_Length_exact [of "\<lparr>num_signed = True, num_bits = 8\<rparr>" "\<lparr>span_start = -100, span_end = 100\<rparr>"]
    Span_Length_exact [of "\<lparr>num_signed = False, num_bits = 8\<rparr>" "\<lparr>span_start = 5, span_end = 205\<rparr>"]
  by (simp add: num_fits_def num_min_def num_max_def span_wf_def)

text \<open>
  The relation computed by \<open>Overlaps\<close> is antisymmetric under \<open>Inverse\<close>, and on non-empty
  spans each of its cases has the set-theoretic meaning its name says.
\<close>

lemma Span_Overlaps_correct:
  assumes "span_wf s" and "span_wf u"
  shows "Span_Overlaps u s = Relation_Inverse (Span_Overlaps s u)
       \<and> (\<not> Span_IsEmpty s \<and> \<not> Span_IsEmpty u \<longrightarrow>
            (Span_Overlaps s u = Relation_Equal \<longleftrightarrow> span_set s = span_set u)
          \<and> (Span_Overlaps s u \<in> {Relation_BeforeStart, Relation_AfterEnd}
               \<longleftrightarrow> span_set s \<inter> span_set u = {})
          \<and> (Span_Overlaps s u = Relation_Covers \<longleftrightarrow> span_set u \<subset> span_set s)
          \<and> (Span_Overlaps s u = Relation_IsCoveredBy \<longleftrightarrow> span_set s \<subset> span_set u))"
  (is "?inv \<and> (?ne \<longrightarrow> ?sets)")
proof
  show ?inv
    using assms by (auto simp: Span_Overlaps_def span_wf_def)
  show "?ne \<longrightarrow> ?sets"
  proof
    assume ?ne
    then have lt: "span_start s < span_end s" "span_start u < span_end u"
      using assms by (simp_all add: span_wf_def Span_IsEmpty_def)
    then show ?sets
      by (simp add: span_set_interval interval_facts [OF lt] interval_facts [OF lt(2,1)])
         (auto simp: Span_Overlaps_def)
  qed
qed

end
