(* ===== verification/Utf8.thy ===== *)
theory Utf8
  imports Ranges
begin

unbundle bit_operations_syntax

text \<open>
  \<^verbatim>\<open>base/utf8/utf8.go\<close> and \<^verbatim>\<open>text.go\<close> over the decoder of the standard library's \<^verbatim>\<open>unicode/utf8\<close>, which is
  translated with its tables. A byte is an \<open>8 word\<close>, a rune a \<open>32 word\<close>. The specification is the grammar
  of RFC 3629, section 4, which the source quotes: \<open>utf8_char\<close> are the byte sequences of one character and
  \<open>utf8_text\<close> the concatenations of such sequences.
\<close>

section \<open>The decoder of the standard library\<close>

type_synonym rune = "32 word"

definition RuneError :: rune where
  "RuneError = 0xFFFD"

text \<open>The entries of the table \<open>first\<close>: the first nibble is an index into \<open>acceptRanges\<close> or F.\<close>

abbreviation u8_xx :: byte where "u8_xx \<equiv> 0xF1"
abbreviation u8_as :: byte where "u8_as \<equiv> 0xF0"
abbreviation u8_s1 :: byte where "u8_s1 \<equiv> 0x02"
abbreviation u8_s2 :: byte where "u8_s2 \<equiv> 0x13"
abbreviation u8_s3 :: byte where "u8_s3 \<equiv> 0x03"
abbreviation u8_s4 :: byte where "u8_s4 \<equiv> 0x23"
abbreviation u8_s5 :: byte where "u8_s5 \<equiv> 0x34"
abbreviation u8_s6 :: byte where "u8_s6 \<equiv> 0x04"
abbreviation u8_s7 :: byte where "u8_s7 \<equiv> 0x44"

definition utf8_first :: "byte list" where
  "utf8_first =
    [u8_as, u8_as, u8_as, u8_as, u8_as, u8_as, u8_as, u8_as, u8_as, u8_as, u8_as, u8_as, u8_as, u8_as, u8_as, u8_as,
     u8_as, u8_as, u8_as, u8_as, u8_as, u8_as, u8_as, u8_as, u8_as, u8_as, u8_as, u8_as, u8_as, u8_as, u8_as, u8_as,
     u8_as, u8_as, u8_as, u8_as, u8_as, u8_as, u8_as, u8_as, u8_as, u8_as, u8_as, u8_as, u8_as, u8_as, u8_as, u8_as,
     u8_as, u8_as, u8_as, u8_as, u8_as, u8_as, u8_as, u8_as, u8_as, u8_as, u8_as, u8_as, u8_as, u8_as, u8_as, u8_as,
     u8_as, u8_as, u8_as, u8_as, u8_as, u8_as, u8_as, u8_as, u8_as, u8_as, u8_as, u8_as, u8_as, u8_as, u8_as, u8_as,
     u8_as, u8_as, u8_as, u8_as, u8_as, u8_as, u8_as, u8_as, u8_as, u8_as, u8_as, u8_as, u8_as, u8_as, u8_as, u8_as,
     u8_as, u8_as, u8_as, u8_as, u8_as, u8_as, u8_as, u8_as, u8_as, u8_as, u8_as, u8_as, u8_as, u8_as, u8_as, u8_as,
     u8_as, u8_as, u8_as, u8_as, u8_as, u8_as, u8_as, u8_as, u8_as, u8_as, u8_as, u8_as, u8_as, u8_as, u8_as, u8_as,
     u8_xx, u8_xx, u8_xx, u8_xx, u8_xx, u8_xx, u8_xx, u8_xx, u8_xx, u8_xx, u8_xx, u8_xx, u8_xx, u8_xx, u8_xx, u8_xx,
     u8_xx, u8_xx, u8_xx, u8_xx, u8_xx, u8_xx, u8_xx, u8_xx, u8_xx, u8_xx, u8_xx, u8_xx, u8_xx, u8_xx, u8_xx, u8_xx,
     u8_xx, u8_xx, u8_xx, u8_xx, u8_xx, u8_xx, u8_xx, u8_xx, u8_xx, u8_xx, u8_xx, u8_xx, u8_xx, u8_xx, u8_xx, u8_xx,
     u8_xx, u8_xx, u8_xx, u8_xx, u8_xx, u8_xx, u8_xx, u8_xx, u8_xx, u8_xx, u8_xx, u8_xx, u8_xx, u8_xx, u8_xx, u8_xx,
     u8_xx, u8_xx, u8_s1, u8_s1, u8_s1, u8_s1, u8_s1, u8_s1, u8_s1, u8_s1, u8_s1, u8_s1, u8_s1, u8_s1, u8_s1, u8_s1,
     u8_s1, u8_s1, u8_s1, u8_s1, u8_s1, u8_s1, u8_s1, u8_s1, u8_s1, u8_s1, u8_s1, u8_s1, u8_s1, u8_s1, u8_s1, u8_s1,
     u8_s2, u8_s3, u8_s3, u8_s3, u8_s3, u8_s3, u8_s3, u8_s3, u8_s3, u8_s3, u8_s3, u8_s3, u8_s3, u8_s4, u8_s3, u8_s3,
     u8_s5, u8_s6, u8_s6, u8_s6, u8_s7, u8_xx, u8_xx, u8_xx, u8_xx, u8_xx, u8_xx, u8_xx, u8_xx, u8_xx, u8_xx, u8_xx]"

definition locb :: byte where "locb = 0x80"

definition hicb :: byte where "hicb = 0xBF"

text \<open>The array has size 16; the entries from 5 on are zero.\<close>

definition acceptRanges :: "(byte \<times> byte) list" where
  "acceptRanges = [(locb, hicb), (0xA0, hicb), (locb, 0x9F), (0x90, hicb), (locb, 0x8F)] @ replicate 11 (0, 0)"

definition RuneStart :: "byte \<Rightarrow> bool" where
  "RuneStart b \<longleftrightarrow> b AND 0xC0 \<noteq> 0x80"

definition RuneLen :: "rune \<Rightarrow> int" where
  "RuneLen r =
     (if r <s 0 then -1
      else if r \<le>s 0x7F then 1
      else if r \<le>s 0x7FF then 2
      else if 0xD800 \<le>s r \<and> r \<le>s 0xDFFF then -1
      else if r \<le>s 0xFFFF then 3
      else if r \<le>s 0x10FFFF then 4
      else -1)"

definition FullRune :: "bytes \<Rightarrow> bool" where
  "FullRune p =
     (let n = length p
      in if n = 0 then False
         else let x = utf8_first ! unat (p ! 0)
              in if n \<ge> unat (x AND 7) then True
                 else let (lo, hi) = acceptRanges ! unat (drop_bit 4 x)
                      in if n > 1 \<and> (p ! 1 < lo \<or> hi < p ! 1) then True
                         else if n > 2 \<and> (p ! 2 < locb \<or> hicb < p ! 2) then True
                         else False)"

text \<open>The runes that two, three and four bytes encode.\<close>

definition rune2 :: "byte \<Rightarrow> byte \<Rightarrow> rune" where
  "rune2 s0 s1 = push_bit 6 (ucast (s0 AND 0x1F)) OR ucast (s1 AND 0x3F)"

definition rune3 :: "byte \<Rightarrow> byte \<Rightarrow> byte \<Rightarrow> rune" where
  "rune3 s0 s1 s2 =
     push_bit 12 (ucast (s0 AND 0x0F)) OR push_bit 6 (ucast (s1 AND 0x3F)) OR ucast (s2 AND 0x3F)"

definition rune4 :: "byte \<Rightarrow> byte \<Rightarrow> byte \<Rightarrow> byte \<Rightarrow> rune" where
  "rune4 s0 s1 s2 s3 =
     push_bit 18 (ucast (s0 AND 0x07)) OR push_bit 12 (ucast (s1 AND 0x3F))
       OR push_bit 6 (ucast (s2 AND 0x3F)) OR ucast (s3 AND 0x3F)"

definition decodeRuneInStringSlow :: "bytes \<Rightarrow> rune \<times> nat" where
  "decodeRuneInStringSlow s =
     (let n = length s
      in if n < 1 then (RuneError, 0)
         else
           let s0 = s ! 0; x = utf8_first ! unat s0
           in if x \<ge> u8_as
              then let mask = signed_drop_bit 31 (push_bit 31 (ucast x :: rune))
                   in ((ucast s0 AND NOT mask) OR (RuneError AND mask), 1)
              else
                let sz = unat (x AND 7); (lo, hi) = acceptRanges ! unat (drop_bit 4 x)
                in if n < sz then (RuneError, 1)
                   else let s1 = s ! 1
                        in if s1 < lo \<or> hi < s1 then (RuneError, 1)
                           else if sz \<le> 2 then (rune2 s0 s1, 2)
                           else let s2 = s ! 2
                                in if s2 < locb \<or> hicb < s2 then (RuneError, 1)
                                   else if sz \<le> 3 then (rune3 s0 s1 s2, 3)
                                   else let s3 = s ! 3
                                        in if s3 < locb \<or> hicb < s3 then (RuneError, 1)
                                           else (rune4 s0 s1 s2 s3, 4))"

definition DecodeRuneInString :: "bytes \<Rightarrow> rune \<times> nat" where
  "DecodeRuneInString s =
     (if s \<noteq> [] \<and> s ! 0 < 0x80 then (ucast (s ! 0), 1) else decodeRuneInStringSlow s)"

section \<open>\<^verbatim>\<open>utf8.go\<close>\<close>

record RuneDecodingResult =
  rdr_r :: rune
  rdr_byteLen :: byte

datatype RuneDecodingResultKind =
  RuneDecodingResultKind_Valid | RuneDecodingResultKind_Invalid | RuneDecodingResultKind_Empty

definition TryDecodeFirstRune :: "bytes \<Rightarrow> RuneDecodingResult" where
  "TryDecodeFirstRune s = (case DecodeRuneInString s of (r, sz) \<Rightarrow> \<lparr>rdr_r = r, rdr_byteLen = of_nat sz\<rparr>)"

definition RuneDecodingResult_Kind :: "RuneDecodingResult \<Rightarrow> RuneDecodingResultKind" where
  "RuneDecodingResult_Kind r =
     (if rdr_byteLen r = 0 then RuneDecodingResultKind_Empty
      else if rdr_r r = RuneError \<and> rdr_byteLen r = 1 then RuneDecodingResultKind_Invalid
      else RuneDecodingResultKind_Valid)"

definition RuneDecodingResult_Rune :: "RuneDecodingResult \<Rightarrow> rune outcome" where
  "RuneDecodingResult_Rune r =
     go_bind (if RuneDecodingResult_Kind r \<noteq> RuneDecodingResultKind_Valid
              then Precondition False ''RuneDecodingResult.Rune requires a valid decoding result'' else Inr ())
       (\<lambda>_. Inr (rdr_r r))"

definition RuneDecodingResult_ByteLen :: "RuneDecodingResult \<Rightarrow> nat" where
  "RuneDecodingResult_ByteLen r = unat (rdr_byteLen r)"

definition IsPotentialStartOfRune :: "byte \<Rightarrow> bool" where
  "IsPotentialStartOfRune b = RuneStart b"

definition utf8LeadByteInfo :: "byte \<Rightarrow> nat \<times> byte \<times> byte \<times> bool" where
  "utf8LeadByteInfo b =
     (if 0xC2 \<le> b \<and> b \<le> 0xDF then (2, 0x80, 0xBF, True)
      else if b = 0xE0 then (3, 0xA0, 0xBF, True)
      else if 0xE1 \<le> b \<and> b \<le> 0xEC then (3, 0x80, 0xBF, True)
      else if b = 0xED then (3, 0x80, 0x9F, True)
      else if 0xEE \<le> b \<and> b \<le> 0xEF then (3, 0x80, 0xBF, True)
      else if b = 0xF0 then (4, 0x90, 0xBF, True)
      else if 0xF1 \<le> b \<and> b \<le> 0xF3 then (4, 0x80, 0xBF, True)
      else if b = 0xF4 then (4, 0x80, 0x8F, True)
      else (0, 0, 0, False))"

definition isContinuationByte :: "byte \<Rightarrow> bool" where
  "isContinuationByte b \<longleftrightarrow> 0x80 \<le> b \<and> b \<le> 0xBF"

definition invalidUTF8SpanAt :: "bytes \<Rightarrow> nat \<Rightarrow> Span outcome" where
  "invalidUTF8SpanAt text start =
     go_bind (slice_get text (int start)) (\<lambda>b0.
     let (width, secondMin, secondMax, ok) = utf8LeadByteInfo b0; len = length text; i = int start
     in if \<not> ok then NewSpan i (i + 1)
        else if len \<le> start + 1 then NewSpan i (int len)
        else if text ! (start + 1) < secondMin \<or> secondMax < text ! (start + 1) then NewSpan i (i + 2)
        else go_bind (if width = 2
                      then Invariant False ''DecodeRuneInString reported invalid UTF-8 for a complete two-byte encoding''
                      else Inr ()) (\<lambda>_.
        if len \<le> start + 2 then NewSpan i (int len)
        else if \<not> isContinuationByte (text ! (start + 2)) then NewSpan i (i + 3)
        else go_bind (if width = 3
                      then Invariant False ''DecodeRuneInString reported invalid UTF-8 for a complete three-byte encoding''
                      else Inr ()) (\<lambda>_.
        if len \<le> start + 3 then NewSpan i (int len)
        else if \<not> isContinuationByte (text ! (start + 3)) then NewSpan i (i + 4)
        else go_bind (Invariant False ''DecodeRuneInString reported invalid UTF-8 for a complete four-byte encoding'')
               (\<lambda>_. NewSpan i (i + 4)))))"

lemma decode_size_pos: "s \<noteq> [] \<Longrightarrow> snd (DecodeRuneInString s) > 0"
  by (cases s) (auto simp: DecodeRuneInString_def decodeRuneInStringSlow_def Let_def split: prod.splits)

function firstInvalid_loop :: "bytes \<Rightarrow> nat \<Rightarrow> Span option outcome" where
  "firstInvalid_loop text i =
     (if i < length text
      then case DecodeRuneInString (drop i text) of (r, sz) \<Rightarrow>
             if r = RuneError \<and> sz = 1
             then go_bind (invalidUTF8SpanAt text i) (\<lambda>span. Inr (Some span))
             else firstInvalid_loop text (i + sz)
      else Inr None)"
  by pat_completeness auto
termination
proof (relation "measure (\<lambda>(text, i). length text - i)", simp, clarsimp)
  fix s :: bytes and i :: nat and r :: rune and sz :: nat
  assume "i < length s" "(r, sz) = DecodeRuneInString (drop i s)"
  then show "length s - (i + sz) < length s - i"
    using decode_size_pos [of "drop i s"] by (metis add_gr_0 diff_less_mono2 drop_eq_Nil2 leD less_add_same_cancel1 snd_conv)
qed

declare firstInvalid_loop.simps [simp del]

definition firstInvalidSpan :: "bytes \<Rightarrow> Span option outcome" where
  "firstInvalidSpan text = firstInvalid_loop text 0"

section \<open>\<^verbatim>\<open>text.go\<close>\<close>

record Text =
  txt_text :: bytes

record TextParseError =
  tpe_firstInvalidSpan :: Span
  tpe_firstInvalidBytes :: bytes

definition NewTextParseError :: "int \<Rightarrow> Span \<Rightarrow> bytes \<Rightarrow> TextParseError outcome" where
  "NewTextParseError inputLen span invalidUTF8 =
     (let start = Span_Start span; stop = Span_End span
      in go_bind (if start < 0 then Preconditionf False ''invalid UTF-8 span start %d before 0'' else Inr ()) (\<lambda>_.
         go_bind (if inputLen < stop
                  then Preconditionf False ''invalid UTF-8 span end %d after input length %d'' else Inr ()) (\<lambda>_.
         go_bind (BoundsChecked_Unwrap (Span_Length go_int span)) (\<lambda>len.
         go_bind (if int (length invalidUTF8) \<noteq> len
                  then Preconditionf False ''invalid byte prefix length %d; expected span length %d'' else Inr ()) (\<lambda>_.
         go_bind (if length invalidUTF8 < 1 \<or> 4 < length invalidUTF8
                  then Preconditionf False ''invalid byte prefix length %d outside [1, 4]'' else Inr ()) (\<lambda>_.
         go_bind (if \<not> FullRune invalidUTF8 \<and> stop \<noteq> inputLen
                  then Preconditionf False ''truncated UTF-8 span end %d before input length %d'' else Inr ()) (\<lambda>_.
         Inr \<lparr>tpe_firstInvalidSpan = span,
              tpe_firstInvalidBytes = go_copy (replicate 4 0) invalidUTF8\<rparr>)))))))"

definition invalidBytesPrefix :: "bytes \<Rightarrow> Span \<Rightarrow> bytes outcome" where
  "invalidBytesPrefix s span =
     go_bind (slice_sub s (Span_Start span) (Span_End span)) (\<lambda>b. Inr (go_copy (replicate 4 0) b))"

definition ParseText :: "bytes \<Rightarrow> (TextParseError + Text) outcome" where
  "ParseText s =
     go_bind (firstInvalidSpan s) (\<lambda>r. case r of
        Some span \<Rightarrow>
          go_bind (invalidBytesPrefix s span) (\<lambda>firstInvalidBytes.
          go_bind (BoundsChecked_Unwrap (Span_Length go_int span)) (\<lambda>len.
          go_bind (slice_sub firstInvalidBytes 0 len) (\<lambda>b.
          go_bind (NewTextParseError (int (length s)) span b) (\<lambda>e. Inr (Inl e)))))
      | None \<Rightarrow> Inr (Inr \<lparr>txt_text = s\<rparr>))"

definition MustParseText :: "bytes \<Rightarrow> Text outcome" where
  "MustParseText s =
     go_bind (ParseText s) (\<lambda>r. case r of
        Inl err \<Rightarrow> go_bind (Preconditionf False ''%v'') (\<lambda>_. Inr \<lparr>txt_text = []\<rparr>)
      | Inr text \<Rightarrow> Inr text)"

definition Text_Len :: "Text \<Rightarrow> nat" where
  "Text_Len t = length (txt_text t)"

definition Text_GetByte :: "Text \<Rightarrow> int \<Rightarrow> byte outcome" where
  "Text_GetByte t i = slice_get (txt_text t) i"

text \<open>The loop that looks for the start of the code point; the argument is \<open>start + 1\<close>, so that 0 ends it.\<close>

fun startBefore :: "bytes \<Rightarrow> nat \<Rightarrow> nat option" where
  "startBefore text 0 = None"
| "startBefore text (Suc start) =
     (if \<not> IsPotentialStartOfRune (text ! start) then startBefore text start else Some start)"

definition CodePointContaining :: "Text \<Rightarrow> int \<Rightarrow> Span option outcome" where
  "CodePointContaining t offset =
     (let text = txt_text t
      in go_bind (if offset < 0 \<or> int (length text) < offset
                  then Preconditionf False ''offset %d outside text bounds [0, %d]'' else Inr ()) (\<lambda>_.
         if offset = 0 \<or> offset = int (length text) then Inr None
         else case startBefore text (nat offset) of
                None \<Rightarrow> Inr None
              | Some start \<Rightarrow>
                  let ends = start + RuneDecodingResult_ByteLen (TryDecodeFirstRune (drop start text))
                  in if int start < offset \<and> offset < int ends
                     then go_bind (NewSpan (int start) (int ends)) (\<lambda>s. Inr (Some s))
                     else Inr None))"

text \<open>\<open>writeInvalidBytesHex\<close> and \<open>writeInt\<close>, as the text they write.\<close>

definition hexDigits :: string where
  "hexDigits = ''0123456789ABCDEF''"

fun writeInvalidBytesHex :: "bytes \<Rightarrow> string" where
  "writeInvalidBytesHex [] = []"
| "writeInvalidBytesHex (b # bs) =
     hexDigits ! unat (drop_bit 4 b) # hexDigits ! unat (b AND 0x0F) # writeInvalidBytesHex bs"

fun dec_digits :: "nat \<Rightarrow> string" where
  "dec_digits n = (if n < 10 then [hexDigits ! n] else dec_digits (n div 10) @ [hexDigits ! (n mod 10)])"

declare dec_digits.simps [simp del]

definition writeInt :: "int \<Rightarrow> string" where
  "writeInt n = (if n < 0 then ''-'' @ dec_digits (nat (- n)) else dec_digits (nat n))"

definition TextParseError_Error :: "TextParseError \<Rightarrow> string outcome" where
  "TextParseError_Error e =
     (let span = tpe_firstInvalidSpan e
      in go_bind (BoundsChecked_Unwrap (Span_Length go_int span)) (\<lambda>len.
         if len = 1
         then Inr (''invalid UTF-8 byte 0x'' @ writeInvalidBytesHex (take 1 (tpe_firstInvalidBytes e))
                   @ '' at byte offset '' @ writeInt (Span_Start span))
         else Inr (''invalid UTF-8 bytes '' @ ''0x'' @ writeInvalidBytesHex (take (nat len) (tpe_firstInvalidBytes e))
                   @ '' at byte span ['' @ writeInt (Span_Start span) @ '', '' @ writeInt (Span_End span) @ '')'')))"

section \<open>The grammar of RFC 3629\<close>

abbreviation utf8_tail :: "byte \<Rightarrow> bool" where
  "utf8_tail b \<equiv> 0x80 \<le> b \<and> b \<le> 0xBF"

fun utf8_char :: "bytes \<Rightarrow> bool" where
  "utf8_char [a] \<longleftrightarrow> a \<le> 0x7F"
| "utf8_char [a, b] \<longleftrightarrow> 0xC2 \<le> a \<and> a \<le> 0xDF \<and> utf8_tail b"
| "utf8_char [a, b, c] \<longleftrightarrow>
     (a = 0xE0 \<and> 0xA0 \<le> b \<and> b \<le> 0xBF \<or> 0xE1 \<le> a \<and> a \<le> 0xEC \<and> utf8_tail b
      \<or> a = 0xED \<and> 0x80 \<le> b \<and> b \<le> 0x9F \<or> 0xEE \<le> a \<and> a \<le> 0xEF \<and> utf8_tail b) \<and> utf8_tail c"
| "utf8_char [a, b, c, d] \<longleftrightarrow>
     (a = 0xF0 \<and> 0x90 \<le> b \<and> b \<le> 0xBF \<or> 0xF1 \<le> a \<and> a \<le> 0xF3 \<and> utf8_tail b
      \<or> a = 0xF4 \<and> 0x80 \<le> b \<and> b \<le> 0x8F) \<and> utf8_tail c \<and> utf8_tail d"
| "utf8_char _ \<longleftrightarrow> False"

inductive utf8_text :: "bytes \<Rightarrow> bool" where
  Nil: "utf8_text []"
| Char: "utf8_char c \<Longrightarrow> utf8_text s \<Longrightarrow> utf8_text (c @ s)"

section \<open>The tables and the lead bytes\<close>

lemma all_bytes: "list_all P (map of_nat [0..<256]) \<Longrightarrow> P (b :: byte)"
proof -
  assume "list_all P (map of_nat [0..<256])"
  moreover have "unat b < 256"
    using unsigned_less [of b] by simp
  then have "b \<in> set (map of_nat [0..<256])"
    using image_eqI [of b of_nat "unat b" "{0..<256}"] by simp
  ultimately show ?thesis
    by (auto simp: list_all_iff)
qed

definition lead_ok :: "byte \<Rightarrow> bool" where
  "lead_ok b =
     (let x = utf8_first ! unat b
      in if b < 0x80 then x = u8_as
         else case utf8LeadByteInfo b of (w, lo, hi, ok) \<Rightarrow>
                if ok then x < u8_as \<and> unat (x AND 7) = w \<and> acceptRanges ! unat (drop_bit 4 x) = (lo, hi)
                  \<and> (w = 2 \<or> w = 3 \<or> w = 4) \<and> lo \<le> hi
                else x = u8_xx)"

lemma lead_ok: "lead_ok b"
  by (rule all_bytes) code_simp

lemma RuneStart_iff: "RuneStart b \<longleftrightarrow> \<not> utf8_tail b"
proof -
  have "RuneStart b = (\<not> utf8_tail b)"
    by (rule all_bytes [of "\<lambda>b. RuneStart b = (\<not> utf8_tail b)"]) code_simp
  then show ?thesis .
qed

section \<open>Decoding\<close>

text \<open>A multi-byte character: its lead byte fixes its length and the range of its second byte.\<close>

definition multi_char :: "bytes \<Rightarrow> bool" where
  "multi_char c \<longleftrightarrow> c \<noteq> [] \<and> \<not> c ! 0 < 0x80 \<and>
     (case utf8LeadByteInfo (c ! 0) of (w, lo, hi, ok) \<Rightarrow>
        ok \<and> length c = w \<and> lo \<le> c ! 1 \<and> c ! 1 \<le> hi \<and> (w > 2 \<longrightarrow> utf8_tail (c ! 2)) \<and> (w > 3 \<longrightarrow> utf8_tail (c ! 3)))"

lemmas byte_arith = word_le_nat_alt word_less_nat_alt word_unat_eq_iff

lemma utf8_char_cases:
  "utf8_char c \<longleftrightarrow> (\<exists>a. c = [a] \<and> a < 0x80) \<or> multi_char c"
proof (cases c rule: utf8_char.cases)
  case (2 a b)
  then show ?thesis
    by (auto simp: multi_char_def utf8LeadByteInfo_def byte_arith split: if_splits)
next
  case (3 a b c)
  then show ?thesis
    by (auto simp: multi_char_def utf8LeadByteInfo_def byte_arith split: if_splits)
next
  case (4 a b c d)
  then show ?thesis
    by (auto simp: multi_char_def utf8LeadByteInfo_def byte_arith split: if_splits)
qed (auto simp: multi_char_def utf8LeadByteInfo_def byte_arith split: if_splits)

lemma invalid_mask: "signed_drop_bit 31 (push_bit 31 (ucast u8_xx :: rune)) = -1"
  by code_simp

lemma decode_empty: "DecodeRuneInString [] = (RuneError, 0)"
  by (simp add: DecodeRuneInString_def decodeRuneInStringSlow_def)

lemma decode_ascii: "a < 0x80 \<Longrightarrow> DecodeRuneInString (a # s) = (ucast a, 1) \<and> ucast a \<noteq> RuneError"
proof -
  assume a: "a < 0x80"
  have "unat a < 256"
    using unsigned_less [of a] by simp
  then have "take_bit 32 (unat a) = unat a"
    by (intro take_bit_nat_eq_self) simp
  then have "ucast a \<noteq> RuneError"
    using a by (auto simp: RuneError_def byte_arith unsigned_ucast_eq)
  then show ?thesis
    using a by (simp add: DecodeRuneInString_def)
qed

text \<open>The decoder in terms of \<open>utf8LeadByteInfo\<close>, for a lead byte that is not ASCII.\<close>

lemma decode_multi:
  assumes "s \<noteq> []" and "\<not> s ! 0 < 0x80" and "utf8LeadByteInfo (s ! 0) = (w, lo, hi, ok)"
  defines "good \<equiv> ok \<and> w \<le> length s \<and> lo \<le> s ! 1 \<and> s ! 1 \<le> hi \<and> (w > 2 \<longrightarrow> utf8_tail (s ! 2)) \<and> (w > 3 \<longrightarrow> utf8_tail (s ! 3))"
  shows "good \<Longrightarrow> snd (DecodeRuneInString s) = w \<and> w \<in> {2, 3, 4}"
    and "\<not> good \<Longrightarrow> DecodeRuneInString s = (RuneError, 1)"
proof -
  let ?x = "utf8_first ! unat (s ! 0)"
  have lead: "if ok then ?x < u8_as \<and> unat (?x AND 7) = w \<and> acceptRanges ! unat (drop_bit 4 ?x) = (lo, hi)
      \<and> (w = 2 \<or> w = 3 \<or> w = 4) \<and> lo \<le> hi else ?x = u8_xx"
    using lead_ok [of "s ! 0"] assms(2,3) by (simp add: lead_ok_def Let_def)
  have slow: "DecodeRuneInString s = decodeRuneInStringSlow s"
    using assms(2) by (simp add: DecodeRuneInString_def)
  have "if good then snd (DecodeRuneInString s) = w \<and> w \<in> {2, 3, 4} else DecodeRuneInString s = (RuneError, 1)"
  proof (cases ok)
    case False
    then have "decodeRuneInStringSlow s = (RuneError, 1)"
      using lead assms(1) by (simp add: decodeRuneInStringSlow_def Let_def invalid_mask)
    then show ?thesis
      using False slow by (simp add: good_def)
  next
    case True
    then have x: "\<not> u8_as \<le> ?x" "unat (?x AND 7) = w" "acceptRanges ! unat (drop_bit 4 ?x) = (lo, hi)"
      and w: "w = 2 \<or> w = 3 \<or> w = 4"
      using lead by auto
    have n: "\<not> length s < 1"
      using assms(1) by (simp add: Suc_le_eq)
    have range: "(b < l \<or> h < b) = (\<not> (l \<le> b \<and> b \<le> h))" for b l h :: byte
      by auto
    define P where "P \<longleftrightarrow> lo \<le> s ! 1 \<and> s ! 1 \<le> hi"
    define Q where "Q \<longleftrightarrow> utf8_tail (s ! 2)"
    define R where "R \<longleftrightarrow> utf8_tail (s ! 3)"
    have dec: "decodeRuneInStringSlow s =
        (if length s < w then (RuneError, 1) else if \<not> P then (RuneError, 1)
         else if w \<le> 2 then (rune2 (s ! 0) (s ! 1), 2) else if \<not> Q then (RuneError, 1)
         else if w \<le> 3 then (rune3 (s ! 0) (s ! 1) (s ! 2), 3) else if \<not> R then (RuneError, 1)
         else (rune4 (s ! 0) (s ! 1) (s ! 2) (s ! 3), 4))"
      unfolding decodeRuneInStringSlow_def Let_def if_not_P [OF n] if_not_P [OF x(1)] x(2,3) prod.case
        locb_def hicb_def range P_def Q_def R_def by (rule refl)
    have "good \<longleftrightarrow> w \<le> length s \<and> P \<and> (w > 2 \<longrightarrow> Q) \<and> (w > 3 \<longrightarrow> R)"
      using True by (simp add: good_def P_def Q_def R_def)
    then show ?thesis
      using w unfolding slow dec by auto
  qed
  then show "good \<Longrightarrow> snd (DecodeRuneInString s) = w \<and> w \<in> {2, 3, 4}"
    and "\<not> good \<Longrightarrow> DecodeRuneInString s = (RuneError, 1)"
    by simp_all
qed

lemma decode_valid:
  assumes "utf8_char c"
  shows "\<exists>r. DecodeRuneInString (c @ s) = (r, length c) \<and> \<not> (r = RuneError \<and> length c = 1)"
proof -
  consider a where "c = [a]" "a < 0x80" | "multi_char c"
    using assms utf8_char_cases by blast
  then show ?thesis
  proof cases
    case 1
    then show ?thesis
      using decode_ascii [of a s] by simp
  next
    case 2
    obtain w lo hi ok where info: "utf8LeadByteInfo (c ! 0) = (w, lo, hi, ok)"
      by (cases "utf8LeadByteInfo (c ! 0)")
    have c: "c \<noteq> []" "\<not> c ! 0 < 0x80" "ok" "length c = w" "lo \<le> c ! 1 \<and> c ! 1 \<le> hi"
      "w > 2 \<longrightarrow> utf8_tail (c ! 2)" "w > 3 \<longrightarrow> utf8_tail (c ! 3)"
      using 2 info by (simp_all add: multi_char_def)
    have w: "w = 2 \<or> w = 3 \<or> w = 4"
      using lead_ok [of "c ! 0"] c(2,3) info by (simp add: lead_ok_def Let_def)
    have nth: "(c @ s) ! i = c ! i" if "i < w" for i
      using that c(4) by (simp add: nth_append)
    have "snd (DecodeRuneInString (c @ s)) = w"
      using decode_multi(1) [of "c @ s" w lo hi ok] c info w nth [of 0] nth [of 1] nth [of 2] nth [of 3] by auto
    then show ?thesis
      using c(4) w by (cases "DecodeRuneInString (c @ s)") auto
  qed
qed

lemma decode_invalid:
  assumes "s \<noteq> []" and "\<And>k. \<not> utf8_char (take k s)"
  shows "DecodeRuneInString s = (RuneError, 1)"
proof -
  have ascii: "\<not> s ! 0 < 0x80"
    using assms(1) assms(2) [of 1] utf8_char_cases [of "take 1 s"] by (cases s) auto
  obtain w lo hi ok where info: "utf8LeadByteInfo (s ! 0) = (w, lo, hi, ok)"
    by (cases "utf8LeadByteInfo (s ! 0)")
  show ?thesis
  proof (rule ccontr)
    assume "DecodeRuneInString s \<noteq> (RuneError, 1)"
    then have good: "ok" "w \<le> length s" "lo \<le> s ! 1" "s ! 1 \<le> hi" "w > 2 \<longrightarrow> utf8_tail (s ! 2)"
      "w > 3 \<longrightarrow> utf8_tail (s ! 3)" and w: "w = 2 \<or> w = 3 \<or> w = 4"
      using decode_multi [OF assms(1) ascii info] by auto
    have nth: "take w s ! i = s ! i" if "i < w" for i
      using that by simp
    have "multi_char (take w s)"
      using good w info ascii assms(1) nth [of 0] nth [of 1] nth [of 2] nth [of 3]
      by (auto simp: multi_char_def)
    then show False
      using assms(2) [of w] utf8_char_cases by blast
  qed
qed

lemma utf8_char_ne: "utf8_char c \<Longrightarrow> c \<noteq> []"
  by auto

lemma utf8_char_prefix:
  assumes "utf8_char c" and "utf8_char d" and "c @ s = d @ t"
  shows "c = d \<and> s = t"
proof -
  have "length c = length d"
    using decode_valid [OF assms(1), of s] decode_valid [OF assms(2), of t] assms(3) by auto
  then show ?thesis
    using assms(3) by simp
qed

inductive_cases utf8_textE: "utf8_text s"

lemma utf8_text_cons: "utf8_char c \<Longrightarrow> utf8_text (c @ s) \<longleftrightarrow> utf8_text s"
proof
  assume c: "utf8_char c" and cs: "utf8_text (c @ s)"
  from cs show "utf8_text s"
  proof cases
    case (Char d t)
    then show ?thesis
      using utf8_char_prefix [OF c Char(2), of s t] by simp
  qed (use utf8_char_ne [OF c] in simp)
qed (rule utf8_text.Char)

lemma utf8_text_head: "utf8_text s \<Longrightarrow> s \<noteq> [] \<Longrightarrow> \<exists>k. utf8_char (take k s)"
proof (erule utf8_textE, simp)
  fix c t
  assume "s = c @ t" "utf8_char c"
  then show ?thesis
    by (intro exI [of _ "length c"]) simp
qed

lemma utf8_text_snoc: "utf8_text s \<Longrightarrow> utf8_char c \<Longrightarrow> utf8_text (s @ c)"
  by (induction rule: utf8_text.induct) (use utf8_text.intros(2) [of c "[]"] utf8_text.intros in auto)

section \<open>Invalid spans\<close>

definition malformed :: "bytes \<Rightarrow> bool" where
  "malformed bs \<longleftrightarrow> (\<forall>r. \<not> utf8_char (bs @ r))"

definition truncated :: "bytes \<Rightarrow> bool" where
  "truncated bs \<longleftrightarrow> \<not> utf8_char bs \<and> (\<exists>r. utf8_char (bs @ r))"

text \<open>Which byte sequences with a lead byte that is not ASCII are prefixes of a character.\<close>

lemma extends_iff:
  assumes "bs \<noteq> []" and "\<not> bs ! 0 < 0x80" and "utf8LeadByteInfo (bs ! 0) = (w, lo, hi, ok)"
  shows "(\<exists>r. utf8_char (bs @ r)) \<longleftrightarrow> ok \<and> length bs \<le> w \<and> (length bs > 1 \<longrightarrow> lo \<le> bs ! 1 \<and> bs ! 1 \<le> hi)
    \<and> (length bs > 2 \<longrightarrow> utf8_tail (bs ! 2)) \<and> (length bs > 3 \<longrightarrow> utf8_tail (bs ! 3))" (is "?L \<longleftrightarrow> ?R")
proof
  assume ?L
  then obtain r where "utf8_char (bs @ r)" by blast
  moreover have "(bs @ r) ! 0 = bs ! 0"
    using assms(1) by (simp add: nth_append)
  ultimately have c: "multi_char (bs @ r)"
    using utf8_char_cases [of "bs @ r"] assms(2) by (cases bs) auto
  have nth: "(bs @ r) ! i = bs ! i" if "i < length bs" for i
    using that by (simp add: nth_append)
  have "ok" "length (bs @ r) = w" "lo \<le> (bs @ r) ! 1 \<and> (bs @ r) ! 1 \<le> hi"
    "w > 2 \<longrightarrow> utf8_tail ((bs @ r) ! 2)" "w > 3 \<longrightarrow> utf8_tail ((bs @ r) ! 3)"
    using c assms(1,3) nth [of 0] by (simp_all add: multi_char_def)
  moreover have "length bs \<le> w"
    using calculation(2) by simp
  moreover have "length bs > 1 \<longrightarrow> lo \<le> bs ! 1 \<and> bs ! 1 \<le> hi"
    using calculation(3) nth [of 1] by auto
  moreover have "length bs > 2 \<longrightarrow> utf8_tail (bs ! 2)"
    using calculation(4,6) nth [of 2] by auto
  moreover have "length bs > 3 \<longrightarrow> utf8_tail (bs ! 3)"
    using calculation(5,6) nth [of 3] by auto
  ultimately show ?R
    by blast
next
  assume R: ?R
  have lead: "w = 2 \<or> w = 3 \<or> w = 4" "lo \<le> hi"
    using lead_ok [of "bs ! 0"] assms(2,3) R by (simp_all add: lead_ok_def Let_def)
  let ?t = "take w [bs ! 0, lo, 0x80, 0x80]"
  let ?c = "bs @ drop (length bs) ?t"
  have len: "length ?c = w"
    using R lead by auto
  have pad: "(bs @ drop (length bs) (take w T)) ! i = (if i < length bs then bs ! i else T ! i)"
    if "i < w" "w \<le> length T" for i and T :: bytes
    using that by (auto simp: nth_append)
  have nth: "?c ! i = (if i < length bs then bs ! i else [bs ! 0, lo, 0x80, 0x80] ! i)" if "i < w" for i
    using that lead(1) by (intro pad) auto
  have "?c \<noteq> []" "?c ! 0 = bs ! 0"
    using assms(1) by (simp_all add: nth_append)
  moreover have "lo \<le> ?c ! 1 \<and> ?c ! 1 \<le> hi"
    using nth [of 1] R lead by (cases "1 < length bs") auto
  moreover have "w > 2 \<longrightarrow> utf8_tail (?c ! 2)"
    using nth [of 2] R by (cases "2 < length bs") auto
  moreover have "w > 3 \<longrightarrow> utf8_tail (?c ! 3)"
    using nth [of 3] R by (cases "3 < length bs") auto
  ultimately have "multi_char ?c"
    unfolding multi_char_def len using assms(2,3) R by (simp only: prod.case simp_thms)
  then show ?L
    using utf8_char_cases by blast
qed

lemma FullRune_iff:
  assumes "bs \<noteq> []" and "\<not> bs ! 0 < 0x80" and "utf8LeadByteInfo (bs ! 0) = (w, lo, hi, ok)"
  shows "FullRune bs \<longleftrightarrow> \<not> ok \<or> w \<le> length bs \<or> length bs > 1 \<and> \<not> (lo \<le> bs ! 1 \<and> bs ! 1 \<le> hi)
    \<or> length bs > 2 \<and> \<not> utf8_tail (bs ! 2)"
proof -
  let ?x = "utf8_first ! unat (bs ! 0)"
  have lead: "if ok then unat (?x AND 7) = w \<and> acceptRanges ! unat (drop_bit 4 ?x) = (lo, hi) else ?x = u8_xx"
    using lead_ok [of "bs ! 0"] assms(2,3) by (simp add: lead_ok_def Let_def)
  show ?thesis
  proof (cases ok)
    case True
    then have x: "unat (?x AND 7) = w" "acceptRanges ! unat (drop_bit 4 ?x) = (lo, hi)"
      using lead by auto
    have n: "length bs \<noteq> 0"
      using assms(1) by simp
    show ?thesis
      unfolding FullRune_def Let_def if_not_P [OF n] x prod.case using True by (auto simp: locb_def hicb_def)
  next
    case False
    then show ?thesis
      using lead assms(1) by (cases bs) (simp_all add: FullRune_def)
  qed
qed

definition bad_span :: "bytes \<Rightarrow> nat \<Rightarrow> nat \<Rightarrow> bool" where
  "bad_span s a z \<longleftrightarrow> a < z \<and> z \<le> length s \<and> z - a \<le> 4 \<and>
     (let bs = take (z - a) (drop a s)
      in malformed bs \<and> FullRune bs \<or> truncated bs \<and> z = length s)"

lemma NewSpan_eq: "a \<le> b \<Longrightarrow> NewSpan a b = Inr \<lparr>span_start = a, span_end = b\<rparr>"
  by (simp add: NewSpan_def)

text \<open>
  For a text \<open>u\<close> whose lead byte has the given width and bounds of the second byte: its first \<open>k\<close> bytes are the start of a character; they tell that there is none.
\<close>

definition lead_starts :: "bytes \<Rightarrow> nat \<times> byte \<times> byte \<times> bool \<Rightarrow> nat \<Rightarrow> bool" where
  "lead_starts u info k \<longleftrightarrow> (case info of (w, lo, hi, ok) \<Rightarrow>
     ok \<and> k \<le> w \<and> (k > 1 \<longrightarrow> lo \<le> u ! 1 \<and> u ! 1 \<le> hi) \<and> (k > 2 \<longrightarrow> utf8_tail (u ! 2)) \<and> (k > 3 \<longrightarrow> utf8_tail (u ! 3)))"

definition lead_decided :: "bytes \<Rightarrow> nat \<times> byte \<times> byte \<times> bool \<Rightarrow> nat \<Rightarrow> bool" where
  "lead_decided u info k \<longleftrightarrow> (case info of (w, lo, hi, ok) \<Rightarrow>
     \<not> ok \<or> w \<le> k \<or> k > 1 \<and> \<not> (lo \<le> u ! 1 \<and> u ! 1 \<le> hi) \<or> k > 2 \<and> \<not> utf8_tail (u ! 2))"

lemma bad_span_lead:
  assumes "i < length s" and nochar: "\<And>k. \<not> utf8_char (take k (drop i s))" and ascii: "\<not> s ! i < 0x80"
    and k: "0 < k" "i + k \<le> length s" "k \<le> 4"
    and "if lead_starts (drop i s) (utf8LeadByteInfo (s ! i)) k then i + k = length s else lead_decided (drop i s) (utf8LeadByteInfo (s ! i)) k"
  shows "bad_span s i (i + k)"
proof -
  let ?b = "take k (drop i s)"
  obtain w lo hi ok where info: "utf8LeadByteInfo (s ! i) = (w, lo, hi, ok)"
    by (cases "utf8LeadByteInfo (s ! i)")
  have b: "?b \<noteq> []" "\<not> ?b ! 0 < 0x80" "utf8LeadByteInfo (?b ! 0) = (w, lo, hi, ok)" "length ?b = k"
    using k assms(1) ascii info by auto
  have ext: "(\<exists>r. utf8_char (?b @ r)) \<longleftrightarrow> lead_starts (drop i s) (w, lo, hi, ok) k"
    unfolding extends_iff [OF b(1-3)] b(4) by (simp add: lead_starts_def)
  have full: "FullRune ?b \<longleftrightarrow> lead_decided (drop i s) (w, lo, hi, ok) k"
    unfolding FullRune_iff [OF b(1-3)] b(4) by (simp add: lead_decided_def cong: conj_cong)
  have "malformed ?b \<longleftrightarrow> \<not> (\<exists>r. utf8_char (?b @ r))" "truncated ?b \<longleftrightarrow> (\<exists>r. utf8_char (?b @ r))"
    using nochar [of k] unfolding malformed_def truncated_def by blast+
  then have "malformed ?b \<and> FullRune ?b \<or> truncated ?b \<and> i + k = length s"
    using assms(7) unfolding ext full info by (simp split: if_splits)
  then show ?thesis
    using k unfolding bad_span_def Let_def by simp
qed

text \<open>The branches of the function, when the second, third and fourth byte are as \<open>p1\<close>, \<open>p2\<close> and \<open>p3\<close> say.\<close>

lemma invalidUTF8SpanAt_cases:
  assumes "i < length s" and info: "utf8LeadByteInfo (s ! i) = (w, lo, hi, ok)"
    and at1: "i + 1 < length s \<Longrightarrow> (lo \<le> s ! (i + 1) \<and> s ! (i + 1) \<le> hi) = p1"
    and at2: "i + 2 < length s \<Longrightarrow> isContinuationByte (s ! (i + 2)) = p2"
    and at3: "i + 3 < length s \<Longrightarrow> isContinuationByte (s ! (i + 3)) = p3"
    and n: "length s = i + n"
    and complete: "ok \<Longrightarrow> w \<le> n \<Longrightarrow> p1 \<Longrightarrow> \<not> ((w > 2 \<longrightarrow> p2) \<and> (w > 3 \<longrightarrow> p3))" and w: "ok \<Longrightarrow> w \<in> {2, 3, 4}"
  shows "invalidUTF8SpanAt s i = Inr \<lparr>span_start = int i, span_end = int (i +
      (if \<not> ok then 1 else if n \<le> 1 then n else if \<not> p1 then 2 else if n \<le> 2 then n else if \<not> p2 then 3 else if n \<le> 3 then n else 4))\<rparr>"
proof -
  have get: "slice_get s (int i) = Inr (s ! i)"
    using assms(1) by (simp add: slice_get_def)
  have range: "(b < l \<or> h < b) = (\<not> (l \<le> b \<and> b \<le> h))" for b l h :: byte
    by auto
  have span: "NewSpan (int i) (int i + int k) = Inr \<lparr>span_start = int i, span_end = int (i + k)\<rparr>" for k
    by (simp add: NewSpan_eq)
  note eval = invalidUTF8SpanAt_def get go_bind_Inr info Let_def prod.case range n
  note spans = span [of 1] span [of 2] span [of 3] span [of 4] span [of n]
  show ?thesis
  proof (cases "ok \<and> n > 1 \<and> p1")
    case False
    then show ?thesis
      unfolding eval using at1 n spans by (auto simp: not_less)
  next
    case True
    then have "w > 2"
      using complete w by fastforce
    show ?thesis
    proof (cases "n > 2 \<and> p2")
      case False
      then show ?thesis
        unfolding eval using True \<open>w > 2\<close> at1 at2 n spans by (auto simp: not_less)
    next
      case p2: True
      then have "w = 4" "n > 3 \<Longrightarrow> \<not> p3"
        using complete w True \<open>w > 2\<close> by fastforce+
      then show ?thesis
        unfolding eval using True p2 at1 at2 at3 n spans by (auto simp: not_less)
    qed
  qed
qed

text \<open>The length of that span: the bytes are the start of a character that the text cuts off, or decide that there is none.\<close>

lemma span_length_decides:
  fixes n w :: nat
  assumes "0 < n" and complete: "ok \<Longrightarrow> w \<le> n \<Longrightarrow> p1 \<Longrightarrow> \<not> ((w > 2 \<longrightarrow> p2) \<and> (w > 3 \<longrightarrow> p3))" and w: "ok \<Longrightarrow> w \<in> {2, 3, 4}"
  defines "k \<equiv> if \<not> ok then 1 else if n \<le> 1 then n else if \<not> p1 then 2 else if n \<le> 2 then n else if \<not> p2 then 3 else if n \<le> 3 then n else 4"
  shows "if ok \<and> k \<le> w \<and> (k > 1 \<longrightarrow> p1) \<and> (k > 2 \<longrightarrow> p2) \<and> (k > 3 \<longrightarrow> p3) then k = n
    else \<not> ok \<or> w \<le> k \<or> k > 1 \<and> \<not> p1 \<or> k > 2 \<and> \<not> p2"
proof -
  have steps: "w > 2" if "ok" "n > 1" "p1"
    using complete w that by fastforce
  have steps': "w > 3" "n > 3 \<Longrightarrow> \<not> p3" if "ok" "n > 2" "p1" "p2"
    using complete w steps that by fastforce+
  consider "\<not> ok" | "ok" "n = 1" | "ok" "n > 1" "\<not> p1" | "ok" "n = 2" "p1" | "ok" "n > 2" "p1" "\<not> p2"
    | "ok" "n = 3" "p1" "p2" | "ok" "n > 3" "p1" "p2"
    using assms(1) by linarith
  then show ?thesis
    by cases (use w steps steps' in \<open>auto simp: k_def\<close>)
qed

lemma invalidUTF8SpanAt_spec:
  assumes "i < length s" and nochar: "\<And>k. \<not> utf8_char (take k (drop i s))"
  shows "\<exists>z. invalidUTF8SpanAt s i = Inr \<lparr>span_start = int i, span_end = int z\<rparr> \<and> bad_span s i z"
proof -
  define u where "u = drop i s"
  define n where "n = length u"
  have u: "u \<noteq> []" "u ! 0 = s ! i" "length s = i + n" "0 < n"
    using assms(1) by (auto simp: n_def u_def)
  have at: "s ! (i + k) = u ! k" if "i + k < length s" for k
    using that unfolding u_def by simp
  have "take 1 u = [u ! 0]"
    using u(1) by (cases u) simp_all
  then have ascii: "\<not> u ! 0 < 0x80"
    using nochar [of 1] utf8_char_cases [of "take 1 u"] by (simp add: u_def)
  obtain w lo hi ok where info: "utf8LeadByteInfo (u ! 0) = (w, lo, hi, ok)"
    by (cases "utf8LeadByteInfo (u ! 0)")
  define p1 where "p1 \<longleftrightarrow> lo \<le> u ! 1 \<and> u ! 1 \<le> hi"
  define p2 where "p2 \<longleftrightarrow> utf8_tail (u ! 2)"
  define p3 where "p3 \<longleftrightarrow> utf8_tail (u ! 3)"
  have w: "ok \<Longrightarrow> w \<in> {2, 3, 4}"
    using lead_ok [of "u ! 0"] ascii info by (simp add: lead_ok_def Let_def)
  have complete: "\<not> ((w > 2 \<longrightarrow> p2) \<and> (w > 3 \<longrightarrow> p3))" if "ok" "w \<le> n" "p1"
  proof
    assume "(w > 2 \<longrightarrow> p2) \<and> (w > 3 \<longrightarrow> p3)"
    then have "snd (DecodeRuneInString u) = w"
      using that decode_multi(1) [OF u(1) ascii info] unfolding p1_def p2_def p3_def n_def by blast
    then show False
      using decode_invalid [OF u(1)] nochar w that(1) by (auto simp: u_def)
  qed
  define k where "k = (if \<not> ok then 1 else if n \<le> 1 then n else if \<not> p1 then 2 else if n \<le> 2 then n else if \<not> p2 then 3 else if n \<le> 3 then n else 4)"
  have "invalidUTF8SpanAt s i = Inr \<lparr>span_start = int i, span_end = int (i + k)\<rparr>"
    unfolding k_def
  proof (rule invalidUTF8SpanAt_cases [OF assms(1)])
    show "utf8LeadByteInfo (s ! i) = (w, lo, hi, ok)" "length s = i + n"
      using info u by simp_all
    show "(lo \<le> s ! (i + 1) \<and> s ! (i + 1) \<le> hi) = p1" if "i + 1 < length s"
      using at [OF that] by (simp add: p1_def)
    show "isContinuationByte (s ! (i + 2)) = p2" if "i + 2 < length s"
      using at [OF that] by (simp add: p2_def isContinuationByte_def)
    show "isContinuationByte (s ! (i + 3)) = p3" if "i + 3 < length s"
      using at [OF that] by (simp add: p3_def isContinuationByte_def)
  qed (use complete w in blast)+
  moreover have "bad_span s i (i + k)"
  proof (rule bad_span_lead [OF assms])
    have k4: "0 < k" "k \<le> n" "k \<le> 4"
      using u(4) by (auto simp: k_def)
    then show "0 < k" "i + k \<le> length s" "k \<le> 4"
      using u(3) by simp_all
    show "\<not> s ! i < 0x80"
      using ascii u(2) by simp
    show "if lead_starts (drop i s) (utf8LeadByteInfo (s ! i)) k then i + k = length s else lead_decided (drop i s) (utf8LeadByteInfo (s ! i)) k"
      using span_length_decides [of n ok w p1 p2 p3, folded k_def, OF u(4)] complete w
      unfolding u(2) [symmetric] u_def [symmetric] info lead_starts_def lead_decided_def prod.case u(3)
        p1_def [symmetric] p2_def [symmetric] p3_def [symmetric] k_def [symmetric] by (auto split: if_splits)
  qed
  ultimately show ?thesis
    by blast
qed

lemma firstInvalid_loop_spec:
  assumes "i \<le> length s"
  shows "if utf8_text (drop i s) then firstInvalid_loop s i = Inr None
    else \<exists>a z. firstInvalid_loop s i = Inr (Some \<lparr>span_start = int a, span_end = int z\<rparr>) \<and> i \<le> a
      \<and> utf8_text (take (a - i) (drop i s)) \<and> bad_span s a z"
  using assms
proof (induction s i rule: firstInvalid_loop.induct)
  case (1 s i)
  let ?u = "drop i s"
  show ?case
  proof (cases "i < length s")
    case False
    then show ?thesis
      by (subst firstInvalid_loop.simps) (simp add: utf8_text.Nil)
  next
    case lt: True
    then have ne: "?u \<noteq> []"
      by simp
    show ?thesis
    proof (cases "\<exists>k. utf8_char (take k ?u)")
      case False
      then have nochar: "\<And>k. \<not> utf8_char (take k ?u)"
        by blast
      have "\<not> utf8_text ?u"
        using utf8_text_head [of ?u] ne nochar by blast
      moreover obtain z where "invalidUTF8SpanAt s i = Inr \<lparr>span_start = int i, span_end = int z\<rparr>" "bad_span s i z"
        using invalidUTF8SpanAt_spec [OF lt nochar] by blast
      moreover from this have "firstInvalid_loop s i = Inr (Some \<lparr>span_start = int i, span_end = int z\<rparr>)"
        using lt decode_invalid [OF ne nochar] by (subst firstInvalid_loop.simps) simp
      ultimately show ?thesis
        using utf8_text.Nil by (auto intro!: exI [of _ i] exI [of _ z])
    next
      case True
      then obtain c t where c: "?u = c @ t" "utf8_char c"
        by (metis append_take_drop_id)
      then obtain r where dec: "DecodeRuneInString ?u = (r, length c)" "\<not> (r = RuneError \<and> length c = 1)"
        using decode_valid [OF c(2), of t] by auto
      have step: "firstInvalid_loop s i = firstInvalid_loop s (i + length c)"
        using lt dec by (subst firstInvalid_loop.simps) auto
      have t: "drop (i + length c) s = t"
        using c(1) by (metis add.commute append_eq_conv_conj drop_drop)
      have "length c \<le> length ?u"
        using c(1) by simp
      then have le: "i + length c \<le> length s"
        using lt by simp
      have IH: "if utf8_text t then firstInvalid_loop s (i + length c) = Inr None
        else \<exists>a z. firstInvalid_loop s (i + length c) = Inr (Some \<lparr>span_start = int a, span_end = int z\<rparr>)
          \<and> i + length c \<le> a \<and> utf8_text (take (a - (i + length c)) t) \<and> bad_span s a z"
        using 1(1) [OF lt dec(1) [symmetric] dec(2) le] unfolding t .
      have tx: "utf8_text ?u \<longleftrightarrow> utf8_text t"
        unfolding c(1) by (rule utf8_text_cons [OF c(2)])
      have "utf8_text (take (a - i) ?u)" if "i + length c \<le> a" "utf8_text (take (a - (i + length c)) t)" for a
      proof -
        have "take (a - i) ?u = c @ take (a - (i + length c)) t"
          using that(1) by (simp add: c(1) add.commute diff_diff_add)
        then show ?thesis
          using utf8_text.Char [OF c(2) that(2)] by simp
      qed
      then show ?thesis
        using IH unfolding tx step by (auto intro: add_leD1 split: if_splits)
    qed
  qed
qed

lemma Span_Length_small:
  assumes "a \<le> z" and "z - a \<le> 4"
  shows "BoundsChecked_Unwrap (Span_Length go_int \<lparr>span_start = int a, span_end = int z\<rparr>) = Inr (int (z - a))"
proof -
  have "num_wrap go_int (int z - int a) = int z - int a"
    using assms by (intro num_wrap_id) (auto simp: go_int_def num_fits_def num_min_def num_max_def)
  then show ?thesis
    using assms by (simp add: Span_Length_def BoundsChecked_Unwrap_def InRange_def of_nat_diff)
qed

lemma bad_span_error:
  assumes "bad_span s a z"
  shows "\<exists>e. go_bind (invalidBytesPrefix s \<lparr>span_start = int a, span_end = int z\<rparr>) (\<lambda>firstInvalidBytes.
      go_bind (BoundsChecked_Unwrap (Span_Length go_int \<lparr>span_start = int a, span_end = int z\<rparr>)) (\<lambda>len.
      go_bind (slice_sub firstInvalidBytes 0 len) (\<lambda>b.
      go_bind (NewTextParseError (int (length s)) \<lparr>span_start = int a, span_end = int z\<rparr> b) (\<lambda>e. Inr (Inl e))))) = Inr (Inl e)
    \<and> tpe_firstInvalidSpan e = \<lparr>span_start = int a, span_end = int z\<rparr>
    \<and> take (z - a) (tpe_firstInvalidBytes e) = take (z - a) (drop a s)"
proof -
  let ?b = "take (z - a) (drop a s)"
  have bounds: "a < z" "z \<le> length s" "z - a \<le> 4" and full: "FullRune ?b \<or> z = length s"
    using assms by (auto simp: bad_span_def Let_def)
  have len: "length ?b = z - a"
    using bounds by simp
  have sub: "slice_sub s (int a) (int z) = Inr ?b"
    using bounds by (simp add: slice_sub_def nat_diff_distrib)
  have copy: "go_copy (replicate 4 0) ?b = ?b @ replicate (4 - (z - a)) 0"
    using len bounds by (simp add: go_copy_def)
  have "slice_sub (?b @ replicate (4 - (z - a)) 0) 0 (int (z - a)) = Inr ?b"
    using len bounds by (simp add: slice_sub_def del: of_nat_diff)
  then show ?thesis
    using bounds full len sub copy Span_Length_small [of a z]
    by (auto simp: invalidBytesPrefix_def Span_Start_def Span_End_def NewTextParseError_def Let_def)
qed


section \<open>Code points of a text\<close>

text \<open>The bytes after the first one of a character are continuation bytes, the first one is not.\<close>

lemma utf8_char_tails:
  assumes "utf8_char c"
  shows "RuneStart (c ! 0)" and "\<And>i. 0 < i \<Longrightarrow> i < length c \<Longrightarrow> \<not> RuneStart (c ! i)" and "length c \<le> 4"
proof -
  have "RuneStart (c ! 0) \<and> (\<forall>i. 0 < i \<longrightarrow> i < length c \<longrightarrow> \<not> RuneStart (c ! i)) \<and> length c \<le> 4"
    using assms by (cases c rule: utf8_char.cases)
      (auto simp: RuneStart_iff less_Suc_eq byte_arith)
  then show "RuneStart (c ! 0)" "\<And>i. 0 < i \<Longrightarrow> i < length c \<Longrightarrow> \<not> RuneStart (c ! i)" "length c \<le> 4"
    by auto
qed

lemma startBefore_char:
  assumes "utf8_char c" and "0 < k" and "k \<le> length c"
  shows "startBefore (pre @ c @ post) (length pre + k) = Some (length pre)"
  using assms(2,3)
proof (induction k)
  case (Suc k)
  show ?case
  proof (cases "k = 0")
    case True
    then show ?thesis
      using utf8_char_tails(1) [OF assms(1)] utf8_char_ne [OF assms(1)] by (simp add: nth_append IsPotentialStartOfRune_def)
  next
    case False
    then show ?thesis
      using Suc utf8_char_tails(2) [OF assms(1), of k] by (simp add: nth_append IsPotentialStartOfRune_def)
  qed
qed simp

lemma text_position:
  assumes "utf8_text s" and "0 < n" and "n \<le> length s"
  shows "\<exists>pre c post. s = pre @ c @ post \<and> utf8_text pre \<and> utf8_char c \<and> utf8_text post
    \<and> length pre < n \<and> n \<le> length pre + length c"
  using assms
proof (induction arbitrary: n rule: utf8_text.induct)
  case (Char c s)
  show ?case
  proof (cases "n \<le> length c")
    case True
    then show ?thesis
      using Char by (intro exI [of _ "[]"] exI [of _ c] exI [of _ s]) (simp add: utf8_text.Nil)
  next
    case False
    then have "0 < n - length c" "n - length c \<le> length s"
      using Char.prems by auto
    from Char.IH [OF this] obtain pre d post where "s = pre @ d @ post" "utf8_text pre" "utf8_char d" "utf8_text post"
        "length pre < n - length c" "n - length c \<le> length pre + length d"
      by blast
    then show ?thesis
      using utf8_text.Char [OF Char.hyps(1), of pre]
      by (intro exI [of _ "c @ pre"] exI [of _ d] exI [of _ post]) auto
  qed
qed simp

lemma CodePointContaining_char:
  assumes "s = pre @ c @ post" and "utf8_char c" and "length pre < n" and "n \<le> length pre + length c" and "n < length s"
  shows "CodePointContaining \<lparr>txt_text = s\<rparr> (int n) =
    Inr (if n < length pre + length c then Some \<lparr>span_start = int (length pre), span_end = int (length pre + length c)\<rparr>
         else None)"
proof -
  obtain k where k: "n = length pre + k" "0 < k" "k \<le> length c"
    using assms(3,4) by (metis add_diff_cancel_left' add_le_cancel_left le_add_diff_inverse less_imp_le zero_less_diff)
  have start: "startBefore s n = Some (length pre)"
    unfolding assms(1) k(1) by (rule startBefore_char [OF assms(2) k(2,3)])
  obtain r where "DecodeRuneInString (drop (length pre) s) = (r, length c)"
    using decode_valid [OF assms(2), of post] assms(1) by auto
  then have "RuneDecodingResult_ByteLen (TryDecodeFirstRune (drop (length pre) s)) = length c"
    using utf8_char_tails(3) [OF assms(2)]
    by (simp add: RuneDecodingResult_ByteLen_def TryDecodeFirstRune_def unat_of_nat)
  then show ?thesis
    using start assms(3,5) by (simp add: CodePointContaining_def Let_def NewSpan_def)
qed

lemma CodePointContaining_inside:
  assumes "s = pre @ c @ post" and "utf8_char c" and "length pre < n" and "n < length pre + length c"
  shows "CodePointContaining \<lparr>txt_text = s\<rparr> (int n) =
    Inr (Some \<lparr>span_start = int (length pre), span_end = int (length pre) + int (length c)\<rparr>)"
  using CodePointContaining_char [OF assms(1-3)] assms by simp

lemma CodePointContaining_boundary:
  assumes "s = pre @ post" and "utf8_text pre"
  shows "CodePointContaining \<lparr>txt_text = s\<rparr> (int (length pre)) = Inr None"
proof (cases "pre = [] \<or> post = []")
  case True
  then show ?thesis
    using assms(1) by (auto simp: CodePointContaining_def)
next
  case False
  then have "0 < length pre"
    by simp
  from text_position [OF assms(2) this le_refl] obtain p c q
    where "pre = p @ c @ q" "utf8_char c" "length p < length pre" "length pre \<le> length p + length c"
    by blast
  then show ?thesis
    using CodePointContaining_char [of s p c "q @ post" "length pre"] assms(1) False by simp
qed

lemma CodePointContaining_outside:
  "offset < 0 \<or> int (length s) < offset \<Longrightarrow> \<not> is_ok (CodePointContaining \<lparr>txt_text = s\<rparr> offset)"
  by (simp add: CodePointContaining_def assert_defs)

text \<open>
  On a valid text, CodePointContaining panics exactly outside the bounds of the text; inside, it
  answers the span of the unique character that strictly contains the offset, and None exactly on
  the boundaries between characters.\<close>

lemma CodePointContaining_correct:
  assumes "utf8_text s"
  shows "(is_ok (CodePointContaining \<lparr>txt_text = s\<rparr> offset) \<longleftrightarrow> 0 \<le> offset \<and> offset \<le> int (length s))
    \<and> (CodePointContaining \<lparr>txt_text = s\<rparr> offset = Inr (Some \<lparr>span_start = a, span_end = z\<rparr>) \<longleftrightarrow>
         (\<exists>pre c post. s = pre @ c @ post \<and> utf8_text pre \<and> utf8_char c \<and> utf8_text post
            \<and> a = int (length pre) \<and> z = a + int (length c) \<and> a < offset \<and> offset < z))
    \<and> (CodePointContaining \<lparr>txt_text = s\<rparr> offset = Inr None \<longleftrightarrow>
         (\<exists>pre post. s = pre @ post \<and> utf8_text pre \<and> utf8_text post \<and> offset = int (length pre)))"
proof (cases "0 \<le> offset \<and> offset \<le> int (length s)")
  case False
  then have "\<not> is_ok (CodePointContaining \<lparr>txt_text = s\<rparr> offset)"
    by (intro CodePointContaining_outside) auto
  then show ?thesis
    using False by auto
next
  case True
  define n where "n = nat offset"
  have n: "offset = int n" "n \<le> length s"
    using True by (auto simp: n_def)
  have inside: "\<And>pre c post. s = pre @ c @ post \<Longrightarrow> utf8_char c \<Longrightarrow> length pre < n \<Longrightarrow> n < length pre + length c \<Longrightarrow>
      CodePointContaining \<lparr>txt_text = s\<rparr> offset =
        Inr (Some \<lparr>span_start = int (length pre), span_end = int (length pre) + int (length c)\<rparr>)"
    unfolding n(1) by (rule CodePointContaining_inside)
  have boundary: "\<And>pre post. s = pre @ post \<Longrightarrow> utf8_text pre \<Longrightarrow> n = length pre \<Longrightarrow>
      CodePointContaining \<lparr>txt_text = s\<rparr> offset = Inr None"
    unfolding n(1) using CodePointContaining_boundary by blast
  consider (boundary) pre post where "s = pre @ post" "utf8_text pre" "utf8_text post" "n = length pre"
    | (inside) pre c post where "s = pre @ c @ post" "utf8_text pre" "utf8_char c" "utf8_text post"
        "length pre < n" "n < length pre + length c"
  proof (cases "n = 0")
    case True
    then show thesis
      using boundary [of "[]" s] assms utf8_text.Nil by simp
  next
    case False
    then obtain pre c post where c: "s = pre @ c @ post" "utf8_text pre" "utf8_char c" "utf8_text post"
        "length pre < n" "n \<le> length pre + length c"
      using text_position [OF assms, of n] n(2) by auto
    show thesis
      using inside [OF c(1-5)] boundary [of "pre @ c" post] c utf8_text_snoc [OF c(2,3)]
      by (cases "n = length pre + length c") auto
  qed
  then show ?thesis
  proof cases
    case b: boundary
    have none: "CodePointContaining \<lparr>txt_text = s\<rparr> offset = Inr None"
      by (rule boundary [OF b(1,2,4)])
    have "\<not> (a < offset \<and> offset < z)"
      if "s = pre @ c @ post" "utf8_char c" "a = int (length pre)" "z = a + int (length c)" for pre c post
      using inside [OF that(1,2)] none that(3,4) n(1) by auto
    then show ?thesis
      using none b n(1) True by auto
  next
    case i: inside
    have some: "CodePointContaining \<lparr>txt_text = s\<rparr> offset =
        Inr (Some \<lparr>span_start = int (length pre), span_end = int (length pre) + int (length c)\<rparr>)"
      by (rule inside [OF i(1,3,5,6)])
    have "\<not> (s = p @ q \<and> utf8_text p \<and> utf8_text q \<and> offset = int (length p))" for p q
      using boundary [of p q] some n(1) by auto
    moreover have "a = int (length pre) \<and> z = a + int (length c)"
      if "s = p @ d @ q" "utf8_char d" "a = int (length p)" "z = a + int (length d)" "a < offset" "offset < z" for p d q
      using inside [OF that(1,2)] some that(3-6) n(1) by auto
    moreover have "\<exists>p d q. s = p @ d @ q \<and> utf8_text p \<and> utf8_char d \<and> utf8_text q
        \<and> a = int (length p) \<and> z = a + int (length d) \<and> a < offset \<and> offset < z"
      if "a = int (length pre)" "z = a + int (length c)"
      using i that n(1) by (intro exI [of _ pre] exI [of _ c] exI [of _ post]) simp
    moreover have "CodePointContaining \<lparr>txt_text = s\<rparr> offset = Inr (Some \<lparr>span_start = a, span_end = z\<rparr>)
        \<longleftrightarrow> a = int (length pre) \<and> z = a + int (length c)"
      unfolding some by auto
    moreover have "is_ok (CodePointContaining \<lparr>txt_text = s\<rparr> offset)" "CodePointContaining \<lparr>txt_text = s\<rparr> offset \<noteq> Inr None"
      unfolding some by simp_all
    ultimately show ?thesis
      using True by blast
  qed
qed

end
