(* ===== verification/Line_Table.thy ===== *)
theory Line_Table
  imports Utf8 Path_Types
begin

text \<open>
  \<^verbatim>\<open>base/source_code\<close>: the line table of a text, with the binary search \<open>sort.Search\<close> of the standard library
  that finds the line of a byte offset, and positions, file positions and snippets. The lines of a text are specified by \<open>split_lines\<close> and their
  positions by \<open>line_spans\<close>; the table is shown to hold exactly these, and the search to find the line of
  every offset.
\<close>

section \<open>Definitions\<close>

text \<open>
  \<open>sort.Search(n, f)\<close> with its index arithmetic in \<open>int\<close>: \<open>uint(i+j) >> 1\<close> is \<open>(i + j) div 2\<close>, because
  \<open>i + j\<close> does not exceed twice the largest \<open>int\<close> and the conversion to \<open>uint\<close> keeps it.
\<close>

function Search_loop :: "(nat \<Rightarrow> bool) \<Rightarrow> nat \<Rightarrow> nat \<Rightarrow> nat" where
  "Search_loop f i j =
     (if i < j
      then let h = (i + j) div 2
           in if \<not> f h then Search_loop f (h + 1) j else Search_loop f i h
      else i)"
  by pat_completeness auto
termination by (relation "measure (\<lambda>(_, i, j). j - i)") auto

declare Search_loop.simps [simp del]

definition Search :: "nat \<Rightarrow> (nat \<Rightarrow> bool) \<Rightarrow> nat" where
  "Search n f = Search_loop f 0 n"

record LineTable =
  lt_text :: string
  lt_startLineNumber :: int
  lt_lineOffsets :: "Span list"

record Line =
  ln_text :: string
  ln_span :: Span
  ln_lineNo :: int

text \<open>The loop of \<open>NewLineTableAt\<close>, which appends a span at every line ending.\<close>

function lineOffsets_loop :: "string \<Rightarrow> nat \<Rightarrow> nat \<Rightarrow> Span list \<Rightarrow> (nat \<times> Span list) outcome" where
  "lineOffsets_loop s start i lineOffsets =
     (if i < length s
      then if s ! i = CHR 0x0D
           then let sepEnd = (if i + 1 < length s \<and> s ! (i + 1) = CHR 0x0A then i + 2 else i + 1)
                in go_bind (NewSpan (int start) (int i)) (\<lambda>sp.
                   lineOffsets_loop s sepEnd sepEnd (lineOffsets @ [sp]))
           else if s ! i = CHR 0x0A
           then go_bind (NewSpan (int start) (int i)) (\<lambda>sp.
                lineOffsets_loop s (i + 1) (i + 1) (lineOffsets @ [sp]))
           else lineOffsets_loop s start (i + 1) lineOffsets
      else Inr (start, lineOffsets))"
  by pat_completeness auto
termination by (relation "measure (\<lambda>(s, _, i, _). length s - i)") auto

declare lineOffsets_loop.simps [simp del]

definition NewLineTableAt :: "string \<Rightarrow> int \<Rightarrow> LineTable outcome" where
  "NewLineTableAt s startLineNumber =
     go_bind (if startLineNumber < 1 then Preconditionf False ''startLineNumber (%d) should be >= 1'' else Inr ()) (\<lambda>_.
     go_bind (lineOffsets_loop s 0 0 []) (\<lambda>(start, lineOffsets).
     go_bind (NewSpan (int start) (int (length s))) (\<lambda>sp.
     Inr \<lparr>lt_text = s, lt_startLineNumber = startLineNumber, lt_lineOffsets = lineOffsets @ [sp]\<rparr>)))"

definition NewLineTable :: "string \<Rightarrow> LineTable outcome" where
  "NewLineTable s = NewLineTableAt s 1"

definition LineTable_TextLen :: "LineTable \<Rightarrow> nat" where
  "LineTable_TextLen t = length (lt_text t)"

definition LineTable_LineCount :: "LineTable \<Rightarrow> nat" where
  "LineTable_LineCount t = length (lt_lineOffsets t)"

definition LineTable_line :: "LineTable \<Rightarrow> nat \<Rightarrow> Span \<Rightarrow> Line outcome" where
  "LineTable_line t i lineOffset =
     go_bind (slice_sub (lt_text t) (Span_Start lineOffset) (Span_End lineOffset)) (\<lambda>s.
     Inr \<lparr>ln_text = s, ln_span = lineOffset, ln_lineNo = num_wrap go_int (lt_startLineNumber t + int i)\<rparr>)"

fun lines_loop :: "LineTable \<Rightarrow> nat \<Rightarrow> Span list \<Rightarrow> (Line \<Rightarrow> 's \<Rightarrow> bool \<times> 's) \<Rightarrow> 's \<Rightarrow> 's outcome" where
  "lines_loop t i [] yield st = Inr st"
| "lines_loop t i (sp # sps) yield st =
     go_bind (LineTable_line t i sp) (\<lambda>line.
     case yield line st of
       (False, st') \<Rightarrow> Inr st'
     | (True, st') \<Rightarrow> lines_loop t (i + 1) sps yield st')"

definition LineTable_Lines :: "LineTable \<Rightarrow> (Line \<Rightarrow> 's \<Rightarrow> bool \<times> 's) \<Rightarrow> 's \<Rightarrow> 's outcome" where
  "LineTable_Lines t yield st = lines_loop t 0 (lt_lineOffsets t) yield st"

definition LineAtByteOffset :: "LineTable \<Rightarrow> int \<Rightarrow> Line outcome" where
  "LineAtByteOffset t byteOffset =
     go_bind (if byteOffset < 0 then Preconditionf False ''negative byte offset: %d'' else Inr ()) (\<lambda>_.
     go_bind (if byteOffset > int (length (lt_text t))
              then Preconditionf False ''byte offset %d past source length %d'' else Inr ()) (\<lambda>_.
     if byteOffset = int (length (lt_text t))
     then let last = length (lt_lineOffsets t) - 1
          in go_bind (slice_get (lt_lineOffsets t) (int (length (lt_lineOffsets t)) - 1)) (\<lambda>sp.
             LineTable_line t last sp)
     else let nextLine = Search (length (lt_lineOffsets t)) (\<lambda>i. byteOffset < Span_Start (lt_lineOffsets t ! i))
          in go_bind (if nextLine = 0 then Invariantf False ''line table search failed for byte offset %d'' else Inr ()) (\<lambda>_.
             let lineIndex = nextLine - 1
             in LineTable_line t lineIndex (lt_lineOffsets t ! lineIndex))))"

definition Line_Text :: "Line \<Rightarrow> string" where
  "Line_Text l = ln_text l"

definition Line_Span :: "Line \<Rightarrow> Span" where
  "Line_Span l = ln_span l"

definition Line_LineNumber :: "Line \<Rightarrow> int" where
  "Line_LineNumber l = ln_lineNo l"

subsection \<open>Positions\<close>

text \<open>Lines and columns are \<open>int32\<close> values; no arithmetic is done on them.\<close>

record Position =
  pos_line :: int
  pos_column :: int

definition NewPosition :: "int \<Rightarrow> int \<Rightarrow> Position outcome" where
  "NewPosition line column =
     go_bind (Preconditionf (line > 0) ''line must be >= 1, got %d'') (\<lambda>_.
     go_bind (Preconditionf (column > 0) ''column must be >= 1, got %d'') (\<lambda>_.
     Inr \<lparr>pos_line = line, pos_column = column\<rparr>))"

definition Position_String :: "Position \<Rightarrow> string" where
  "Position_String p = writeInt (pos_line p) @ '':'' @ writeInt (pos_column p)"

record FilePosition =
  fp_Path :: RelPath
  fp_Position :: Position

definition FilePosition_String :: "FilePosition \<Rightarrow> string" where
  "FilePosition_String p =
     rp_value (fp_Path p) @ '':'' @ writeInt (pos_line (fp_Position p)) @ '':'' @ writeInt (pos_column (fp_Position p))"

record Snippet =
  sn_Path :: RelPath
  sn_Position :: Position
  sn_Text :: string

definition Snippet_FilePosition :: "Snippet \<Rightarrow> FilePosition" where
  "Snippet_FilePosition s = \<lparr>fp_Path = sn_Path s, fp_Position = sn_Position s\<rparr>"

section \<open>Binary search\<close>

definition search_result :: "nat \<Rightarrow> (nat \<Rightarrow> bool) \<Rightarrow> nat \<Rightarrow> bool" where
  "search_result n f r \<longleftrightarrow> r \<le> n \<and> (\<forall>k < r. \<not> f k) \<and> (\<forall>k. r \<le> k \<longrightarrow> k < n \<longrightarrow> f k)"

lemma Search_loop_spec:
  assumes "i \<le> j" and "j \<le> n" and "\<forall>k < i. \<not> f k" and "\<forall>k. j \<le> k \<longrightarrow> k < n \<longrightarrow> f k"
    and "\<forall>k l. k \<le> l \<longrightarrow> l < n \<longrightarrow> f k \<longrightarrow> f l"
  shows "search_result n f (Search_loop f i j)"
  using assms
proof (induction f i j rule: Search_loop.induct)
  case (1 f i j)
  note prems = 1(3-7)
  show ?case
  proof (cases "i < j")
    case False
    then have "Search_loop f i j = i" "i = j"
      using prems(1) by (subst Search_loop.simps, simp_all)
    then show ?thesis
      using prems by (simp add: search_result_def)
  next
    case True
    let ?h = "(i + j) div 2"
    have h: "i \<le> ?h" "?h < j"
      using True by auto
    show ?thesis
    proof (cases "f ?h")
      case f: True
      then have "\<forall>k. ?h \<le> k \<longrightarrow> k < n \<longrightarrow> f k"
        using prems(5) by blast
      then have "search_result n f (Search_loop f i ?h)"
        using 1(2) [OF True refl] f h prems by simp
      then show ?thesis
        using f True by (subst Search_loop.simps) (simp add: Let_def)
    next
      case f: False
      have below: "\<not> f k" if "k < ?h + 1" for k
      proof
        assume "f k"
        moreover have "k \<le> ?h" "?h < n"
          using that h(2) prems(2) by simp_all
        ultimately show False
          using prems(5) f by blast
      qed
      then have "search_result n f (Search_loop f (?h + 1) j)"
        using 1(1) [OF True refl f] h prems by simp
      then show ?thesis
        using f True by (subst Search_loop.simps) (simp add: Let_def)
    qed
  qed
qed

lemma Search_spec:
  assumes "\<forall>k l. k \<le> l \<longrightarrow> l < n \<longrightarrow> f k \<longrightarrow> f l"
  shows "search_result n f (Search n f)"
  unfolding Search_def using assms by (intro Search_loop_spec) auto

section \<open>The lines of a text\<close>

text \<open>The reference: the lines of a text, where \<open>\r\n\<close>, \<open>\r\<close> and \<open>\n\<close> end a line.\<close>

fun split_lines :: "string \<Rightarrow> string list" where
  "split_lines [] = [[]]"
| "split_lines (c # s) =
     (if c = CHR 0x0D \<and> s \<noteq> [] \<and> hd s = CHR 0x0A then [] # split_lines (tl s)
      else if c = CHR 0x0D \<or> c = CHR 0x0A then [] # split_lines s
      else (c # hd (split_lines s)) # tl (split_lines s))"

text \<open>The spans of the lines, when the line began at \<open>start\<close> and the text from \<open>i\<close> on remains.\<close>

fun ref_spans :: "nat \<Rightarrow> nat \<Rightarrow> string \<Rightarrow> (nat \<times> nat) list" where
  "ref_spans start i [] = [(start, i)]"
| "ref_spans start i (c # s) =
     (if c = CHR 0x0D \<and> s \<noteq> [] \<and> hd s = CHR 0x0A then (start, i) # ref_spans (i + 2) (i + 2) (tl s)
      else if c = CHR 0x0D \<or> c = CHR 0x0A then (start, i) # ref_spans (i + 1) (i + 1) s
      else ref_spans start (i + 1) s)"

definition span_of :: "nat \<times> nat \<Rightarrow> Span" where
  "span_of p = \<lparr>span_start = int (fst p), span_end = int (snd p)\<rparr>"

lemma ref_spans_ne: "ref_spans start i s \<noteq> []"
  by (induction start i s rule: ref_spans.induct) auto

text \<open>The position after the line ending at \<open>i\<close>, and one step of the loop there.\<close>

definition sep_end :: "string \<Rightarrow> nat \<Rightarrow> nat" where
  "sep_end s i = (if s ! i = CHR 0x0D \<and> i + 1 < length s \<and> s ! (i + 1) = CHR 0x0A then i + 2 else i + 1)"

lemma lineOffsets_loop_break:
  assumes "start \<le> i" and "i < length s" and "s ! i = CHR 0x0D \<or> s ! i = CHR 0x0A"
  shows "lineOffsets_loop s start i acc = lineOffsets_loop s (sep_end s i) (sep_end s i) (acc @ [span_of (start, i)])"
proof -
  have "NewSpan (int start) (int i) = Inr (span_of (start, i))"
    using assms(1) by (simp add: NewSpan_def span_of_def)
  then show ?thesis
    using assms(2,3) by (subst lineOffsets_loop.simps) (auto simp: sep_end_def)
qed

lemma ref_spans_break:
  assumes "i < length s" and "s ! i = CHR 0x0D \<or> s ! i = CHR 0x0A"
  shows "ref_spans start i (drop i s) = (start, i) # ref_spans (sep_end s i) (sep_end s i) (drop (sep_end s i) s)"
proof -
  have d: "drop i s = s ! i # drop (i + 1) s"
    using assms(1) by (simp add: Cons_nth_drop_Suc)
  have nx: "drop (i + 1) s \<noteq> [] \<and> hd (drop (i + 1) s) = CHR 0x0A \<longleftrightarrow> i + 1 < length s \<and> s ! (i + 1) = CHR 0x0A"
    by (auto simp: hd_drop_conv_nth)
  have tl: "tl (drop (i + 1) s) = drop (i + 2) s"
    by (simp add: tl_drop drop_Suc [symmetric] numeral_2_eq_2)
  show ?thesis
    unfolding d ref_spans.simps nx tl using assms(2) by (auto simp: sep_end_def)
qed

lemma lineOffsets_loop_spec:
  assumes "start \<le> i" and "i \<le> length s"
  shows "\<exists>start' sps. lineOffsets_loop s start i acc = Inr (start', acc @ map span_of sps)
    \<and> ref_spans start i (drop i s) = sps @ [(start', length s)] \<and> start' \<le> length s"
  using assms
proof (induction "length s - i" arbitrary: start i acc rule: less_induct)
  case less
  consider (fin) "i = length s" | (break) "i < length s" "s ! i = CHR 0x0D \<or> s ! i = CHR 0x0A"
    | (other) "i < length s" "s ! i \<noteq> CHR 0x0D" "s ! i \<noteq> CHR 0x0A"
    using less.prems by linarith
  then show ?case
  proof cases
    case fin
    then show ?thesis
      using less.prems by (subst lineOffsets_loop.simps) simp
  next
    case break
    have j: "i < sep_end s i" "sep_end s i \<le> length s" "length s - sep_end s i < length s - i"
      using break(1) by (auto simp: sep_end_def)
    obtain start' sps where "lineOffsets_loop s (sep_end s i) (sep_end s i) (acc @ [span_of (start, i)]) =
        Inr (start', (acc @ [span_of (start, i)]) @ map span_of sps)"
      "ref_spans (sep_end s i) (sep_end s i) (drop (sep_end s i) s) = sps @ [(start', length s)]" "start' \<le> length s"
      using less.hyps [of "sep_end s i" "sep_end s i" "acc @ [span_of (start, i)]"] j break(1) by auto
    then show ?thesis
      unfolding lineOffsets_loop_break [OF less.prems(1) break] ref_spans_break [OF break]
      by (intro exI [of _ start'] exI [of _ "(start, i) # sps"]) simp
  next
    case other
    have "lineOffsets_loop s start i acc = lineOffsets_loop s start (i + 1) acc"
      using other by (subst lineOffsets_loop.simps) simp
    moreover have "ref_spans start i (drop i s) = ref_spans start (i + 1) (drop (i + 1) s)"
      using other by (simp add: Cons_nth_drop_Suc [symmetric])
    ultimately show ?thesis
      using less.hyps [of "i + 1" start acc] less.prems other(1) by simp
  qed
qed

section \<open>Facts about the spans\<close>

text \<open>Consecutive spans: each begins after the previous one ends, the last one ends at \<open>n\<close>.\<close>

fun chained :: "nat \<Rightarrow> nat \<Rightarrow> (nat \<times> nat) list \<Rightarrow> bool" where
  "chained n a [] = False"
| "chained n a ((b, e) # ps) \<longleftrightarrow>
     b = a \<and> a \<le> e \<and> (case ps of [] \<Rightarrow> e = n | (b', _) # _ \<Rightarrow> e < b' \<and> chained n b' ps)"

lemma chained_join: "start \<le> i \<Longrightarrow> i < j \<Longrightarrow> chained n j ps \<Longrightarrow> chained n start ((start, i) # ps)"
  by (cases ps) auto

lemma ref_spans_chained: "start \<le> i \<Longrightarrow> chained (i + length s) start (ref_spans start i s)"
proof (induction start i s rule: ref_spans.induct)
  case (2 start i c s)
  consider (crlf) s' where "c = CHR 0x0D" "s = CHR 0x0A # s'"
    | (one) "\<not> (c = CHR 0x0D \<and> s \<noteq> [] \<and> hd s = CHR 0x0A)" "c = CHR 0x0D \<or> c = CHR 0x0A"
    | (other) "c \<noteq> CHR 0x0D" "c \<noteq> CHR 0x0A"
    by (metis hd_Cons_tl)
  then show ?case
  proof cases
    case crlf
    then show ?thesis
      using 2(1) 2(4) chained_join [of start i "i + 2"] by simp
  next
    case one
    then have "ref_spans start i (c # s) = (start, i) # ref_spans (i + 1) (i + 1) s"
      by auto
    then show ?thesis
      using 2(2) [OF one] 2(4) chained_join [of start i "i + 1"] by simp
  next
    case other
    then show ?thesis
      using 2(3) 2(4) by simp
  qed
qed simp

lemma split_lines_ne: "split_lines s \<noteq> []"
  by (induction s rule: split_lines.induct) auto

lemma ref_spans_lines:
  "map (\<lambda>(a, b). take (b - a) (drop a (pre @ mid @ s))) (ref_spans (length pre) (length pre + length mid) s) =
    (mid @ hd (split_lines s)) # tl (split_lines s)"
proof (induction s arbitrary: pre mid rule: split_lines.induct)
  case (2 c s)
  have break: "map (\<lambda>(a, b). take (b - a) (drop a (pre @ mid @ c # s))) ((length pre, length pre + length mid) #
        ref_spans (length pre + length mid + length e) (length pre + length mid + length e) r) = mid # split_lines r"
    if IH: "\<And>pre mid. map (\<lambda>(a, b). take (b - a) (drop a (pre @ mid @ r))) (ref_spans (length pre) (length pre + length mid) r) =
      (mid @ hd (split_lines r)) # tl (split_lines r)" and "c # s = e @ r" for e r
    using IH [of "pre @ mid @ e" "[]"] split_lines_ne [of r] that(2) by (simp add: add.assoc)
  consider (crlf) s' where "c = CHR 0x0D" "s = CHR 0x0A # s'"
    | (one) "\<not> (c = CHR 0x0D \<and> s \<noteq> [] \<and> hd s = CHR 0x0A)" "c = CHR 0x0D \<or> c = CHR 0x0A"
    | (other) "c \<noteq> CHR 0x0D" "c \<noteq> CHR 0x0A"
    by (metis hd_Cons_tl)
  then show ?case
  proof cases
    case crlf
    then show ?thesis
      using break [of s' "[c, CHR 0x0A]"] 2(1) by simp
  next
    case one
    then have "ref_spans (length pre) (length pre + length mid) (c # s) =
        (length pre, length pre + length mid) # ref_spans (length pre + length mid + 1) (length pre + length mid + 1) s"
      "split_lines (c # s) = [] # split_lines s"
      by auto
    then show ?thesis
      using break [OF 2(2) [OF one], of "[c]"] by simp
  next
    case other
    then show ?thesis
      using 2(3) [of pre "mid @ [c]"] by simp
  qed
qed simp

definition line_spans :: "string \<Rightarrow> (nat \<times> nat) list" where
  "line_spans s = ref_spans 0 0 s"

lemma line_spans_chained: "chained (length s) 0 (line_spans s)"
  using ref_spans_chained [of 0 0 s] by (simp add: line_spans_def)

lemma line_spans_lines: "map (\<lambda>(a, b). take (b - a) (drop a s)) (line_spans s) = split_lines s"
  using ref_spans_lines [of "[]" "[]" s] split_lines_ne [of s] by (simp add: line_spans_def)

lemma NewLineTableAt_spec:
  assumes "k \<ge> 1"
  shows "NewLineTableAt s k =
    Inr \<lparr>lt_text = s, lt_startLineNumber = k, lt_lineOffsets = map span_of (line_spans s)\<rparr>"
proof -
  obtain start sps where "lineOffsets_loop s 0 0 [] = Inr (start, map span_of sps)"
      "line_spans s = sps @ [(start, length s)]" "start \<le> length s"
    using lineOffsets_loop_spec [of 0 0 s "[]"] by (auto simp: line_spans_def)
  then show ?thesis
    using assms by (simp add: NewLineTableAt_def NewSpan_def span_of_def)
qed

lemma chained_props:
  assumes "chained n a ps"
  shows "ps \<noteq> []" and "fst (ps ! 0) = a" and "snd (last ps) = n"
    and "\<And>i. i < length ps \<Longrightarrow> a \<le> fst (ps ! i) \<and> fst (ps ! i) \<le> snd (ps ! i) \<and> snd (ps ! i) \<le> n"
    and "\<And>i. Suc i < length ps \<Longrightarrow> snd (ps ! i) < fst (ps ! Suc i)"
proof -
  have "ps \<noteq> [] \<and> fst (ps ! 0) = a \<and> snd (last ps) = n
    \<and> (\<forall>i < length ps. a \<le> fst (ps ! i) \<and> fst (ps ! i) \<le> snd (ps ! i) \<and> snd (ps ! i) \<le> n)
    \<and> (\<forall>i. Suc i < length ps \<longrightarrow> snd (ps ! i) < fst (ps ! Suc i))"
    using assms
  proof (induction n a ps rule: chained.induct)
    case (2 n a b e ps)
    show ?case
    proof (cases ps)
      case (Cons p qs)
      obtain b' e' where p: "p = (b', e')"
        by fastforce
      then have c: "chained n b' ps" and e: "b = a" "a \<le> e" "e < b'"
        using 2(2) Cons by auto
      have IH: "ps \<noteq> [] \<and> fst (ps ! 0) = b' \<and> snd (last ps) = n
        \<and> (\<forall>i < length ps. b' \<le> fst (ps ! i) \<and> fst (ps ! i) \<le> snd (ps ! i) \<and> snd (ps ! i) \<le> n)
        \<and> (\<forall>i. Suc i < length ps \<longrightarrow> snd (ps ! i) < fst (ps ! Suc i))"
        using 2(1) c Cons p by auto
      then have "b' \<le> n"
        by (metis le_trans length_greater_0_conv)
      then show ?thesis
        using IH e by (auto simp: nth_Cons split: nat.splits)
    qed (use 2 in auto)
  qed simp
  then show "ps \<noteq> []" "fst (ps ! 0) = a" "snd (last ps) = n"
    "\<And>i. i < length ps \<Longrightarrow> a \<le> fst (ps ! i) \<and> fst (ps ! i) \<le> snd (ps ! i) \<and> snd (ps ! i) \<le> n"
    "\<And>i. Suc i < length ps \<Longrightarrow> snd (ps ! i) < fst (ps ! Suc i)"
    by blast+
qed

lemma chained_starts_mono:
  assumes "chained n a ps" and "i \<le> j" and "j < length ps"
  shows "fst (ps ! i) \<le> fst (ps ! j)"
  using assms(2,3)
proof (induction j)
  case (Suc j)
  show ?case
  proof (cases "i = Suc j")
    case False
    then have "fst (ps ! i) \<le> fst (ps ! j)"
      using Suc by simp
    moreover have "fst (ps ! j) \<le> snd (ps ! j)" "snd (ps ! j) < fst (ps ! Suc j)"
      using chained_props(4,5) [OF assms(1)] Suc.prems by simp_all
    ultimately show ?thesis
      by linarith
  qed simp
qed simp

text \<open>The line number \<open>i\<close> of a table.\<close>

lemma LineTable_line_spec:
  fixes k :: int
  assumes "i < length (line_spans s)"
  defines "t \<equiv> \<lparr>lt_text = s, lt_startLineNumber = k, lt_lineOffsets = map span_of (line_spans s)\<rparr>"
  shows "LineTable_line t i (lt_lineOffsets t ! i) =
    Inr \<lparr>ln_text = split_lines s ! i, ln_span = span_of (line_spans s ! i), ln_lineNo = num_wrap go_int (k + int i)\<rparr>"
proof -
  obtain a b where ab: "line_spans s ! i = (a, b)"
    by fastforce
  have "a \<le> b" "b \<le> length s"
    using chained_props(4) [OF line_spans_chained assms(1)] ab by simp_all
  then have "slice_sub s (int a) (int b) = Inr (take (b - a) (drop a s))"
    by (simp add: slice_sub_def nat_diff_distrib)
  moreover have "split_lines s ! i = take (b - a) (drop a s)"
    using assms(1) ab by (simp add: line_spans_lines [symmetric])
  ultimately show ?thesis
    using assms(1) ab by (simp add: LineTable_line_def t_def span_of_def Span_Start_def Span_End_def)
qed

lemma length_line_spans: "length (line_spans s) = length (split_lines s)"
  by (metis length_map line_spans_lines)


text \<open>The table \<open>NewLineTableAt\<close> builds for a text.\<close>

definition table_of :: "string \<Rightarrow> int \<Rightarrow> LineTable" where
  "table_of s k = \<lparr>lt_text = s, lt_startLineNumber = k, lt_lineOffsets = map span_of (line_spans s)\<rparr>"

definition line_of :: "string \<Rightarrow> int \<Rightarrow> nat \<Rightarrow> Line" where
  "line_of s k i =
     \<lparr>ln_text = split_lines s ! i, ln_span = span_of (line_spans s ! i), ln_lineNo = num_wrap go_int (k + int i)\<rparr>"

lemma table_of_line:
  assumes "i < length (split_lines s)"
  shows "LineTable_line (table_of s k) i (map span_of (line_spans s) ! i) = Inr (line_of s k i)"
  using LineTable_line_spec [of i s k] assms by (simp add: table_of_def line_of_def length_line_spans)

text \<open>Iterating with a callback that collects every line yields all of them in order.\<close>

lemma lines_loop_collect:
  assumes "i \<le> length (split_lines s)"
  shows "lines_loop (table_of s k) i (map span_of (drop i (line_spans s))) (\<lambda>l st. (True, st @ [l])) acc =
    Inr (acc @ map (line_of s k) [i..<length (split_lines s)])"
  using assms
proof (induction "length (split_lines s) - i" arbitrary: i acc)
  case 0
  then show ?case
    by (simp add: length_line_spans)
next
  case (Suc n)
  then have i: "i < length (split_lines s)"
    by simp
  then have "map span_of (drop i (line_spans s)) =
      map span_of (line_spans s) ! i # map span_of (drop (i + 1) (line_spans s))"
    by (metis Cons_nth_drop_Suc Suc_eq_plus1 drop_map length_line_spans length_map)
  moreover have "map (line_of s k) [i..<length (split_lines s)] =
      line_of s k i # map (line_of s k) [i + 1..<length (split_lines s)]"
    using i by (simp add: upt_conv_Cons)
  ultimately show ?case
    using Suc(1) [of "i + 1" "acc @ [line_of s k i]"] Suc(2) i by (simp add: table_of_line)
qed

lemma chained_nth_shape:
  assumes "chained n 0 ps"
  shows "ps \<noteq> [] \<and> fst (hd ps) = 0 \<and> snd (last ps) = n
    \<and> (\<forall>i. Suc i < length ps \<longrightarrow> fst (ps ! i) \<le> snd (ps ! i) \<and> snd (ps ! i) < fst (ps ! Suc i))"
proof -
  have "fst (hd ps) = 0"
    using chained_props(1,2) [OF assms] by (simp add: hd_conv_nth)
  then show ?thesis
    using chained_props(1,3) [OF assms] chained_props(4,5) [OF assms] by simp
qed

lemma NewLineTableAt_table_of: "k \<ge> 1 \<Longrightarrow> NewLineTableAt s k = Inr (table_of s k)"
  by (simp add: NewLineTableAt_spec table_of_def)

lemma Lines_collect:
  "LineTable_Lines (table_of s k) (\<lambda>l st. (True, st @ [l])) [] = Inr (map (line_of s k) [0..<length (split_lines s)])"
proof -
  have "lt_lineOffsets (table_of s k) = map span_of (drop 0 (line_spans s))"
    by (simp add: table_of_def)
  then show ?thesis
    using lines_loop_collect [of 0 s k "[]"] by (simp add: LineTable_Lines_def)
qed

lemma line_of_fields:
  "Line_Text (line_of s k i) = split_lines s ! i"
  "Span_Start (Line_Span (line_of s k i)) = int (fst (line_spans s ! i))"
  "Span_End (Line_Span (line_of s k i)) = int (snd (line_spans s ! i))"
  "Line_LineNumber (line_of s k i) = num_wrap go_int (k + int i)"
  by (simp_all add: line_of_def Line_Text_def Line_Span_def Line_LineNumber_def span_of_def Span_Start_def Span_End_def)

lemma line_of_slice:
  assumes "i < length (split_lines s)"
  shows "slice_sub s (int (fst (line_spans s ! i))) (int (snd (line_spans s ! i))) = Inr (split_lines s ! i)"
proof -
  have i: "i < length (line_spans s)"
    using assms by (simp add: length_line_spans)
  obtain a b where ab: "line_spans s ! i = (a, b)"
    by fastforce
  have "split_lines s ! i = take (b - a) (drop a s)"
    using i ab by (simp add: line_spans_lines [symmetric])
  then show ?thesis
    using chained_props(4) [OF line_spans_chained i] ab by (simp add: nat_diff_distrib)
qed

text \<open>
  C33. A line table holds exactly the lines of its text. \<open>NewLineTableAt\<close> panics when the first line number is
  less than 1 and never otherwise. Iterating over the table yields the pieces of the text between
  its line endings (the two bytes CR LF, a lone CR, or a lone LF) in order, each with the span of the text it
  occupies and numbered consecutively from the given line number (in wrapping \<open>int\<close> arithmetic); \<open>LineCount\<close>
  counts them, and there is always at least one. The spans start at 0, end at the length of the text, and each
  starts after the previous one ends.\<close>

theorem LineTable_lines_correct:
  "(k < 1 \<longrightarrow> NewLineTableAt s k =
      Inl (AssertionError ''precondition violation: startLineNumber (%d) should be >= 1''))
   \<and> (k \<ge> 1 \<longrightarrow> (\<exists>t ls. NewLineTableAt s k = Inr t
      \<and> LineTable_Lines t (\<lambda>l st. (True, st @ [l])) [] = Inr ls
      \<and> map Line_Text ls = split_lines s
      \<and> LineTable_LineCount t = length ls \<and> LineTable_LineCount t \<ge> 1 \<and> LineTable_TextLen t = length s
      \<and> map Line_LineNumber ls = map (\<lambda>i. num_wrap go_int (k + int i)) [0..<length ls]
      \<and> (\<forall>l \<in> set ls. slice_sub s (Span_Start (Line_Span l)) (Span_End (Line_Span l)) = Inr (Line_Text l))
      \<and> Span_Start (Line_Span (hd ls)) = 0 \<and> Span_End (Line_Span (last ls)) = int (length s)
      \<and> (\<forall>i. Suc i < length ls \<longrightarrow> Span_End (Line_Span (ls ! i)) < Span_Start (Line_Span (ls ! Suc i)))))"
proof (intro conjI impI)
  assume "k < 1"
  then show "NewLineTableAt s k = Inl (AssertionError ''precondition violation: startLineNumber (%d) should be >= 1'')"
    by (simp add: NewLineTableAt_def assert_defs)
next
  assume k: "k \<ge> 1"
  let ?n = "length (split_lines s)"
  let ?ls = "map (line_of s k) [0..<?n]"
  have n: "?n \<ge> 1"
    using split_lines_ne [of s] by (cases "split_lines s") simp_all
  have ends: "fst (line_spans s ! 0) = 0" "snd (line_spans s ! (?n - 1)) = length s"
    using chained_props(1-3) [OF line_spans_chained [of s]] by (simp_all add: last_conv_nth length_line_spans)
  have hl: "hd ?ls = line_of s k 0" "last ?ls = line_of s k (?n - 1)"
    using split_lines_ne [of s] by (simp_all add: hd_map last_map)
  have texts: "map Line_Text ?ls = split_lines s"
    by (rule nth_list_eqI) (simp_all add: line_of_fields)
  have gaps: "\<forall>i. Suc i < length ?ls \<longrightarrow> Span_End (Line_Span (?ls ! i)) < Span_Start (Line_Span (?ls ! Suc i))"
    using chained_props(5) [OF line_spans_chained [of s]] by (simp add: line_of_fields length_line_spans)
  have slices: "\<forall>l \<in> set ?ls. slice_sub s (Span_Start (Line_Span l)) (Span_End (Line_Span l)) = Inr (Line_Text l)"
    by (auto simp: line_of_fields line_of_slice)
  have counts: "LineTable_LineCount (table_of s k) = ?n" "LineTable_TextLen (table_of s k) = length s"
    by (simp_all add: LineTable_LineCount_def LineTable_TextLen_def table_of_def length_line_spans)
  have numbers: "map Line_LineNumber ?ls = map (\<lambda>i. num_wrap go_int (k + int i)) [0..<length ?ls]"
    by (rule nth_list_eqI) (simp_all add: line_of_fields)
  have hs: "Span_Start (Line_Span (hd ?ls)) = 0" "Span_End (Line_Span (last ?ls)) = int (length s)"
    unfolding hl using ends by (simp_all add: line_of_fields)
  show "\<exists>t ls. NewLineTableAt s k = Inr t
      \<and> LineTable_Lines t (\<lambda>l st. (True, st @ [l])) [] = Inr ls
      \<and> map Line_Text ls = split_lines s
      \<and> LineTable_LineCount t = length ls \<and> LineTable_LineCount t \<ge> 1 \<and> LineTable_TextLen t = length s
      \<and> map Line_LineNumber ls = map (\<lambda>i. num_wrap go_int (k + int i)) [0..<length ls]
      \<and> (\<forall>l \<in> set ls. slice_sub s (Span_Start (Line_Span l)) (Span_End (Line_Span l)) = Inr (Line_Text l))
      \<and> Span_Start (Line_Span (hd ls)) = 0 \<and> Span_End (Line_Span (last ls)) = int (length s)
      \<and> (\<forall>i. Suc i < length ls \<longrightarrow> Span_End (Line_Span (ls ! i)) < Span_Start (Line_Span (ls ! Suc i)))"
    using NewLineTableAt_table_of [OF k, of s] Lines_collect [of s k] texts numbers slices hs gaps counts n
    by (intro exI [of _ "table_of s k"] exI [of _ ?ls] conjI) simp_all
qed

theorem LineTable_lines_correct_witness:
  "\<exists>t ls. NewLineTableAt [CHR ''a'', CHR 0x0D, CHR 0x0A, CHR ''b'', CHR 0x0D] 7 = Inr t
    \<and> LineTable_Lines t (\<lambda>l st. (True, st @ [l])) [] = Inr ls
    \<and> map Line_Text ls = [''a'', ''b'', []] \<and> LineTable_LineCount t = length ls"
proof -
  let ?s = "[CHR ''a'', CHR 0x0D, CHR 0x0A, CHR ''b'', CHR 0x0D]"
  have "split_lines ?s = [''a'', ''b'', []]"
    by simp
  then show ?thesis
    using conjunct2 [OF LineTable_lines_correct [of 7 ?s]] by (elim impE exE) (simp, metis)
qed

section \<open>The line of an offset\<close>

lemma LineAtByteOffset_index:
  assumes "off < length s"
  shows "\<exists>i < length (split_lines s). LineAtByteOffset (table_of s k) (int off) = Inr (line_of s k i)
    \<and> fst (line_spans s ! i) \<le> off
    \<and> (Suc i < length (split_lines s) \<longrightarrow> off < fst (line_spans s ! Suc i))"
proof -
  let ?n = "length (line_spans s)"
  let ?f = "\<lambda>i. int off < Span_Start (map span_of (line_spans s) ! i)"
  let ?r = "Search ?n ?f"
  have f: "?f i \<longleftrightarrow> off < fst (line_spans s ! i)" if "i < ?n" for i
    using that by (simp add: span_of_def Span_Start_def)
  have "\<forall>k l. k \<le> l \<longrightarrow> l < ?n \<longrightarrow> ?f k \<longrightarrow> ?f l"
    using f chained_starts_mono [OF line_spans_chained [of s]] by (meson le_less_trans less_le_trans)
  then have r: "search_result ?n ?f ?r"
    by (rule Search_spec)
  have n: "0 < ?n" "\<not> ?f 0"
    using chained_props(1,2) [OF line_spans_chained [of s]] f [of 0] by simp_all
  then obtain i where i: "?r = Suc i"
    using r by (cases ?r) (auto simp: search_result_def)
  then have bounds: "i < ?n" "\<not> ?f i" "Suc i < ?n \<longrightarrow> ?f (Suc i)"
    using r by (auto simp: search_result_def)
  have "LineAtByteOffset (table_of s k) (int off) = LineTable_line (table_of s k) i (map span_of (line_spans s) ! i)"
    using assms i by (simp add: LineAtByteOffset_def table_of_def Let_def)
  then show ?thesis
    using bounds f table_of_line [of i s k] by (intro exI [of _ i]) (simp add: length_line_spans)
qed

lemma LineAtByteOffset_end:
  "LineAtByteOffset (table_of s k) (int (length s)) = Inr (line_of s k (length (split_lines s) - 1))"
proof -
  have n: "length (split_lines s) > 0"
    using split_lines_ne [of s] by simp
  then have "nat (int (length (split_lines s)) - 1) = length (split_lines s) - 1"
    by simp
  then show ?thesis
    using n table_of_line [of "length (split_lines s) - 1" s k]
    by (simp add: LineAtByteOffset_def table_of_def Let_def length_line_spans)
qed

lemma table_of_fields:
  "LineTable_LineCount (table_of s k) = length (split_lines s)"
  "i < length (split_lines s) \<Longrightarrow> lt_lineOffsets (table_of s k) ! i = Line_Span (line_of s k i)"
  by (simp_all add: LineTable_LineCount_def table_of_def length_line_spans line_of_def Line_Span_def)

text \<open>
  C10. \<open>LineAtByteOffset\<close> on the table of a text finds the line of every offset: for an offset from 0 up to and including
  the length of the text it returns the line, numbered from the first line number, that starts at or before the offset and
  is the last one to do so (an offset inside a line ending belongs to the line it ends); every other offset panics on the
  precondition.\<close>

theorem LineAtByteOffset_correct:
  assumes "k \<ge> 1" and "NewLineTableAt s k = Inr t"
  shows "(off < 0 \<longrightarrow> LineAtByteOffset t off = Inl (AssertionError ''precondition violation: negative byte offset: %d''))
    \<and> (off > int (length s) \<longrightarrow>
        LineAtByteOffset t off = Inl (AssertionError ''precondition violation: byte offset %d past source length %d''))
    \<and> (0 \<le> off \<and> off \<le> int (length s) \<longrightarrow>
        (\<exists>i < LineTable_LineCount t. \<exists>l. LineAtByteOffset t off = Inr l
          \<and> Line_Text l = split_lines s ! i \<and> Line_LineNumber l = num_wrap go_int (k + int i)
          \<and> Line_Span l = lt_lineOffsets t ! i \<and> Span_Start (Line_Span l) \<le> off
          \<and> (Suc i < LineTable_LineCount t \<longrightarrow> off < Span_Start (lt_lineOffsets t ! Suc i))))"
proof -
  have t: "t = table_of s k"
    using assms NewLineTableAt_table_of by simp
  let ?n = "length (split_lines s)"
  have "\<exists>i < ?n. LineAtByteOffset t off = Inr (line_of s k i) \<and> int (fst (line_spans s ! i)) \<le> off
      \<and> (Suc i < ?n \<longrightarrow> off < int (fst (line_spans s ! Suc i)))" if off: "0 \<le> off" "off \<le> int (length s)"
  proof (cases "off = int (length s)")
    case True
    have n: "?n > 0"
      using split_lines_ne [of s] by simp
    then have "fst (line_spans s ! (?n - 1)) \<le> length s"
      using chained_props(4) [OF line_spans_chained [of s], of "?n - 1"] by (simp add: length_line_spans)
    then show ?thesis
      using LineAtByteOffset_end [of s k] True t n by (intro exI [of _ "?n - 1"]) simp
  next
    case False
    then obtain o' where "off = int o'" "o' < length s"
      using off by (metis int_nat_eq nat_less_iff order_less_le of_nat_less_iff)
    then show ?thesis
      using LineAtByteOffset_index [of o' s k] t by (simp add: of_nat_le_iff)
  qed
  then have found: "\<exists>i < LineTable_LineCount t. \<exists>l. LineAtByteOffset t off = Inr l
          \<and> Line_Text l = split_lines s ! i \<and> Line_LineNumber l = num_wrap go_int (k + int i)
          \<and> Line_Span l = lt_lineOffsets t ! i \<and> Span_Start (Line_Span l) \<le> off
          \<and> (Suc i < LineTable_LineCount t \<longrightarrow> off < Span_Start (lt_lineOffsets t ! Suc i))"
    if "0 \<le> off" "off \<le> int (length s)"
    using that by (simp add: t table_of_fields) (metis line_of_fields table_of_fields(2))
  have "off < 0 \<longrightarrow> LineAtByteOffset t off = Inl (AssertionError ''precondition violation: negative byte offset: %d'')"
    by (simp add: LineAtByteOffset_def assert_defs)
  moreover have "off > int (length s) \<longrightarrow>
      LineAtByteOffset t off = Inl (AssertionError ''precondition violation: byte offset %d past source length %d'')"
    by (simp add: LineAtByteOffset_def assert_defs t table_of_def)
  ultimately show ?thesis
    using found by blast
qed

theorem LineAtByteOffset_correct_witness:
  "\<exists>t i l. NewLineTableAt [CHR ''a'', CHR 0x0D, CHR 0x0A, CHR ''b''] 1 = Inr t
    \<and> LineAtByteOffset t 2 = Inr l \<and> i < LineTable_LineCount t
    \<and> Line_Text l = [''a'', ''b''] ! i \<and> Span_Start (Line_Span l) \<le> 2"
proof -
  let ?s = "[CHR ''a'', CHR 0x0D, CHR 0x0A, CHR ''b'']"
  have t: "NewLineTableAt ?s 1 = Inr (table_of ?s 1)"
    by (simp add: NewLineTableAt_table_of)
  have s: "split_lines ?s = [''a'', ''b'']"
    by simp
  show ?thesis
    using LineAtByteOffset_correct [OF _ t, of 2, unfolded s] t by auto
qed

end
