(* ===== verification/Iterx.thy ===== *)
theory Iterx
  imports Collections
begin

text \<open>
  \<^verbatim>\<open>base/iterx/iterx.go\<close>: combinators on \<open>iter.Seq\<close>. A sequence is the function a \<open>range\<close> loop calls: given the loop body,
  which returns whether to go on, and the state the body updates, it returns the state after the loop. Sequences that
  a body may leave early carry that fact in their state. The lemmas show the combinators on sequences of lists.
\<close>

section \<open>Definitions\<close>

type_synonym ('a, 's) body = "'a \<Rightarrow> 's \<Rightarrow> (bool \<times> 's) outcome"
type_synonym ('a, 's) Seq = "('a, 's) body \<Rightarrow> 's \<Rightarrow> 's outcome"

definition Iterx_Empty :: "('a, 's) Seq" where
  "Iterx_Empty yield st = Inr st"

fun FromSlice :: "'a list \<Rightarrow> ('a, 's) Seq" where
  "FromSlice [] yield st = Inr st"
| "FromSlice (v # rest) yield st =
     go_bind (yield v st) (\<lambda>(more, st). if \<not> more then Inr st else FromSlice rest yield st)"

definition Iterx_Collect :: "('a, 'a list) Seq \<Rightarrow> 'a list outcome" where
  "Iterx_Collect seq = seq (\<lambda>v result. Inr (True, result @ [v])) []"

definition CollectMap :: "('k \<times> 'v, ('k, 'v) gomap) Seq \<Rightarrow> ('k, 'v) gomap outcome" where
  "CollectMap seq =
     seq (\<lambda>(k, v) result.
            go_bind (Preconditionf (gm_get result k = None) ''duplicate key %v'') (\<lambda>_.
            go_bind (gm_set result k v) (\<lambda>result. Inr (True, result)))) (Some [])"

definition Iterx_Last :: "'a \<Rightarrow> ('a, 'a \<times> bool) Seq \<Rightarrow> 'a outcome" where
  "Iterx_Last zero seq =
     go_bind (seq (\<lambda>v _. Inr (True, (v, True))) (zero, False)) (\<lambda>(last, sawValue).
     go_bind (Precondition sawValue ''iterator yielded no values'') (\<lambda>_. Inr last))"

definition Iterx_Find :: "('a, 'b option) Seq \<Rightarrow> ('a \<Rightarrow> 'b option outcome) \<Rightarrow> 'b option outcome" where
  "Iterx_Find seq f =
     seq (\<lambda>v _. go_bind (f v) (\<lambda>result. Inr (result = None, result))) None"

definition Iterx_Map :: "('a, 's) Seq \<Rightarrow> ('a \<Rightarrow> 'b outcome) \<Rightarrow> ('b, 's) Seq" where
  "Iterx_Map seq f yield st = seq (\<lambda>v st. go_bind (f v) (\<lambda>u. yield u st)) st"

text \<open>The body given to a loop that the enclosing function returns from when \<open>yield\<close> does.\<close>

definition leaving :: "('a, 's) body \<Rightarrow> ('a, 's \<times> bool) body" where
  "leaving yield v st = go_bind (yield v (fst st)) (\<lambda>(more, s). Inr (more, (s, \<not> more)))"

definition Unbatch :: "('e + 'a list, 's) Seq \<Rightarrow> ('e + 'a, 's) Seq" where
  "Unbatch seq yield st =
     seq (\<lambda>batchRes st. case batchRes of
            Inl err \<Rightarrow> go_bind (yield (Inl err) st) (\<lambda>(_, st). Inr (False, st))
          | Inr batch \<Rightarrow>
              go_bind (FromSlice batch (leaving (\<lambda>item. yield (Inr item))) (st, False)) (\<lambda>(st, left).
              Inr (\<not> left, st))) st"

definition FromMap :: "('k, 'v) gomap \<Rightarrow> ('k \<times> 'v, 's) Seq" where
  "FromMap kvs = FromSlice (gm_entries kvs)"

fun Chain :: "('a, 's \<times> bool) Seq list \<Rightarrow> ('a, 's) Seq" where
  "Chain [] yield st = Inr st"
| "Chain (seq # seqs) yield st =
     go_bind (seq (leaving yield) (st, False)) (\<lambda>(st, left). if left then Inr st else Chain seqs yield st)"

section \<open>The combinators on lists\<close>

lemma FromSlice_leaving:
  "go_bind (FromSlice xs (leaving yield) (st, False)) (\<lambda>(st, left). if left then Inr st else f st) =
   (case xs of [] \<Rightarrow> f st | x # ys \<Rightarrow>
      go_bind (yield x st) (\<lambda>(more, st). if \<not> more then Inr st
        else go_bind (FromSlice ys (leaving yield) (st, False)) (\<lambda>(st, left). if left then Inr st else f st)))"
  by (cases xs) (auto simp: leaving_def go_bind_assoc split_def intro!: go_bind_cong)

lemma FromSlice_append:
  "FromSlice (xs @ ys) yield st =
     go_bind (FromSlice xs (leaving yield) (st, False)) (\<lambda>(st, left). if left then Inr st else FromSlice ys yield st)"
proof (induction xs arbitrary: st)
  case (Cons x xs)
  then show ?case
    by (subst FromSlice_leaving) (auto intro!: go_bind_cong)
qed simp

lemma Chain_FromSlice: "Chain (map FromSlice xss) = FromSlice (concat xss)"
proof (intro ext)
  show "Chain (map FromSlice xss) yield st = FromSlice (concat xss) yield st" for yield st
    by (induction xss arbitrary: st) (simp_all add: FromSlice_append cong: if_cong)
qed

lemma Collect_FromSlice: "Iterx_Collect (FromSlice xs) = Inr xs"
proof -
  have "FromSlice xs (\<lambda>v r. Inr (True, r @ [v])) acc = Inr (acc @ xs)" for acc
    by (induction xs arbitrary: acc) simp_all
  then show ?thesis
    by (simp add: Iterx_Collect_def)
qed

lemma Map_FromSlice: "Iterx_Map (FromSlice xs) (\<lambda>x. Inr (f x)) = FromSlice (map f xs)"
proof (intro ext)
  show "Iterx_Map (FromSlice xs) (\<lambda>x. Inr (f x)) yield st = FromSlice (map f xs) yield st" for yield st
    by (induction xs arbitrary: st) (simp_all add: Iterx_Map_def split_def cong: if_cong)
qed

lemma Find_FromSlice: "Iterx_Find (FromSlice xs) (\<lambda>x. Inr (f x)) = Inr (Option.bind (List.find (\<lambda>r. r \<noteq> None) (map f xs)) id)"
proof -
  have "FromSlice xs (\<lambda>v _. go_bind (Inr (f v)) (\<lambda>r. Inr (r = None, r))) None =
      Inr (Option.bind (List.find (\<lambda>r. r \<noteq> None) (map f xs)) id)"
    by (induction xs) auto
  then show ?thesis
    by (simp add: Iterx_Find_def)
qed

lemma Last_FromSlice:
  "Iterx_Last z (FromSlice xs) = (if xs = [] then Inl (AssertionError ''precondition violation: iterator yielded no values'') else Inr (last xs))"
proof -
  have "FromSlice xs (\<lambda>v _. Inr (True, (v, True))) (a, b) = Inr (if xs = [] then (a, b) else (last xs, True))" for a :: 'a and b
    by (induction xs arbitrary: a b) auto
  then show ?thesis
    by (simp add: Iterx_Last_def assert_defs)
qed

lemma CollectMap_FromSlice:
  assumes "distinct (map fst kvs)"
  shows "CollectMap (FromSlice kvs) = Inr (Some kvs)"
proof -
  have "FromSlice kvs (\<lambda>(k, v) result. go_bind (Preconditionf (gm_get result k = None) ''duplicate key %v'') (\<lambda>_.
          go_bind (gm_set result k v) (\<lambda>result. Inr (True, result)))) (Some acc) = Inr (Some (acc @ kvs))"
    if "distinct (map fst (acc @ kvs))" for acc
    using that
  proof (induction kvs arbitrary: acc)
    case (Cons kv kvs)
    obtain k v where kv: "kv = (k, v)"
      by fastforce
    have "map_of acc k = None"
      using Cons.prems kv by (auto simp: map_of_eq_None_iff)
    then show ?case
      using Cons.IH [of "acc @ [(k, v)]"] Cons.prems kv by (simp add: gm_get_def update_append)
  qed simp
  then show ?thesis
    using assms by (simp add: CollectMap_def)
qed

text \<open>\<open>Unbatch\<close> yields the items of the batches up to the first failure, which it yields last.\<close>

fun unbatched :: "('e + 'a list) list \<Rightarrow> ('e + 'a) list" where
  "unbatched [] = []"
| "unbatched (Inl err # rs) = [Inl err]"
| "unbatched (Inr batch # rs) = map Inr batch @ unbatched rs"

lemma FromSlice_map: "FromSlice xs (\<lambda>v. yield (f v)) st = FromSlice (map f xs) yield st"
  by (induction xs arbitrary: st) (simp_all add: split_def cong: if_cong)

lemma Unbatch_FromSlice: "Unbatch (FromSlice rs) = FromSlice (unbatched rs)"
proof (intro ext)
  show "Unbatch (FromSlice rs) yield st = FromSlice (unbatched rs) yield st" for yield st
  proof (induction rs arbitrary: st rule: unbatched.induct)
    case (2 err rs)
    then show ?case
      by (simp add: Unbatch_def go_bind_assoc split_def cong: if_cong)
  next
    case (3 batch rs)
    have "leaving (\<lambda>item. yield (Inr item)) = (\<lambda>item. leaving yield (Inr item))"
      by (intro ext) (simp add: leaving_def)
    then show ?case
      using 3 by (simp add: Unbatch_def FromSlice_append FromSlice_map go_bind_assoc split_def if_distrib cong: if_cong)
  qed (simp add: Unbatch_def)
qed

end
