(* ===== verification/Fsx.thy ===== *)
theory Fsx
  imports Line_Table Iterx
begin

text \<open>
  \<^verbatim>\<open>base/fsx\<close> and \<^verbatim>\<open>fsx/fsx_opt\<close>: file systems rooted at a directory. The file system of \<^verbatim>\<open>afero\<close> below is the record \<open>BaseFS\<close> of the
  functions the code calls, one snapshot of it; an open directory is the list of results that successive calls of its \<open>ReadDir\<close> give, after
  which it reports the end of the file. The record \<open>FS\<close> is the part of the interface \<open>fsx.FS\<close> that its clients read.
\<close>

section \<open>Interfaces\<close>

unbundle bit_operations_syntax

record FileInfo =
  fi_isDir :: bool
  fi_isRegular :: bool
  fi_mode :: "32 word"

record DirEntry =
  de_BaseName :: Name
  de_isDir :: bool

record StatOptions =
  so_FollowFinalSymlink :: bool
  so_OnErrorTraverseParents :: bool

text \<open>\<open>fs_isNotExist\<close> is the call \<open>errorx.GetRootCauseAsValue(err, fsx.ErrNotExist)\<close>.\<close>

record 'e FS =
  fs_Root :: AbsPath
  fs_Stat :: "RelPath \<Rightarrow> StatOptions \<Rightarrow> 'e + FileInfo"
  fs_ReadDir :: "RelPath \<Rightarrow> ('e + DirEntry) list"
  fs_ReadFile :: "RelPath \<Rightarrow> 'e + string"
  fs_isNotExist :: "'e \<Rightarrow> bool"

record iofs_DirEntry =
  io_Name :: string
  io_IsDir :: bool

datatype 'e readErr = NilErr | EOF | ReadErr 'e

record 'e iofs_File =
  if_isReadDirFile :: bool
  if_reads :: "(iofs_DirEntry list \<times> 'e readErr) list"

record 'e BaseFS =
  bf_Stat :: "string \<Rightarrow> 'e + FileInfo"
  bf_Lstat :: "string \<Rightarrow> 'e + FileInfo"
  bf_Open :: "string \<Rightarrow> 'e + 'e iofs_File"

section \<open>Stat\<close>

record 'e rootedFS =
  rf_root :: AbsPath
  rf_base :: "'e BaseFS"

record 'e StatError =
  se_fsError :: 'e
  se_shortestMissing :: RelPath

fun seps_loop :: "string \<Rightarrow> nat \<Rightarrow> nat list \<Rightarrow> nat list" where
  "seps_loop [] i seps = seps"
| "seps_loop (c # raw) i seps = seps_loop raw (i + 1) (if isUnixSeparator c then seps @ [i] else seps)"

function shortest_loop :: "('e BaseFS) \<Rightarrow> string \<Rightarrow> nat list \<Rightarrow> nat \<Rightarrow> nat \<Rightarrow> nat" where
  "shortest_loop base raw seps lo hi =
     (if lo < hi
      then let mid = (lo + hi) div 2
           in case bf_Stat base (take (seps ! mid) raw) of
                Inl statErr \<Rightarrow> shortest_loop base raw seps lo mid
              | Inr _ \<Rightarrow> shortest_loop base raw seps (mid + 1) hi
      else lo)"
  by pat_completeness auto
termination by (relation "measure (\<lambda>(_, _, _, lo, hi). hi - lo)") auto

declare shortest_loop.simps [simp del]

definition rootedFS_Stat :: "'e rootedFS \<Rightarrow> RelPath \<Rightarrow> StatOptions \<Rightarrow> ('e StatError + FileInfo) outcome" where
  "rootedFS_Stat fs rel opts =
     (case (if so_FollowFinalSymlink opts then bf_Stat (rf_base fs) (rp_value rel) else bf_Lstat (rf_base fs) (rp_value rel)) of
        Inr info \<Rightarrow> Inr (Inr info)
      | Inl err \<Rightarrow>
          if \<not> so_OnErrorTraverseParents opts then Inr (Inl \<lparr>se_fsError = err, se_shortestMissing = rel\<rparr>)
          else let raw = rp_value rel; seps = seps_loop raw 0 [];
                   lo = shortest_loop (rf_base fs) raw seps 0 (length seps)
               in if lo < length seps
                  then go_bind (MustParseRelPath (take (seps ! lo) raw)) (\<lambda>missing.
                       Inr (Inl \<lparr>se_fsError = err, se_shortestMissing = missing\<rparr>))
                  else Inr (Inl \<lparr>se_fsError = err, se_shortestMissing = rel\<rparr>))"

section \<open>ReadDir\<close>

definition dirEntry_BaseName :: "iofs_DirEntry \<Rightarrow> Name outcome" where
  "dirEntry_BaseName e =
     (case Name_Parse (io_Name e) of
        Inl err \<Rightarrow> go_bind (Invariantf False ''filesystem returned invalid Name(): %v'') (\<lambda>_. Inr \<lparr>nm_value = []\<rparr>)
      | Inr n \<Rightarrow> Inr n)"

fun readBatches_loop :: "(iofs_DirEntry list \<times> 'e readErr) list \<Rightarrow> ('e + iofs_DirEntry list, 's) Seq" where
  "readBatches_loop [] yield st = Inr st"
| "readBatches_loop ((entries, err) # reads) yield st =
     go_bind (if length entries > 0 then yield (Inr entries) st else Inr (True, st)) (\<lambda>(more, st).
     if \<not> more then Inr st
     else case err of
            NilErr \<Rightarrow>
              go_bind (Invariantf (length entries > 0) ''ReadDir(%q) returned an empty batch without EOF'') (\<lambda>_.
              readBatches_loop reads yield st)
          | EOF \<Rightarrow> Inr st
          | ReadErr e \<Rightarrow> go_bind (yield (Inl e) st) (\<lambda>(_, st). Inr st))"

definition readDirBatches :: "'e rootedFS \<Rightarrow> RelPath \<Rightarrow> ('e + iofs_DirEntry list, 's) Seq" where
  "readDirBatches fs rel yield st =
     (case bf_Open (rf_base fs) (rp_value rel) of
        Inl err \<Rightarrow> go_bind (yield (Inl err) st) (\<lambda>(_, st). Inr st)
      | Inr f \<Rightarrow>
          go_bind (Invariantf (if_isReadDirFile f) ''open(%q) returned %T, want fs.ReadDirFile'') (\<lambda>_.
          readBatches_loop (if_reads f) yield st))"

definition rootedFS_ReadDir :: "'e rootedFS \<Rightarrow> RelPath \<Rightarrow> ('e + iofs_DirEntry, 's) Seq" where
  "rootedFS_ReadDir fs rel =
     Iterx_Map (Unbatch (readDirBatches fs rel)) (\<lambda>entryRes. case entryRes of Inl err \<Rightarrow> Inr (Inl err) | Inr entry \<Rightarrow> Inr (Inr entry))"

section \<open>Options for opening a file\<close>

text \<open>The enumerations are bytes, as in the source, so that values outside of them are a branch of the model.\<close>

abbreviation OpenRW_ReadOnly :: "8 word" where "OpenRW_ReadOnly \<equiv> 1"
abbreviation OpenRW_WriteOnly :: "8 word" where "OpenRW_WriteOnly \<equiv> 2"
abbreviation OpenRW_ReadWrite :: "8 word" where "OpenRW_ReadWrite \<equiv> 3"

definition OpenRW_String :: "8 word \<Rightarrow> string outcome" where
  "OpenRW_String rw =
     (if rw = OpenRW_ReadOnly then Inr ''OpenRW_ReadOnly''
      else if rw = OpenRW_WriteOnly then Inr ''OpenRW_WriteOnly''
      else if rw = OpenRW_ReadWrite then Inr ''OpenRW_ReadWrite''
      else PanicUnknownCase)"

definition OpenRW_Label :: "8 word \<Rightarrow> string outcome" where
  "OpenRW_Label rw =
     (if rw = OpenRW_ReadOnly then Inr ''read-only''
      else if rw = OpenRW_WriteOnly then Inr ''write-only''
      else if rw = OpenRW_ReadWrite then Inr ''read-write''
      else PanicUnknownCase)"

abbreviation OpenMode_Existing :: "8 word" where "OpenMode_Existing \<equiv> 1"
abbreviation OpenMode_CreateOrKeep :: "8 word" where "OpenMode_CreateOrKeep \<equiv> 2"
abbreviation OpenMode_CreateNew :: "8 word" where "OpenMode_CreateNew \<equiv> 3"

definition OpenMode_String :: "8 word \<Rightarrow> string outcome" where
  "OpenMode_String mode =
     (if mode = OpenMode_Existing then Inr ''OpenMode_Existing''
      else if mode = OpenMode_CreateOrKeep then Inr ''OpenMode_CreateOrKeep''
      else if mode = OpenMode_CreateNew then Inr ''OpenMode_CreateNew''
      else PanicUnknownCase)"

text \<open>\<open>OpenOptions\<close> and \<open>OpenOptionsBuilder\<close> have the same fields; the source converts one to the other.\<close>

record OpenOptions =
  oo_rw :: "8 word"
  oo_mode :: "8 word"
  oo_append :: bool
  oo_truncate :: bool

type_synonym OpenOptionsBuilder = OpenOptions

definition Open :: "8 word \<Rightarrow> OpenOptionsBuilder outcome" where
  "Open rw =
     go_bind (if rw = OpenRW_ReadOnly \<or> rw = OpenRW_WriteOnly \<or> rw = OpenRW_ReadWrite then Inr ()
              else Preconditionf False ''unknown value for fsx_opt.OpenRW %d'') (\<lambda>_.
     Inr \<lparr>oo_rw = rw, oo_mode = OpenMode_Existing, oo_append = False, oo_truncate = False\<rparr>)"

definition WithMode :: "OpenOptionsBuilder \<Rightarrow> 8 word \<Rightarrow> OpenOptionsBuilder outcome" where
  "WithMode b mode =
     go_bind (if mode = OpenMode_Existing \<or> mode = OpenMode_CreateOrKeep \<or> mode = OpenMode_CreateNew then Inr ()
              else Preconditionf False ''unknown value for fsx_opt.OpenMode %d'') (\<lambda>_.
     Inr (b\<lparr>oo_mode := mode\<rparr>))"

definition WithAppend :: "OpenOptionsBuilder \<Rightarrow> bool \<Rightarrow> OpenOptionsBuilder" where
  "WithAppend b app = b\<lparr>oo_append := app\<rparr>"

definition WithTruncateIfPresent :: "OpenOptionsBuilder \<Rightarrow> bool \<Rightarrow> OpenOptionsBuilder" where
  "WithTruncateIfPresent b trunc = b\<lparr>oo_truncate := trunc\<rparr>"

abbreviation OpenOptionsBuildErrorKind_MissingWritePermission :: "8 word" where
  "OpenOptionsBuildErrorKind_MissingWritePermission \<equiv> 1"

record OpenOptionsBuildError =
  ob_kind :: "8 word"
  ob_neededBy :: string

definition NewOpenOptionsBuildError :: "8 word \<Rightarrow> string \<Rightarrow> OpenOptionsBuildError" where
  "NewOpenOptionsBuildError kind neededBy = \<lparr>ob_kind = kind, ob_neededBy = neededBy\<rparr>"

definition OpenOptionsBuildError_Error :: "OpenOptionsBuildError \<Rightarrow> string outcome" where
  "OpenOptionsBuildError_Error e =
     (if ob_kind e = OpenOptionsBuildErrorKind_MissingWritePermission
      then Inr (ob_neededBy e @ '' requires OpenRW_WriteOnly or OpenRW_ReadWrite'') else PanicUnknownCase)"

definition missingWritePerm :: "string \<Rightarrow> OpenOptionsBuildError" where
  "missingWritePerm neededBy = NewOpenOptionsBuildError OpenOptionsBuildErrorKind_MissingWritePermission neededBy"

definition Build :: "OpenOptionsBuilder \<Rightarrow> (OpenOptionsBuildError + OpenOptions) outcome" where
  "Build b =
     (if oo_rw b = OpenRW_ReadOnly
      then if oo_mode b \<noteq> OpenMode_Existing
           then go_bind (OpenMode_String (oo_mode b)) (\<lambda>s. Inr (Inl (missingWritePerm s)))
           else if oo_truncate b then Inr (Inl (missingWritePerm ''OpenOptions.TruncateIfPresent=true''))
           else if oo_append b then Inr (Inl (missingWritePerm ''OpenOptions.Append=true''))
           else Inr (Inr b)
      else if oo_rw b = OpenRW_WriteOnly \<or> oo_rw b = OpenRW_ReadWrite then Inr (Inr b)
      else PanicUnknownCase)"

definition MustBuild :: "OpenOptionsBuilder \<Rightarrow> OpenOptions outcome" where
  "MustBuild b =
     go_bind (Build b) (\<lambda>r. case r of
       Inl err \<Rightarrow> go_bind (Preconditionf False ''invalid OpenOptions: %v'') (\<lambda>_. Inr b)
     | Inr opts \<Rightarrow> Inr opts)"

text \<open>The flags of \<^verbatim>\<open>os\<close> on Linux, from \<^verbatim>\<open>syscall\<close>.\<close>

abbreviation O_RDONLY :: "64 word" where "O_RDONLY \<equiv> 0"
abbreviation O_WRONLY :: "64 word" where "O_WRONLY \<equiv> 1"
abbreviation O_RDWR :: "64 word" where "O_RDWR \<equiv> 2"
abbreviation O_CREATE :: "64 word" where "O_CREATE \<equiv> 0x40"
abbreviation O_EXCL :: "64 word" where "O_EXCL \<equiv> 0x80"
abbreviation O_TRUNC :: "64 word" where "O_TRUNC \<equiv> 0x200"
abbreviation O_APPEND :: "64 word" where "O_APPEND \<equiv> 0x400"

definition openFlags :: "OpenOptions \<Rightarrow> 64 word outcome" where
  "openFlags opts =
     go_bind (if oo_rw opts = OpenRW_ReadOnly then Inr O_RDONLY
              else if oo_rw opts = OpenRW_WriteOnly then Inr O_WRONLY
              else if oo_rw opts = OpenRW_ReadWrite then Inr O_RDWR
              else PanicUnknownCase) (\<lambda>flags.
     let flags = (if oo_append opts then flags OR O_APPEND else flags);
         flags = (if oo_truncate opts then flags OR O_TRUNC else flags)
     in if oo_mode opts = OpenMode_Existing then Inr flags
        else if oo_mode opts = OpenMode_CreateOrKeep then Inr (flags OR O_CREATE)
        else if oo_mode opts = OpenMode_CreateNew then Inr (flags OR (O_CREATE OR O_EXCL))
        else PanicUnknownCase)"

definition openPerm :: "OpenOptions \<Rightarrow> 32 word outcome" where
  "openPerm opts =
     (if oo_mode opts = OpenMode_Existing then Inr 0
      else if oo_mode opts = OpenMode_CreateOrKeep \<or> oo_mode opts = OpenMode_CreateNew then Inr 0x1B6
      else PanicUnknownCase)"

section \<open>Listing a directory\<close>

text \<open>
  What a directory lists: the entries of the batches up to the first error, which comes last. A non-nil error is documented to come with every
  empty batch (\<open>fs.ReadDirFile\<close>).
\<close>

fun listing :: "(iofs_DirEntry list \<times> 'e readErr) list \<Rightarrow> ('e + iofs_DirEntry) list" where
  "listing [] = []"
| "listing ((entries, err) # reads) =
     map Inr entries @ (case err of NilErr \<Rightarrow> listing reads | EOF \<Rightarrow> [] | ReadErr e \<Rightarrow> [Inl e])"

fun batches :: "(iofs_DirEntry list \<times> 'e readErr) list \<Rightarrow> ('e + iofs_DirEntry list) list" where
  "batches [] = []"
| "batches ((entries, err) # reads) =
     (if entries = [] then [] else [Inr entries]) @ (case err of NilErr \<Rightarrow> batches reads | EOF \<Rightarrow> [] | ReadErr e \<Rightarrow> [Inl e])"

definition reads_ok :: "(iofs_DirEntry list \<times> 'e readErr) list \<Rightarrow> bool" where
  "reads_ok reads \<longleftrightarrow> (\<forall>(entries, err) \<in> set reads. entries = [] \<longrightarrow> err \<noteq> NilErr)"

lemma readBatches_loop_spec: "reads_ok reads \<Longrightarrow> readBatches_loop reads yield st = FromSlice (batches reads) yield st"
proof (induction reads arbitrary: st)
  case (Cons r reads)
  obtain entries err where r: "r = (entries, err)"
    by fastforce
  have "reads_ok reads" and e: "entries = [] \<Longrightarrow> err \<noteq> NilErr"
    using Cons.prems r by (auto simp: reads_ok_def)
  then have IH: "readBatches_loop reads yield st = FromSlice (batches reads) yield st" for st
    using Cons.IH by simp
  show ?case
    using e by (cases "entries = []"; cases err) (auto simp: r IH split_def intro!: go_bind_cong)
qed simp

lemma unbatched_batches: "unbatched (batches reads) = listing reads"
  by (induction reads rule: listing.induct) (auto split: readErr.split)

lemma readDirBatches_spec:
  assumes "bf_Open (rf_base fs) (rp_value rel) = Inr f" and "if_isReadDirFile f" and "reads_ok (if_reads f)"
  shows "readDirBatches fs rel = FromSlice (batches (if_reads f))"
  by (intro ext) (simp add: readDirBatches_def assms readBatches_loop_spec)

lemma rootedFS_ReadDir_spec:
  assumes "bf_Open (rf_base fs) (rp_value rel) = Inr f" and "if_isReadDirFile f" and "reads_ok (if_reads f)"
  shows "rootedFS_ReadDir fs rel = FromSlice (listing (if_reads f))"
proof -
  have "(\<lambda>r. case r of Inl err \<Rightarrow> Inr (Inl err) | Inr entry \<Rightarrow> Inr (Inr entry)) =
      (\<lambda>r :: 'a + iofs_DirEntry. Inr r :: ('a + iofs_DirEntry) outcome)"
    by (auto split: sum.split)
  then show ?thesis
    using Map_FromSlice [of _ "\<lambda>r. r"]
    by (simp add: rootedFS_ReadDir_def readDirBatches_spec [OF assms] Unbatch_FromSlice unbatched_batches)
qed

section \<open>The shallowest missing ancestor\<close>

text \<open>The prefixes of a path that end before a separator.\<close>

fun cuts :: "string \<Rightarrow> string \<Rightarrow> string list" where
  "cuts pre [] = []"
| "cuts pre (c # raw) = (if isUnixSeparator c then [pre] else []) @ cuts (pre @ [c]) raw"

lemma seps_loop_cuts:
  "\<exists>is. seps_loop raw (length pre) seps = seps @ is \<and> map (\<lambda>i. take i (pre @ raw)) is = cuts pre raw"
proof (induction raw arbitrary: pre seps)
  case (Cons c raw)
  obtain "is" where "seps_loop raw (length (pre @ [c])) (if isUnixSeparator c then seps @ [length pre] else seps) =
      (if isUnixSeparator c then seps @ [length pre] else seps) @ is"
      "map (\<lambda>i. take i ((pre @ [c]) @ raw)) is = cuts (pre @ [c]) raw"
    using Cons.IH by blast
  then show ?case
    by (cases "isUnixSeparator c") auto
qed simp

lemma cuts_free: "\<forall>c \<in> set w. \<not> isUnixSeparator c \<Longrightarrow> cuts pre (w @ raw) = cuts (pre @ w) raw"
  by (induction w arbitrary: pre) auto

lemma cuts_join:
  "sep_free ws \<Longrightarrow> ws \<noteq> [] \<Longrightarrow> cuts pre (join_slash ws @ (if trail then ''/'' else [])) =
    map (\<lambda>k. pre @ join_slash (take k ws)) ([1..<length ws] @ (if trail then [length ws] else []))"
proof (induction ws arbitrary: pre rule: join_slash.induct)
  case (2 w)
  then show ?case
    using cuts_free [of w pre] by (auto simp: isUnixSeparator_def)
next
  case (3 w v ws)
  let ?ks = "[1..<length (v # ws)] @ (if trail then [length (v # ws)] else [])"
  have up: "[1..<length (w # v # ws)] @ (if trail then [length (w # v # ws)] else []) = 1 # map Suc ?ks"
    using upt_conv_Cons [of 1 "Suc (Suc (length ws))"] by (simp add: map_Suc_upt del: upt_Suc)
  have j: "join_slash (take (Suc k) (w # v # ws)) = w @ CHR ''/'' # join_slash (take k (v # ws))" if "k \<ge> 1" for k
    using that by (cases k) auto
  have "cuts pre (join_slash (w # v # ws) @ (if trail then ''/'' else [])) =
      (pre @ w) # cuts (pre @ w @ ''/'') (join_slash (v # ws) @ (if trail then ''/'' else []))"
    using cuts_free [of w pre] 3 by (simp add: isUnixSeparator_def)
  also have "\<dots> = (pre @ w) # map (\<lambda>k. (pre @ w @ ''/'') @ join_slash (take k (v # ws))) ?ks"
    using 3 by simp
  also have "\<dots> = map (\<lambda>k. pre @ join_slash (take k (w # v # ws))) (1 # map Suc ?ks)"
    using j by auto
  finally show ?case
    unfolding up .
qed simp

lemma shortest_loop_Search:
  "shortest_loop base raw seps lo hi = Search_loop (\<lambda>i. \<exists>e. bf_Stat base (take (seps ! i) raw) = Inl e) lo hi"
  by (induction base raw seps lo hi rule: shortest_loop.induct)
     (subst shortest_loop.simps, subst Search_loop.simps, auto simp: Let_def split: sum.split)

text \<open>The path of each ancestor, and of the path itself without a trailing separator.\<close>

definition ancestor_paths :: "string \<Rightarrow> string list" where
  "ancestor_paths v = (let s = comps isUnixSeparator v
     in map (\<lambda>k. join_slash (take k s)) ([1..<length s] @ (if isUnixSeparator (last v) then [length s] else [])))"

lemma seps_ancestors:
  assumes "rel_form v s trail"
  shows "map (\<lambda>i. take i v) (seps_loop v 0 []) = ancestor_paths v"
proof -
  obtain "is" where c: "seps_loop v 0 [] = is" "map (\<lambda>i. take i v) is = cuts [] v"
    using seps_loop_cuts [of v "[]" "[]"] by auto
  show ?thesis
  proof (cases "s = []")
    case True
    then have "v = ''.''"
      using assms by (simp add: rel_form_def)
    then show ?thesis
      by (simp add: ancestor_paths_def comps_single isUnixSeparator_def)
  next
    case False
    have n: "sep_free s" "v = join_slash s @ (if trail then ''/'' else [])"
      using assms False normal_stack_sep_free by (auto simp: rel_form_def)
    have "\<not> isUnixSeparator (last (join_slash s))" "join_slash s \<noteq> []"
      using n(1) False by (cases s rule: rev_cases; simp add: join_slash_snoc)+
    then have "isUnixSeparator (last v) \<longleftrightarrow> trail" "comps isUnixSeparator v = s"
      using n(2) rel_form_comps [OF assms] False by (auto simp: isUnixSeparator_def)
    then show ?thesis
      using c cuts_join [OF n(1) False, of "[]" trail] n(2) by (simp add: ancestor_paths_def Let_def)
  qed
qed

lemma MustParse_ancestor:
  assumes "rel_form v s trail" and "i < length (ancestor_paths v)"
  shows "MustParseRelPath (ancestor_paths v ! i) = Inr \<lparr>rp_value = ancestor_paths v ! i\<rparr>"
proof -
  have "ancestor_paths v ! i \<in> set (ancestor_paths v)"
    using assms(2) by simp
  then obtain k where "ancestor_paths v ! i = join_slash (take k (comps isUnixSeparator v))"
      "k \<in> set ([1..<length (comps isUnixSeparator v)] @ (if isUnixSeparator (last v) then [length (comps isUnixSeparator v)] else []))"
    unfolding ancestor_paths_def Let_def set_map by blast
  moreover have "comps isUnixSeparator v \<noteq> []"
    using rel_form_comps [OF assms(1)] by simp
  ultimately have k: "ancestor_paths v ! i = join_slash (take k (comps isUnixSeparator v))" "1 \<le> k"
      "k < length (comps isUnixSeparator v) \<or> isUnixSeparator (last v)" "k \<le> length (comps isUnixSeparator v)"
    by (auto simp: Suc_le_eq split: if_splits)
  have "s \<noteq> []"
  proof
    assume "s = []"
    then show False
      using k(2,3) rel_form_comps [OF assms(1)] assms(1) by (simp add: rel_form_def isUnixSeparator_def)
  qed
  then have s: "comps isUnixSeparator v = s" "take k s \<noteq> []"
    using k(2) rel_form_comps [OF assms(1)] by auto
  have "normal_stack False (take k s)"
    using assms(1) normal_stack_take unfolding rel_form_def by blast
  then show ?thesis
    using MustParseRelPath_form [OF rel_form_render] k(1) s by fastforce
qed

section \<open>The theorems\<close>

definition missing_at :: "'e BaseFS \<Rightarrow> string \<Rightarrow> bool" where
  "missing_at base p \<longleftrightarrow> (case bf_Stat base p of Inl _ \<Rightarrow> True | Inr _ \<Rightarrow> False)"

text \<open>
  C32. \<open>Stat\<close> of a rooted file system never panics. It gives the information of the file, of the link itself or of what it points to as the
  options say, or the error of the file system together with a path: the path asked for, or, with \<open>OnErrorTraverseParents\<close>, the
  shallowest ancestor that is missing, which the binary search finds whenever the ancestors of an existing path exist.
\<close>

theorem rootedFS_Stat_correct:
  fixes base :: "'e BaseFS"
  assumes "rel_ok rel"
    and "sorted (map (missing_at base) (ancestor_paths (rp_value rel)))"
  shows "rootedFS_Stat \<lparr>rf_root = root, rf_base = base\<rparr> rel opts =
    Inr (case (if so_FollowFinalSymlink opts then bf_Stat base (rp_value rel) else bf_Lstat base (rp_value rel)) of
           Inr info \<Rightarrow> Inr info
         | Inl err \<Rightarrow> Inl \<lparr>se_fsError = err, se_shortestMissing =
             (if so_OnErrorTraverseParents opts
              then (case List.find (missing_at base) (ancestor_paths (rp_value rel)) of Some p \<Rightarrow> \<lparr>rp_value = p\<rparr> | None \<Rightarrow> rel)
              else rel)\<rparr>)"
proof -
  obtain v s trail where v: "rel = \<lparr>rp_value = v\<rparr>" "rel_form v s trail"
    using rel_okE [OF assms(1)] .
  let ?seps = "seps_loop v 0 []"
  let ?f = "\<lambda>i. \<exists>e. bf_Stat base (take (?seps ! i) v) = Inl e"
  let ?lo = "shortest_loop base v ?seps 0 (length ?seps)"
  have a: "length (ancestor_paths v) = length ?seps" "i < length ?seps \<Longrightarrow> take (?seps ! i) v = ancestor_paths v ! i" for i
    using seps_ancestors [OF v(2)] by (metis length_map, metis nth_map)
  have f: "i < length ?seps \<Longrightarrow> ?f i \<longleftrightarrow> missing_at base (ancestor_paths v ! i)" for i
    by (simp add: a missing_at_def split: sum.split)
  have "search_result (length ?seps) ?f ?lo"
    unfolding shortest_loop_Search
  proof (intro Search_loop_spec allI impI)
    fix k l
    assume "k \<le> l" "l < length ?seps" "?f k"
    then show "?f l"
      using f [of k] f [of l] sorted_nth_mono [OF assms(2), of k l] v(1) a(1) by (auto simp: le_bool_def)
  qed auto
  then have sr: "?lo \<le> length ?seps" "\<forall>k < ?lo. \<not> ?f k" "\<forall>k. ?lo \<le> k \<longrightarrow> k < length ?seps \<longrightarrow> ?f k"
    unfolding search_result_def by blast+
  have lo: "\<not> missing_at base (ancestor_paths v ! k)" if "k < ?lo" for k
    using that sr(1,2) f [of k] by auto
  show ?thesis
  proof (cases "?lo < length ?seps")
    case True
    then have "List.find (missing_at base) (ancestor_paths v) = Some (ancestor_paths v ! ?lo)"
      using lo a(1) sr(3) f [of ?lo] by (auto simp: find_Some_iff)
    moreover have "MustParseRelPath (take (?seps ! ?lo) v) = Inr \<lparr>rp_value = ancestor_paths v ! ?lo\<rparr>"
      using MustParse_ancestor [OF v(2)] a True by simp
    ultimately show ?thesis
      using True v(1) by (simp add: rootedFS_Stat_def Let_def split: sum.split)
  next
    case False
    then have "List.find (missing_at base) (ancestor_paths v) = None"
      using lo a(1) sr(1) by (auto simp: find_None_iff in_set_conv_nth)
    then show ?thesis
      using False v(1) by (simp add: rootedFS_Stat_def Let_def split: sum.split)
  qed
qed

theorem rootedFS_Stat_correct_witness:
  "rootedFS_Stat \<lparr>rf_root = \<lparr>ap_value = ''/r''\<rparr>, rf_base = \<lparr>
      bf_Stat = (\<lambda>p. if p = ''a'' then Inr \<lparr>fi_isDir = True, fi_isRegular = False, fi_mode = 0\<rparr> else Inl ()),
      bf_Lstat = (\<lambda>_. Inl ()), bf_Open = (\<lambda>_. Inl ())\<rparr>\<rparr> \<lparr>rp_value = ''a/b/c''\<rparr>
      \<lparr>so_FollowFinalSymlink = False, so_OnErrorTraverseParents = True\<rparr> =
    Inr (Inl \<lparr>se_fsError = (), se_shortestMissing = \<lparr>rp_value = ''a/b''\<rparr>\<rparr>)"
proof -
  have r: "rel_ok \<lparr>rp_value = ''a/b/c''\<rparr>" "ancestor_paths ''a/b/c'' = [''a'', ''a/b'']"
    by code_simp+
  show ?thesis
    by (subst rootedFS_Stat_correct) (simp_all add: r missing_at_def)
qed

text \<open>
  Listing a directory yields the error of opening it, or the entries of all batches in order up to the first error, which it yields last, and stops
  when the loop does; a batch that comes together with the end of the file or with an error is not lost.
\<close>

lemma rootedFS_ReadDir_correct:
  assumes "case bf_Open (rf_base fs) (rp_value rel) of Inl _ \<Rightarrow> True | Inr f \<Rightarrow> if_isReadDirFile f \<and> reads_ok (if_reads f)"
  shows "rootedFS_ReadDir fs rel yield st =
    FromSlice (case bf_Open (rf_base fs) (rp_value rel) of Inl err \<Rightarrow> [Inl err] | Inr f \<Rightarrow> listing (if_reads f)) yield st"
proof (cases "bf_Open (rf_base fs) (rp_value rel)")
  case (Inl err)
  then show ?thesis
    by (simp add: rootedFS_ReadDir_def Iterx_Map_def Unbatch_def readDirBatches_def go_bind_assoc split_def cong: if_cong)
next
  case (Inr f)
  then show ?thesis
    using assms by (simp add: rootedFS_ReadDir_spec)
qed

text \<open>
  Options for opening a file: values outside the enumerations panic; building fails exactly for a read-only file that is to be created, truncated or
  appended to, naming the first such setting; otherwise the flags passed to the operating system have exactly the access mode and the bits of
  the settings, and new files get the permissions 0666.
\<close>

lemma OpenOptions_correct:
  "(if rw \<notin> {1, 2, 3} then Open rw = Inl (AssertionError ''precondition violation: unknown value for fsx_opt.OpenRW %d'')
    else \<exists>b0. Open rw = Inr b0 \<and>
      (if mode \<notin> {1, 2, 3} then WithMode b0 mode = Inl (AssertionError ''precondition violation: unknown value for fsx_opt.OpenMode %d'')
       else \<exists>b. WithMode b0 mode = Inr b \<and>
         (let b = WithTruncateIfPresent (WithAppend b app) trunc
          in if rw = OpenRW_ReadOnly \<and> \<not> (mode = OpenMode_Existing \<and> \<not> trunc \<and> \<not> app)
             then Build b = Inr (Inl \<lparr>ob_kind = 1, ob_neededBy =
                    if mode = OpenMode_CreateOrKeep then ''OpenMode_CreateOrKeep'' else if mode = OpenMode_CreateNew then ''OpenMode_CreateNew''
                    else if trunc then ''OpenOptions.TruncateIfPresent=true'' else ''OpenOptions.Append=true''\<rparr>)
                  \<and> \<not> is_ok (MustBuild b)
             else Build b = Inr (Inr b) \<and> MustBuild b = Inr b
                  \<and> (\<exists>flags. openFlags b = Inr flags
                      \<and> (flags AND 3 = O_RDONLY \<longleftrightarrow> rw = OpenRW_ReadOnly) \<and> (flags AND 3 = O_WRONLY \<longleftrightarrow> rw = OpenRW_WriteOnly)
                      \<and> (flags AND 3 = O_RDWR \<longleftrightarrow> rw = OpenRW_ReadWrite)
                      \<and> (flags AND O_APPEND \<noteq> 0 \<longleftrightarrow> app) \<and> (flags AND O_TRUNC \<noteq> 0 \<longleftrightarrow> trunc)
                      \<and> (flags AND O_CREATE \<noteq> 0 \<longleftrightarrow> mode \<noteq> OpenMode_Existing) \<and> (flags AND O_EXCL \<noteq> 0 \<longleftrightarrow> mode = OpenMode_CreateNew))
                  \<and> openPerm b = Inr (if mode = OpenMode_Existing then 0 else 0x1B6))))"
proof -
  note defs = Open_def WithMode_def WithAppend_def WithTruncateIfPresent_def Build_def MustBuild_def openFlags_def openPerm_def
    missingWritePerm_def NewOpenOptionsBuildError_def OpenMode_String_def Let_def assert_defs
  have "rw = 1 \<or> rw = 2 \<or> rw = 3 \<or> rw \<notin> {1, 2, 3}" "mode = 1 \<or> mode = 2 \<or> mode = 3 \<or> mode \<notin> {1, 2, 3}"
    by blast+
  then show ?thesis
    by (elim disjE; cases app; cases trunc; simp add: defs)
qed

end
