(* ===== verification/Effects.thy ===== *)
theory Effects
  imports Workspace_Config Fsx
begin

text \<open>
  Programs that run commands (\<^verbatim>\<open>base/cmdx\<close>) and change the file system. Commands and changes of the file system are events; the history of
  events is the state. The world outside is a function \<open>env\<close>, which answers an event from the history before it with an
  error or an output, so a statement for all \<open>env\<close> covers every behaviour of the programs that are run and of the disk.
\<close>

section \<open>Effects\<close>

record Cmd =
  cmd_argv :: "string list"
  cmd_dir :: "AbsPath option"

definition cmdx_New :: "string list \<Rightarrow> Cmd" where
  "cmdx_New argv = \<lparr>cmd_argv = argv, cmd_dir = None\<rparr>"

definition Cmd_In :: "AbsPath \<Rightarrow> Cmd \<Rightarrow> Cmd" where
  "Cmd_In dir c = c\<lparr>cmd_dir := Some dir\<rparr>"

text \<open>An argument of a \<open>Printf\<close> function; \<open>RunWithEnv\<close> runs a command with the given entries as its environment.\<close>

datatype arg = ArgString string | ArgInt int | ArgDuration int

datatype event =
    Run Cmd
  | RunWithEnv Cmd "string list"
  | Stat RelPath StatOptions
  | MkdirAll RelPath
  | MkdirTemp RelPath string
  | RemoveAll RelPath
  | Fprintf string "arg list"

datatype 'e err =
    ErrEnv 'e
  | ErrLookup lookupError
  | ErrMsg string "string list"
  | ErrWrap "'e err" string "string list"
  | ErrJoin "'e err" "'e err"

datatype ('e, 'a) result = Panic panic | Fail "'e err" | Ok 'a

type_synonym ('e, 'a) act = "event list \<Rightarrow> ('e, 'a) result \<times> event list"
type_synonym 'e environment = "event list \<Rightarrow> event \<Rightarrow> 'e + string"

definition act_return :: "'a \<Rightarrow> ('e, 'a) act" where
  "act_return x tr = (Ok x, tr)"

definition act_fail :: "'e err \<Rightarrow> ('e, 'a) act" where
  "act_fail e tr = (Fail e, tr)"

definition act_bind :: "('e, 'a) act \<Rightarrow> ('a \<Rightarrow> ('e, 'b) act) \<Rightarrow> ('e, 'b) act" where
  "act_bind m f tr = (case m tr of (Ok x, tr') \<Rightarrow> f x tr' | (Fail e, tr') \<Rightarrow> (Fail e, tr') | (Panic p, tr') \<Rightarrow> (Panic p, tr'))"

text \<open>\<open>if err := m; err != nil { return errorx.Wrapf(err, ...) }\<close>\<close>

definition act_wrap :: "('e, 'a) act \<Rightarrow> string \<Rightarrow> string list \<Rightarrow> ('e, 'a) act" where
  "act_wrap m msg args tr = (case m tr of (Fail e, tr') \<Rightarrow> (Fail (ErrWrap e msg args), tr') | r \<Rightarrow> r)"

definition lift :: "'a outcome \<Rightarrow> ('e, 'a) act" where
  "lift r tr = (case r of Inl p \<Rightarrow> (Panic p, tr) | Inr x \<Rightarrow> (Ok x, tr))"

definition perform :: "'e environment \<Rightarrow> event \<Rightarrow> ('e, string) act" where
  "perform env ev tr = (case env tr ev of Inl e \<Rightarrow> (Fail (ErrEnv e), tr @ [ev]) | Inr out \<Rightarrow> (Ok out, tr @ [ev]))"

text \<open>\<open>Runner.Run\<close> with captured standard output, and with default options.\<close>

definition capture :: "'e environment \<Rightarrow> Cmd \<Rightarrow> ('e, string) act" where
  "capture env c = perform env (Run c)"

definition exec :: "'e environment \<Rightarrow> Cmd \<Rightarrow> ('e, unit) act" where
  "exec env c = act_bind (perform env (Run c)) (\<lambda>_. act_return ())"

fun ExecAll :: "'e environment \<Rightarrow> Cmd list \<Rightarrow> ('e, unit) act" where
  "ExecAll env [] = act_return ()"
| "ExecAll env (c # cs) = act_bind (exec env c) (\<lambda>_. ExecAll env cs)"

text \<open>
  \<open>defer func() { _ = cleanup() }()\<close>: the deferred call runs however the body ends and its error is dropped. \<open>act_ignore\<close>: \<open>_, _ = m\<close>. \<open>succeeds\<close>:
  \<open>_, err := m\<close> with \<open>err\<close> only compared to nil.
\<close>

definition with_defer :: "('e, 'b) act \<Rightarrow> ('e, 'a) act \<Rightarrow> ('e, 'a) act" where
  "with_defer cleanup body tr =
     (let (r, tr) = body tr in case cleanup tr of (Panic p, tr) \<Rightarrow> (Panic p, tr) | (_, tr) \<Rightarrow> (r, tr))"

definition succeeds :: "('e, 'a) act \<Rightarrow> ('e, bool) act" where
  "succeeds m tr = (case m tr of (Ok _, tr) \<Rightarrow> (Ok True, tr) | (Fail _, tr) \<Rightarrow> (Ok False, tr) | (Panic p, tr) \<Rightarrow> (Panic p, tr))"

definition act_ignore :: "('e, 'a) act \<Rightarrow> ('e, unit) act" where
  "act_ignore m = act_bind (succeeds m) (\<lambda>_. act_return ())"

section \<open>Reasoning about histories\<close>

text \<open>
  \<open>seen\<close>: an event of the history was answered with an output. \<open>justified J\<close>: every event of the history satisfies \<open>J\<close> with the events
  before it. \<open>triple\<close>: the action only adds events, keeps the history justified, and a result satisfies \<open>Q\<close>.
\<close>

definition seen :: "'e environment \<Rightarrow> event list \<Rightarrow> event \<Rightarrow> string \<Rightarrow> bool" where
  "seen env tr ev out \<longleftrightarrow> (\<exists>pre post. tr = pre @ ev # post \<and> env pre ev = Inr out)"

definition justified :: "(event list \<Rightarrow> event \<Rightarrow> bool) \<Rightarrow> event list \<Rightarrow> bool" where
  "justified J tr \<longleftrightarrow> (\<forall>pre ev post. tr = pre @ ev # post \<longrightarrow> J pre ev)"

definition triple ::
  "(event list \<Rightarrow> event \<Rightarrow> bool) \<Rightarrow> (event list \<Rightarrow> bool) \<Rightarrow> ('e, 'a) act \<Rightarrow> ('a \<Rightarrow> event list \<Rightarrow> bool) \<Rightarrow> bool" where
  "triple J P m Q \<longleftrightarrow> (\<forall>tr r tr'. justified J tr \<longrightarrow> P tr \<longrightarrow> m tr = (r, tr') \<longrightarrow>
     justified J tr' \<and> (\<exists>xs. tr' = tr @ xs) \<and> (\<forall>x. r = Ok x \<longrightarrow> Q x tr'))"

definition stable :: "(event list \<Rightarrow> bool) \<Rightarrow> bool" where
  "stable P \<longleftrightarrow> (\<forall>tr xs. P tr \<longrightarrow> P (tr @ xs))"

lemma seen_append: "seen env tr ev out \<Longrightarrow> seen env (tr @ xs) ev out"
  unfolding seen_def by (metis append_assoc append_Cons)

lemma seen_snoc: "env tr ev = Inr out \<Longrightarrow> seen env (tr @ [ev]) ev out"
  by (auto simp: seen_def)

lemma stable_seen [simp, intro]: "stable (\<lambda>tr. seen env tr ev out)"
  by (simp add: stable_def seen_append)

lemma stable_const [simp, intro]: "stable (\<lambda>tr. c)"
  by (simp add: stable_def)

lemma stable_conj [intro]: "stable P \<Longrightarrow> stable Q \<Longrightarrow> stable (\<lambda>tr. P tr \<and> Q tr)"
  by (simp add: stable_def)

lemma stable_disj [intro]: "stable P \<Longrightarrow> stable Q \<Longrightarrow> stable (\<lambda>tr. P tr \<or> Q tr)"
  by (simp add: stable_def)

lemma stable_ex [intro]: "(\<And>x. stable (P x)) \<Longrightarrow> stable (\<lambda>tr. \<exists>x. P x tr)"
  unfolding stable_def by blast

lemma stable_all [intro]: "(\<And>x. stable (P x)) \<Longrightarrow> stable (\<lambda>tr. \<forall>x. P x tr)"
  unfolding stable_def by blast

lemmas stable_intros = stable_const stable_seen stable_conj stable_disj stable_ex stable_all

lemma justified_snoc: "justified J (tr @ [ev]) \<longleftrightarrow> justified J tr \<and> J tr ev"
proof
  assume j: "justified J (tr @ [ev])"
  have "J pre e" if "tr = pre @ e # post" for pre e post
    using j that unfolding justified_def by (metis append.assoc append_Cons)
  then show "justified J tr \<and> J tr ev"
    using j by (auto simp: justified_def)
next
  assume j: "justified J tr \<and> J tr ev"
  have "J pre e" if "tr @ [ev] = pre @ e # post" for pre e post
  proof (cases post rule: rev_cases)
    case Nil
    then show ?thesis
      using that j by simp
  next
    case (snoc ys y)
    then have "tr = pre @ e # ys"
      using that by simp
    then show ?thesis
      using j by (auto simp: justified_def)
  qed
  then show "justified J (tr @ [ev])"
    by (auto simp: justified_def)
qed

lemma triple_return: "(\<And>tr. P tr \<Longrightarrow> Q x tr) \<Longrightarrow> triple J P (act_return x) Q"
  by (auto simp: triple_def act_return_def)

lemma triple_fail: "triple J P (act_fail e) Q"
  by (auto simp: triple_def act_fail_def)

lemma triple_lift: "(\<And>x tr. r = Inr x \<Longrightarrow> P tr \<Longrightarrow> Q x tr) \<Longrightarrow> triple J P (lift r) Q"
  by (auto simp: triple_def lift_def split: sum.splits)

lemma triple_perform:
  assumes "\<And>tr. P tr \<Longrightarrow> J tr ev" and "stable P"
  shows "triple J P (perform env ev) (\<lambda>out tr. P tr \<and> seen env tr ev out)"
  using assms by (auto simp: triple_def perform_def justified_snoc stable_def seen_snoc split: sum.splits)

lemma triple_bind:
  assumes "triple J P m Q" and "\<And>x. triple J (Q x) (f x) R"
  shows "triple J P (act_bind m f) R"
  unfolding triple_def
proof (intro allI impI)
  fix tr r tr'
  assume tr: "justified J tr" "P tr" "act_bind m f tr = (r, tr')"
  obtain r1 tr1 where m: "m tr = (r1, tr1)"
    by (cases "m tr")
  then have m': "justified J tr1" "\<exists>xs. tr1 = tr @ xs" "\<And>x. r1 = Ok x \<Longrightarrow> Q x tr1"
    using assms(1) tr(1,2) by (auto simp: triple_def)
  show "justified J tr' \<and> (\<exists>xs. tr' = tr @ xs) \<and> (\<forall>x. r = Ok x \<longrightarrow> R x tr')"
  proof (cases r1)
    case (Ok x)
    then have "justified J tr' \<and> (\<exists>xs. tr' = tr1 @ xs) \<and> (\<forall>x. r = Ok x \<longrightarrow> R x tr')"
      using assms(2) [of x] m'(1,3) tr(3) m by (auto simp: triple_def act_bind_def)
    then show ?thesis
      using m'(2) by auto
  qed (use tr(3) m m' in \<open>auto simp: act_bind_def\<close>)
qed

lemma triple_wrap: "triple J P m Q \<Longrightarrow> triple J P (act_wrap m msg args) Q"
  by (auto simp: triple_def act_wrap_def split: prod.splits result.splits)

lemma triple_weaken: "triple J P m Q \<Longrightarrow> (\<And>tr. P' tr \<Longrightarrow> P tr) \<Longrightarrow> (\<And>x tr. Q x tr \<Longrightarrow> Q' x tr) \<Longrightarrow> triple J P' m Q'"
  unfolding triple_def by blast

text \<open>Facts about the past stay true.\<close>

lemma triple_frame: "triple J P m Q \<Longrightarrow> stable R \<Longrightarrow> triple J (\<lambda>tr. P tr \<and> R tr) m (\<lambda>x tr. Q x tr \<and> R tr)"
  by (force simp: triple_def stable_def)

lemma triple_exec:
  assumes "\<And>tr. P tr \<Longrightarrow> J tr (Run c)" and "stable P"
  shows "triple J P (exec env c) (\<lambda>_ tr. P tr \<and> (\<exists>out. seen env tr (Run c) out))"
  unfolding exec_def
proof (rule triple_bind)
  show "triple J P (perform env (Run c)) (\<lambda>out tr. P tr \<and> seen env tr (Run c) out)"
    using assms by (rule triple_perform)
qed (auto intro!: triple_return)

lemma triple_check: "triple J P (lift (Precondition b msg)) (\<lambda>_. P)"
  by (rule triple_lift) simp

lemma triple_unless: "(\<not> b \<Longrightarrow> triple J P m Q) \<Longrightarrow> (b \<Longrightarrow> triple J P n Q) \<Longrightarrow> triple J P (if \<not> b then m else n) Q"
  by simp

section \<open>Obligations\<close>

text \<open>
  \<open>owes ev out = Some c\<close>: once \<open>ev\<close> was answered with \<open>out\<close>, the event \<open>c\<close> has to follow. \<open>settles\<close>: an action only adds events, and settles
  what it comes to owe, however it ends.
\<close>

definition settled :: "(event \<Rightarrow> string \<Rightarrow> event option) \<Rightarrow> 'e environment \<Rightarrow> event list \<Rightarrow> event list \<Rightarrow> bool" where
  "settled owes env tr xs \<longleftrightarrow>
     (\<forall>pre ev post out c. xs = pre @ ev # post \<longrightarrow> env (tr @ pre) ev = Inr out \<longrightarrow> owes ev out = Some c \<longrightarrow> c \<in> set post)"

definition settles :: "(event \<Rightarrow> string \<Rightarrow> event option) \<Rightarrow> 'e environment \<Rightarrow> ('e, 'a) act \<Rightarrow> bool" where
  "settles owes env m \<longleftrightarrow> (\<forall>tr r tr'. m tr = (r, tr') \<longrightarrow> (\<exists>xs. tr' = tr @ xs \<and> settled owes env tr xs))"

lemma settled_Nil: "settled owes env tr []"
  by (simp add: settled_def)

lemma settled_append:
  assumes "settled owes env tr xs" and "settled owes env (tr @ xs) ys"
  shows "settled owes env tr (xs @ ys)"
  unfolding settled_def
proof (intro allI impI)
  fix pre ev post out c
  assume h: "xs @ ys = pre @ ev # post" "env (tr @ pre) ev = Inr out" "owes ev out = Some c"
  show "c \<in> set post"
  proof (cases "length pre < length xs")
    case True
    then obtain zs where "xs = pre @ ev # zs" "post = zs @ ys"
      using h(1) by (auto simp: append_eq_append_conv2 append_eq_Cons_conv Cons_eq_append_conv)
    then show ?thesis
      using assms(1) h(2,3) unfolding settled_def by auto
  next
    case False
    then obtain zs where "pre = xs @ zs" "ys = zs @ ev # post"
      using h(1) by (auto simp: append_eq_append_conv2 append_eq_Cons_conv Cons_eq_append_conv)
    then show ?thesis
      using assms(2) h(2,3) unfolding settled_def by auto
  qed
qed

lemma settled_single: "(\<And>out. owes ev out = None) \<Longrightarrow> settled owes env tr [ev]"
  by (auto simp: settled_def Cons_eq_append_conv)

lemma settled_opened:
  assumes "settled owes env (tr @ [ev]) xs" and "\<And>c. owes ev out = Some c \<Longrightarrow> c \<in> set xs"
    and "env tr ev = Inr out"
  shows "settled owes env tr (ev # xs)"
  unfolding settled_def
proof (intro allI impI)
  fix pre ev' post out' c'
  assume h: "ev # xs = pre @ ev' # post" "env (tr @ pre) ev' = Inr out'" "owes ev' out' = Some c'"
  show "c' \<in> set post"
  proof (cases pre)
    case Nil
    then show ?thesis
      using h assms by auto
  next
    case (Cons y ys)
    then show ?thesis
      using h assms(1) unfolding settled_def by auto
  qed
qed

lemma settles_return [intro]: "settles owes env (act_return x)"
  by (auto simp: settles_def act_return_def settled_Nil)

lemma settles_fail [intro]: "settles owes env (act_fail e)"
  by (auto simp: settles_def act_fail_def settled_Nil)

lemma settles_lift [intro]: "settles owes env (lift r)"
  by (auto simp: settles_def lift_def settled_Nil split: sum.splits)

lemma settles_perform: "(\<And>out. owes ev out = None) \<Longrightarrow> settles owes env (perform env ev)"
  by (auto simp: settles_def perform_def settled_single split: sum.splits)

lemma settles_bind:
  assumes "settles owes env m" and "\<And>x. settles owes env (f x)"
  shows "settles owes env (act_bind m f)"
  unfolding settles_def
proof (intro allI impI)
  fix tr r tr'
  assume run: "act_bind m f tr = (r, tr')"
  obtain r1 xs where m: "m tr = (r1, tr @ xs)" "settled owes env tr xs"
    using assms(1) unfolding settles_def by (metis surj_pair)
  show "\<exists>xs. tr' = tr @ xs \<and> settled owes env tr xs"
  proof (cases r1)
    case (Ok x)
    then have "f x (tr @ xs) = (r, tr')"
      using run m(1) by (simp add: act_bind_def)
    then obtain ys where "tr' = (tr @ xs) @ ys" "settled owes env (tr @ xs) ys"
      using assms(2) unfolding settles_def by blast
    then show ?thesis
      using settled_append [OF m(2)] by auto
  qed (use run m in \<open>auto simp: act_bind_def\<close>)
qed

lemma settles_succeeds [intro]: "settles owes env m \<Longrightarrow> settles owes env (succeeds m)"
  by (fastforce simp: settles_def succeeds_def split: prod.splits result.splits)

lemma settles_ignore [intro]: "settles owes env m \<Longrightarrow> settles owes env (act_ignore m)"
  unfolding act_ignore_def by (intro settles_bind settles_succeeds settles_return)

text \<open>An event that opens something, and the deferred call that closes it.\<close>

definition closes :: "event \<Rightarrow> ('e, 'a) act \<Rightarrow> bool" where
  "closes c m \<longleftrightarrow> (\<forall>tr. snd (m tr) = tr @ [c] \<and> (\<forall>p. fst (m tr) \<noteq> Panic p))"

lemma closes_perform: "closes c (perform env c)"
  by (auto simp: closes_def perform_def split: sum.splits)

lemma closes_exec: "closes (Run c) (exec env c)"
  by (auto simp: closes_def exec_def act_bind_def act_return_def perform_def split: sum.splits)

lemma with_defer_closes:
  assumes "closes c m" and "body tr = (r, tr')"
  shows "with_defer m body tr = (r, tr' @ [c])"
proof -
  obtain r' where "m tr' = (r', tr' @ [c])" "\<And>p. r' \<noteq> Panic p"
    using assms(1) unfolding closes_def by (metis prod.collapse)
  then show ?thesis
    using assms(2) by (cases r') (auto simp: with_defer_def)
qed

lemma settles_bracket:
  assumes "\<And>out. owes ev out = Some (closer out)" and "\<And>out. closes (closer out) (cleanup out)"
    and "\<And>out out'. owes (closer out) out' = None" and "\<And>out. settles owes env (body out)"
  shows "settles owes env (act_bind (perform env ev) (\<lambda>out. with_defer (cleanup out) (body out)))"
  unfolding settles_def
proof (intro allI impI)
  fix tr r tr'
  assume run: "act_bind (perform env ev) (\<lambda>out. with_defer (cleanup out) (body out)) tr = (r, tr')"
  show "\<exists>xs. tr' = tr @ xs \<and> settled owes env tr xs"
  proof (cases "env tr ev")
    case (Inl e)
    then have "settled owes env tr [ev]"
      by (auto simp: settled_def Cons_eq_append_conv)
    then show ?thesis
      using run Inl by (auto simp: act_bind_def perform_def)
  next
    case (Inr out)
    obtain r1 xs where body: "body out (tr @ [ev]) = (r1, (tr @ [ev]) @ xs)" "settled owes env (tr @ [ev]) xs"
      using assms(4) unfolding settles_def by (metis surj_pair)
    have "settled owes env (tr @ [ev]) (xs @ [closer out])"
      using body(2) assms(3) by (intro settled_append settled_single) auto
    then have "settled owes env tr (ev # xs @ [closer out])"
      using settled_opened [of owes env tr ev "xs @ [closer out]" out] assms(1) Inr by simp
    moreover have "tr' = tr @ ev # xs @ [closer out]"
      using run Inr with_defer_closes [of "closer out" "cleanup out" "body out"] assms(2) body(1) by (simp add: act_bind_def perform_def)
    ultimately show ?thesis
      by blast
  qed
qed

lemma exec_bind: "act_bind (exec env c) f = act_bind (perform env (Run c)) (\<lambda>_. f ())"
  by (auto simp: fun_eq_iff exec_def act_bind_def act_return_def split: prod.splits result.splits)

section \<open>Quiet commands\<close>

text \<open>
  Commands that a discipline on histories leaves alone may be run at any time and keep what is known of the past.
\<close>

locale quiet_history =
  fixes J :: "event list \<Rightarrow> event \<Rightarrow> bool" and quiet :: "Cmd \<Rightarrow> bool"
  assumes quiet_ok: "quiet c \<Longrightarrow> J pre (Run c)"
begin

lemma capture_quiet:
  assumes "quiet c" and "stable P"
  shows "triple J P (capture env c) (\<lambda>out tr. P tr \<and> seen env tr (Run c) out)"
  unfolding capture_def using assms quiet_ok by (intro triple_perform)

lemma exec_quiet:
  assumes "quiet c" and "stable P"
  shows "triple J P (exec env c) (\<lambda>_. P)"
  by (rule triple_weaken [OF triple_exec [of P J c]]) (use assms quiet_ok in auto)

lemma ExecAll_quiet: "\<forall>c \<in> set cs. quiet c \<Longrightarrow> stable P \<Longrightarrow> triple J P (ExecAll env cs) (\<lambda>_. P)"
proof (induction cs)
  case (Cons c cs)
  then show ?case
    using exec_quiet [of c P env] by (auto intro: triple_bind)
qed (auto intro: triple_return)

end

end
