(* ===== verification/Time_Pattern.thy ===== *)
theory Time_Pattern
  imports Assert
begin

text \<open>
  \<^verbatim>\<open>base/timex/pattern.go\<close> and \<^verbatim>\<open>timestamp.go\<close>: patterns that format a timestamp. A pattern is a slice, and \<open>append\<close> writes into the backing
  array when it has room, so the arrays are an explicit store: two patterns may share one. \<open>grow newLen oldCap\<close> is the capacity the runtime gives
  a slice that has to grow; the year, month and day are what \<open>time.Time\<close> reports.
\<close>

section \<open>Slices\<close>

record slice =
  sl_array :: nat
  sl_len :: nat
  sl_cap :: nat

definition nil_slice :: slice where
  "nil_slice = \<lparr>sl_array = 0, sl_len = 0, sl_cap = 0\<rparr>"

definition slice_elems :: "'a list list \<Rightarrow> slice \<Rightarrow> 'a list" where
  "slice_elems store s = take (sl_len s) (store ! sl_array s)"

lemma slice_elems_code [code]: "slice_elems store s = (if sl_len s = 0 then [] else take (sl_len s) (store ! sl_array s))"
  by (simp add: slice_elems_def)

text \<open>\<open>append(s, x)\<close>, as \<open>growslice\<close> describes it: a new array is zero beyond the appended element.\<close>

definition slice_append :: "(nat \<Rightarrow> nat \<Rightarrow> nat) \<Rightarrow> 'a \<Rightarrow> 'a list list \<Rightarrow> slice \<Rightarrow> 'a \<Rightarrow> slice \<times> 'a list list" where
  "slice_append grow zero store s x =
     (let newLen = sl_len s + 1
      in if newLen \<le> sl_cap s
         then (s\<lparr>sl_len := newLen\<rparr>, store[sl_array s := (store ! sl_array s)[sl_len s := x]])
         else let newcap = grow newLen (sl_cap s)
              in (\<lparr>sl_array = length store, sl_len = newLen, sl_cap = newcap\<rparr>,
                  store @ [slice_elems store s @ x # replicate (newcap - newLen) zero]))"

section \<open>Patterns\<close>

record spec =
  sp_kind :: nat
  sp_text :: string

definition patternSpecKind_Fixed :: nat where "patternSpecKind_Fixed = 1"
definition patternSpecKind_Year :: nat where "patternSpecKind_Year = 2"
definition patternSpecKind_Month :: nat where "patternSpecKind_Month = 3"
definition patternSpecKind_Day :: nat where "patternSpecKind_Day = 4"

type_synonym Pattern = slice

definition zero_spec :: spec where
  "zero_spec = \<lparr>sp_kind = 0, sp_text = []\<rparr>"

definition NewPattern :: Pattern where
  "NewPattern = nil_slice"

definition Pattern_append :: "(nat \<Rightarrow> nat \<Rightarrow> nat) \<Rightarrow> Pattern \<Rightarrow> spec \<Rightarrow> spec list list \<Rightarrow> Pattern \<times> spec list list" where
  "Pattern_append grow p spec store = slice_append grow zero_spec store p spec"

definition Pattern_Fixed :: "(nat \<Rightarrow> nat \<Rightarrow> nat) \<Rightarrow> string \<Rightarrow> Pattern \<Rightarrow> spec list list \<Rightarrow> Pattern \<times> spec list list" where
  "Pattern_Fixed grow fixed p = Pattern_append grow p \<lparr>sp_kind = patternSpecKind_Fixed, sp_text = fixed\<rparr>"

definition Pattern_Year :: "(nat \<Rightarrow> nat \<Rightarrow> nat) \<Rightarrow> Pattern \<Rightarrow> spec list list \<Rightarrow> Pattern \<times> spec list list" where
  "Pattern_Year grow p = Pattern_append grow p \<lparr>sp_kind = patternSpecKind_Year, sp_text = []\<rparr>"

definition Pattern_Month :: "(nat \<Rightarrow> nat \<Rightarrow> nat) \<Rightarrow> Pattern \<Rightarrow> spec list list \<Rightarrow> Pattern \<times> spec list list" where
  "Pattern_Month grow p = Pattern_append grow p \<lparr>sp_kind = patternSpecKind_Month, sp_text = []\<rparr>"

definition Pattern_Day :: "(nat \<Rightarrow> nat \<Rightarrow> nat) \<Rightarrow> Pattern \<Rightarrow> spec list list \<Rightarrow> Pattern \<times> spec list list" where
  "Pattern_Day grow p = Pattern_append grow p \<lparr>sp_kind = patternSpecKind_Day, sp_text = []\<rparr>"

section \<open>Formatting\<close>

text \<open>\<open>strconv.Itoa\<close>, and the negation of an \<open>int\<close>, which leaves the smallest one as it is.\<close>

fun nat_digits :: "nat \<Rightarrow> string" where
  "nat_digits n = (if n < 10 then [char_of (48 + n)] else nat_digits (n div 10) @ [char_of (48 + n mod 10)])"

declare nat_digits.simps [simp del]

definition Itoa :: "int \<Rightarrow> string" where
  "Itoa i = (if i < 0 then CHR ''-'' # nat_digits (nat (- i)) else nat_digits (nat i))"

definition int_neg :: "int \<Rightarrow> int" where
  "int_neg i = (if i = - MaxInt - 1 then i else - i)"

definition writePaddedInt :: "string \<Rightarrow> int \<Rightarrow> nat \<Rightarrow> string" where
  "writePaddedInt b val width =
     (let (b, val) = (if val < 0 then (b @ ''-'', int_neg val) else (b, val));
          digits = Itoa val
      in b @ replicate (width - length digits) (CHR ''0'') @ digits)"

record Timestamp =
  ts_Year :: int
  ts_Month :: int
  ts_Day :: int

text \<open>\<open>utc\<close>: the location of the time is \<open>time.UTC\<close>.\<close>

definition NewTimestamp :: "bool \<Rightarrow> Timestamp \<Rightarrow> Timestamp outcome" where
  "NewTimestamp utc val = go_bind (Preconditionf utc ''Timestamp must be UTC; got location %q'') (\<lambda>_. Inr val)"

fun format_loop :: "Timestamp \<Rightarrow> spec list \<Rightarrow> string \<Rightarrow> string outcome" where
  "format_loop t [] b = Inr b"
| "format_loop t (sp # specs) b =
     (if sp_kind sp = patternSpecKind_Fixed then format_loop t specs (b @ sp_text sp)
      else if sp_kind sp = patternSpecKind_Year then format_loop t specs (writePaddedInt b (ts_Year t) 4)
      else if sp_kind sp = patternSpecKind_Month then format_loop t specs (writePaddedInt b (ts_Month t) 2)
      else if sp_kind sp = patternSpecKind_Day then format_loop t specs (writePaddedInt b (ts_Day t) 2)
      else PanicUnknownCase)"

definition Timestamp_Format :: "Timestamp \<Rightarrow> Pattern \<Rightarrow> spec list list \<Rightarrow> string outcome" where
  "Timestamp_Format t pat store = format_loop t (slice_elems store pat) []"

section \<open>What a chain of calls builds\<close>

text \<open>The parts a caller asks for, and what each of them stands for.\<close>

datatype part = PFixed string | PYear | PMonth | PDay

fun add_part :: "(nat \<Rightarrow> nat \<Rightarrow> nat) \<Rightarrow> part \<Rightarrow> Pattern \<Rightarrow> spec list list \<Rightarrow> Pattern \<times> spec list list" where
  "add_part grow (PFixed fixed) p = Pattern_Fixed grow fixed p"
| "add_part grow PYear p = Pattern_Year grow p"
| "add_part grow PMonth p = Pattern_Month grow p"
| "add_part grow PDay p = Pattern_Day grow p"

fun add_parts :: "(nat \<Rightarrow> nat \<Rightarrow> nat) \<Rightarrow> part list \<Rightarrow> Pattern \<Rightarrow> spec list list \<Rightarrow> Pattern \<times> spec list list" where
  "add_parts grow [] p store = (p, store)"
| "add_parts grow (x # xs) p store = (let (p, store) = add_part grow x p store in add_parts grow xs p store)"

definition padded :: "nat \<Rightarrow> int \<Rightarrow> string" where
  "padded width i = (if i < 0 then ''-'' else []) @
     (let digits = nat_digits (nat \<bar>i\<bar>) in replicate (width - length digits) (CHR ''0'') @ digits)"

fun render :: "Timestamp \<Rightarrow> part \<Rightarrow> string" where
  "render t (PFixed fixed) = fixed"
| "render t PYear = padded 4 (ts_Year t)"
| "render t PMonth = padded 2 (ts_Month t)"
| "render t PDay = padded 2 (ts_Day t)"

fun part_spec :: "part \<Rightarrow> spec" where
  "part_spec (PFixed fixed) = \<lparr>sp_kind = patternSpecKind_Fixed, sp_text = fixed\<rparr>"
| "part_spec PYear = \<lparr>sp_kind = patternSpecKind_Year, sp_text = []\<rparr>"
| "part_spec PMonth = \<lparr>sp_kind = patternSpecKind_Month, sp_text = []\<rparr>"
| "part_spec PDay = \<lparr>sp_kind = patternSpecKind_Day, sp_text = []\<rparr>"

lemmas kind_defs = patternSpecKind_Fixed_def patternSpecKind_Year_def patternSpecKind_Month_def patternSpecKind_Day_def

lemma add_part_spec: "add_part grow x p store = slice_append grow zero_spec store p (part_spec x)"
  by (cases x) (simp_all add: Pattern_Fixed_def Pattern_Year_def Pattern_Month_def Pattern_Day_def Pattern_append_def)

lemma writePaddedInt_padded: "- MaxInt \<le> i \<Longrightarrow> writePaddedInt b i width = b @ padded width i"
  by (auto simp: writePaddedInt_def padded_def Itoa_def int_neg_def Let_def)

definition timestamp_ok :: "Timestamp \<Rightarrow> bool" where
  "timestamp_ok t \<longleftrightarrow> - MaxInt \<le> ts_Year t \<and> 1 \<le> ts_Month t \<and> ts_Month t \<le> 12 \<and> 1 \<le> ts_Day t \<and> ts_Day t \<le> 31"

lemma format_loop_render: "timestamp_ok t \<Longrightarrow> format_loop t (map part_spec xs) b = Inr (b @ concat (map (render t) xs))"
proof (induction xs arbitrary: b)
  case (Cons x xs)
  then have "- MaxInt \<le> ts_Month t" "- MaxInt \<le> ts_Day t" "- MaxInt \<le> ts_Year t"
    by (auto simp: timestamp_ok_def MaxInt_def)
  with Cons show ?case
    by (cases x) (simp_all add: kind_defs writePaddedInt_padded)
qed simp

lemma Timestamp_Format_render:
  "timestamp_ok t \<Longrightarrow> slice_elems store q = map part_spec xs \<Longrightarrow> Timestamp_Format t q store = Inr (concat (map (render t) xs))"
  by (simp add: Timestamp_Format_def format_loop_render)

text \<open>A slice of the store: its capacity is the length of its array.\<close>

definition slice_ok :: "'a list list \<Rightarrow> slice \<Rightarrow> bool" where
  "slice_ok store s \<longleftrightarrow> sl_len s \<le> sl_cap s \<and> (sl_cap s = 0 \<or> sl_array s < length store \<and> length (store ! sl_array s) = sl_cap s)"

lemma slice_append_ok:
  assumes "slice_ok store s" and grow: "\<And>m n. m \<le> grow m n" and r: "slice_append grow zero store s x = (s', store')"
  shows "slice_ok store' s'" and "slice_elems store' s' = slice_elems store s @ [x]" and "slice_elems store' s = slice_elems store s"
    and "slice_ok store' s"
proof -
  have "slice_ok store' s' \<and> slice_elems store' s' = slice_elems store s @ [x] \<and> slice_elems store' s = slice_elems store s \<and> slice_ok store' s"
  proof (cases "sl_len s + 1 \<le> sl_cap s")
    case True
    then have "sl_array s < length store" "length (store ! sl_array s) = sl_cap s"
      using assms(1) by (auto simp: slice_ok_def)
    then show ?thesis
      using True r by (auto simp: slice_append_def slice_ok_def slice_elems_def Let_def take_Suc_conv_app_nth)
  next
    case False
    then have len: "length (slice_elems store s) = sl_len s" "slice_elems (store @ zs) s = slice_elems store s" for zs
      using assms(1) by (auto simp: slice_ok_def slice_elems_def nth_append)
    let ?cap = "grow (Suc (sl_len s)) (sl_cap s)"
    let ?arr = "slice_elems store s @ x # replicate (?cap - Suc (sl_len s)) zero"
    have eqs: "s' = \<lparr>sl_array = length store, sl_len = Suc (sl_len s), sl_cap = ?cap\<rparr>" "store' = store @ [?arr]"
      using False r by (simp_all add: slice_append_def Let_def)
    have "slice_ok store' s"
      using assms(1) by (auto simp: eqs(2) slice_ok_def nth_append)
    moreover have "slice_ok store' s'"
      using len(1) grow [of "Suc (sl_len s)" "sl_cap s"] by (simp add: eqs slice_ok_def)
    moreover have "slice_elems store' s' = slice_elems store s @ [x]"
      using len(1) unfolding eqs slice_elems_def by simp
    ultimately show ?thesis
      using len(2) eqs(2) by simp
  qed
  then show "slice_ok store' s'" and "slice_elems store' s' = slice_elems store s @ [x]" and "slice_elems store' s = slice_elems store s"
    and "slice_ok store' s"
    by auto
qed

lemma add_parts_ok:
  assumes "slice_ok store p" and "\<And>m n. m \<le> grow m n" and "add_parts grow xs p store = (q, store')"
  shows "slice_ok store' q \<and> slice_elems store' q = slice_elems store p @ map part_spec xs"
  using assms(1,3)
proof (induction xs arbitrary: p store)
  case (Cons x xs)
  obtain p1 store1 where p1: "slice_append grow zero_spec store p (part_spec x) = (p1, store1)"
    by (cases "slice_append grow zero_spec store p (part_spec x)")
  note ok = slice_append_ok [OF Cons.prems(1) assms(2) p1]
  show ?case
    using Cons.IH [OF ok(1), of] Cons.prems(2) p1 ok(2) by (simp add: add_part_spec)
qed simp

lemma nil_slice_ok [simp]: "slice_ok store nil_slice" "slice_elems store nil_slice = []"
  by (simp_all add: slice_ok_def slice_elems_def nil_slice_def)

text \<open>Reading a number back.\<close>

definition read_digits :: "string \<Rightarrow> nat" where
  "read_digits = foldl (\<lambda>n c. 10 * n + (of_char c - 48)) 0"

fun read_int :: "string \<Rightarrow> int" where
  "read_int [] = 0"
| "read_int (c # cs) = (if c = CHR ''-'' then - int (read_digits cs) else int (read_digits (c # cs)))"

lemma read_nat_digits: "read_digits (nat_digits n) = n"
proof (induction n rule: nat_digits.induct)
  case (1 n)
  have [simp]: "(of_char (char_of (48 + k) :: char) :: nat) = 48 + k" if "k < 10" for k :: nat
    using that by simp
  show ?case
  proof (cases "n < 10")
    case True
    then show ?thesis
      by (subst nat_digits.simps) (simp add: read_digits_def)
  next
    case False
    then have "read_digits (nat_digits n) = 10 * read_digits (nat_digits (n div 10)) + n mod 10"
      by (subst nat_digits.simps) (simp add: read_digits_def)
    then show ?thesis
      using 1 False by simp
  qed
qed

lemma read_zeros: "read_digits (replicate k (CHR ''0'') @ cs) = read_digits cs"
  by (induction k) (simp_all add: read_digits_def)

lemma nat_digits_head: "nat_digits n \<noteq> [] \<and> hd (nat_digits n) \<noteq> CHR ''-''"
proof (induction n rule: nat_digits.induct)
  case (1 n)
  have "(char_of (48 + n) :: char) \<noteq> CHR ''-''" if "n < 10"
  proof
    assume "(char_of (48 + n) :: char) = CHR ''-''"
    then have "(of_char (char_of (48 + n) :: char) :: nat) = of_char CHR ''-''"
      by simp
    then show False
      using that by simp
  qed
  with 1 show ?case
    by (cases "n < 10") (subst nat_digits.simps; simp)+
qed

lemma read_padded: "read_int (padded width i) = i" and padded_length: "width \<le> length (padded width i)"
proof -
  let ?digits = "nat_digits (nat \<bar>i\<bar>)"
  let ?cs = "replicate (width - length ?digits) (CHR ''0'') @ ?digits"
  have cs: "?cs \<noteq> []" "hd ?cs \<noteq> CHR ''-''"
    using nat_digits_head [of "nat \<bar>i\<bar>"] by (cases "width - length ?digits"; simp)+
  moreover have "read_digits ?cs = nat \<bar>i\<bar>"
    by (simp add: read_zeros read_nat_digits)
  ultimately show "read_int (padded width i) = i"
    by (cases ?cs) (auto simp: padded_def Let_def)
  show "width \<le> length (padded width i)"
    by (simp add: padded_def Let_def)
qed

section \<open>Properties\<close>

text \<open>
  C40. A chain of calls that starts at \<open>NewPattern\<close> gives a pattern that formats a timestamp as the parts in their order: literal text unchanged, the year
  with at least four digits, the month and the day with two. Reading a padded number back gives the number.
\<close>

theorem Timestamp_Format_correct:
  assumes "\<And>m n. m \<le> grow m n" and "timestamp_ok t" and "add_parts grow parts NewPattern store = (p, store')"
  shows "Timestamp_Format t p store' = Inr (concat (map (render t) parts))
    \<and> read_int (padded width i) = i \<and> width \<le> length (padded width i)"
proof -
  have "slice_elems store' p = map part_spec parts"
    using add_parts_ok [OF _ assms(1,3)] by (simp add: NewPattern_def)
  then show ?thesis
    using Timestamp_Format_render [OF assms(2)] by (simp add: read_padded padded_length)
qed

text \<open>The growth of slices of fewer than 256 elements.\<close>

definition doubling :: "nat \<Rightarrow> nat \<Rightarrow> nat" where
  "doubling newLen oldCap = max newLen (2 * oldCap)"

definition iso_date :: "part list" where
  "iso_date = [PYear, PFixed ''-'', PMonth, PFixed ''-'', PDay]"

theorem Timestamp_Format_correct_witness:
  "Timestamp_Format \<lparr>ts_Year = 2026, ts_Month = 2, ts_Day = 9\<rparr> (fst (add_parts doubling iso_date NewPattern []))
     (snd (add_parts doubling iso_date NewPattern [])) = Inr ''2026-02-09'' \<and> read_int (padded 4 (-7)) = -7 \<and> 4 \<le> length (padded 4 (-7))"
proof -
  have digits: "nat_digits 2026 = ''2026''" "nat_digits 2 = ''2''" "nat_digits 9 = ''9''"
    by code_simp+
  show ?thesis
    using Timestamp_Format_correct [of doubling "\<lparr>ts_Year = 2026, ts_Month = 2, ts_Day = 9\<rparr>" iso_date "[]"
        "fst (add_parts doubling iso_date NewPattern [])" "snd (add_parts doubling iso_date NewPattern [])" 4 "-7"]
    by (simp add: doubling_def timestamp_ok_def MaxInt_def iso_date_def padded_def digits)
qed

text \<open>
  Two patterns built from the same base: the second always formats as the base with its own part added, and the base stays as it was. The first keeps
  its own part only if the array of the base was full; otherwise it now ends with the part of the second.
\<close>

lemma Pattern_branches:
  assumes "\<And>m n. m \<le> grow m n" and "timestamp_ok t" and "add_parts grow parts NewPattern store = (p, store0)"
    and "add_part grow x p store0 = (q1, store1)" and "add_part grow y p store1 = (q2, store2)"
  shows "Timestamp_Format t p store2 = Inr (concat (map (render t) parts))
    \<and> Timestamp_Format t q2 store2 = Inr (concat (map (render t) parts) @ render t y)
    \<and> Timestamp_Format t q1 store2 = Inr (concat (map (render t) parts) @ render t (if sl_len p < sl_cap p then y else x))"
proof -
  note r1 = assms(4) [unfolded add_part_spec] and r2 = assms(5) [unfolded add_part_spec]
  have p: "slice_ok store0 p" "slice_elems store0 p = map part_spec parts"
    using add_parts_ok [OF _ assms(1,3)] by (simp_all add: NewPattern_def)
  note a1 = slice_append_ok [OF p(1) assms(1) r1]
  note a2 = slice_append_ok [OF a1(4) assms(1) r2]
  have "slice_elems store2 q1 = map part_spec (parts @ [if sl_len p < sl_cap p then y else x])"
  proof (cases "sl_len p < sl_cap p")
    case True
    then have "q1 = q2"
      using r1 r2 by (simp add: slice_append_def)
    then show ?thesis
      using True a2(2) a1(3) p(2) by simp
  next
    case False
    then have "sl_array q1 = length store0" "length store1 = Suc (length store0)" "\<exists>zs. store2 = store1 @ zs"
      using r1 r2 by (auto simp: slice_append_def Let_def)
    then have "slice_elems store2 q1 = slice_elems store1 q1"
      by (auto simp: slice_elems_def nth_append)
    then show ?thesis
      using False a1(2) p(2) by simp
  qed
  from Timestamp_Format_render [OF assms(2) this]
  have "Timestamp_Format t q1 store2 = Inr (concat (map (render t) parts) @ render t (if sl_len p < sl_cap p then y else x))"
    by simp
  moreover have "slice_elems store2 q2 = map part_spec (parts @ [y])" "slice_elems store2 p = map part_spec parts"
    using a2(2,3) a1(3) p(2) by simp_all
  ultimately show ?thesis
    using Timestamp_Format_render [OF assms(2), of store2 q2 "parts @ [y]"] Timestamp_Format_render [OF assms(2), of store2 p parts] by simp
qed

end
