(* ===== verification/Kido_PR.thy ===== *)
theory Kido_PR
  imports Effects Time_Pattern
begin

text \<open>
  \<^verbatim>\<open>misc/cmd/kido/sync_pr.go\<close>: the command that opens pull requests for sync branches and sets them to be merged. Decoding JSON is a parameter, log output
  is left out. \<open>TrimSpace\<close> and \<open>Fields\<close> are those for ASCII text.
\<close>

section \<open>Strings\<close>

definition asciiSpace :: "char \<Rightarrow> bool" where
  "asciiSpace c \<longleftrightarrow> (of_char c :: nat) \<in> {9, 10, 11, 12, 13, 32}"

definition TrimSpace :: "string \<Rightarrow> string" where
  "TrimSpace s = rev (dropWhile asciiSpace (rev (dropWhile asciiSpace s)))"

function Fields :: "string \<Rightarrow> string list" where
  "Fields s =
     (let s = dropWhile asciiSpace s
      in if s = [] then [] else takeWhile (\<lambda>c. \<not> asciiSpace c) s # Fields (dropWhile (\<lambda>c. \<not> asciiSpace c) s))"
  by auto
termination
proof (relation "measure length", simp)
  fix s t :: string
  assume t: "t = dropWhile asciiSpace s" "t \<noteq> []"
  then have "\<not> asciiSpace (hd t)"
    by (metis hd_dropWhile)
  then have "length (dropWhile (\<lambda>c. \<not> asciiSpace c) t) < length t"
    using t(2) length_dropWhile_le [of _ "tl t"] by (cases t) (auto simp: le_imp_less_Suc)
  also have "length t \<le> length s"
    by (simp add: t(1) length_dropWhile_le)
  finally show "(dropWhile (\<lambda>c. \<not> asciiSpace c) t, s) \<in> measure length"
    by simp
qed

declare Fields.simps [simp del]

fun strings_Join :: "string list \<Rightarrow> string \<Rightarrow> string" where
  "strings_Join [] glue = []"
| "strings_Join [s] glue = s"
| "strings_Join (s # ss) glue = s @ glue @ strings_Join ss glue"

definition syncBranchPrefix :: string where
  "syncBranchPrefix = ''merge-bot/sync/''"

section \<open>Sync pull requests\<close>

record ListOpenPRsData =
  pr_Number :: int
  pr_URL :: string

record parsedSubtreeMetadata =
  psm_Dir :: "RelPath option"
  psm_LocalCommit :: "string option"
  psm_UpstreamCommit :: "string option"

record subtreeMetadata =
  sm_Dir :: RelPath
  sm_LocalCommit :: string
  sm_UpstreamCommit :: string

definition metadata_validate :: "parsedSubtreeMetadata \<Rightarrow> ('e, subtreeMetadata) act" where
  "metadata_validate p =
     (case (psm_Dir p, psm_LocalCommit p, psm_UpstreamCommit p) of
        (Some dir, Some local, Some upstream) \<Rightarrow> act_return \<lparr>sm_Dir = dir, sm_LocalCommit = local, sm_UpstreamCommit = upstream\<rparr>
      | _ \<Rightarrow> act_fail (ErrMsg ''incomplete subtree metadata: dir=%v local=%v upstream=%v'' []))"

definition formatPRBody :: "string \<Rightarrow> string" where
  "formatPRBody upstreamCommit = ''Pull in changes from upstream commit '' @ upstreamCommit"

definition formatMergeBody :: "subtreeMetadata \<Rightarrow> string" where
  "formatMergeBody metadata =
     (let lines = [''Pull in changes from upstream commit '' @ sm_UpstreamCommit metadata,
                   [],
                   ''mergebot-subtree-dir'' @ '': '' @ rp_value (sm_Dir metadata),
                   ''mergebot-local-commit'' @ '': '' @ sm_LocalCommit metadata,
                   ''mergebot-upstream-commit'' @ '': '' @ sm_UpstreamCommit metadata]
      in strings_Join lines [CHR 0x0A])"

definition listPRsCmd :: "AbsPath \<Rightarrow> string \<Rightarrow> string \<Rightarrow> Cmd" where
  "listPRsCmd repoRoot base head =
     Cmd_In repoRoot (cmdx_New [''gh'', ''pr'', ''list'', ''--state'', ''open'', ''--base'', base, ''--head'', head, ''--json'', ''number,url''])"

definition listOpenPRs ::
  "'e environment \<Rightarrow> (string \<Rightarrow> 'e + ListOpenPRsData list) \<Rightarrow> AbsPath \<Rightarrow> string \<Rightarrow> string \<Rightarrow> ('e, ListOpenPRsData list) act" where
  "listOpenPRs env parsePRs repoRoot base head =
     act_bind (capture env (listPRsCmd repoRoot base head)) (\<lambda>out.
     case parsePRs out of
       Inl e \<Rightarrow> act_fail (ErrWrap (ErrEnv e) ''parse gh pr list output: %s'' [out])
     | Inr prs \<Rightarrow> act_return prs)"

definition findOpenPR ::
  "'e environment \<Rightarrow> (string \<Rightarrow> 'e + ListOpenPRsData list) \<Rightarrow> AbsPath \<Rightarrow> string \<Rightarrow> string \<Rightarrow> ('e, int option) act" where
  "findOpenPR env parsePRs repoRoot base head =
     act_bind (listOpenPRs env parsePRs repoRoot base head) (\<lambda>prs.
     case prs of
       [] \<Rightarrow> act_return None
     | [pr] \<Rightarrow> act_return (Some (pr_Number pr))
     | _ \<Rightarrow> act_fail (ErrMsg ''found %d open PRs for branch %q into %q'' [head, base]))"

definition parentsCmd :: "AbsPath \<Rightarrow> string \<Rightarrow> Cmd" where
  "parentsCmd repoRoot headSHA = Cmd_In repoRoot (cmdx_New [''git'', ''show'', ''--no-patch'', ''--format=%P'', headSHA])"

definition subtreeMetadataForSyncHead :: "'e environment \<Rightarrow> AbsPath \<Rightarrow> RelPath \<Rightarrow> string \<Rightarrow> ('e, subtreeMetadata) act" where
  "subtreeMetadataForSyncHead env repoRoot project headSHA =
     act_bind (lift (Precondition (headSHA \<noteq> []) ''headSHA must be non-empty'')) (\<lambda>_.
     act_bind (capture env (parentsCmd repoRoot headSHA)) (\<lambda>out.
     let parentSHAs = Fields (TrimSpace out)
     in if length parentSHAs \<noteq> 2
        then act_fail (ErrMsg ''expected sync head %q for %q to be a 2-parent merge commit, got %d parent(s)'' [headSHA, rp_value project])
        else metadata_validate \<lparr>psm_Dir = Some project, psm_LocalCommit = Some (parentSHAs ! 0), psm_UpstreamCommit = Some (parentSHAs ! 1)\<rparr>))"

definition createLabelCmd :: "AbsPath \<Rightarrow> string \<Rightarrow> string \<Rightarrow> string \<Rightarrow> Cmd" where
  "createLabelCmd repoRoot name color description =
     Cmd_In repoRoot (cmdx_New [''gh'', ''label'', ''create'', name, ''--color'', color, ''--description'', description])"

definition ensureLabelExists ::
  "'e environment \<Rightarrow> (string \<Rightarrow> 'e + string list) \<Rightarrow> AbsPath \<Rightarrow> string \<Rightarrow> string \<Rightarrow> string \<Rightarrow> ('e, unit) act" where
  "ensureLabelExists env parseLabels repoRoot name color description =
     act_bind (lift (Precondition (name \<noteq> []) ''name must be non-empty'')) (\<lambda>_.
     act_bind (lift (Precondition (color \<noteq> []) ''color must be non-empty'')) (\<lambda>_.
     act_bind (lift (Precondition (description \<noteq> []) ''description must be non-empty'')) (\<lambda>_.
     act_bind (capture env (Cmd_In repoRoot (cmdx_New [''gh'', ''label'', ''list'', ''--search'', name, ''--json'', ''name'', ''--limit'', ''100'']))) (\<lambda>stdout.
     let out = TrimSpace stdout
     in act_bind (if out = [] then act_return []
                  else case parseLabels out of
                         Inl e \<Rightarrow> act_fail (ErrWrap (ErrEnv e) ''parse gh label list output: %s'' [out])
                       | Inr labels \<Rightarrow> act_return labels) (\<lambda>labels.
        if name \<in> set labels then act_return ()
        else exec env (createLabelCmd repoRoot name color description))))))"

definition prTitleDatePattern :: "(nat \<Rightarrow> nat \<Rightarrow> nat) \<Rightarrow> Pattern \<times> spec list list" where
  "prTitleDatePattern grow =
     (let (p, store) = Pattern_Year grow NewPattern [];
          (p, store) = Pattern_Fixed grow ''-'' p store;
          (p, store) = Pattern_Month grow p store;
          (p, store) = Pattern_Fixed grow ''-'' p store
      in Pattern_Day grow p store)"

definition prTitle :: "(nat \<Rightarrow> nat \<Rightarrow> nat) \<Rightarrow> Timestamp \<Rightarrow> RelPath \<Rightarrow> string outcome" where
  "prTitle grow now project =
     (let (p, store) = prTitleDatePattern grow
      in go_bind (Timestamp_Format now p store) (\<lambda>date.
         Inr (''chore('' @ rp_value project @ ''): Sync changes from upstream ('' @ date @ '')'')))"

definition headSHACmd :: "AbsPath \<Rightarrow> string \<Rightarrow> Cmd" where
  "headSHACmd repoRoot syncBranch = Cmd_In repoRoot (cmdx_New [''git'', ''rev-parse'', ''origin/'' @ syncBranch])"

definition diffCmd :: "AbsPath \<Rightarrow> string \<Rightarrow> string \<Rightarrow> Cmd" where
  "diffCmd repoRoot base syncBranch =
     Cmd_In repoRoot (cmdx_New [''git'', ''diff'', ''--quiet'', ''origin/'' @ base @ ''...origin/'' @ syncBranch])"

definition mergePRCmd :: "AbsPath \<Rightarrow> int \<Rightarrow> string \<Rightarrow> string \<Rightarrow> string \<Rightarrow> Cmd" where
  "mergePRCmd repoRoot prNumber title mergeBody headSHA =
     Cmd_In repoRoot (cmdx_New [''gh'', ''pr'', ''merge'', Itoa prNumber, ''--auto'', ''--merge'',
       ''--subject'', title, ''--body'', mergeBody, ''--match-head-commit'', headSHA])"

definition createPRCmd :: "AbsPath \<Rightarrow> string \<Rightarrow> string \<Rightarrow> string \<Rightarrow> string \<Rightarrow> string \<Rightarrow> Cmd" where
  "createPRCmd repoRoot base syncBranch title body projectLabel =
     Cmd_In repoRoot (cmdx_New [''gh'', ''pr'', ''create'', ''--base'', base, ''--head'', syncBranch, ''--title'', title, ''--body'', body,
       ''--label'', projectLabel, ''--label'', ''upstream-sync''])"

definition editPRCmd :: "AbsPath \<Rightarrow> int \<Rightarrow> string \<Rightarrow> string \<Rightarrow> string \<Rightarrow> Cmd" where
  "editPRCmd repoRoot prNumber title body projectLabel =
     Cmd_In repoRoot (cmdx_New [''gh'', ''pr'', ''edit'', Itoa prNumber, ''--title'', title, ''--body'', body,
       ''--add-label'', projectLabel, ''--add-label'', ''upstream-sync''])"

text \<open>The part of \<open>runSyncPRProject\<close> that edits the open pull request or creates one.\<close>

definition editOrCreatePR ::
  "'e environment \<Rightarrow> (string \<Rightarrow> 'e + ListOpenPRsData list) \<Rightarrow> AbsPath \<Rightarrow> string \<Rightarrow> string \<Rightarrow> int option \<Rightarrow> string \<Rightarrow> string \<Rightarrow> string \<Rightarrow> ('e, int) act" where
  "editOrCreatePR env parsePRs repoRoot base syncBranch existingPR title body projectLabel =
     (case existingPR of
        Some existing \<Rightarrow>
          act_bind (exec env (editPRCmd repoRoot existing title body projectLabel)) (\<lambda>_. act_return existing)
      | None \<Rightarrow>
          act_bind (exec env (createPRCmd repoRoot base syncBranch title body projectLabel)) (\<lambda>_.
          act_bind (findOpenPR env parsePRs repoRoot base syncBranch) (\<lambda>created.
          case created of
            None \<Rightarrow> act_fail (ErrMsg ''expected 1 open PR for branch %q after creation, got 0'' [syncBranch])
          | Some newPR \<Rightarrow> act_return newPR)))"

text \<open>\<open>err == nil\<close> of the diff ends the function; an error of it is dropped.\<close>

definition hasDiff :: "'e environment \<Rightarrow> Cmd \<Rightarrow> ('e, bool) act" where
  "hasDiff env c tr = (case env tr (Run c) of Inl _ \<Rightarrow> (Ok True, tr @ [Run c]) | Inr _ \<Rightarrow> (Ok False, tr @ [Run c]))"

definition runSyncPRProject ::
  "'e environment \<Rightarrow> (string \<Rightarrow> 'e + ListOpenPRsData list) \<Rightarrow> (string \<Rightarrow> 'e + string list) \<Rightarrow> (nat \<Rightarrow> nat \<Rightarrow> nat) \<Rightarrow> Timestamp \<Rightarrow>
   AbsPath \<Rightarrow> RelPath \<Rightarrow> string \<Rightarrow> ('e, unit) act" where
  "runSyncPRProject env parsePRs parseLabels grow now repoRoot project base =
     (let syncBranch = syncBranchPrefix @ rp_value project;
          projectLabel = ''project/'' @ rp_value project
      in act_bind (exec env (Cmd_In repoRoot (cmdx_New [''git'', ''fetch'', ''origin'', syncBranch]))) (\<lambda>_.
         act_bind (hasDiff env (diffCmd repoRoot base syncBranch)) (\<lambda>diff.
         if \<not> diff then act_return ()
         else
           act_bind (capture env (headSHACmd repoRoot syncBranch)) (\<lambda>headSHAOutput.
           let headSHA = TrimSpace headSHAOutput
           in act_bind (subtreeMetadataForSyncHead env repoRoot project headSHA) (\<lambda>metadata.
              act_bind (findOpenPR env parsePRs repoRoot base syncBranch) (\<lambda>existingPR.
              act_bind (ensureLabelExists env parseLabels repoRoot projectLabel ''1d76db'' ''Project-specific sync updates'') (\<lambda>_.
              act_bind (ensureLabelExists env parseLabels repoRoot ''upstream-sync'' ''6e7781'' ''Automated upstream sync updates'') (\<lambda>_.
              act_bind (lift (prTitle grow now project)) (\<lambda>title.
              act_bind (editOrCreatePR env parsePRs repoRoot base syncBranch existingPR title (formatPRBody (sm_UpstreamCommit metadata)) projectLabel) (\<lambda>prNumber.
              exec env (mergePRCmd repoRoot prNumber title (formatMergeBody metadata) headSHA)))))))))))"

fun syncPR_loop ::
  "'e environment \<Rightarrow> (string \<Rightarrow> 'e + ListOpenPRsData list) \<Rightarrow> (string \<Rightarrow> 'e + string list) \<Rightarrow> (nat \<Rightarrow> nat \<Rightarrow> nat) \<Rightarrow> Timestamp \<Rightarrow>
   AbsPath \<Rightarrow> string \<Rightarrow> RelPath list \<Rightarrow> ('e, unit) act" where
  "syncPR_loop env parsePRs parseLabels grow now root base [] = act_return ()"
| "syncPR_loop env parsePRs parseLabels grow now root base (project # projects) =
     act_bind (runSyncPRProject env parsePRs parseLabels grow now root project base) (\<lambda>_.
     syncPR_loop env parsePRs parseLabels grow now root base projects)"

definition runSyncPR ::
  "'e environment \<Rightarrow> (string \<Rightarrow> 'e + ListOpenPRsData list) \<Rightarrow> (string \<Rightarrow> 'e + string list) \<Rightarrow> (nat \<Rightarrow> nat \<Rightarrow> nat) \<Rightarrow> Timestamp \<Rightarrow>
   AbsPath \<Rightarrow> RelPath list \<Rightarrow> string option \<Rightarrow> ('e, unit) act" where
  "runSyncPR env parsePRs parseLabels grow now root projects optBase =
     act_bind (lift (Precondition (projects \<noteq> []) ''must sync 1+ projects'')) (\<lambda>_.
     syncPR_loop env parsePRs parseLabels grow now root (case optBase of Some base \<Rightarrow> base | None \<Rightarrow> ''main'') projects)"

section \<open>Pull requests: what every command rests on\<close>

definition merge_argv :: "Cmd \<Rightarrow> bool" where
  "merge_argv c \<longleftrightarrow> take 3 (cmd_argv c) = [''gh'', ''pr'', ''merge'']"

definition create_argv :: "Cmd \<Rightarrow> bool" where
  "create_argv c \<longleftrightarrow> take 3 (cmd_argv c) = [''gh'', ''pr'', ''create'']"

definition pr_quiet :: "Cmd \<Rightarrow> bool" where
  "pr_quiet c \<longleftrightarrow> \<not> merge_argv c \<and> \<not> create_argv c"

text \<open>
  A merge request is for the head of the sync branch that git reported and that has exactly two parents, which its body names;
  its number is that of the only open pull request in a listing of this branch.
\<close>

definition merge_rests ::
  "'e environment \<Rightarrow> (string \<Rightarrow> 'e + ListOpenPRsData list) \<Rightarrow> AbsPath \<Rightarrow> string \<Rightarrow> RelPath list \<Rightarrow> event list \<Rightarrow> Cmd \<Rightarrow> bool" where
  "merge_rests env parsePRs root base projects pre c \<longleftrightarrow>
     (\<exists>project \<in> set projects. \<exists>headOut parentsOut local upstream listOut pr title.
        c = mergePRCmd root (pr_Number pr) title (formatMergeBody \<lparr>sm_Dir = project, sm_LocalCommit = local, sm_UpstreamCommit = upstream\<rparr>)
              (TrimSpace headOut)
        \<and> TrimSpace headOut \<noteq> []
        \<and> seen env pre (Run (headSHACmd root (syncBranchPrefix @ rp_value project))) headOut
        \<and> seen env pre (Run (parentsCmd root (TrimSpace headOut))) parentsOut \<and> Fields (TrimSpace parentsOut) = [local, upstream]
        \<and> seen env pre (Run (listPRsCmd root base (syncBranchPrefix @ rp_value project))) listOut \<and> parsePRs listOut = Inr [pr])"

definition create_rests ::
  "'e environment \<Rightarrow> (string \<Rightarrow> 'e + ListOpenPRsData list) \<Rightarrow> AbsPath \<Rightarrow> string \<Rightarrow> RelPath list \<Rightarrow> event list \<Rightarrow> Cmd \<Rightarrow> bool" where
  "create_rests env parsePRs root base projects pre c \<longleftrightarrow>
     (\<exists>project \<in> set projects. \<exists>listOut title body label.
        c = createPRCmd root base (syncBranchPrefix @ rp_value project) title body label
        \<and> seen env pre (Run (listPRsCmd root base (syncBranchPrefix @ rp_value project))) listOut \<and> parsePRs listOut = Inr [])"

definition pr_rests ::
  "'e environment \<Rightarrow> (string \<Rightarrow> 'e + ListOpenPRsData list) \<Rightarrow> AbsPath \<Rightarrow> string \<Rightarrow> RelPath list \<Rightarrow> event list \<Rightarrow> event \<Rightarrow> bool" where
  "pr_rests env parsePRs root base projects pre ev \<longleftrightarrow>
     (case ev of
        Run c \<Rightarrow> (merge_argv c \<longrightarrow> merge_rests env parsePRs root base projects pre c)
               \<and> (create_argv c \<longrightarrow> create_rests env parsePRs root base projects pre c)
      | _ \<Rightarrow> False)"

lemmas argv_defs = pr_quiet_def merge_argv_def create_argv_def Cmd_In_def cmdx_New_def

lemma pr_rests_other: "pr_quiet c \<Longrightarrow> pr_rests env parsePRs root base projects tr (Run c)"
  by (simp add: pr_rests_def pr_quiet_def)

interpretation prq: quiet_history "pr_rests env parsePRs root b ps" pr_quiet for env parsePRs root b ps
  by unfold_locales (rule pr_rests_other)

lemma findOpenPR_triple:
  assumes "stable P"
  shows "triple (pr_rests env parsePRs root b ps) P (findOpenPR env parsePRs repoRoot base head) (\<lambda>found tr. P tr \<and>
    (\<exists>out. seen env tr (Run (listPRsCmd repoRoot base head)) out
       \<and> (case found of None \<Rightarrow> parsePRs out = Inr [] | Some n \<Rightarrow> \<exists>pr. parsePRs out = Inr [pr] \<and> pr_Number pr = n)))"
proof -
  have "triple (pr_rests env parsePRs root b ps) P (capture env (listPRsCmd repoRoot base head))
      (\<lambda>out tr. P tr \<and> seen env tr (Run (listPRsCmd repoRoot base head)) out)"
    by (rule prq.capture_quiet [OF _ assms]) (simp add: listPRsCmd_def argv_defs)
  then have "triple (pr_rests env parsePRs root b ps) P (listOpenPRs env parsePRs repoRoot base head)
      (\<lambda>prs tr. P tr \<and> (\<exists>out. seen env tr (Run (listPRsCmd repoRoot base head)) out \<and> parsePRs out = Inr prs))"
    unfolding listOpenPRs_def by (rule triple_bind) (auto intro!: triple_return triple_fail split: sum.split)
  then show ?thesis
    unfolding findOpenPR_def by (rule triple_bind) (auto intro!: triple_return triple_fail split: list.split)
qed

lemma metadata_triple:
  assumes "stable P"
  shows "triple (pr_rests env parsePRs root b ps) P (subtreeMetadataForSyncHead env repoRoot project headSHA) (\<lambda>md tr. P tr \<and> headSHA \<noteq> [] \<and>
    (\<exists>out local upstream. seen env tr (Run (parentsCmd repoRoot headSHA)) out \<and> Fields (TrimSpace out) = [local, upstream]
       \<and> md = \<lparr>sm_Dir = project, sm_LocalCommit = local, sm_UpstreamCommit = upstream\<rparr>))"
  unfolding subtreeMetadataForSyncHead_def
proof (rule triple_bind)
  show "triple (pr_rests env parsePRs root b ps) P (lift (Precondition (headSHA \<noteq> []) ''headSHA must be non-empty''))
      (\<lambda>_ tr. headSHA \<noteq> [] \<and> P tr)"
    by (rule triple_lift) (auto simp: assert_defs split: if_splits)
  fix u :: unit
  let ?c = "parentsCmd repoRoot headSHA"
  show "triple (pr_rests env parsePRs root b ps) (\<lambda>tr. headSHA \<noteq> [] \<and> P tr)
      (act_bind (capture env ?c) (\<lambda>out. let parentSHAs = Fields (TrimSpace out)
         in if length parentSHAs \<noteq> 2
            then act_fail (ErrMsg ''expected sync head %q for %q to be a 2-parent merge commit, got %d parent(s)'' [headSHA, rp_value project])
            else metadata_validate \<lparr>psm_Dir = Some project, psm_LocalCommit = Some (parentSHAs ! 0), psm_UpstreamCommit = Some (parentSHAs ! 1)\<rparr>))
      (\<lambda>md tr. P tr \<and> headSHA \<noteq> [] \<and> (\<exists>out local upstream. seen env tr (Run ?c) out \<and> Fields (TrimSpace out) = [local, upstream]
         \<and> md = \<lparr>sm_Dir = project, sm_LocalCommit = local, sm_UpstreamCommit = upstream\<rparr>))"
  proof (rule triple_bind)
    show "triple (pr_rests env parsePRs root b ps) (\<lambda>tr. headSHA \<noteq> [] \<and> P tr) (capture env ?c)
        (\<lambda>out tr. (headSHA \<noteq> [] \<and> P tr) \<and> seen env tr (Run ?c) out)"
      by (rule prq.capture_quiet) (auto simp: parentsCmd_def argv_defs assms)
    fix out
    show "triple (pr_rests env parsePRs root b ps) (\<lambda>tr. (headSHA \<noteq> [] \<and> P tr) \<and> seen env tr (Run ?c) out)
        (let parentSHAs = Fields (TrimSpace out)
         in if length parentSHAs \<noteq> 2
            then act_fail (ErrMsg ''expected sync head %q for %q to be a 2-parent merge commit, got %d parent(s)'' [headSHA, rp_value project])
            else metadata_validate \<lparr>psm_Dir = Some project, psm_LocalCommit = Some (parentSHAs ! 0), psm_UpstreamCommit = Some (parentSHAs ! 1)\<rparr>)
        (\<lambda>md tr. P tr \<and> headSHA \<noteq> [] \<and> (\<exists>out local upstream. seen env tr (Run ?c) out \<and> Fields (TrimSpace out) = [local, upstream]
           \<and> md = \<lparr>sm_Dir = project, sm_LocalCommit = local, sm_UpstreamCommit = upstream\<rparr>))"
    proof (cases "length (Fields (TrimSpace out)) = 2")
      case True
      then obtain local upstream where "Fields (TrimSpace out) = [local, upstream]"
        by (auto simp: numeral_2_eq_2 length_Suc_conv)
      then show ?thesis
        by (auto simp: metadata_validate_def intro!: triple_return)
    qed (auto intro: triple_fail)
  qed
qed

lemma ensureLabel_triple:
  assumes "stable P"
  shows "triple (pr_rests env parsePRs root b ps) P (ensureLabelExists env parseLabels repoRoot name color description) (\<lambda>_. P)"
  unfolding ensureLabelExists_def
proof (intro triple_bind [OF triple_check])
  let ?c = "Cmd_In repoRoot (cmdx_New [''gh'', ''label'', ''list'', ''--search'', name, ''--json'', ''name'', ''--limit'', ''100''])"
  have list: "triple (pr_rests env parsePRs root b ps) P (capture env ?c) (\<lambda>_. P)"
    by (rule triple_weaken [OF prq.capture_quiet [OF _ assms]]) (simp_all add: argv_defs)
  have create: "triple (pr_rests env parsePRs root b ps) P (exec env (createLabelCmd repoRoot name color description)) (\<lambda>_. P)"
    by (rule prq.exec_quiet [OF _ assms]) (simp add: createLabelCmd_def argv_defs)
  have parse: "triple (pr_rests env parsePRs root b ps) P (if out = [] then act_return [] else case parseLabels out of
      Inl e \<Rightarrow> act_fail (ErrWrap (ErrEnv e) ''parse gh label list output: %s'' [out]) | Inr labels \<Rightarrow> act_return labels) (\<lambda>_. P)" for out
    by (auto intro!: triple_return triple_fail split: sum.split)
  show "triple (pr_rests env parsePRs root b ps) P (act_bind (capture env ?c) (\<lambda>stdout.
     let out = TrimSpace stdout
     in act_bind (if out = [] then act_return []
                  else case parseLabels out of
                         Inl e \<Rightarrow> act_fail (ErrWrap (ErrEnv e) ''parse gh label list output: %s'' [out])
                       | Inr labels \<Rightarrow> act_return labels) (\<lambda>labels.
        if name \<in> set labels then act_return ()
        else exec env (createLabelCmd repoRoot name color description)))) (\<lambda>_. P)"
    unfolding Let_def
    by (rule triple_bind [OF list], rule triple_bind [OF parse]) (auto intro: triple_return create)
qed

lemma editOrCreate_triple:
  assumes "stable P" and proj: "project \<in> set ps"
  defines "branch \<equiv> syncBranchPrefix @ rp_value project"
  shows "triple (pr_rests env parsePRs root base ps)
    (\<lambda>tr. P tr \<and> (\<exists>out. seen env tr (Run (listPRsCmd root base branch)) out
       \<and> (case existing of None \<Rightarrow> parsePRs out = Inr [] | Some n \<Rightarrow> \<exists>pr. parsePRs out = Inr [pr] \<and> pr_Number pr = n)))
    (editOrCreatePR env parsePRs root base branch existing title body label)
    (\<lambda>n tr. P tr \<and> (\<exists>out pr. seen env tr (Run (listPRsCmd root base branch)) out \<and> parsePRs out = Inr [pr] \<and> pr_Number pr = n))"
proof (cases existing)
  case (Some n)
  let ?P = "\<lambda>tr. P tr \<and> (\<exists>out pr. seen env tr (Run (listPRsCmd root base branch)) out \<and> parsePRs out = Inr [pr] \<and> pr_Number pr = n)"
  have "triple (pr_rests env parsePRs root base ps) ?P (exec env (editPRCmd root n title body label)) (\<lambda>_. ?P)"
    by (rule prq.exec_quiet) (simp_all add: editPRCmd_def argv_defs, intro stable_intros assms(1))
  then have "triple (pr_rests env parsePRs root base ps) ?P
      (act_bind (exec env (editPRCmd root n title body label)) (\<lambda>_. act_return n)) (\<lambda>n' tr. ?P tr \<and> n' = n)"
    by (rule triple_bind) (auto intro: triple_return)
  then show ?thesis
    unfolding editOrCreatePR_def Some option.case by (rule triple_weaken) auto
next
  case None
  let ?P = "\<lambda>tr. P tr \<and> (\<exists>out. seen env tr (Run (listPRsCmd root base branch)) out \<and> parsePRs out = Inr [])"
  have stable: "stable ?P"
    by (intro stable_intros assms(1))
  have "create_rests env parsePRs root base ps tr (createPRCmd root base branch title body label)" if "?P tr" for tr
    using that proj by (auto simp: create_rests_def branch_def)
  moreover have "\<not> merge_argv (createPRCmd root base branch title body label)"
    by (simp add: createPRCmd_def argv_defs)
  ultimately have "triple (pr_rests env parsePRs root base ps) ?P (exec env (createPRCmd root base branch title body label))
      (\<lambda>_ tr. ?P tr \<and> (\<exists>out. seen env tr (Run (createPRCmd root base branch title body label)) out))"
    by (intro triple_exec stable) (simp add: pr_rests_def)
  then have create: "triple (pr_rests env parsePRs root base ps) ?P (exec env (createPRCmd root base branch title body label)) (\<lambda>_. P)"
    by (rule triple_weaken) auto
  show ?thesis
    unfolding editOrCreatePR_def None option.case
    by (rule triple_bind [OF triple_weaken [OF create]], simp, assumption, rule triple_bind [OF findOpenPR_triple [OF assms(1)]])
       (auto intro!: triple_return triple_fail split: option.split)
qed

text \<open>A project is done: git reported no difference to the base, or a pull request of it was set to be merged.\<close>

definition pr_done :: "'e environment \<Rightarrow> AbsPath \<Rightarrow> string \<Rightarrow> RelPath \<Rightarrow> event list \<Rightarrow> bool" where
  "pr_done env root base project tr \<longleftrightarrow>
     (\<exists>out. seen env tr (Run (diffCmd root base (syncBranchPrefix @ rp_value project))) out)
     \<or> (\<exists>n title md sha out. seen env tr (Run (mergePRCmd root n title (formatMergeBody md) sha)) out \<and> sm_Dir md = project)"

lemma stable_pr_done [intro]: "stable (pr_done env root base project)"
  unfolding pr_done_def by (intro stable_intros)

lemma hasDiff_triple:
  assumes "pr_quiet c"
  shows "triple (pr_rests env parsePRs root b ps) (\<lambda>_. True) (hasDiff env c) (\<lambda>diff tr. \<not> diff \<longrightarrow> (\<exists>out. seen env tr (Run c) out))"
  using pr_rests_other [OF assms]
  by (auto simp: triple_def hasDiff_def justified_snoc split: sum.splits dest: seen_snoc)

lemma merge_triple:
  assumes "project \<in> set ps"
  defines "branch \<equiv> syncBranchPrefix @ rp_value project"
  shows "triple (pr_rests env parsePRs root base ps)
    (\<lambda>tr. (seen env tr (Run (headSHACmd root branch)) headOut \<and> TrimSpace headOut \<noteq> []
        \<and> (\<exists>out local upstream. seen env tr (Run (parentsCmd root (TrimSpace headOut))) out \<and> Fields (TrimSpace out) = [local, upstream]
            \<and> md = \<lparr>sm_Dir = project, sm_LocalCommit = local, sm_UpstreamCommit = upstream\<rparr>))
      \<and> (\<exists>out pr. seen env tr (Run (listPRsCmd root base branch)) out \<and> parsePRs out = Inr [pr] \<and> pr_Number pr = n))
    (exec env (mergePRCmd root n title (formatMergeBody md) (TrimSpace headOut))) (\<lambda>_. pr_done env root base project)"
proof (rule triple_weaken [OF triple_exec])
  let ?c = "mergePRCmd root n title (formatMergeBody md) (TrimSpace headOut)"
  let ?P = "\<lambda>tr. (seen env tr (Run (headSHACmd root branch)) headOut \<and> TrimSpace headOut \<noteq> []
        \<and> (\<exists>out local upstream. seen env tr (Run (parentsCmd root (TrimSpace headOut))) out \<and> Fields (TrimSpace out) = [local, upstream]
            \<and> md = \<lparr>sm_Dir = project, sm_LocalCommit = local, sm_UpstreamCommit = upstream\<rparr>))
      \<and> (\<exists>out pr. seen env tr (Run (listPRsCmd root base branch)) out \<and> parsePRs out = Inr [pr] \<and> pr_Number pr = n)"
  have other: "\<not> create_argv ?c"
    by (simp add: mergePRCmd_def argv_defs)
  show "pr_rests env parsePRs root base ps tr (Run ?c)" if P: "?P tr" for tr
  proof -
    obtain out local upstream lout pr where "seen env tr (Run (headSHACmd root branch)) headOut" "TrimSpace headOut \<noteq> []"
        "seen env tr (Run (parentsCmd root (TrimSpace headOut))) out" "Fields (TrimSpace out) = [local, upstream]"
        "md = \<lparr>sm_Dir = project, sm_LocalCommit = local, sm_UpstreamCommit = upstream\<rparr>"
        "seen env tr (Run (listPRsCmd root base branch)) lout" "parsePRs lout = Inr [pr]" "pr_Number pr = n"
      using P by blast
    then have "merge_rests env parsePRs root base ps tr ?c"
      using assms(1) unfolding merge_rests_def branch_def by blast
    then show ?thesis
      using other by (simp add: pr_rests_def)
  qed
  show "stable ?P"
    by (intro stable_intros)
  show "pr_done env root base project tr" if "?P tr \<and> (\<exists>out. seen env tr (Run ?c) out)" for tr
    using that unfolding pr_done_def by force
qed

lemma runSyncPRProject_triple:
  assumes "project \<in> set ps"
  shows "triple (pr_rests env parsePRs root base ps) (\<lambda>_. True) (runSyncPRProject env parsePRs parseLabels grow now root project base)
    (\<lambda>_. pr_done env root base project)"
proof -
  let ?J = "pr_rests env parsePRs root base ps" and ?branch = "syncBranchPrefix @ rp_value project" and ?label = "''project/'' @ rp_value project"
  let ?list = "\<lambda>found tr. \<exists>out. seen env tr (Run (listPRsCmd root base ?branch)) out
    \<and> (case found of None \<Rightarrow> parsePRs out = Inr [] | Some n \<Rightarrow> \<exists>pr. parsePRs out = Inr [pr] \<and> pr_Number pr = n)"
  let ?md = "\<lambda>headOut md tr. seen env tr (Run (headSHACmd root ?branch)) headOut \<and> TrimSpace headOut \<noteq> []
    \<and> (\<exists>out local upstream. seen env tr (Run (parentsCmd root (TrimSpace headOut))) out \<and> Fields (TrimSpace out) = [local, upstream]
        \<and> md = \<lparr>sm_Dir = project, sm_LocalCommit = local, sm_UpstreamCommit = upstream\<rparr>)"
  have stable_md: "stable (?md headOut md)" for headOut md
    by (intro stable_intros)
  have stable_list: "stable (?list found)" for found
    by (intro stable_intros)
  have fetch: "triple ?J (\<lambda>_. True) (exec env (Cmd_In root (cmdx_New [''git'', ''fetch'', ''origin'', ?branch]))) (\<lambda>_ _. True)"
    by (rule prq.exec_quiet) (simp_all add: argv_defs)
  have diff: "triple ?J (\<lambda>_. True) (hasDiff env (diffCmd root base ?branch))
      (\<lambda>diff tr. \<not> diff \<longrightarrow> (\<exists>out. seen env tr (Run (diffCmd root base ?branch)) out))"
    by (rule hasDiff_triple) (simp_all add: diffCmd_def argv_defs)
  have head: "triple ?J Q (capture env (headSHACmd root ?branch)) (\<lambda>out tr. seen env tr (Run (headSHACmd root ?branch)) out)" for Q
    by (rule triple_weaken [OF prq.capture_quiet [where P = "\<lambda>_. True"]]) (simp_all add: headSHACmd_def argv_defs)
  have md: "triple ?J (\<lambda>tr. seen env tr (Run (headSHACmd root ?branch)) headOut)
      (subtreeMetadataForSyncHead env root project (TrimSpace headOut)) (?md headOut)" for headOut
    by (rule triple_weaken [OF metadata_triple]) auto
  have find: "triple ?J (?md headOut md) (findOpenPR env parsePRs root base ?branch) (\<lambda>found tr. ?md headOut md tr \<and> ?list found tr)" for headOut md
    by (rule findOpenPR_triple [OF stable_md])
  have labels: "triple ?J (\<lambda>tr. ?md headOut md tr \<and> ?list found tr) (ensureLabelExists env parseLabels root name color description)
      (\<lambda>_ tr. ?md headOut md tr \<and> ?list found tr)" for headOut md found name color description
    by (rule ensureLabel_triple [OF stable_conj [OF stable_md stable_list]])
  have title: "triple ?J (\<lambda>tr. ?md headOut md tr \<and> ?list found tr) (lift r) (\<lambda>_ tr. ?md headOut md tr \<and> ?list found tr)"
    for headOut md found and r :: "string outcome"
    by (rule triple_lift)
  show ?thesis
    unfolding runSyncPRProject_def Let_def
    by (rule triple_bind [OF fetch], rule triple_bind [OF diff], rule triple_unless, rule triple_return, simp add: pr_done_def,
        rule triple_bind [OF head], rule triple_bind [OF md], rule triple_bind [OF find], rule triple_bind [OF labels],
        rule triple_bind [OF labels], rule triple_bind [OF title], rule triple_bind [OF editOrCreate_triple [OF stable_md assms]],
        rule merge_triple [OF assms])
qed

lemma syncPR_loop_triple:
  "set projects \<subseteq> set ps \<Longrightarrow>
   triple (pr_rests env parsePRs root base ps) (\<lambda>tr. \<forall>p \<in> set done'. pr_done env root base p tr)
     (syncPR_loop env parsePRs parseLabels grow now root base projects) (\<lambda>_ tr. \<forall>p \<in> set done' \<union> set projects. pr_done env root base p tr)"
proof (induction projects arbitrary: done')
  case Nil
  then show ?case
    by (auto intro: triple_return)
next
  case (Cons project projects)
  let ?P = "\<lambda>tr. \<forall>p \<in> set done'. pr_done env root base p tr"
  have stable: "stable ?P"
    using stable_pr_done unfolding stable_def by blast
  have "project \<in> set ps"
    using Cons.prems by simp
  from triple_frame [OF runSyncPRProject_triple [OF this] stable]
  have "triple (pr_rests env parsePRs root base ps) ?P (runSyncPRProject env parsePRs parseLabels grow now root project base)
      (\<lambda>_ tr. \<forall>p \<in> set (project # done'). pr_done env root base p tr)"
    by (rule triple_weaken) auto
  then show ?case
    using Cons.IH [of "project # done'"] Cons.prems by (auto intro: triple_bind)
qed

section \<open>Properties\<close>

text \<open>
  C16. Whatever git, gh and the disk answer: a request to merge is made only for a project that was asked for, for the commit that git named as the head of its
  sync branch and that has exactly two parents, with those parents in the trailers of its message, and for the number of the only
  open pull request that a listing of that branch showed; a pull request is created only after a listing showed none. When the
  command succeeds, every project either had no difference to the base or was set to be merged.
\<close>

theorem sync_pr_justified:
  assumes "runSyncPR env parsePRs parseLabels grow now root projects optBase [] = (r, tr)"
  defines "base \<equiv> case optBase of Some b \<Rightarrow> b | None \<Rightarrow> ''main''"
  shows "(\<forall>pre c post. tr = pre @ Run c # post \<longrightarrow>
        (take 3 (cmd_argv c) = [''gh'', ''pr'', ''merge''] \<longrightarrow> merge_rests env parsePRs root base projects pre c)
        \<and> (take 3 (cmd_argv c) = [''gh'', ''pr'', ''create''] \<longrightarrow> create_rests env parsePRs root base projects pre c))
    \<and> (r = Ok () \<longrightarrow> (\<forall>project \<in> set projects. pr_done env root base project tr))"
proof -
  have "triple (pr_rests env parsePRs root base projects) (\<lambda>_. True) (runSyncPR env parsePRs parseLabels grow now root projects optBase)
      (\<lambda>_ tr. \<forall>p \<in> set projects. pr_done env root base p tr)"
    unfolding runSyncPR_def base_def using syncPR_loop_triple [of projects projects env parsePRs root _ "[]"]
    by (intro triple_bind [OF triple_check]) simp
  then have j: "justified (pr_rests env parsePRs root base projects) tr" "r = Ok () \<longrightarrow> (\<forall>p \<in> set projects. pr_done env root base p tr)"
    using assms(1) by (auto simp: triple_def justified_def)
  have "pr_rests env parsePRs root base projects pre (Run c)" if "tr = pre @ Run c # post" for pre c post
    using j(1) that unfolding justified_def by blast
  then show ?thesis
    using j(2) by (simp add: pr_rests_def merge_argv_def create_argv_def)
qed

text \<open>Examples: an outside in which everything succeeds, and one in which git refuses to add the worktree.\<close>

definition example_env :: "bool \<Rightarrow> unit environment" where
  "example_env refuse tr ev =
     (case ev of
        MkdirTemp _ _ \<Rightarrow> Inr ''.cache/tmp/w''
      | Run c \<Rightarrow>
          if take 2 (cmd_argv c) = [''git'', ''diff''] then Inl ()
          else if refuse \<and> take 2 (cmd_argv c) = [''git'', ''worktree''] then Inl ()
          else if take 2 (cmd_argv c) = [''git'', ''rev-parse''] then Inr ''c0''
          else if take 2 (cmd_argv c) = [''git'', ''show''] then Inr ''p1 p2''
          else Inr []
      | _ \<Rightarrow> Inr [])"

definition example_root :: AbsPath where
  "example_root = \<lparr>ap_value = ''/r''\<rparr>"

definition example_project :: RelPath where
  "example_project = \<lparr>rp_value = ''go''\<rparr>"

definition example_pr_run :: "event list" where
  "example_pr_run = snd (runSyncPR (example_env False) (\<lambda>_. Inr [\<lparr>pr_Number = 7, pr_URL = []\<rparr>]) (\<lambda>_. Inr []) doubling
     \<lparr>ts_Year = 2026, ts_Month = 2, ts_Day = 9\<rparr> example_root [example_project] None [])"

definition example_merge :: Cmd where
  "example_merge = mergePRCmd example_root 7 ''chore(go): Sync changes from upstream (2026-02-09)''
     (formatMergeBody \<lparr>sm_Dir = example_project, sm_LocalCommit = ''p1'', sm_UpstreamCommit = ''p2''\<rparr>) ''c0''"

lemma example_merged: "example_pr_run ! 10 = Run example_merge" "10 < length example_pr_run"
  by code_simp+

theorem sync_pr_justified_witness:
  "merge_rests (example_env False) (\<lambda>_. Inr [\<lparr>pr_Number = 7, pr_URL = []\<rparr>]) example_root ''main'' [example_project] (take 10 example_pr_run) example_merge"
proof -
  have tr: "example_pr_run = take 10 example_pr_run @ Run example_merge # drop 11 example_pr_run"
    using id_take_nth_drop [OF example_merged(2)] example_merged(1) by simp
  have "take 3 (cmd_argv example_merge) = [''gh'', ''pr'', ''merge'']"
    by (simp add: example_merge_def mergePRCmd_def Cmd_In_def cmdx_New_def)
  moreover obtain r where run: "runSyncPR (example_env False) (\<lambda>_. Inr [\<lparr>pr_Number = 7, pr_URL = []\<rparr>]) (\<lambda>_. Inr []) doubling
      \<lparr>ts_Year = 2026, ts_Month = 2, ts_Day = 9\<rparr> example_root [example_project] None [] = (r, example_pr_run)"
    unfolding example_pr_run_def by (metis surjective_pairing)
  ultimately show ?thesis
    using conjunct1 [OF sync_pr_justified [OF run]] tr unfolding option.case by blast
qed

end
