(* ===== verification/Kido_Branch.thy ===== *)
theory Kido_Branch
  imports Kido_PR
begin

text \<open>
  \<^verbatim>\<open>misc/cmd/kido/sync_branch.go\<close>, \<^verbatim>\<open>update.go\<close> and the choice of projects in \<^verbatim>\<open>main.go\<close>: the command that pulls upstream changes into sync branches in a
  temporary worktree and pushes them.
\<close>

section \<open>Sync branches\<close>

definition pullCmd :: "AbsPath \<Rightarrow> RelPath \<Rightarrow> UpstreamRepo \<Rightarrow> Cmd" where
  "pullCmd dir project upstream = Cmd_In dir (cmdx_New [''git'', ''subtree'', ''pull'', ''--prefix'', rp_value project,
     ''https://github.com/'' @ ur_GitHubRepo upstream @ ''.git'', ur_Branch upstream])"

fun runUpdate :: "'e environment \<Rightarrow> WorkspaceConfig \<Rightarrow> AbsPath \<Rightarrow> string \<Rightarrow> RelPath list \<Rightarrow> ('e, unit) act" where
  "runUpdate env config dir localBranch [] = act_return ()"
| "runUpdate env config dir localBranch (project # projects) =
     (case UpstreamForProject config localBranch project of
        Inl e \<Rightarrow> act_fail (ErrLookup e)
      | Inr upstream \<Rightarrow>
          act_bind (capture env (pullCmd dir project upstream)) (\<lambda>_. runUpdate env config dir localBranch projects))"

record remoteRef =
  rr_Name :: string
  rr_SHA :: string

definition parseSingleRemoteRef :: "string \<Rightarrow> string \<Rightarrow> ('e, remoteRef option) act" where
  "parseSingleRemoteRef wantRef lsRemoteOutput =
     act_bind (lift (Precondition (wantRef \<noteq> []) ''wantRef must be non-empty'')) (\<lambda>_.
     let out = TrimSpace lsRemoteOutput
     in if out = [] then act_return None
        else
          let lines = strings_Split (CHR 0x0A) out
          in if length lines \<noteq> 1 then act_fail (ErrMsg ''expected at most 1 ls-remote line for %q, got %d'' [wantRef])
             else
               let fields = Fields (lines ! 0)
               in if length fields \<noteq> 2 then act_fail (ErrMsg ''expected 2 fields in ls-remote output for %q, got %d: %q'' [wantRef, lines ! 0])
                  else if fields ! 1 \<noteq> wantRef then act_fail (ErrMsg ''expected ls-remote ref %q, got %q'' [wantRef, fields ! 1])
                  else act_return (Some \<lparr>rr_Name = fields ! 1, rr_SHA = fields ! 0\<rparr>))"

definition formatLease :: "string \<Rightarrow> remoteRef option \<Rightarrow> string outcome" where
  "formatLease branch remoteHead =
     go_bind (Precondition (branch \<noteq> []) ''branch must be non-empty'') (\<lambda>_.
     case remoteHead of
       Some ref \<Rightarrow> Inr (branch @ '':'' @ rr_SHA ref)
     | None \<Rightarrow> Inr (branch @ '':''))"

definition lsRemoteCmd :: "AbsPath \<Rightarrow> string \<Rightarrow> Cmd" where
  "lsRemoteCmd worktreeDir branch = Cmd_In worktreeDir (cmdx_New [''git'', ''ls-remote'', ''--heads'', ''origin'', ''refs/heads/'' @ branch])"

definition findRemoteBranchHeadRef :: "'e environment \<Rightarrow> AbsPath \<Rightarrow> string \<Rightarrow> ('e, remoteRef option) act" where
  "findRemoteBranchHeadRef env worktreeDir branch =
     act_bind (lift (Precondition (branch \<noteq> []) ''branch must be non-empty'')) (\<lambda>_.
     act_bind (capture env (lsRemoteCmd worktreeDir branch)) (\<lambda>out.
     parseSingleRemoteRef (''refs/heads/'' @ branch) out))"

definition deleteLocalBranchIfPresent :: "'e environment \<Rightarrow> AbsPath \<Rightarrow> string \<Rightarrow> ('e, unit) act" where
  "deleteLocalBranchIfPresent env worktreeDir branch =
     act_bind (capture env (Cmd_In worktreeDir (cmdx_New [''git'', ''branch'', ''--list'', branch]))) (\<lambda>out.
     if TrimSpace out = [] then act_return ()
     else exec env (Cmd_In worktreeDir (cmdx_New [''git'', ''branch'', ''-D'', branch])))"

definition resetWorktreeToBase :: "'e environment \<Rightarrow> AbsPath \<Rightarrow> string \<Rightarrow> ('e, unit) act" where
  "resetWorktreeToBase env worktreeDir base =
     ExecAll env [Cmd_In worktreeDir (cmdx_New [''git'', ''checkout'', ''--detach'', ''origin/'' @ base]),
                  Cmd_In worktreeDir (cmdx_New [''git'', ''reset'', ''--hard'', ''origin/'' @ base]),
                  Cmd_In worktreeDir (cmdx_New [''git'', ''clean'', ''-fd''])]"

definition pushCmd :: "AbsPath \<Rightarrow> string \<Rightarrow> string \<Rightarrow> Cmd" where
  "pushCmd worktreeAbs lease syncBranch =
     Cmd_In worktreeAbs (cmdx_New [''git'', ''push'', ''--force-with-lease='' @ lease, ''origin'', syncBranch @ '':'' @ syncBranch])"

definition runSyncBranchProject ::
  "'e environment \<Rightarrow> WorkspaceConfig \<Rightarrow> AbsPath \<Rightarrow> RelPath \<Rightarrow> RelPath \<Rightarrow> string \<Rightarrow> bool \<Rightarrow> ('e, unit) act" where
  "runSyncBranchProject env config root project worktreeDir baseBranch push =
     act_bind (lift (AbsPath_Join root worktreeDir)) (\<lambda>worktreeAbs.
     let syncBranch = syncBranchPrefix @ rp_value project
     in act_bind (act_wrap (resetWorktreeToBase env worktreeAbs baseBranch) ''reset worktree to base %q'' [baseBranch]) (\<lambda>_.
        act_bind (act_wrap (deleteLocalBranchIfPresent env worktreeAbs syncBranch) ''delete local branch %q'' [syncBranch]) (\<lambda>_.
        act_bind (exec env (Cmd_In worktreeAbs (cmdx_New [''git'', ''checkout'', ''-B'', syncBranch]))) (\<lambda>_.
        act_bind (runUpdate env config worktreeAbs baseBranch [project]) (\<lambda>_.
        if \<not> push then act_return ()
        else
          act_bind (act_wrap (findRemoteBranchHeadRef env worktreeAbs syncBranch) ''find remote head ref for %q'' [syncBranch]) (\<lambda>remoteHead.
          act_bind (lift (formatLease syncBranch remoteHead)) (\<lambda>lease.
          exec env (pushCmd worktreeAbs lease syncBranch))))))))"

definition worktreeRemoveCmd :: "AbsPath \<Rightarrow> RelPath \<Rightarrow> Cmd" where
  "worktreeRemoveCmd root worktreeDir = Cmd_In root (cmdx_New [''git'', ''worktree'', ''remove'', ''--force'', rp_value worktreeDir])"

text \<open>The \<open>cleanup\<close> closure: the error it returns, if any.\<close>

definition cleanup :: "'e environment \<Rightarrow> AbsPath \<Rightarrow> RelPath \<Rightarrow> bool \<Rightarrow> event list \<Rightarrow> 'e err option \<times> event list" where
  "cleanup env root worktreeDir worktreeAdded tr =
     (let (err1, tr) =
        (if worktreeAdded
         then (case exec env (worktreeRemoveCmd root worktreeDir) tr of
                 (Fail e, tr) \<Rightarrow> (Some e, tr) | (_, tr) \<Rightarrow> (None, tr))
         else (None, tr))
      in case perform env (RemoveAll worktreeDir) tr of
           (Fail e, tr) \<Rightarrow>
             (let e = ErrWrap e ''remove %s'' [rp_value worktreeDir]
              in (Some (case err1 of None \<Rightarrow> e | Some e1 \<Rightarrow> ErrJoin e1 e), tr))
         | (_, tr) \<Rightarrow> (err1, tr))"

text \<open>\<open>errorx.Join(err, cleanup())\<close>\<close>

definition join_err :: "'e err \<Rightarrow> 'e err option \<Rightarrow> 'e err" where
  "join_err e oe = (case oe of None \<Rightarrow> e | Some e' \<Rightarrow> ErrJoin e e')"

definition exec_or_cleanup :: "'e environment \<Rightarrow> AbsPath \<Rightarrow> RelPath \<Rightarrow> bool \<Rightarrow> Cmd \<Rightarrow> ('e, unit) act" where
  "exec_or_cleanup env root worktreeDir worktreeAdded c tr =
     (case exec env c tr of
        (Fail e, tr) \<Rightarrow> (let (e', tr) = cleanup env root worktreeDir worktreeAdded tr in (Fail (join_err e e'), tr))
      | r \<Rightarrow> r)"

definition worktreeAddCmd :: "AbsPath \<Rightarrow> RelPath \<Rightarrow> string \<Rightarrow> Cmd" where
  "worktreeAddCmd root worktreeDir base =
     Cmd_In root (cmdx_New [''git'', ''worktree'', ''add'', ''--quiet'', ''--detach'', rp_value worktreeDir, ''origin/'' @ base])"

definition createSyncWorktree :: "'e environment \<Rightarrow> AbsPath \<Rightarrow> string \<Rightarrow> ('e, RelPath) act" where
  "createSyncWorktree env root base =
     act_bind (lift (go_bind (MustParseRelPath ''.cache'') (\<lambda>p. RelPath_JoinComponents p [''tmp'']))) (\<lambda>tmpRoot.
     act_bind (act_wrap (perform env (MkdirAll tmpRoot)) ''create temp root %s'' [rp_value tmpRoot]) (\<lambda>_.
     act_bind (act_wrap (perform env (MkdirTemp tmpRoot ''meta-sync-'')) ''create sync worktree'' []) (\<lambda>dir.
     let worktreeDir = \<lparr>rp_value = dir\<rparr>
     in act_bind (exec_or_cleanup env root worktreeDir False (worktreeAddCmd root worktreeDir base)) (\<lambda>_.
        act_bind (lift (AbsPath_Join root worktreeDir)) (\<lambda>worktreeAbs.
        act_bind (exec_or_cleanup env root worktreeDir True
          (Cmd_In worktreeAbs (cmdx_New [''git'', ''checkout'', ''--detach'', ''origin/'' @ base]))) (\<lambda>_.
        act_return worktreeDir))))))"

fun syncBranch_loop ::
  "'e environment \<Rightarrow> WorkspaceConfig \<Rightarrow> AbsPath \<Rightarrow> RelPath \<Rightarrow> string \<Rightarrow> bool \<Rightarrow> RelPath list \<Rightarrow> ('e, unit) act" where
  "syncBranch_loop env config root worktreeDir baseBranch push [] = act_return ()"
| "syncBranch_loop env config root worktreeDir baseBranch push (project # projects) =
     act_bind (runSyncBranchProject env config root project worktreeDir baseBranch push) (\<lambda>_.
     syncBranch_loop env config root worktreeDir baseBranch push projects)"

text \<open>The deferred function runs however the body ends, also when it panics.\<close>

definition with_cleanup :: "'e environment \<Rightarrow> AbsPath \<Rightarrow> RelPath \<Rightarrow> bool \<Rightarrow> ('e, unit) act \<Rightarrow> ('e, unit) act" where
  "with_cleanup env root worktreeDir persist body tr =
     (let (r, tr) = body tr
      in if persist then (r, tr)
         else let (e', tr) = cleanup env root worktreeDir True tr
              in case r of
                   Panic p \<Rightarrow> (Panic p, tr)
                 | Fail e \<Rightarrow> (Fail (join_err e e'), tr)
                 | Ok x \<Rightarrow> (case e' of None \<Rightarrow> (Ok x, tr) | Some e \<Rightarrow> (Fail e, tr)))"

definition runSyncBranch ::
  "'e environment \<Rightarrow> WorkspaceConfig \<Rightarrow> AbsPath \<Rightarrow> RelPath list \<Rightarrow> string option \<Rightarrow> bool \<Rightarrow> bool \<Rightarrow> ('e, unit) act" where
  "runSyncBranch env config root projects optBase push persist =
     act_bind (lift (Precondition (projects \<noteq> []) ''must sync 1+ projects'')) (\<lambda>_.
     let baseBranch = (case optBase of Some base \<Rightarrow> base | None \<Rightarrow> ''main'')
     in act_bind (exec env (Cmd_In root (cmdx_New [''git'', ''fetch'', ''origin'', baseBranch]))) (\<lambda>_.
        act_bind (createSyncWorktree env root baseBranch) (\<lambda>worktreeDir.
        with_cleanup env root worktreeDir persist (syncBranch_loop env config root worktreeDir baseBranch push projects))))"

section \<open>Projects\<close>

text \<open>\<open>RelPath.Compare\<close> orders paths by their value; the keys of the map are distinct, so any sorting algorithm gives the same list.\<close>

definition resolveProjects :: "WorkspaceConfig \<Rightarrow> RelPath \<Rightarrow> 'e err + RelPath list" where
  "resolveProjects config project =
     (if rp_value project = ''all'' then Inr (sort_key rp_value (map fst (gm_entries (wc_ForkedFolders config))))
      else if gm_get (wc_ForkedFolders config) project = None
      then Inl (ErrMsg ''invalid --project %q, not a forked folder'' [rp_value project])
      else Inr [project])"

section \<open>Sync branches: what a push rests on\<close>

definition push_argv :: "Cmd \<Rightarrow> bool" where
  "push_argv c \<longleftrightarrow> take 2 (cmd_argv c) = [''git'', ''push'']"

text \<open>
  Changes of the file system are among the first \<open>n\<close> events. A push is asked for, comes after the pull of the configured upstream branch, and leases the commit that \<open>ls-remote\<close> reported for the
  branch, or its absence.
\<close>

definition lease_of :: "string \<Rightarrow> string \<Rightarrow> string \<Rightarrow> bool" where
  "lease_of branch lsOut lease \<longleftrightarrow>
     TrimSpace lsOut = [] \<and> lease = branch @ '':''
     \<or> (\<exists>sha. Fields (TrimSpace lsOut) = [sha, ''refs/heads/'' @ branch] \<and> lease = branch @ '':'' @ sha)"

definition push_rests ::
  "'e environment \<Rightarrow> WorkspaceConfig \<Rightarrow> string \<Rightarrow> bool \<Rightarrow> RelPath list \<Rightarrow> nat \<Rightarrow> event list \<Rightarrow> event \<Rightarrow> bool" where
  "push_rests env config base push projects n pre ev \<longleftrightarrow>
     (case ev of
        Run c \<Rightarrow> push_argv c \<longrightarrow> push \<and> (\<exists>project \<in> set projects. \<exists>dir upstream pullOut lsOut lease.
          c = pushCmd dir lease (syncBranchPrefix @ rp_value project)
          \<and> UpstreamForProject config base project = Inr upstream \<and> seen env pre (Run (pullCmd dir project upstream)) pullOut
          \<and> seen env pre (Run (lsRemoteCmd dir (syncBranchPrefix @ rp_value project))) lsOut
          \<and> lease_of (syncBranchPrefix @ rp_value project) lsOut lease)
      | _ \<Rightarrow> length pre < n)"

lemmas push_defs = push_argv_def Cmd_In_def cmdx_New_def

interpretation pushq: quiet_history "push_rests env config base push ps n" "\<lambda>c. \<not> push_argv c" for env config base push ps n
  by unfold_locales (simp add: push_rests_def)

lemma strings_Split_single: "length (strings_Split c s) = 1 \<Longrightarrow> strings_Split c s ! 0 = s"
proof (induction s)
  case (Cons x s)
  have "strings_Split c s \<noteq> []"
    by (induction s) auto
  then show ?case
    using Cons by (cases "strings_Split c s") (auto split: if_splits)
qed simp

lemma parseSingleRemoteRef_triple:
  "triple J P (parseSingleRemoteRef want out) (\<lambda>ref tr. P tr \<and>
     (case ref of None \<Rightarrow> TrimSpace out = [] | Some r \<Rightarrow> Fields (TrimSpace out) = [rr_SHA r, want]))"
proof -
  have "case ref of None \<Rightarrow> TrimSpace out = [] | Some r \<Rightarrow> Fields (TrimSpace out) = [rr_SHA r, want]"
    if r: "parseSingleRemoteRef want out tr = (Ok ref, tr')" for ref tr tr'
  proof (cases "TrimSpace out = []")
    case True
    then show ?thesis
      using r by (auto simp: parseSingleRemoteRef_def act_bind_def act_return_def lift_def split: sum.splits)
  next
    case False
    let ?lines = "strings_Split (CHR 0x0A) (TrimSpace out)"
    have "length ?lines = 1" "length (Fields (?lines ! 0)) = 2" "Fields (?lines ! 0) ! 1 = want" "ref = Some \<lparr>rr_Name = want, rr_SHA = Fields (?lines ! 0) ! 0\<rparr>"
      using r False by (auto simp: parseSingleRemoteRef_def act_bind_def act_return_def act_fail_def lift_def Let_def split: sum.splits if_splits)
    then show ?thesis
      using strings_Split_single [of "CHR 0x0A" "TrimSpace out"] by (auto simp: numeral_2_eq_2 length_Suc_conv)
  qed
  moreover have "tr' = tr" if "parseSingleRemoteRef want out tr = (r, tr')" for r tr tr'
    using that by (auto simp: parseSingleRemoteRef_def act_bind_def act_return_def act_fail_def lift_def Let_def split: sum.splits if_splits)
  ultimately show ?thesis
    unfolding triple_def by blast
qed

lemma runUpdate_triple:
  "triple (push_rests env config base push ps n) (\<lambda>_. True) (runUpdate env config dir b [project])
     (\<lambda>_ tr. \<exists>upstream out. UpstreamForProject config b project = Inr upstream \<and> seen env tr (Run (pullCmd dir project upstream)) out)"
proof (cases "UpstreamForProject config b project")
  case (Inr upstream)
  have "triple (push_rests env config base push ps n) (\<lambda>_. True) (capture env (pullCmd dir project upstream))
      (\<lambda>out tr. True \<and> seen env tr (Run (pullCmd dir project upstream)) out)"
    by (rule pushq.capture_quiet) (auto simp: pullCmd_def push_defs)
  then show ?thesis
    using Inr by (auto intro!: triple_bind triple_return)
qed (simp add: triple_fail)

lemma deleteLocalBranch_quiet:
  "triple (push_rests env config base push ps n) (\<lambda>_. True) (deleteLocalBranchIfPresent env dir branch) (\<lambda>_ _. True)"
proof -
  have "triple (push_rests env config base push ps n) (\<lambda>_. True) (capture env (Cmd_In dir (cmdx_New [''git'', ''branch'', ''--list'', branch])))
      (\<lambda>out tr. True \<and> seen env tr (Run (Cmd_In dir (cmdx_New [''git'', ''branch'', ''--list'', branch]))) out)"
    by (rule pushq.capture_quiet) (auto simp: push_defs)
  moreover have "triple (push_rests env config base push ps n) (\<lambda>_. True) (exec env (Cmd_In dir (cmdx_New [''git'', ''branch'', ''-D'', branch]))) (\<lambda>_ _. True)"
    by (rule pushq.exec_quiet) (simp_all add: push_defs)
  ultimately show ?thesis
    unfolding deleteLocalBranchIfPresent_def by (auto intro!: triple_bind triple_return elim: triple_weaken)
qed

lemma findRemote_triple:
  assumes "stable P"
  shows "triple (push_rests env config base push ps n) P (findRemoteBranchHeadRef env dir branch) (\<lambda>ref tr. P tr \<and>
    (\<exists>out. seen env tr (Run (lsRemoteCmd dir branch)) out
       \<and> (case ref of None \<Rightarrow> TrimSpace out = [] | Some r \<Rightarrow> Fields (TrimSpace out) = [rr_SHA r, ''refs/heads/'' @ branch])))"
proof -
  have ls: "triple (push_rests env config base push ps n) P (capture env (lsRemoteCmd dir branch))
      (\<lambda>out tr. P tr \<and> seen env tr (Run (lsRemoteCmd dir branch)) out)"
    by (rule pushq.capture_quiet [OF _ assms]) (auto simp: lsRemoteCmd_def push_defs)
  have parse: "triple (push_rests env config base push ps n) (\<lambda>tr. P tr \<and> seen env tr (Run (lsRemoteCmd dir branch)) out)
      (parseSingleRemoteRef (''refs/heads/'' @ branch) out) (\<lambda>ref tr. P tr \<and> (\<exists>out. seen env tr (Run (lsRemoteCmd dir branch)) out
        \<and> (case ref of None \<Rightarrow> TrimSpace out = [] | Some r \<Rightarrow> Fields (TrimSpace out) = [rr_SHA r, ''refs/heads/'' @ branch])))" for out
    using parseSingleRemoteRef_triple [of _ "\<lambda>tr. P tr \<and> seen env tr (Run (lsRemoteCmd dir branch)) out"] by (rule triple_weaken) blast+
  show ?thesis
    unfolding findRemoteBranchHeadRef_def
    by (rule triple_bind [OF triple_check], rule triple_bind [OF ls], rule parse)
qed

lemma push_triple:
  assumes "project \<in> set ps"
  defines "branch \<equiv> syncBranchPrefix @ rp_value project"
  shows "triple (push_rests env config base True ps n)
    (\<lambda>tr. (\<exists>upstream out. UpstreamForProject config base project = Inr upstream \<and> seen env tr (Run (pullCmd dir project upstream)) out)
      \<and> (\<exists>out. seen env tr (Run (lsRemoteCmd dir branch)) out \<and> lease_of branch out lease))
    (exec env (pushCmd dir lease branch)) (\<lambda>_ _. True)"
proof (rule triple_weaken [OF triple_exec])
  let ?P = "\<lambda>tr. (\<exists>upstream out. UpstreamForProject config base project = Inr upstream \<and> seen env tr (Run (pullCmd dir project upstream)) out)
      \<and> (\<exists>out. seen env tr (Run (lsRemoteCmd dir branch)) out \<and> lease_of branch out lease)"
  show "stable ?P"
    by (intro stable_intros)
  show "push_rests env config base True ps n tr (Run (pushCmd dir lease branch))" if "?P tr" for tr
    using that assms(1) unfolding push_rests_def branch_def event.case by blast
qed auto

lemma formatLease_lease:
  "formatLease branch ref = Inr lease \<Longrightarrow>
   (case ref of None \<Rightarrow> TrimSpace out = [] | Some r \<Rightarrow> Fields (TrimSpace out) = [rr_SHA r, ''refs/heads/'' @ branch]) \<Longrightarrow> lease_of branch out lease"
  by (auto simp: formatLease_def lease_of_def assert_defs split: if_splits option.splits)

lemma runSyncBranchProject_triple:
  assumes "project \<in> set ps"
  shows "triple (push_rests env config base push ps n) (\<lambda>_. True) (runSyncBranchProject env config root project dir base push) (\<lambda>_ _. True)"
proof -
  let ?J = "push_rests env config base push ps n" and ?branch = "syncBranchPrefix @ rp_value project"
  let ?pull = "\<lambda>wt tr. \<exists>upstream out. UpstreamForProject config base project = Inr upstream \<and> seen env tr (Run (pullCmd wt project upstream)) out"
  have join: "triple ?J (\<lambda>_. True) (lift (AbsPath_Join root dir)) (\<lambda>_ _. True)"
    by (rule triple_lift) simp
  have reset: "triple ?J (\<lambda>_. True) (resetWorktreeToBase env wt base) (\<lambda>_ _. True)" for wt
    unfolding resetWorktreeToBase_def by (rule pushq.ExecAll_quiet) (simp_all add: push_defs)
  have checkout: "triple ?J (\<lambda>_. True) (exec env (Cmd_In wt (cmdx_New [''git'', ''checkout'', ''-B'', ?branch]))) (\<lambda>_ _. True)" for wt
    by (rule pushq.exec_quiet) (simp_all add: push_defs)
  have stable: "stable (?pull wt)" for wt
    by (intro stable_intros)
  have find: "triple ?J (?pull wt) (act_wrap (findRemoteBranchHeadRef env wt ?branch) ''find remote head ref for %q'' [?branch]) (\<lambda>ref tr. ?pull wt tr \<and>
      (\<exists>out. seen env tr (Run (lsRemoteCmd wt ?branch)) out
        \<and> (case ref of None \<Rightarrow> TrimSpace out = [] | Some r \<Rightarrow> Fields (TrimSpace out) = [rr_SHA r, ''refs/heads/'' @ ?branch])))" for wt
    by (rule triple_wrap [OF findRemote_triple [OF stable]])
  have lease: "triple ?J (\<lambda>tr. ?pull wt tr \<and> (\<exists>out. seen env tr (Run (lsRemoteCmd wt ?branch)) out
        \<and> (case ref of None \<Rightarrow> TrimSpace out = [] | Some r \<Rightarrow> Fields (TrimSpace out) = [rr_SHA r, ''refs/heads/'' @ ?branch])))
      (lift (formatLease ?branch ref))
      (\<lambda>lease tr. ?pull wt tr \<and> (\<exists>out. seen env tr (Run (lsRemoteCmd wt ?branch)) out \<and> lease_of ?branch out lease))" for wt ref
    by (rule triple_lift) (blast intro: formatLease_lease)
  show ?thesis
    unfolding runSyncBranchProject_def Let_def
  proof (rule triple_bind [OF join], rule triple_bind [OF triple_wrap [OF reset]],
      rule triple_bind [OF triple_wrap [OF deleteLocalBranch_quiet]], rule triple_bind [OF checkout], rule triple_bind [OF runUpdate_triple],
      rule triple_unless)
    show "triple ?J (?pull wt) (act_return ()) (\<lambda>_ _. True)" for wt
      by (rule triple_return) simp
    show "triple ?J (?pull wt) (act_bind (act_wrap (findRemoteBranchHeadRef env wt ?branch) ''find remote head ref for %q'' [?branch]) (\<lambda>remoteHead.
          act_bind (lift (formatLease ?branch remoteHead)) (\<lambda>lease.
          exec env (pushCmd wt lease ?branch)))) (\<lambda>_ _. True)" if push for wt
      using that push_triple [OF assms]
      by (intro triple_bind [OF find] triple_bind [OF lease]) simp
  qed
qed

section \<open>The worktree and its removal\<close>

lemma cleanup_trace:
  "snd (cleanup env root d added tr) = tr @ (if added then [Run (worktreeRemoveCmd root d)] else []) @ [RemoveAll d]"
  by (auto simp: cleanup_def exec_def act_bind_def act_return_def perform_def Let_def split: sum.splits prod.splits result.splits)

lemma exec_cases: "exec env c tr = (case env tr (Run c) of Inl e \<Rightarrow> (Fail (ErrEnv e), tr @ [Run c]) | Inr _ \<Rightarrow> (Ok (), tr @ [Run c]))"
  by (simp add: exec_def act_bind_def act_return_def perform_def split: sum.split)

lemma exec_or_cleanup_eq:
  "exec_or_cleanup env root d added c tr =
     (case env tr (Run c) of
        Inl e \<Rightarrow> (Fail (join_err (ErrEnv e) (fst (cleanup env root d added (tr @ [Run c])))),
                   tr @ Run c # (if added then [Run (worktreeRemoveCmd root d)] else []) @ [RemoveAll d])
      | Inr _ \<Rightarrow> (Ok (), tr @ [Run c]))"
  using cleanup_trace [of env root d added "tr @ [Run c]"]
  by (cases "cleanup env root d added (tr @ [Run c])") (auto simp: exec_or_cleanup_def exec_cases split: sum.split)

definition tmpRoot :: RelPath where
  "tmpRoot = \<lparr>rp_value = ''.cache/tmp''\<rparr>"

lemma tmpRoot_eq: "go_bind (MustParseRelPath ''.cache'') (\<lambda>p. RelPath_JoinComponents p [''tmp'']) = Inr tmpRoot"
  by code_simp

abbreviation mkTemp :: event where
  "mkTemp \<equiv> MkdirTemp tmpRoot ''meta-sync-''"

definition worktreeDetachCmd :: "AbsPath \<Rightarrow> string \<Rightarrow> Cmd" where
  "worktreeDetachCmd wt base = Cmd_In wt (cmdx_New [''git'', ''checkout'', ''--detach'', ''origin/'' @ base])"

lemma AbsPath_Join_total: "abs_ok root \<Longrightarrow> \<exists>wt. AbsPath_Join root d = Inr wt"
  using AbsPath_Join_form [of "ap_value root"] abs_ok_form by (cases root) force

text \<open>How the creation of the worktree ends: without a directory, or with the directory removed again, or ready.\<close>

definition created ::
  "'e environment \<Rightarrow> AbsPath \<Rightarrow> string \<Rightarrow> event list \<Rightarrow> ('e, RelPath) result \<Rightarrow> event list \<Rightarrow> RelPath \<Rightarrow> bool" where
  "created env root base tr r new d \<longleftrightarrow> (let add = Run (worktreeAddCmd root d base) in
     (\<exists>e e'. r = Fail e \<and> new = [add, RemoveAll d] \<and> env (tr @ [MkdirAll tmpRoot, mkTemp]) add = Inl e')
     \<or> (\<exists>e wt. r = Fail e \<and> new = [add, Run (worktreeDetachCmd wt base), Run (worktreeRemoveCmd root d), RemoveAll d])
     \<or> (\<exists>wt. r = Ok d \<and> new = [add, Run (worktreeDetachCmd wt base)]))"

lemma createSyncWorktree_cases:
  assumes "abs_ok root"
  shows "\<exists>r new. createSyncWorktree env root base tr = (r, tr @ MkdirAll tmpRoot # new)
    \<and> (case env (tr @ [MkdirAll tmpRoot]) mkTemp of
         Inl _ \<Rightarrow> (\<exists>e. r = Fail e) \<and> new \<in> {[], [mkTemp]}
       | Inr d \<Rightarrow> (\<exists>e. r = Fail e) \<and> new = []
                  \<or> (\<exists>new'. new = mkTemp # new' \<and> created env root base tr r new' \<lparr>rp_value = d\<rparr>))"
proof -
  note defs = createSyncWorktree_def tmpRoot_eq act_bind_def act_wrap_def perform_def act_return_def lift_def Let_def
  show ?thesis
  proof (cases "env tr (MkdirAll tmpRoot)")
    case (Inl e)
    then show ?thesis
      by (auto simp: defs split: sum.split)
  next
    case (Inr out)
    note all = Inr
    show ?thesis
    proof (cases "env (tr @ [MkdirAll tmpRoot]) mkTemp")
      case (Inl e)
      then show ?thesis
        using all by (auto simp: defs)
    next
      case (Inr d)
      obtain wt where wt: "AbsPath_Join root \<lparr>rp_value = d\<rparr> = Inr wt"
        using AbsPath_Join_total [OF assms] by blast
      show ?thesis
        using all Inr wt by (auto simp: defs exec_or_cleanup_eq created_def worktreeDetachCmd_def split: sum.split)
    qed
  qed
qed

lemma syncBranch_loop_triple:
  "set projects \<subseteq> set ps \<Longrightarrow>
   triple (push_rests env config base push ps n) (\<lambda>_. True) (syncBranch_loop env config root d base push projects) (\<lambda>_ _. True)"
proof (induction projects)
  case Nil
  then show ?case
    by (auto intro: triple_return)
next
  case (Cons project projects)
  have "triple (push_rests env config base push ps n) (\<lambda>_. True) (runSyncBranchProject env config root project d base push) (\<lambda>_ _. True)"
    using Cons.prems by (intro runSyncBranchProject_triple) simp
  then show ?case
    using Cons by (auto intro: triple_bind)
qed

definition is_cleanup :: "event \<Rightarrow> bool" where
  "is_cleanup ev \<longleftrightarrow> (case ev of Run c \<Rightarrow> \<exists>root d. c = worktreeRemoveCmd root d | RemoveAll _ \<Rightarrow> True | _ \<Rightarrow> False)"

lemma is_cleanup_simps [simp]:
  "is_cleanup (Run (worktreeRemoveCmd root d))" "is_cleanup (RemoveAll d)" "\<not> is_cleanup (MkdirTemp p s)"
  by (auto simp: is_cleanup_def)

definition fetchBaseCmd :: "AbsPath \<Rightarrow> string \<Rightarrow> Cmd" where
  "fetchBaseCmd root base = Cmd_In root (cmdx_New [''git'', ''fetch'', ''origin'', base])"

text \<open>The history of a run: a part that is justified, and events of a cleanup; and what is left of the temporary directory.\<close>

definition cleaned :: "'e environment \<Rightarrow> AbsPath \<Rightarrow> string \<Rightarrow> event list \<Rightarrow> string \<Rightarrow> bool" where
  "cleaned env root base tr d \<longleftrightarrow> (\<exists>ys. tr = ys @ [RemoveAll \<lparr>rp_value = d\<rparr>]
     \<and> ((\<exists>out. seen env tr (Run (worktreeAddCmd root \<lparr>rp_value = d\<rparr> base)) out) \<longrightarrow> last ys = Run (worktreeRemoveCmd root \<lparr>rp_value = d\<rparr>)))"

lemma justified_quiet_append:
  assumes "justified J tr" and "\<And>pre ev. ev \<in> set xs \<Longrightarrow> J pre ev"
  shows "justified J (tr @ xs)"
  using assms(2)
proof (induction xs rule: rev_induct)
  case (snoc x xs)
  then show ?case
    using justified_snoc [of J "tr @ xs" x] by simp
qed (simp add: assms(1))

lemma push_rests_start:
  "justified (push_rests env config base push ps 3)
     [Run (fetchBaseCmd root base), MkdirAll p, MkdirTemp q s, Run (worktreeAddCmd root d base), Run (worktreeDetachCmd wt base)]"
proof -
  let ?J = "push_rests env config base push ps 3"
  have quiet: "?J pre (Run (fetchBaseCmd root base))" "?J pre (Run (worktreeAddCmd root d base))" "?J pre (Run (worktreeDetachCmd wt base))" for pre
    by (simp_all add: push_rests_def fetchBaseCmd_def worktreeAddCmd_def worktreeDetachCmd_def push_defs)
  have "justified ?J []"
    by (simp add: justified_def)
  then show ?thesis
    using quiet justified_snoc [of ?J "[]" "Run (fetchBaseCmd root base)"] justified_snoc [of ?J "[Run (fetchBaseCmd root base)]" "MkdirAll p"]
      justified_snoc [of ?J "[Run (fetchBaseCmd root base), MkdirAll p]" "MkdirTemp q s"]
      justified_snoc [of ?J "[Run (fetchBaseCmd root base), MkdirAll p, MkdirTemp q s]" "Run (worktreeAddCmd root d base)"]
      justified_snoc [of ?J "[Run (fetchBaseCmd root base), MkdirAll p, MkdirTemp q s, Run (worktreeAddCmd root d base)]" "Run (worktreeDetachCmd wt base)"]
    by (simp add: push_rests_def)
qed

lemma mkTemp_position:
  assumes "justified (push_rests env config base push ps 3) (Run c # MkdirAll p # xs)" and "\<forall>ev \<in> set tail. is_cleanup ev"
    and "(Run c # MkdirAll p # xs) @ tail = pre @ mkTemp # post"
  shows "pre = [Run c, MkdirAll p]"
proof -
  let ?body = "Run c # MkdirAll p # xs"
  have "mkTemp \<notin> set tail"
    using assms(2) by auto
  then obtain post' where body: "?body = pre @ mkTemp # post'"
    using assms(3) by (auto simp: append_eq_append_conv2 append_eq_Cons_conv Cons_eq_append_conv)
  then have "push_rests env config base push ps 3 pre mkTemp"
    using assms(1) unfolding justified_def by blast
  then have "length pre < 3"
    by (simp add: push_rests_def)
  then show ?thesis
    using body by (cases pre; cases "tl pre") (auto simp: Cons_eq_append_conv)
qed

definition history_ok :: "'e environment \<Rightarrow> WorkspaceConfig \<Rightarrow> AbsPath \<Rightarrow> string \<Rightarrow> bool \<Rightarrow> bool \<Rightarrow> RelPath list \<Rightarrow> event list \<Rightarrow> bool" where
  "history_ok env config root base push persist projects tr \<longleftrightarrow>
     (\<exists>body tail. tr = body @ tail \<and> justified (push_rests env config base push projects 3) body \<and> (\<forall>ev \<in> set tail. is_cleanup ev))
     \<and> (\<not> persist \<longrightarrow> (\<forall>d. seen env tr mkTemp d \<longrightarrow> cleaned env root base tr d))"

lemma justified_prefix: "justified J (xs @ ys) \<Longrightarrow> justified J xs"
  unfolding justified_def by (metis append_assoc append_Cons)

lemma history_ok_short:
  assumes "env [Run (fetchBaseCmd root base), MkdirAll tmpRoot] mkTemp = Inl e \<or> new = []" and "new \<in> {[], [mkTemp]}"
  shows "history_ok env config root base push persist projects (Run (fetchBaseCmd root base) # MkdirAll tmpRoot # new)"
proof -
  let ?tr = "[Run (fetchBaseCmd root base), MkdirAll tmpRoot, mkTemp]"
  have j: "justified (push_rests env config base push projects 3) ?tr"
    using push_rests_start justified_prefix [of _ ?tr] by fastforce
  have "justified (push_rests env config base push projects 3) (Run (fetchBaseCmd root base) # MkdirAll tmpRoot # new)"
    using j justified_prefix [of _ "[Run (fetchBaseCmd root base), MkdirAll tmpRoot]" "[mkTemp]"] assms(2) by auto
  moreover have "\<not> seen env (Run (fetchBaseCmd root base) # MkdirAll tmpRoot # new) mkTemp d" for d
    using assms by (auto simp: seen_def Cons_eq_append_conv append_eq_Cons_conv)
  ultimately show ?thesis
    unfolding history_ok_def by (metis append_Nil2 empty_iff empty_set)
qed

lemma history_ok_created:
  assumes "env [Run (fetchBaseCmd root base), MkdirAll tmpRoot] mkTemp = Inr d"
    and "justified (push_rests env config base push projects 3) (Run (fetchBaseCmd root base) # MkdirAll tmpRoot # xs)"
    and "\<forall>ev \<in> set tail. is_cleanup ev"
    and "\<not> persist \<Longrightarrow> cleaned env root base (Run (fetchBaseCmd root base) # MkdirAll tmpRoot # xs @ tail) d"
  shows "history_ok env config root base push persist projects (Run (fetchBaseCmd root base) # MkdirAll tmpRoot # xs @ tail)"
proof -
  have "d' = d" if "seen env (Run (fetchBaseCmd root base) # MkdirAll tmpRoot # xs @ tail) mkTemp d'" for d'
    using that mkTemp_position [OF assms(2,3)] assms(1) by (auto simp: seen_def)
  then show ?thesis
    using assms(2-4) unfolding history_ok_def by (metis append_Cons)
qed

lemma history_ok_failed:
  assumes d: "env [Run (fetchBaseCmd root base), MkdirAll tmpRoot] mkTemp = Inr d"
    and "created env root base [Run (fetchBaseCmd root base)] (Fail e) new \<lparr>rp_value = d\<rparr>"
  shows "history_ok env config root base push persist projects (Run (fetchBaseCmd root base) # MkdirAll tmpRoot # mkTemp # new)"
proof -
  let ?J = "push_rests env config base push projects 3" and ?fetch = "Run (fetchBaseCmd root base)" and ?d = "\<lparr>rp_value = d\<rparr>"
  let ?add = "Run (worktreeAddCmd root ?d base)" and ?rm = "Run (worktreeRemoveCmd root ?d)"
  have start: "justified ?J [?fetch, MkdirAll tmpRoot, mkTemp, ?add, Run (worktreeDetachCmd wt base)]" for wt
    by (rule push_rests_start)
  consider (add) e' where "new = [?add, RemoveAll ?d]" "env [?fetch, MkdirAll tmpRoot, mkTemp] ?add = Inl e'"
    | (detach) wt where "new = [?add, Run (worktreeDetachCmd wt base), ?rm, RemoveAll ?d]"
    using assms(2) by (auto simp: created_def Let_def)
  then show ?thesis
  proof cases
    case add
    have "?fetch \<noteq> ?add"
      by (simp add: fetchBaseCmd_def worktreeAddCmd_def Cmd_In_def cmdx_New_def)
    then have "\<not> seen env [?fetch, MkdirAll tmpRoot, mkTemp, ?add, RemoveAll ?d] ?add out" for out
      using add(2) by (auto simp: seen_def Cons_eq_append_conv)
    then have "cleaned env root base (?fetch # MkdirAll tmpRoot # [mkTemp, ?add] @ [RemoveAll ?d]) d"
      unfolding cleaned_def by auto
    moreover have "justified ?J (?fetch # MkdirAll tmpRoot # [mkTemp, ?add])"
      using start justified_prefix [of ?J "[?fetch, MkdirAll tmpRoot, mkTemp, ?add]"] by fastforce
    ultimately show ?thesis
      using history_ok_created [of env root base d config push projects "[mkTemp, ?add]" "[RemoveAll ?d]"] d add(1) by simp
  next
    case detach
    have "cleaned env root base (?fetch # MkdirAll tmpRoot # [mkTemp, ?add, Run (worktreeDetachCmd wt base)] @ [?rm, RemoveAll ?d]) d"
      unfolding cleaned_def by (intro exI [of _ "[?fetch, MkdirAll tmpRoot, mkTemp, ?add, Run (worktreeDetachCmd wt base), ?rm]"]) simp
    then show ?thesis
      using history_ok_created [of env root base d config push projects "[mkTemp, ?add, Run (worktreeDetachCmd wt base)]" "[?rm, RemoveAll ?d]"]
        d start detach by simp
  qed
qed

lemma history_ok_ready:
  assumes d: "env [Run (fetchBaseCmd root base), MkdirAll tmpRoot] mkTemp = Inr d"
    and "created env root base [Run (fetchBaseCmd root base)] (Ok d') new \<lparr>rp_value = d\<rparr>"
    and "with_cleanup env root d' persist (syncBranch_loop env config root d' base push projects)
           (Run (fetchBaseCmd root base) # MkdirAll tmpRoot # mkTemp # new) = (r, tr)"
  shows "history_ok env config root base push persist projects tr"
proof -
  let ?J = "push_rests env config base push projects 3" and ?fetch = "Run (fetchBaseCmd root base)" and ?d = "\<lparr>rp_value = d\<rparr>"
  let ?start = "?fetch # MkdirAll tmpRoot # mkTemp # new" and ?rm = "Run (worktreeRemoveCmd root ?d)"
  obtain wt where new: "d' = ?d" "new = [Run (worktreeAddCmd root ?d base), Run (worktreeDetachCmd wt base)]"
    using assms(2) by (auto simp: created_def Let_def)
  obtain r2 tr2 where loop: "syncBranch_loop env config root d' base push projects ?start = (r2, tr2)"
    by (cases "syncBranch_loop env config root d' base push projects ?start")
  have "justified ?J ?start"
    using push_rests_start new(2) by simp
  then obtain xs where xs: "justified ?J tr2" "tr2 = ?start @ xs"
    using syncBranch_loop_triple [of projects projects env config base push 3 root d'] loop unfolding triple_def by blast
  define tail where "tail = (if persist then [] else [?rm, RemoveAll ?d])"
  have tr: "tr = tr2 @ tail"
    using assms(3) loop new(1) cleanup_trace [of env root ?d True tr2]
    by (auto simp: with_cleanup_def tail_def Let_def split: prod.splits result.splits option.splits if_splits)
  have "cleaned env root base (?fetch # MkdirAll tmpRoot # (mkTemp # new @ xs) @ tail) d" if "\<not> persist"
    unfolding cleaned_def using that by (intro exI [of _ "?start @ xs @ [?rm]"]) (simp add: tail_def)
  moreover have "justified ?J (?fetch # MkdirAll tmpRoot # (mkTemp # new @ xs))"
    using xs by simp
  ultimately show ?thesis
    using history_ok_created [of env root base d config push projects "mkTemp # new @ xs" tail] d tr xs(2) by (simp add: tail_def)
qed

lemma history_ok_fetch:
  assumes "t \<in> {[], [Run (fetchBaseCmd root base)]}"
  shows "history_ok env config root base push persist projects t"
proof -
  let ?J = "push_rests env config base push projects 3" and ?fetch = "Run (fetchBaseCmd root base)"
  have "justified ?J [?fetch]"
    using justified_prefix [of ?J "[?fetch]"] push_rests_start [of env config base push projects root] by fastforce
  then have "justified ?J t"
    using assms justified_prefix [of ?J "[]" "[?fetch]"] by auto
  moreover have "\<not> seen env t mkTemp d" for d
    using assms by (auto simp: seen_def Cons_eq_append_conv append_eq_Cons_conv)
  ultimately show ?thesis
    unfolding history_ok_def by (metis append_Nil2 empty_iff empty_set)
qed

text \<open>What follows a fetch of the base branch that succeeded.\<close>

lemma history_ok_run:
  assumes "abs_ok root" and run: "(r, tr) = act_bind (createSyncWorktree env root base) (\<lambda>d.
      with_cleanup env root d persist (syncBranch_loop env config root d base push projects)) [Run (fetchBaseCmd root base)]"
  shows "history_ok env config root base push persist projects tr"
proof -
  let ?fetch = "Run (fetchBaseCmd root base)"
  obtain r1 new where create: "createSyncWorktree env root base [?fetch] = (r1, ?fetch # MkdirAll tmpRoot # new)"
      "case env [?fetch, MkdirAll tmpRoot] mkTemp of
         Inl _ \<Rightarrow> (\<exists>e. r1 = Fail e) \<and> new \<in> {[], [mkTemp]}
       | Inr d \<Rightarrow> (\<exists>e. r1 = Fail e) \<and> new = [] \<or> (\<exists>new'. new = mkTemp # new' \<and> created env root base [?fetch] r1 new' \<lparr>rp_value = d\<rparr>)"
    using createSyncWorktree_cases [OF assms(1), of env base "[?fetch]"] by auto
  show ?thesis
  proof (cases "env [?fetch, MkdirAll tmpRoot] mkTemp")
    case (Inl e)
    then show ?thesis
      using create run history_ok_short [of env root base e new] by (auto simp: act_bind_def)
  next
    case (Inr d)
    then consider (short) e where "r1 = Fail e" "new = []"
      | (failed) e new' where "new = mkTemp # new'" "created env root base [?fetch] (Fail e) new' \<lparr>rp_value = d\<rparr>" "r1 = Fail e"
      | (ready) d' new' where "new = mkTemp # new'" "created env root base [?fetch] (Ok d') new' \<lparr>rp_value = d\<rparr>" "r1 = Ok d'"
      using create(2) by (cases r1) (auto simp: created_def)
    then show ?thesis
    proof cases
      case short
      then show ?thesis
        using create(1) run history_ok_short [of env root base _ "[]"] by (auto simp: act_bind_def)
    next
      case failed
      then show ?thesis
        using create(1) run history_ok_failed [of env root base d e new'] Inr by (auto simp: act_bind_def)
    next
      case ready
      then show ?thesis
        using create(1) run history_ok_ready [of env root base d d' new' persist config push projects r tr] Inr by (simp add: act_bind_def)
    qed
  qed
qed

lemma runSyncBranch_history:
  assumes "abs_ok root" and run: "runSyncBranch env config root projects optBase push persist [] = (r, tr)"
  defines "base \<equiv> case optBase of Some b \<Rightarrow> b | None \<Rightarrow> ''main''"
  shows "history_ok env config root base push persist projects tr"
proof -
  let ?fetch = "Run (fetchBaseCmd root base)"
  have start: "tr = []" if "projects = []"
    using run that by (simp add: runSyncBranch_def assert_defs act_bind_def lift_def panicWithMessage_def)
  have unf: "(r, tr) = (case env [] ?fetch of
      Inl e \<Rightarrow> (Fail (ErrEnv e), [?fetch])
    | Inr _ \<Rightarrow> act_bind (createSyncWorktree env root base) (\<lambda>d.
        with_cleanup env root d persist (syncBranch_loop env config root d base push projects)) [?fetch])" if "projects \<noteq> []"
    using run that
    by (simp add: runSyncBranch_def base_def fetchBaseCmd_def assert_defs act_bind_def [of "lift _"] act_bind_def [of "exec _ _"] lift_def exec_cases Let_def split: sum.splits)
  show ?thesis
  proof (cases "projects = [] \<or> (\<exists>e. env [] ?fetch = Inl e)")
    case True
    then have "tr \<in> {[], [?fetch]}"
      using start unf by (cases "projects = []") auto
    then show ?thesis
      by (rule history_ok_fetch)
  next
    case False
    then obtain out where "projects \<noteq> []" "env [] ?fetch = Inr out"
      by (metis sum.exhaust)
    then show ?thesis
      using unf by (intro history_ok_run [OF assms(1)]) simp
  qed
qed

section \<open>Properties\<close>

text \<open>
  C17. Whatever the outside answers: a sync branch is pushed only when that was asked for, only for one of the given projects, only after the pull of the upstream
  branch that the configuration gives for it, and with a lease on exactly the commit that the remote reported for the branch, or on
  its absence.
\<close>

theorem sync_branch_push_safe:
  assumes "abs_ok root" and "runSyncBranch env config root projects optBase push persist [] = (r, tr)"
    and "tr = pre @ Run c # post" and "take 2 (cmd_argv c) = [''git'', ''push'']"
  defines "base \<equiv> case optBase of Some b \<Rightarrow> b | None \<Rightarrow> ''main''"
  shows "push \<and> (\<exists>project \<in> set projects. \<exists>dir upstream pullOut lsOut lease.
      c = pushCmd dir lease (syncBranchPrefix @ rp_value project)
      \<and> UpstreamForProject config base project = Inr upstream \<and> seen env pre (Run (pullCmd dir project upstream)) pullOut
      \<and> seen env pre (Run (lsRemoteCmd dir (syncBranchPrefix @ rp_value project))) lsOut
      \<and> lease_of (syncBranchPrefix @ rp_value project) lsOut lease)"
proof -
  obtain body tail where tr: "tr = body @ tail" "justified (push_rests env config base push projects 3) body" "\<forall>ev \<in> set tail. is_cleanup ev"
    using runSyncBranch_history [OF assms(1,2)] unfolding history_ok_def base_def by blast
  have "\<not> is_cleanup (Run c)"
    using assms(4) by (auto simp: is_cleanup_def worktreeRemoveCmd_def Cmd_In_def cmdx_New_def)
  then have "Run c \<notin> set tail"
    using tr(3) by blast
  then obtain post' where "body = pre @ Run c # post'"
    using tr(1) assms(3) by (auto simp: append_eq_append_conv2 append_eq_Cons_conv Cons_eq_append_conv)
  then have "push_rests env config base push projects 3 pre (Run c)"
    using tr(2) unfolding justified_def by blast
  then show ?thesis
    using assms(4) by (simp add: push_rests_def push_argv_def)
qed

text \<open>
  C18. Without \<open>--persist\<close> the temporary directory never stays behind: once it was created, removing it is the last thing that happens, whether the run
  succeeds, fails or panics, and when git had added it as a worktree it is first removed from git.
\<close>

theorem sync_branch_cleans_up:
  assumes "abs_ok root" and "runSyncBranch env config root projects optBase push False [] = (r, tr)"
    and "tr = pre @ MkdirTemp \<lparr>rp_value = ''.cache/tmp''\<rparr> ''meta-sync-'' # post" and "env pre (MkdirTemp \<lparr>rp_value = ''.cache/tmp''\<rparr> ''meta-sync-'') = Inr d"
  defines "base \<equiv> case optBase of Some b \<Rightarrow> b | None \<Rightarrow> ''main''"
  shows "\<exists>ys. tr = ys @ [RemoveAll \<lparr>rp_value = d\<rparr>]
    \<and> ((\<exists>out. seen env tr (Run (worktreeAddCmd root \<lparr>rp_value = d\<rparr> base)) out) \<longrightarrow> last ys = Run (worktreeRemoveCmd root \<lparr>rp_value = d\<rparr>))"
proof -
  have "seen env tr mkTemp d"
    using assms(3,4) by (auto simp: seen_def tmpRoot_def)
  then show ?thesis
    using runSyncBranch_history [OF assms(1,2)] unfolding history_ok_def base_def cleaned_def by blast
qed

definition example_workspace :: WorkspaceConfig where
  "example_workspace =
    \<lparr>wc_ForkedFolders = Some [(example_project, \<lparr>ff_Folder = ''go'', ff_GitHubRepo = ''a/b'', ff_AutoSync = True\<rparr>)],
     wc_BranchMappings = Some [(''main'', \<lparr>bm_LocalBranch = ''main'',
       bm_UpstreamMap = Some [(''a/b'', \<lparr>ur_GitHubRepo = ''a/b'', ur_Branch = ''m''\<rparr>)]\<rparr>)]\<rparr>"

lemma example_refused:
  "runSyncBranch (example_env True) example_workspace example_root [example_project] None True False [] =
     (Fail (ErrEnv ()), [Run (fetchBaseCmd example_root ''main''), MkdirAll tmpRoot, mkTemp,
        Run (worktreeAddCmd example_root \<lparr>rp_value = ''.cache/tmp/w''\<rparr> ''main''), RemoveAll \<lparr>rp_value = ''.cache/tmp/w''\<rparr>])"
  by code_simp

definition example_push_run :: "event list" where
  "example_push_run = snd (runSyncBranch (example_env False) example_workspace example_root [example_project] None True False [])"

definition example_push :: Cmd where
  "example_push = pushCmd \<lparr>ap_value = ''/r/.cache/tmp/w''\<rparr> ''merge-bot/sync/go:'' ''merge-bot/sync/go''"

lemma example_pushed: "example_push_run ! 12 = Run example_push" "12 < length example_push_run"
  by code_simp+

theorem sync_branch_push_safe_witness:
  "\<exists>dir upstream out. UpstreamForProject example_workspace ''main'' example_project = Inr upstream
     \<and> seen (example_env False) (take 12 example_push_run) (Run (pullCmd dir example_project upstream)) out"
proof -
  have tr: "example_push_run = take 12 example_push_run @ Run example_push # drop 13 example_push_run"
    using id_take_nth_drop [OF example_pushed(2)] example_pushed(1) by simp
  have "take 2 (cmd_argv example_push) = [''git'', ''push'']" "abs_ok example_root"
    by (simp add: example_push_def pushCmd_def Cmd_In_def cmdx_New_def) code_simp
  then show ?thesis
    using sync_branch_push_safe [OF _ surjective_pairing, of example_root "example_env False" example_workspace "[example_project]" None True False
        "take 12 example_push_run" example_push "drop 13 example_push_run"] tr
    by (auto simp: example_push_run_def)
qed

theorem sync_branch_cleans_up_witness:
  "\<exists>ys. snd (runSyncBranch (example_env True) example_workspace example_root [example_project] None True False []) =
     ys @ [RemoveAll \<lparr>rp_value = ''.cache/tmp/w''\<rparr>]"
proof -
  have "abs_ok example_root"
    by code_simp
  moreover have "example_env True pre mkTemp = Inr ''.cache/tmp/w''" for pre
    by (simp add: example_env_def)
  ultimately show ?thesis
    using sync_branch_cleans_up [OF _ example_refused, of "[Run (fetchBaseCmd example_root ''main''), MkdirAll tmpRoot]"
        "[Run (worktreeAddCmd example_root \<lparr>rp_value = ''.cache/tmp/w''\<rparr> ''main''), RemoveAll \<lparr>rp_value = ''.cache/tmp/w''\<rparr>]" "''.cache/tmp/w''"]
      example_refused by (auto simp: tmpRoot_def)
qed

end
