(* ===== verification/Env.thy ===== *)
theory Env
  imports Collections
begin

text \<open>
  \<^verbatim>\<open>base/envx/envx.go\<close>: immutable environments over \<open>MonotoneMap\<close>. The operating system name \<open>runtime.GOOS\<close> and, for
  Windows, \<open>strings.ToUpper\<close> are parameters. The abstract value of an environment is the list of its entries in the order of
  their first insertion, each under its canonical key with the last inserted spelling.
\<close>

section \<open>Definitions\<close>

record envEntry =
  ee_key :: string
  ee_value :: string

record Env =
  env_entries :: "(string, envEntry) MonotoneMap"

definition zeroEntry :: envEntry where
  "zeroEntry = \<lparr>ee_key = [], ee_value = []\<rparr>"

definition canonicalKey :: "string \<Rightarrow> (string \<Rightarrow> string) \<Rightarrow> string \<Rightarrow> string" where
  "canonicalKey GOOS ToUpper key = (if GOOS \<noteq> ''windows'' then key else ToUpper key)"

definition Env_Empty :: Env where
  "Env_Empty = \<lparr>env_entries = NewMonotoneMap\<rparr>"

fun Env_New_loop :: "(string \<Rightarrow> string) \<Rightarrow> (string \<times> string) list \<Rightarrow> (string, envEntry) MonotoneMap \<Rightarrow>
    (string, envEntry) MonotoneMap outcome" where
  "Env_New_loop canonical [] entries = Inr entries"
| "Env_New_loop canonical ((k, v) # kvs) entries =
     go_bind (MonotoneMap_InsertOrKeep (canonical k) \<lparr>ee_key = k, ee_value = v\<rparr> entries) (\<lambda>(r, entries).
     case r of
       InsertedNew \<Rightarrow> Env_New_loop canonical kvs entries
     | KeptOld \<Rightarrow>
         go_bind (Option_Unwrap (case MonotoneMap_Lookup (canonical k) entries of
                     None \<Rightarrow> Option_None zeroEntry | Some e \<Rightarrow> Option_Some e)) (\<lambda>old.
         go_bind (Preconditionf False ''argument has keys %q and %q, both of which canonicalize to %q'') (\<lambda>_.
         Env_New_loop canonical kvs entries)))"

definition Env_New :: "string \<Rightarrow> (string \<Rightarrow> string) \<Rightarrow> (string \<times> string) list \<Rightarrow> Env outcome" where
  "Env_New GOOS ToUpper kvs =
     go_bind (Env_New_loop (canonicalKey GOOS ToUpper) kvs NewMonotoneMap) (\<lambda>entries. Inr \<lparr>env_entries = entries\<rparr>)"

fun Env_NewIgnoringDupes_loop :: "(string \<Rightarrow> string) \<Rightarrow> (string \<times> string) list \<Rightarrow> (string, envEntry) MonotoneMap \<Rightarrow>
    (string, envEntry) MonotoneMap outcome" where
  "Env_NewIgnoringDupes_loop canonical [] entries = Inr entries"
| "Env_NewIgnoringDupes_loop canonical ((k, v) # kvs) entries =
     go_bind (MonotoneMap_InsertOrReplace (canonical k) \<lparr>ee_key = k, ee_value = v\<rparr> entries) (\<lambda>(_, entries).
     Env_NewIgnoringDupes_loop canonical kvs entries)"

definition Env_NewIgnoringDupes :: "string \<Rightarrow> (string \<Rightarrow> string) \<Rightarrow> (string \<times> string) list \<Rightarrow> Env outcome" where
  "Env_NewIgnoringDupes GOOS ToUpper kvs =
     go_bind (Env_NewIgnoringDupes_loop (canonicalKey GOOS ToUpper) kvs NewMonotoneMap)
       (\<lambda>entries. Inr \<lparr>env_entries = entries\<rparr>)"

definition Env_Lookup :: "string \<Rightarrow> (string \<Rightarrow> string) \<Rightarrow> Env \<Rightarrow> string \<Rightarrow> string option" where
  "Env_Lookup GOOS ToUpper env key =
     (case MonotoneMap_Lookup (canonicalKey GOOS ToUpper key) (env_entries env) of
        None \<Rightarrow> None | Some entry \<Rightarrow> Some (ee_value entry))"

fun Env_Entries_loop :: "(string, envEntry) MonotoneMap \<Rightarrow> string list \<Rightarrow> string list \<Rightarrow> string list outcome" where
  "Env_Entries_loop m [] entries = Inr entries"
| "Env_Entries_loop m (key # keys) entries =
     (case MonotoneMap_Lookup key m of
        None \<Rightarrow> go_bind (Invariantf False ''monotone env missing key %q during enumeration'') (\<lambda>_.
                Env_Entries_loop m keys (entries @ [ee_key zeroEntry @ ''='' @ ee_value zeroEntry]))
      | Some entry \<Rightarrow> Env_Entries_loop m keys (entries @ [ee_key entry @ ''='' @ ee_value entry]))"

definition Env_Entries :: "Env \<Rightarrow> string list outcome" where
  "Env_Entries env =
     Env_Entries_loop (env_entries env) (MonotoneMap_Keys (\<lambda>k acc. (True, acc @ [k])) (env_entries env) []) []"

definition Env_InsertOrKeep ::
    "string \<Rightarrow> (string \<Rightarrow> string) \<Rightarrow> Env \<Rightarrow> string \<Rightarrow> string \<Rightarrow> (Env \<times> InsertResult) outcome" where
  "Env_InsertOrKeep GOOS ToUpper env key value =
     (let canonical = canonicalKey GOOS ToUpper key
      in if MonotoneMap_Lookup canonical (env_entries env) \<noteq> None then Inr (env, KeptOld)
         else go_bind (MonotoneMap_CloneWithout zeroEntry NewSet (env_entries env)) (\<lambda>next.
              go_bind (MonotoneMap_InsertOrKeep canonical \<lparr>ee_key = key, ee_value = value\<rparr> next) (\<lambda>(res, next).
              go_bind (Invariantf (res = InsertedNew) ''cloned env unexpectedly kept key %q'') (\<lambda>_.
              Inr (\<lparr>env_entries = next\<rparr>, res)))))"

definition Env_InsertOrReplace ::
    "string \<Rightarrow> (string \<Rightarrow> string) \<Rightarrow> Env \<Rightarrow> string \<Rightarrow> string \<Rightarrow> (Env \<times> string option) outcome" where
  "Env_InsertOrReplace GOOS ToUpper env key value =
     (let canonical = canonicalKey GOOS ToUpper key; old = MonotoneMap_Lookup canonical (env_entries env)
      in if old \<noteq> None \<and> ee_key (the old) = key \<and> ee_value (the old) = value then Inr (env, Some (ee_value (the old)))
         else go_bind (MonotoneMap_CloneWithout zeroEntry NewSet (env_entries env)) (\<lambda>next.
              go_bind (MonotoneMap_InsertOrReplace canonical \<lparr>ee_key = key, ee_value = value\<rparr> next) (\<lambda>(prev, next).
              case prev of
                None \<Rightarrow> Inr (\<lparr>env_entries = next\<rparr>, None)
              | Some p \<Rightarrow> Inr (\<lparr>env_entries = next\<rparr>, Some (ee_value p)))))"

fun canonicalOmit_loop :: "(string \<Rightarrow> string) \<Rightarrow> Env \<Rightarrow> string list \<Rightarrow> string Set \<Rightarrow> string Set outcome" where
  "canonicalOmit_loop canonical env [] acc = Inr acc"
| "canonicalOmit_loop canonical env (key # keys) acc =
     (if MonotoneMap_Lookup (canonical key) (env_entries env) \<noteq> None
      then go_bind (Set_InsertNew (canonical key) acc) (canonicalOmit_loop canonical env keys)
      else canonicalOmit_loop canonical env keys acc)"

definition Env_CloneWithout :: "string \<Rightarrow> (string \<Rightarrow> string) \<Rightarrow> Env \<Rightarrow> string Set \<Rightarrow> Env outcome" where
  "Env_CloneWithout GOOS ToUpper env omit =
     (if Set_Len omit = 0 then Inr env
      else go_bind (canonicalOmit_loop (canonicalKey GOOS ToUpper) env
                      (Set_ValuesNonDet (\<lambda>k acc. (True, acc @ [k])) omit []) NewSet) (\<lambda>canonicalOmit.
           if Set_Len canonicalOmit = 0 then Inr env
           else go_bind (MonotoneMap_CloneWithout zeroEntry canonicalOmit (env_entries env)) (\<lambda>entries.
                Inr \<lparr>env_entries = entries\<rparr>)))"

section \<open>Facts\<close>

definition env_abs :: "Env \<Rightarrow> (string \<times> envEntry) list" where
  "env_abs e = mm_abs (env_entries e)"

definition env_inv :: "Env \<Rightarrow> bool" where
  "env_inv e \<longleftrightarrow> mm_inv (env_entries e)"

lemma Env_NewIgnoringDupes_loop_spec:
  "mm_inv m \<Longrightarrow> \<exists>m'. Env_NewIgnoringDupes_loop c kvs m = Inr m' \<and> mm_inv m'
     \<and> mm_abs m' = fold (\<lambda>(k, v). AList.update (c k) \<lparr>ee_key = k, ee_value = v\<rparr>) kvs (mm_abs m)"
proof (induction kvs arbitrary: m)
  case (Cons kv kvs)
  obtain k v where kv: "kv = (k, v)"
    by fastforce
  show ?case
    using MonotoneMap_InsertOrReplace_spec [OF Cons.prems, of "c k" "\<lparr>ee_key = k, ee_value = v\<rparr>"] Cons.IH kv by fastforce
qed simp

lemma Env_New_loop_spec:
  assumes "mm_inv m"
  shows "(if distinct (map (c \<circ> fst) kvs) \<and> (\<forall>kv \<in> set kvs. map_of (mm_abs m) (c (fst kv)) = None)
     then \<exists>m'. Env_New_loop c kvs m = Inr m' \<and> mm_inv m'
       \<and> mm_abs m' = mm_abs m @ map (\<lambda>(k, v). (c k, \<lparr>ee_key = k, ee_value = v\<rparr>)) kvs
     else Env_New_loop c kvs m =
       Inl (AssertionError ''precondition violation: argument has keys %q and %q, both of which canonicalize to %q''))"
  using assms
proof (induction kvs arbitrary: m)
  case (Cons kv kvs)
  obtain k v where kv: "kv = (k, v)"
    by fastforce
  obtain m' where m': "MonotoneMap_InsertOrKeep (c k) \<lparr>ee_key = k, ee_value = v\<rparr> m =
        Inr (if map_of (mm_abs m) (c k) = None then InsertedNew else KeptOld, m')" "mm_inv m'"
      "mm_abs m' = (if map_of (mm_abs m) (c k) = None then mm_abs m @ [(c k, \<lparr>ee_key = k, ee_value = v\<rparr>)] else mm_abs m)"
    using MonotoneMap_InsertOrKeep_spec [OF Cons.prems] by blast
  show ?case
  proof (cases "map_of (mm_abs m) (c k) = None")
    case True
    then have "map_of (mm_abs m') x = None \<longleftrightarrow> x \<noteq> c k \<and> map_of (mm_abs m) x = None" for x
      using m'(3) by (auto simp: map_add_def split: option.splits)
    then have "(\<forall>kv \<in> set kvs. map_of (mm_abs m') (c (fst kv)) = None) \<longleftrightarrow>
        c k \<notin> (c \<circ> fst) ` set kvs \<and> (\<forall>kv \<in> set kvs. map_of (mm_abs m) (c (fst kv)) = None)"
      by (force simp: image_iff)
    then have guard: "distinct (map (c \<circ> fst) (kv # kvs)) \<and> (\<forall>kv \<in> set (kv # kvs). map_of (mm_abs m) (c (fst kv)) = None) \<longleftrightarrow>
        distinct (map (c \<circ> fst) kvs) \<and> (\<forall>kv \<in> set kvs. map_of (mm_abs m') (c (fst kv)) = None)"
      using True kv by auto
    have loop: "Env_New_loop c (kv # kvs) m = Env_New_loop c kvs m'"
      using True m'(1) kv by simp
    have all: "mm_abs m @ map (\<lambda>(k, v). (c k, \<lparr>ee_key = k, ee_value = v\<rparr>)) (kv # kvs) =
        mm_abs m' @ map (\<lambda>(k, v). (c k, \<lparr>ee_key = k, ee_value = v\<rparr>)) kvs"
      using True m'(3) kv by simp
    show ?thesis
      unfolding guard loop all by (rule Cons.IH [OF m'(2)])
  next
    case False
    then obtain e where "MonotoneMap_Lookup (c k) m' = Some e"
      using MonotoneMap_Lookup_spec [OF m'(2)] m'(3) by fastforce
    then show ?thesis
      using False m'(1) kv by (auto simp: Option_Unwrap_def Option_Some_def assert_defs)
  qed
qed simp

lemma Env_Entries_loop_spec:
  assumes "mm_inv m"
  shows "set ks \<subseteq> set (mm_keys m) \<Longrightarrow> Env_Entries_loop m ks acc =
    Inr (acc @ map (\<lambda>(_, e). ee_key e @ ''='' @ ee_value e) (entries_of ks (\<lambda>k. the (gm_get (mm_values m) k))))"
proof (induction ks arbitrary: acc)
  case (Cons k ks)
  then obtain e where "gm_get (mm_values m) k = Some e"
    using assms by (auto simp: mm_inv_def)
  then show ?case
    using Cons by (simp add: MonotoneMap_Lookup_def entries_of_def)
qed (simp add: entries_of_def)

lemma Env_Entries_spec:
  assumes "env_inv e"
  shows "Env_Entries e = Inr (map (\<lambda>(_, x). ee_key x @ ''='' @ ee_value x) (env_abs e))"
  using Env_Entries_loop_spec [of "env_entries e" "mm_keys (env_entries e)" "[]"] assms
  by (simp add: Env_Entries_def env_inv_def env_abs_def mm_abs_def MonotoneMap_Keys_def yield_all_collect)

lemma clone_all:
  fixes m :: "(string, envEntry) MonotoneMap"
  assumes "mm_inv m"
  shows "\<exists>m'. MonotoneMap_CloneWithout zeroEntry NewSet m = Inr m' \<and> mm_inv m' \<and> mm_abs m' = mm_abs m"
proof -
  have "\<not> Set_Contains NewSet k" for k :: string
    using NewSet_spec(2) by (auto simp: set_abs_def)
  then have "filter (\<lambda>(k, _). \<not> Set_Contains NewSet k) (mm_abs m) = mm_abs m"
    by (auto simp: filter_id_conv)
  then show ?thesis
    using MonotoneMap_CloneWithout_spec [OF assms, of zeroEntry NewSet] by auto
qed

lemma Env_InsertOrKeep_spec:
  assumes "env_inv e"
  shows "\<exists>e'. Env_InsertOrKeep os up e key value =
      Inr (e', if map_of (env_abs e) (canonicalKey os up key) = None then InsertedNew else KeptOld) \<and> env_inv e'
    \<and> env_abs e' = (if map_of (env_abs e) (canonicalKey os up key) = None
        then env_abs e @ [(canonicalKey os up key, \<lparr>ee_key = key, ee_value = value\<rparr>)] else env_abs e)"
proof -
  let ?c = "canonicalKey os up key"
  have m: "mm_inv (env_entries e)"
    using assms by (simp add: env_inv_def)
  obtain m1 where m1: "MonotoneMap_CloneWithout zeroEntry NewSet (env_entries e) = Inr m1" "mm_inv m1" "mm_abs m1 = env_abs e"
    using clone_all [OF m] by (auto simp: env_abs_def)
  show ?thesis
    using MonotoneMap_InsertOrKeep_spec [OF m1(2), of ?c "\<lparr>ee_key = key, ee_value = value\<rparr>"] m1 assms
      MonotoneMap_Lookup_spec [OF m, of ?c]
    by (cases "map_of (env_abs e) ?c = None") (auto simp: Env_InsertOrKeep_def Let_def env_abs_def env_inv_def)
qed

lemma Env_InsertOrReplace_spec:
  assumes "env_inv e"
  shows "\<exists>e'. Env_InsertOrReplace os up e key value =
      Inr (e', map_option ee_value (map_of (env_abs e) (canonicalKey os up key))) \<and> env_inv e'
    \<and> env_abs e' = AList.update (canonicalKey os up key) \<lparr>ee_key = key, ee_value = value\<rparr> (env_abs e)"
proof -
  let ?c = "canonicalKey os up key" and ?n = "\<lparr>ee_key = key, ee_value = value\<rparr>"
  have m: "mm_inv (env_entries e)"
    using assms by (simp add: env_inv_def)
  have lookup: "MonotoneMap_Lookup ?c (env_entries e) = map_of (env_abs e) ?c"
    using MonotoneMap_Lookup_spec [OF m] by (simp add: env_abs_def)
  show ?thesis
  proof (cases "map_of (env_abs e) ?c = Some ?n")
    case True
    then have "AList.update ?c ?n (env_abs e) = env_abs e"
      using m by (intro update_triv) (auto simp: env_abs_def mm_abs_def mm_inv_def)
    then show ?thesis
      using True lookup assms by (intro exI [of _ e]) (simp add: Env_InsertOrReplace_def Let_def)
  next
    case False
    then have "\<not> (map_of (env_abs e) ?c \<noteq> None \<and> ee_key (the (map_of (env_abs e) ?c)) = key
        \<and> ee_value (the (map_of (env_abs e) ?c)) = value)"
      by auto
    moreover obtain m1 where m1: "MonotoneMap_CloneWithout zeroEntry NewSet (env_entries e) = Inr m1" "mm_inv m1" "mm_abs m1 = env_abs e"
      using clone_all [OF m] by (auto simp: env_abs_def)
    moreover obtain m2 where "MonotoneMap_InsertOrReplace ?c ?n m1 = Inr (map_of (env_abs e) ?c, m2)" "mm_inv m2"
        "mm_abs m2 = AList.update ?c ?n (env_abs e)"
      using MonotoneMap_InsertOrReplace_spec [OF m1(2), of ?c ?n] m1(3) by auto
    ultimately show ?thesis
      using lookup by (intro exI [of _ "\<lparr>env_entries = m2\<rparr>"])
        (auto simp: Env_InsertOrReplace_def Let_def env_inv_def env_abs_def split: option.splits)
  qed
qed

lemma canonicalOmit_loop_spec:
  assumes "env_inv e"
  shows "set_inv acc \<Longrightarrow> distinct (map c ks) \<Longrightarrow> set_abs acc \<inter> c ` set ks = {} \<Longrightarrow>
    \<exists>s. canonicalOmit_loop c e ks acc = Inr s \<and> set_inv s
      \<and> set_abs s = set_abs acc \<union> {x \<in> c ` set ks. map_of (env_abs e) x \<noteq> None}"
proof (induction ks arbitrary: acc)
  case (Cons k ks)
  have lookup: "MonotoneMap_Lookup (c k) (env_entries e) = map_of (env_abs e) (c k)"
    using MonotoneMap_Lookup_spec assms by (simp add: env_abs_def env_inv_def)
  show ?case
  proof (cases "map_of (env_abs e) (c k) = None")
    case True
    then show ?thesis
      using Cons lookup by fastforce
  next
    case False
    obtain s where s: "Set_InsertNew (c k) acc = Inr s" "set_inv s" "set_abs s = insert (c k) (set_abs acc)"
      using Set_InsertNew_spec [OF Cons.prems(1), of "c k"] Cons.prems(3) by auto
    then show ?thesis
      using Cons.IH [of s] Cons.prems False lookup by auto
  qed
qed simp

lemma Env_CloneWithout_spec:
  assumes "env_inv e" and "set_inv omit" and "inj_on (canonicalKey os up) (set_abs omit)"
  shows "\<exists>e'. Env_CloneWithout os up e omit = Inr e' \<and> env_inv e'
    \<and> env_abs e' = filter (\<lambda>(k, _). k \<notin> canonicalKey os up ` set_abs omit) (env_abs e)"
proof -
  let ?c = "canonicalKey os up"
  define ks where "ks = map fst (gm_entries (set_values omit))"
  have ks: "set_abs omit = set ks" "distinct ks"
    using assms(2) by (simp_all add: set_abs_entries set_inv_def gm_wf_def ks_def)
  have keep: "filter (\<lambda>(k, _). k \<notin> ?c ` set_abs omit) (env_abs e) = filter (\<lambda>(k, _). k \<notin> set_abs s) (env_abs e)"
    if "set_abs s = {x \<in> ?c ` set_abs omit. map_of (env_abs e) x \<noteq> None}" for s
    using that by (intro filter_cong) (auto dest: weak_map_of_SomeI)
  obtain s where s: "canonicalOmit_loop ?c e ks NewSet = Inr s" "set_inv s"
      "set_abs s = {x \<in> ?c ` set_abs omit. map_of (env_abs e) x \<noteq> None}"
    using canonicalOmit_loop_spec [OF assms(1) NewSet_spec(1), of ?c ks] assms(3) ks
    by (auto simp: distinct_map NewSet_spec(2))
  have empty: "Set_Len x = 0 \<longleftrightarrow> set_abs x = {}" if "set_inv x" for x :: "string Set"
    using that Set_Len_card [OF that] by (auto simp: set_abs_entries)
  show ?thesis
  proof (cases "set_abs s = {}")
    case True
    then have "Env_CloneWithout os up e omit = Inr e"
      using s(1,2) empty [OF s(2)] by (simp add: Env_CloneWithout_def Set_ValuesNonDet_def yield_all_collect ks_def [symmetric])
    then show ?thesis
      using keep [OF s(3)] True assms(1) by simp
  next
    case False
    then have "set_abs omit \<noteq> {}"
      using s(3) by auto
    moreover obtain m where "MonotoneMap_CloneWithout zeroEntry s (env_entries e) = Inr m" "mm_inv m"
        "mm_abs m = filter (\<lambda>(k, _). \<not> Set_Contains s k) (mm_abs (env_entries e))"
      using MonotoneMap_CloneWithout_spec [of "env_entries e" zeroEntry s] assms(1) by (auto simp: env_inv_def)
    ultimately show ?thesis
      using keep [OF s(3)] s(1) False empty [OF s(2)] empty [OF assms(2)]
      by (auto simp: Env_CloneWithout_def Set_ValuesNonDet_def yield_all_collect ks_def [symmetric] env_inv_def env_abs_def set_abs_def)
  qed
qed

section \<open>Properties\<close>

text \<open>
  C13. An environment is its list of entries, each under its canonical key with the last inserted spelling and in the order
  of first insertion. Both constructors build that list from their arguments (\<open>New\<close> panics exactly when two keys have
  the same canonical form, \<open>NewIgnoringDupes\<close> lets the later one win); lookup, both insertions, \<open>CloneWithout\<close> and
  \<open>Entries\<close> are the operations on the list, none of them panics (\<open>CloneWithout\<close> under its precondition), and
  the invariant is kept. On an operating system other than Windows keys are compared as they are.\<close>

theorem Env_refines_entries:
  fixes os :: string and up :: "string \<Rightarrow> string"
  defines "c \<equiv> canonicalKey os up"
  shows "(\<exists>e. Env_NewIgnoringDupes os up kvs = Inr e \<and> env_inv e
      \<and> env_abs e = fold (\<lambda>(k, v). AList.update (c k) \<lparr>ee_key = k, ee_value = v\<rparr>) kvs [])
    \<and> (if distinct (map (c \<circ> fst) kvs)
       then \<exists>e. Env_New os up kvs = Inr e \<and> env_inv e \<and> env_abs e = map (\<lambda>(k, v). (c k, \<lparr>ee_key = k, ee_value = v\<rparr>)) kvs
       else \<not> is_ok (Env_New os up kvs))
    \<and> (env_inv e \<longrightarrow>
        Env_Lookup os up e key = map_option ee_value (map_of (env_abs e) (c key))
      \<and> (\<exists>e'. Env_InsertOrKeep os up e key value = Inr (e', if map_of (env_abs e) (c key) = None then InsertedNew else KeptOld)
          \<and> env_inv e' \<and> env_abs e' = (if map_of (env_abs e) (c key) = None
              then env_abs e @ [(c key, \<lparr>ee_key = key, ee_value = value\<rparr>)] else env_abs e))
      \<and> (\<exists>e'. Env_InsertOrReplace os up e key value = Inr (e', map_option ee_value (map_of (env_abs e) (c key)))
          \<and> env_inv e' \<and> env_abs e' = AList.update (c key) \<lparr>ee_key = key, ee_value = value\<rparr> (env_abs e))
      \<and> (set_inv omit \<and> inj_on c (set_abs omit) \<longrightarrow> (\<exists>e'. Env_CloneWithout os up e omit = Inr e' \<and> env_inv e'
          \<and> env_abs e' = filter (\<lambda>(k, _). k \<notin> c ` set_abs omit) (env_abs e)))
      \<and> Env_Entries e = Inr (map (\<lambda>(_, x). ee_key x @ ''='' @ ee_value x) (env_abs e)))
    \<and> (os \<noteq> ''windows'' \<longrightarrow> c = id)"
proof -
  have lookup: "Env_Lookup os up e key = map_option ee_value (map_of (env_abs e) (c key))" if "env_inv e"
    using that MonotoneMap_Lookup_spec [of "env_entries e" "c key"]
    by (simp add: Env_Lookup_def env_inv_def env_abs_def c_def split: option.splits)
  have dupes: "\<exists>e. Env_NewIgnoringDupes os up kvs = Inr e \<and> env_inv e
      \<and> env_abs e = fold (\<lambda>(k, v). AList.update (c k) \<lparr>ee_key = k, ee_value = v\<rparr>) kvs []"
    using Env_NewIgnoringDupes_loop_spec [OF NewMonotoneMap_spec(1), of c kvs]
    by (auto simp: Env_NewIgnoringDupes_def env_inv_def env_abs_def c_def NewMonotoneMap_spec)
  have new: "if distinct (map (c \<circ> fst) kvs)
       then \<exists>e. Env_New os up kvs = Inr e \<and> env_inv e \<and> env_abs e = map (\<lambda>(k, v). (c k, \<lparr>ee_key = k, ee_value = v\<rparr>)) kvs
       else \<not> is_ok (Env_New os up kvs)"
    using Env_New_loop_spec [OF NewMonotoneMap_spec(1), of c kvs]
    by (auto simp: Env_New_def env_inv_def env_abs_def c_def NewMonotoneMap_spec split: if_splits)
  have "os \<noteq> ''windows'' \<longrightarrow> c = id"
    by (auto simp: c_def canonicalKey_def)
  then show ?thesis
    using dupes new lookup Env_InsertOrKeep_spec [of e os up key "value"] Env_InsertOrReplace_spec [of e os up key "value"]
      Env_CloneWithout_spec [of e omit os up] Env_Entries_spec [of e]
    unfolding c_def by blast
qed

text \<open>With a canonical form that forgets the spelling of two keys, the later spelling and value win.\<close>

theorem Env_refines_entries_witness:
  "\<exists>e. Env_NewIgnoringDupes ''windows'' (\<lambda>_. ''PATH'') [(''path'', ''a''), (''Path'', ''b'')] = Inr e
    \<and> Env_Lookup ''windows'' (\<lambda>_. ''PATH'') e ''pAth'' = Some ''b'' \<and> Env_Entries e = Inr [''Path=b'']"
proof -
  let ?up = "\<lambda>_ :: string. ''PATH''" and ?kvs = "[(''path'', ''a''), (''Path'', ''b'')]"
  have c: "canonicalKey ''windows'' ?up k = ''PATH''" for k
    by (simp add: canonicalKey_def)
  obtain e where e: "Env_NewIgnoringDupes ''windows'' ?up ?kvs = Inr e" "env_inv e"
      "env_abs e = [(''PATH'', \<lparr>ee_key = ''Path'', ee_value = ''b''\<rparr>)]"
    using conjunct1 [OF Env_refines_entries [of "''windows''" ?up ?kvs]] by (auto simp: c)
  then show ?thesis
    using Env_refines_entries [of "''windows''" ?up "[]" e "''pAth''"] by (simp add: c)
qed

end
