(* ===== verification/Kido_Benchmark.thy ===== *)
theory Kido_Benchmark
  imports Effects Env Clock_Token
begin

text \<open>
  \<^verbatim>\<open>misc/cmd/kido/benchmark.go\<close> and the flags of the benchmark command in \<^verbatim>\<open>main.go\<close>. The record \<open>system\<close> holds what the process finds around it:
  \<^verbatim>\<open>runtime.GOOS\<close> and \<^verbatim>\<open>GOARCH\<close>, \<^verbatim>\<open>strings.ToUpper\<close>, the environment of the command runner, and the instant the monotonic clock gives after a history. Debug output is left out.
\<close>

section \<open>Definitions\<close>

record system =
  sys_GOOS :: string
  sys_GOARCH :: string
  sys_ToUpper :: "string \<Rightarrow> string"
  sys_Env :: Env
  sys_Instant :: "event list \<Rightarrow> int"

definition Benchmark_MakeBash :: string where
  "Benchmark_MakeBash = ''make.bash''"

definition AllBenchmarks :: "string list" where
  "AllBenchmarks = [Benchmark_MakeBash]"

definition DefaultIters :: "string \<Rightarrow> int outcome" where
  "DefaultIters b = (if b = Benchmark_MakeBash then Inr 1 else PanicUnknownCase)"

definition JJ :: string where
  "JJ = ''jj''"

definition VCS_Git :: string where
  "VCS_Git = ''git''"

record RevSet =
  rs_VCS :: string
  rs_Spec :: string

definition NewRevSet :: "string \<Rightarrow> string \<Rightarrow> RevSet outcome" where
  "NewRevSet vcs revSpec =
     go_bind (Precondition (revSpec \<noteq> []) ''spec must be non-empty'') (\<lambda>_.
     if vcs = JJ \<or> vcs = VCS_Git then Inr \<lparr>rs_VCS = vcs, rs_Spec = revSpec\<rparr> else PanicUnknownCase)"

record MakeBashBenchmark =
  mb_TargetGOOS :: string
  mb_TargetGOARCH :: string

record BenchmarkOptions =
  bo_Iters :: "int option"
  bo_Config :: MakeBashBenchmark
  bo_Baseline :: "RevSet option"

record BenchmarkSetup =
  bs_Root :: RelPath
  bs_Label :: string

definition NewBenchmarkConfig :: "system \<Rightarrow> string \<Rightarrow> MakeBashBenchmark outcome" where
  "NewBenchmarkConfig sys name =
     (if name = Benchmark_MakeBash then Inr \<lparr>mb_TargetGOOS = sys_GOOS sys, mb_TargetGOARCH = sys_GOARCH sys\<rparr> else PanicUnknownCase)"

definition allowedOSes :: "string list" where
  "allowedOSes = [''linux'', ''darwin'', ''windows'']"

definition allowedArchs :: "string list" where
  "allowedArchs = [''amd64'', ''arm64'']"

definition MakeBash_Add :: "string \<Rightarrow> string \<Rightarrow> MakeBashBenchmark \<Rightarrow> 'e err + MakeBashBenchmark" where
  "MakeBash_Add key val m =
     (let allowedKeys = [(''TARGET_GOOS'', (allowedOSes, mb_TargetGOOS_update)), (''TARGET_GOARCH'', (allowedArchs, mb_TargetGOARCH_update))]
      in case map_of allowedKeys key of
           Some want \<Rightarrow>
             if val \<in> set (fst want) then Inr (snd want (\<lambda>_. val) m)
             else Inl (ErrMsg ''unsupported value for %s: %s (expected one of %v)'' (key # val # allowedOSes))
         | None \<Rightarrow> Inl (ErrMsg ''unsupported key: %s (expected one of %v)'' (key # sort (map fst allowedKeys))))"

definition MakeBash_Name :: "MakeBashBenchmark \<Rightarrow> string" where
  "MakeBash_Name m = Benchmark_MakeBash"

text \<open>The function \<open>TransformEnv\<close> of the run options.\<close>

definition makeEnv :: "system \<Rightarrow> MakeBashBenchmark \<Rightarrow> string \<Rightarrow> Env \<Rightarrow> Env outcome" where
  "makeEnv sys m cache e =
     go_bind (Env_InsertOrReplace (sys_GOOS sys) (sys_ToUpper sys) e ''GOOS'' (mb_TargetGOOS m)) (\<lambda>(e, _).
     go_bind (Env_InsertOrReplace (sys_GOOS sys) (sys_ToUpper sys) e ''GOARCH'' (mb_TargetGOARCH m)) (\<lambda>(e, _).
     go_bind (Env_InsertOrReplace (sys_GOOS sys) (sys_ToUpper sys) e ''GOCACHE'' cache) (\<lambda>(e, _). Inr e)))"

definition GetInstant :: "system \<Rightarrow> ('e, int) act" where
  "GetInstant sys tr = (Ok (sys_Instant sys tr), tr)"

definition MakeBash_Run ::
  "'e environment \<Rightarrow> system \<Rightarrow> AbsPath \<Rightarrow> MakeBashBenchmark \<Rightarrow> RelPath \<Rightarrow> RelPath \<Rightarrow> ('e, int) act" where
  "MakeBash_Run env sys fsRoot m cacheDir root =
     (let ext = (if sys_GOOS sys = ''windows'' then ''.bat'' else ''.bash'')
      in act_bind (lift (go_bind (AbsPath_Join fsRoot root) (\<lambda>r. go_bind (MustParseRelPath ''go/src'') (AbsPath_Join r)))) (\<lambda>srcDir.
         act_bind (lift (go_bind (MustParseRelPath ''go/bin/go'') (RelPath_Join root))) (\<lambda>goBin.
         act_bind (succeeds (perform env (Stat goBin \<lparr>so_FollowFinalSymlink = False, so_OnErrorTraverseParents = True\<rparr>))) (\<lambda>built.
         act_bind (if built then exec env (Cmd_In srcDir (cmdx_New [''./clean'' @ ext])) else act_return ()) (\<lambda>_.
         act_bind (GetInstant sys) (\<lambda>start.
         act_bind (lift (go_bind (AbsPath_Join fsRoot cacheDir) (\<lambda>cache. go_bind (makeEnv sys m (ap_value cache) (sys_Env sys)) Env_Entries))) (\<lambda>entries.
         act_bind (perform env (RunWithEnv (Cmd_In srcDir (cmdx_New [''./make'' @ ext])) entries)) (\<lambda>_.
         act_bind (GetInstant sys) (\<lambda>stop.
         act_return (Instant_Sub stop start))))))))))"

definition runJJ :: "'e environment \<Rightarrow> AbsPath \<Rightarrow> string list \<Rightarrow> ('e, unit) act" where
  "runJJ env dir args = exec env (Cmd_In dir (cmdx_New (''jj'' # args)))"

definition runGit :: "'e environment \<Rightarrow> AbsPath \<Rightarrow> string list \<Rightarrow> ('e, unit) act" where
  "runGit env dir args = exec env (Cmd_In dir (cmdx_New (''git'' # args)))"

definition reportFormat :: string where
  "reportFormat = ''%v (iter = %d): t = %v'' @ [CHR 0x0A]"

definition measure_once :: "'e environment \<Rightarrow> system \<Rightarrow> AbsPath \<Rightarrow> MakeBashBenchmark \<Rightarrow> BenchmarkSetup \<Rightarrow> int \<Rightarrow> ('e, unit) act" where
  "measure_once env sys fsRoot config setup i =
     act_bind (lift (MustParseRelPath ''.cache'')) (\<lambda>cache.
     act_bind (perform env (MkdirTemp cache ''gocache'')) (\<lambda>cacheDir.
     with_defer (perform env (RemoveAll \<lparr>rp_value = cacheDir\<rparr>))
       (act_bind (MakeBash_Run env sys fsRoot config \<lparr>rp_value = cacheDir\<rparr> (bs_Root setup)) (\<lambda>duration.
        act_ignore (perform env (Fprintf reportFormat [ArgString (bs_Label setup), ArgInt i, ArgDuration duration]))))))"

function iters_loop ::
  "'e environment \<Rightarrow> system \<Rightarrow> AbsPath \<Rightarrow> MakeBashBenchmark \<Rightarrow> BenchmarkSetup \<Rightarrow> int \<Rightarrow> int \<Rightarrow> ('e, unit) act" where
  "iters_loop env sys fsRoot config setup i iters =
     (if i \<le> iters
      then act_bind (measure_once env sys fsRoot config setup i) (\<lambda>_. iters_loop env sys fsRoot config setup (i + 1) iters)
      else act_return ())"
  by auto
termination
  by (relation "measure (\<lambda>(_, _, _, _, _, i, iters). nat (iters + 1 - i))") auto

declare iters_loop.simps [simp del]

fun setups_loop :: "'e environment \<Rightarrow> system \<Rightarrow> AbsPath \<Rightarrow> BenchmarkOptions \<Rightarrow> BenchmarkSetup list \<Rightarrow> ('e, unit) act" where
  "setups_loop env sys fsRoot options [] = act_return ()"
| "setups_loop env sys fsRoot options (setup # setups) =
     act_bind (lift (DefaultIters (MakeBash_Name (bo_Config options)))) (\<lambda>dflt.
     act_bind (iters_loop env sys fsRoot (bo_Config options) setup 1 (case bo_Iters options of Some n \<Rightarrow> n | None \<Rightarrow> dflt)) (\<lambda>_.
     setups_loop env sys fsRoot options setups))"

text \<open>From \<open>setups = append(setups, BenchmarkSetup{pathx.Dot(), "latest"})\<close> on.\<close>

definition measure_all :: "'e environment \<Rightarrow> system \<Rightarrow> AbsPath \<Rightarrow> BenchmarkOptions \<Rightarrow> BenchmarkSetup list \<Rightarrow> ('e, unit) act" where
  "measure_all env sys fsRoot options setups =
     act_bind (act_ignore (perform env (Fprintf (''Benchmarking %v'' @ [CHR 0x0A]) [ArgString (MakeBash_Name (bo_Config options))]))) (\<lambda>_.
     setups_loop env sys fsRoot options (setups @ [\<lparr>bs_Root = Dot, bs_Label = ''latest''\<rparr>]))"

definition Benchmark :: "'e environment \<Rightarrow> system \<Rightarrow> AbsPath \<Rightarrow> BenchmarkOptions \<Rightarrow> ('e, unit) act" where
  "Benchmark env sys fsRoot options =
     (case bo_Baseline options of
        None \<Rightarrow> measure_all env sys fsRoot options []
      | Some baseline \<Rightarrow>
          act_bind (lift (MustParseRelPath ''.cache'')) (\<lambda>cache.
          act_bind (perform env (MkdirTemp cache ''benchmark-wt'')) (\<lambda>tempDir.
          with_defer (perform env (RemoveAll \<lparr>rp_value = tempDir\<rparr>))
            (let rest = measure_all env sys fsRoot options [\<lparr>bs_Root = \<lparr>rp_value = tempDir\<rparr>, bs_Label = ''baseline''\<rparr>]
             in if rs_VCS baseline = JJ
                then act_bind (runJJ env fsRoot [''workspace'', ''add'', ''--revision'', rs_Spec baseline, ''--name'', ''benchmark-baseline'', tempDir]) (\<lambda>_.
                     with_defer (runJJ env fsRoot [''workspace'', ''forget'', ''benchmark-baseline'']) rest)
                else if rs_VCS baseline = VCS_Git
                then act_bind (runGit env fsRoot [''worktree'', ''add'', tempDir, rs_Spec baseline]) (\<lambda>_.
                     with_defer (runGit env fsRoot [''worktree'', ''remove'', tempDir]) rest)
                else rest))))"

section \<open>Flags\<close>

text \<open>The flags of the command: \<open>None\<close> where a flag is not set.\<close>

record benchmarkFlags =
  fl_name :: string
  fl_iters :: "int option"
  fl_config :: "string list"
  fl_baseline :: "string option"

fun config_loop :: "string list \<Rightarrow> MakeBashBenchmark \<Rightarrow> 'e err + MakeBashBenchmark" where
  "config_loop [] config = Inr config"
| "config_loop (kv # kvs) config =
     (let (before, after, ok) = strings_Cut (CHR ''='') kv
      in if \<not> ok then Inl (ErrMsg ''invalid --config %q; missing = separator'' [kv])
         else if before = [] then Inl (ErrMsg ''invalid --config %q; missing key before ='' [kv])
         else if after = [] then Inl (ErrMsg ''invalid --config %q; missing value after ='' [kv])
         else case MakeBash_Add before after config of
                Inl e \<Rightarrow> Inl e
              | Inr config \<Rightarrow> config_loop kvs config)"

definition parseBaseline :: "string option \<Rightarrow> ('e err + RevSet option) outcome" where
  "parseBaseline flag =
     (case flag of
        None \<Rightarrow> Inr (Inr None)
      | Some val \<Rightarrow>
          let (before, after, ok) = strings_Cut (CHR '':'') val
          in if \<not> ok then Inr (Inl (ErrMsg ''invalid --baseline-rev %q; missing : separator'' [val]))
             else if before \<noteq> ''jj'' \<and> before \<noteq> ''git''
             then Inr (Inl (ErrMsg ''invalid --baseline-rev %q; expected jj: or git: prefix'' [val]))
             else if after = [] then Inr (Inl (ErrMsg ''invalid --baseline-rev %q; missing rev spec after :'' [val]))
             else go_bind (NewRevSet before after) (\<lambda>revSet. Inr (Inr (Some revSet))))"

definition parseIters :: "int option \<Rightarrow> 'e err + int option" where
  "parseIters flag =
     (case flag of
        None \<Rightarrow> Inr None
      | Some val \<Rightarrow>
          if val < 0 then Inl (ErrMsg ''negative --iters %d, wanted value >= 0'' [])
          else if val > 0 then Inr (Some val)
          else Inr None)"

definition parseBenchmarkFlags :: "system \<Rightarrow> benchmarkFlags \<Rightarrow> ('e err + BenchmarkOptions) outcome" where
  "parseBenchmarkFlags sys flags =
     (if fl_name flags \<noteq> ''make.bash'' then Inr (Inl (ErrMsg ''unknown --name %q, want one of %v'' (fl_name flags # AllBenchmarks)))
      else case parseIters (fl_iters flags) of
        Inl e \<Rightarrow> Inr (Inl e)
      | Inr iters \<Rightarrow>
          go_bind (NewBenchmarkConfig sys ''make.bash'') (\<lambda>config.
          case config_loop (fl_config flags) config of
            Inl e \<Rightarrow> Inr (Inl e)
          | Inr config \<Rightarrow>
              go_bind (parseBaseline (fl_baseline flags)) (\<lambda>r. case r of
                Inl e \<Rightarrow> Inr (Inl e)
              | Inr baseline \<Rightarrow> Inr (Inr \<lparr>bo_Iters = iters, bo_Config = config, bo_Baseline = baseline\<rparr>))))"

definition benchmarkAction :: "'e environment \<Rightarrow> system \<Rightarrow> AbsPath \<Rightarrow> benchmarkFlags \<Rightarrow> ('e, unit) act" where
  "benchmarkAction env sys fsRoot flags =
     act_bind (lift (parseBenchmarkFlags sys flags)) (\<lambda>r. case r of
       Inl e \<Rightarrow> act_fail e
     | Inr options \<Rightarrow> Benchmark env sys fsRoot options)"

section \<open>Everything is cleaned up\<close>

text \<open>A temporary directory has to be removed, and a workspace or worktree for the baseline to be forgotten by its version control system.\<close>

definition benchmark_owes :: "AbsPath \<Rightarrow> event \<Rightarrow> string \<Rightarrow> event option" where
  "benchmark_owes root ev out =
     (case ev of
        MkdirTemp _ _ \<Rightarrow> Some (RemoveAll \<lparr>rp_value = out\<rparr>)
      | Run c \<Rightarrow>
          if take 3 (cmd_argv c) = [''git'', ''worktree'', ''add'']
          then Some (Run (Cmd_In root (cmdx_New [''git'', ''worktree'', ''remove'', cmd_argv c ! 3])))
          else if take 3 (cmd_argv c) = [''jj'', ''workspace'', ''add'']
          then Some (Run (Cmd_In root (cmdx_New [''jj'', ''workspace'', ''forget'', ''benchmark-baseline''])))
          else None
      | _ \<Rightarrow> None)"

lemmas owes_simps = benchmark_owes_def cmdx_New_def Cmd_In_def

lemma settles_GetInstant: "settles owes env (GetInstant sys)"
  by (auto simp: settles_def GetInstant_def settled_Nil)

lemma settles_exec: "(\<And>out. owes (Run c) out = None) \<Longrightarrow> settles owes env (exec env c)"
  unfolding exec_def by (intro settles_bind settles_perform settles_return)

lemma MakeBash_Run_settles: "settles (benchmark_owes root) env (MakeBash_Run env sys fsRoot m cacheDir dir)"
  unfolding MakeBash_Run_def Let_def
  by (intro settles_bind settles_lift settles_succeeds settles_perform settles_GetInstant settles_return)
    (auto simp: owes_simps intro!: settles_exec)

lemma measure_once_settles: "settles (benchmark_owes root) env (measure_once env sys fsRoot config setup i)"
  unfolding measure_once_def
  by (intro settles_bind [OF settles_lift] settles_bracket [where closer = "\<lambda>out. RemoveAll \<lparr>rp_value = out\<rparr>"]
      settles_bind [OF MakeBash_Run_settles] settles_ignore settles_perform closes_perform) (simp_all add: owes_simps)

lemma iters_loop_settles: "settles (benchmark_owes root) env (iters_loop env sys fsRoot config bs i iters)"
proof (induction env sys fsRoot config bs i iters rule: iters_loop.induct)
  case (1 env sys fsRoot config bs i iters)
  then show ?case
    by (subst iters_loop.simps) (auto intro!: settles_bind measure_once_settles)
qed

lemma setups_loop_settles: "settles (benchmark_owes root) env (setups_loop env sys fsRoot options bss)"
  by (induction bss) (auto intro!: settles_bind settles_lift settles_return iters_loop_settles)

lemma measure_all_settles: "settles (benchmark_owes root) env (measure_all env sys fsRoot options bss)"
  unfolding measure_all_def
  by (intro settles_bind settles_ignore settles_perform setups_loop_settles) (simp add: owes_simps)

lemma Benchmark_settles: "settles (benchmark_owes fsRoot) env (Benchmark env sys fsRoot options)"
proof (cases "bo_Baseline options")
  case None
  then show ?thesis
    by (simp add: Benchmark_def measure_all_settles)
next
  case (Some b)
  let ?rest = "\<lambda>d. measure_all env sys fsRoot options [\<lparr>bs_Root = \<lparr>rp_value = d\<rparr>, bs_Label = ''baseline''\<rparr>]"
  have jj: "settles (benchmark_owes fsRoot) env
      (act_bind (runJJ env fsRoot [''workspace'', ''add'', ''--revision'', rs_Spec b, ''--name'', ''benchmark-baseline'', d]) (\<lambda>_.
       with_defer (runJJ env fsRoot [''workspace'', ''forget'', ''benchmark-baseline'']) (?rest d)))" for d
    unfolding runJJ_def exec_bind
    by (rule settles_bracket [OF _ closes_exec _ measure_all_settles]) (simp_all add: owes_simps)
  have git: "settles (benchmark_owes fsRoot) env
      (act_bind (runGit env fsRoot [''worktree'', ''add'', d, rs_Spec b]) (\<lambda>_.
       with_defer (runGit env fsRoot [''worktree'', ''remove'', d]) (?rest d)))" for d
    unfolding runGit_def exec_bind
    by (rule settles_bracket [OF _ closes_exec _ measure_all_settles]) (simp_all add: owes_simps)
  have temp: "settles (benchmark_owes fsRoot) env (act_bind (lift r) (\<lambda>cache. act_bind (perform env (MkdirTemp cache ''benchmark-wt'')) (\<lambda>d.
      with_defer (perform env (RemoveAll \<lparr>rp_value = d\<rparr>)) (body d))))"
    if "\<And>d. settles (benchmark_owes fsRoot) env (body d)" for r and body :: "string \<Rightarrow> (_, unit) act"
    by (rule settles_bind [OF settles_lift], rule settles_bracket [OF _ closes_perform _ that]) (simp_all add: owes_simps)
  show ?thesis
    unfolding Benchmark_def Some option.case Let_def by (rule temp) (simp add: jj git measure_all_settles)
qed

section \<open>What is reported\<close>

definition report :: "event \<Rightarrow> (string \<times> int) list" where
  "report ev = (case ev of Fprintf format [ArgString label, ArgInt i, ArgDuration d] \<Rightarrow> [(label, i)] | _ \<Rightarrow> [])"

definition reports :: "event list \<Rightarrow> (string \<times> int) list" where
  "reports tr = concat (map report tr)"

definition prints :: "('e, 'a) act \<Rightarrow> (string \<times> int) list \<Rightarrow> bool" where
  "prints m rs \<longleftrightarrow> (\<forall>tr x tr'. m tr = (Ok x, tr') \<longrightarrow> reports tr' = reports tr @ rs)"

lemma prints_bind: "prints m rs \<Longrightarrow> (\<And>x. prints (f x) rs') \<Longrightarrow> prints (act_bind m f) (rs @ rs')"
  by (fastforce simp: prints_def act_bind_def split: prod.splits result.splits)

lemma prints_quiet: "prints m [] \<Longrightarrow> (\<And>x. prints (f x) rs) \<Longrightarrow> prints (act_bind m f) rs"
  using prints_bind [of m "[]" f rs] by simp

lemma prints_return: "prints (act_return x) []"
  by (simp add: prints_def act_return_def)

lemma prints_lift: "prints (lift r) []"
  by (auto simp: prints_def lift_def split: sum.splits)

lemma prints_perform: "prints (perform env ev) (report ev)"
  by (auto simp: prints_def perform_def reports_def split: sum.splits)

lemma prints_exec: "prints (exec env c) []"
  unfolding exec_def by (rule prints_quiet [OF _ prints_return]) (use prints_perform [of env "Run c"] in \<open>simp add: report_def\<close>)

lemma prints_ignored: "prints (act_ignore (perform env ev)) (report ev)" "report ev = [] \<Longrightarrow> prints (succeeds (perform env ev)) []"
  by (auto simp: prints_def act_ignore_def succeeds_def act_bind_def act_return_def perform_def reports_def split: sum.splits)

lemma prints_GetInstant: "prints (GetInstant sys) []"
  by (auto simp: prints_def GetInstant_def)

lemma prints_defer:
  assumes "closes c m" and "report c = []" and "prints body rs"
  shows "prints (with_defer m body) rs"
  unfolding prints_def
proof (intro allI impI)
  fix tr x tr'
  assume run: "with_defer m body tr = (Ok x, tr')"
  obtain r1 tr1 where "body tr = (r1, tr1)"
    by fastforce
  then show "reports tr' = reports tr @ rs"
    using run with_defer_closes [OF assms(1)] assms(2,3) by (fastforce simp: prints_def reports_def)
qed

lemma MakeBash_Run_prints: "prints (MakeBash_Run env sys fsRoot m cacheDir dir) []"
proof -
  have run: "prints (perform env (RunWithEnv c es)) []" for c es
    using prints_perform [of env "RunWithEnv c es"] by (simp add: report_def)
  show ?thesis
    unfolding MakeBash_Run_def Let_def
    by (intro prints_quiet prints_lift prints_ignored(2) prints_GetInstant prints_return run)
      (auto simp: report_def prints_exec prints_return)
qed

lemma measure_once_prints: "prints (measure_once env sys fsRoot config bs i) [(bs_Label bs, i)]"
proof -
  let ?e = "\<lambda>d. Fprintf reportFormat [ArgString (bs_Label bs), ArgInt i, ArgDuration d]"
  have mk: "prints (perform env (MkdirTemp c s)) []" for c s
    using prints_perform [of env "MkdirTemp c s"] by (simp add: report_def)
  have out: "prints (act_ignore (perform env (?e d))) [(bs_Label bs, i)]" for d
    using prints_ignored(1) [of env "?e d"] by (simp add: report_def)
  show ?thesis
    unfolding measure_once_def
    by (intro prints_quiet [OF prints_lift] prints_quiet [OF mk] prints_defer [OF closes_perform] prints_quiet [OF MakeBash_Run_prints] out)
      (simp add: report_def)
qed

lemma iters_loop_prints: "prints (iters_loop env sys fsRoot config bs i n) (map (Pair (bs_Label bs)) [i..n])"
proof (induction env sys fsRoot config bs i n rule: iters_loop.induct)
  case (1 env sys fsRoot config bs i n)
  show ?case
  proof (cases "i \<le> n")
    case True
    then have "map (Pair (bs_Label bs)) [i..n] = [(bs_Label bs, i)] @ map (Pair (bs_Label bs)) [i + 1..n]"
      by (simp add: upto_rec1)
    then show ?thesis
      using prints_bind [OF measure_once_prints 1 [OF True]] True by (subst iters_loop.simps) simp
  next
    case False
    then show ?thesis
      by (subst iters_loop.simps) (simp add: prints_return)
  qed
qed

definition expected_reports :: "BenchmarkOptions \<Rightarrow> string list \<Rightarrow> (string \<times> int) list" where
  "expected_reports options labels =
     concat (map (\<lambda>label. map (Pair label) [1..case bo_Iters options of Some n \<Rightarrow> n | None \<Rightarrow> 1]) labels)"

lemma setups_loop_prints: "prints (setups_loop env sys fsRoot options bss) (expected_reports options (map bs_Label bss))"
proof (induction bss)
  case (Cons bs bss)
  let ?n = "\<lambda>dflt. case bo_Iters options of Some n \<Rightarrow> n | None \<Rightarrow> dflt"
  have "setups_loop env sys fsRoot options (bs # bss) =
      act_bind (iters_loop env sys fsRoot (bo_Config options) bs 1 (?n 1)) (\<lambda>_. setups_loop env sys fsRoot options bss)"
    by (simp add: fun_eq_iff act_bind_def [of "lift _"] lift_def DefaultIters_def MakeBash_Name_def)
  then show ?case
    using prints_bind [OF iters_loop_prints Cons.IH] by (simp add: expected_reports_def)
qed (simp add: expected_reports_def prints_return)

lemma measure_all_prints: "prints (measure_all env sys fsRoot options bss) (expected_reports options (map bs_Label bss @ [''latest'']))"
proof -
  have "prints (act_ignore (perform env (Fprintf f [ArgString s]))) []" for f s
    using prints_ignored(1) [of env "Fprintf f [ArgString s]"] by (simp add: report_def)
  then show ?thesis
    unfolding measure_all_def
    using setups_loop_prints [of env sys fsRoot options "bss @ [\<lparr>bs_Root = Dot, bs_Label = ''latest''\<rparr>]"] by (intro prints_quiet) auto
qed

lemma Benchmark_prints:
  "prints (Benchmark env sys fsRoot options)
     (expected_reports options (if bo_Baseline options = None then [''latest''] else [''baseline'', ''latest'']))"
proof (cases "bo_Baseline options")
  case None
  then show ?thesis
    using measure_all_prints [of env sys fsRoot options "[]"] by (simp add: Benchmark_def)
next
  case (Some b)
  let ?rs = "expected_reports options [''baseline'', ''latest'']"
  have rest: "prints (measure_all env sys fsRoot options [\<lparr>bs_Root = r, bs_Label = ''baseline''\<rparr>]) ?rs" for r
    using measure_all_prints [of env sys fsRoot options "[\<lparr>bs_Root = r, bs_Label = ''baseline''\<rparr>]"] by simp
  have mk: "prints (perform env (MkdirTemp c s)) []" for c s
    using prints_perform [of env "MkdirTemp c s"] by (simp add: report_def)
  have "prints (act_bind (exec env c) (\<lambda>_. with_defer (exec env c') (measure_all env sys fsRoot options [\<lparr>bs_Root = r, bs_Label = ''baseline''\<rparr>]))) ?rs" for c c' r
    by (intro prints_quiet [OF prints_exec] prints_defer [OF closes_exec] rest) (simp add: report_def)
  then have "prints (Benchmark env sys fsRoot options) ?rs"
    unfolding Benchmark_def Some option.case Let_def runJJ_def runGit_def
    by (intro prints_quiet [OF prints_lift] prints_quiet [OF mk] prints_defer [OF closes_perform]) (auto simp: report_def rest)
  then show ?thesis
    using Some by simp
qed

section \<open>No panics\<close>

definition safe :: "('e, 'a) act \<Rightarrow> bool" where
  "safe m \<longleftrightarrow> (\<forall>tr p. fst (m tr) \<noteq> Panic p)"

lemma safe_return: "safe (act_return x)" and safe_fail: "safe (act_fail e)" and safe_perform: "safe (perform env ev)"
    and safe_GetInstant: "safe (GetInstant sys)"
  by (auto simp: safe_def act_return_def act_fail_def perform_def GetInstant_def split: sum.splits)

lemma safe_bind: "safe m \<Longrightarrow> (\<And>x. safe (f x)) \<Longrightarrow> safe (act_bind m f)"
  by (auto simp: safe_def act_bind_def split: prod.splits result.splits) (metis fst_conv)+

lemma safe_perform_bind: "(\<And>tr out. env tr ev = Inr out \<Longrightarrow> safe (f out)) \<Longrightarrow> safe (act_bind (perform env ev) f)"
  by (auto simp: safe_def act_bind_def perform_def split: sum.splits)

lemma safe_exec: "safe (exec env c)"
  unfolding exec_def by (intro safe_bind safe_perform safe_return)

lemma safe_succeeds: "safe m \<Longrightarrow> safe (succeeds m)"
  by (auto simp: safe_def succeeds_def split: prod.splits result.splits) (metis fst_conv)

lemma safe_ignore: "safe m \<Longrightarrow> safe (act_ignore m)"
  unfolding act_ignore_def by (intro safe_bind safe_succeeds safe_return)

lemma safe_defer:
  assumes "closes c m" and "safe body"
  shows "safe (with_defer m body)"
proof -
  have "fst (with_defer m body tr) = fst (body tr)" for tr
    using with_defer_closes [OF assms(1), of body tr "fst (body tr)" "snd (body tr)"] by simp
  then show ?thesis
    using assms(2) by (simp add: safe_def)
qed

lemma lift_bind: "r = Inr x \<Longrightarrow> act_bind (lift r) f = f x"
  by (simp add: fun_eq_iff act_bind_def lift_def)

lemma abs_join: "abs_ok p \<Longrightarrow> \<exists>q. AbsPath_Join p rel = Inr q \<and> abs_ok q"
proof -
  assume "abs_ok p"
  then obtain v s trail where p: "p = \<lparr>ap_value = v\<rparr>" "abs_form v s trail"
    using abs_ok_form by (metis AbsPath.cases AbsPath.select_convs(1))
  show ?thesis
    using Join_abs(1,2) [OF p(2), of "[rp_value rel]"] p(1) by (auto simp: AbsPath_Join_def intro: abs_formI [OF abs_form_render])
qed

lemma rel_join: "rel_ok p \<Longrightarrow> \<exists>q. RelPath_Join p rel = Inr q \<and> rel_ok q"
  using Join_rel_ok by (metis RelPath.select_convs(1) RelPath_Join_def rel_okE)

lemma MustParse_literals:
  "MustParseRelPath ''go/src'' = Inr \<lparr>rp_value = ''go/src''\<rparr>" "MustParseRelPath ''go/bin/go'' = Inr \<lparr>rp_value = ''go/bin/go''\<rparr>"
  "MustParseRelPath ''.cache'' = Inr \<lparr>rp_value = ''.cache''\<rparr>" "rel_ok Dot"
  by code_simp+

text \<open>The variables that the build reads. \<open>ToUpper\<close> leaves their names alone.\<close>

definition upper_ok :: "system \<Rightarrow> bool" where
  "upper_ok sys \<longleftrightarrow> (\<forall>k \<in> {''GOOS'', ''GOARCH'', ''GOCACHE''}. sys_ToUpper sys k = k)"

lemma makeEnv_spec:
  assumes "env_inv e" and "upper_ok sys"
  shows "\<exists>e'. makeEnv sys m cache e = Inr e' \<and> env_inv e'
    \<and> Env_Lookup (sys_GOOS sys) (sys_ToUpper sys) e' ''GOOS'' = Some (mb_TargetGOOS m)
    \<and> Env_Lookup (sys_GOOS sys) (sys_ToUpper sys) e' ''GOARCH'' = Some (mb_TargetGOARCH m)
    \<and> Env_Lookup (sys_GOOS sys) (sys_ToUpper sys) e' ''GOCACHE'' = Some cache"
proof -
  let ?c = "canonicalKey (sys_GOOS sys) (sys_ToUpper sys)"
  have c: "?c ''GOOS'' = ''GOOS''" "?c ''GOARCH'' = ''GOARCH''" "?c ''GOCACHE'' = ''GOCACHE''"
    using assms(2) by (simp_all add: canonicalKey_def upper_ok_def)
  obtain e1 where e1: "Env_InsertOrReplace (sys_GOOS sys) (sys_ToUpper sys) e ''GOOS'' (mb_TargetGOOS m) =
      Inr (e1, map_option ee_value (map_of (env_abs e) (?c ''GOOS'')))" "env_inv e1"
      "env_abs e1 = AList.update (?c ''GOOS'') \<lparr>ee_key = ''GOOS'', ee_value = mb_TargetGOOS m\<rparr> (env_abs e)"
    using Env_InsertOrReplace_spec [OF assms(1)] by blast
  obtain e2 where e2: "Env_InsertOrReplace (sys_GOOS sys) (sys_ToUpper sys) e1 ''GOARCH'' (mb_TargetGOARCH m) =
      Inr (e2, map_option ee_value (map_of (env_abs e1) (?c ''GOARCH'')))" "env_inv e2"
      "env_abs e2 = AList.update (?c ''GOARCH'') \<lparr>ee_key = ''GOARCH'', ee_value = mb_TargetGOARCH m\<rparr> (env_abs e1)"
    using Env_InsertOrReplace_spec [OF e1(2)] by blast
  obtain e3 where e3: "Env_InsertOrReplace (sys_GOOS sys) (sys_ToUpper sys) e2 ''GOCACHE'' cache =
      Inr (e3, map_option ee_value (map_of (env_abs e2) (?c ''GOCACHE'')))" "env_inv e3"
      "env_abs e3 = AList.update (?c ''GOCACHE'') \<lparr>ee_key = ''GOCACHE'', ee_value = cache\<rparr> (env_abs e2)"
    using Env_InsertOrReplace_spec [OF e2(2)] by blast
  have "Env_Lookup (sys_GOOS sys) (sys_ToUpper sys) e3 k = map_option ee_value (map_of (env_abs e3) (?c k))" for k
    using MonotoneMap_Lookup_spec [of "env_entries e3"] e3(2)
    by (simp add: Env_Lookup_def env_inv_def env_abs_def split: option.splits)
  moreover have "makeEnv sys m cache e = Inr e3"
    by (simp add: makeEnv_def e1(1) e2(1) e3(1))
  ultimately show ?thesis
    using e3(2) by (simp add: c e1(3) e2(3) e3(3) update_conv)
qed

definition build_env :: "system \<Rightarrow> AbsPath \<Rightarrow> MakeBashBenchmark \<Rightarrow> string \<Rightarrow> string list \<Rightarrow> bool" where
  "build_env sys fsRoot m d entries \<longleftrightarrow> (\<exists>cache e. AbsPath_Join fsRoot \<lparr>rp_value = d\<rparr> = Inr cache \<and> Env_Entries e = Inr entries
     \<and> Env_Lookup (sys_GOOS sys) (sys_ToUpper sys) e ''GOOS'' = Some (mb_TargetGOOS m)
     \<and> Env_Lookup (sys_GOOS sys) (sys_ToUpper sys) e ''GOARCH'' = Some (mb_TargetGOARCH m)
     \<and> Env_Lookup (sys_GOOS sys) (sys_ToUpper sys) e ''GOCACHE'' = Some (ap_value cache))"

lemma MakeBash_Run_cases:
  assumes "abs_ok fsRoot" and "rel_ok dir" and "env_inv (sys_Env sys)" and "upper_ok sys"
  obtains srcDir goBin entries where "build_env sys fsRoot m d entries"
    and "MakeBash_Run env sys fsRoot m \<lparr>rp_value = d\<rparr> dir =
      (let ext = (if sys_GOOS sys = ''windows'' then ''.bat'' else ''.bash'')
       in act_bind (succeeds (perform env (Stat goBin \<lparr>so_FollowFinalSymlink = False, so_OnErrorTraverseParents = True\<rparr>))) (\<lambda>built.
          act_bind (if built then exec env (Cmd_In srcDir (cmdx_New [''./clean'' @ ext])) else act_return ()) (\<lambda>_.
          act_bind (GetInstant sys) (\<lambda>start.
          act_bind (perform env (RunWithEnv (Cmd_In srcDir (cmdx_New [''./make'' @ ext])) entries)) (\<lambda>_.
          act_bind (GetInstant sys) (\<lambda>stop. act_return (Instant_Sub stop start)))))))"
proof -
  obtain r srcDir where src: "AbsPath_Join fsRoot dir = Inr r" "AbsPath_Join r \<lparr>rp_value = ''go/src''\<rparr> = Inr srcDir"
    using abs_join [OF assms(1)] abs_join by metis
  obtain goBin where bin: "RelPath_Join dir \<lparr>rp_value = ''go/bin/go''\<rparr> = Inr goBin"
    using rel_join [OF assms(2)] by blast
  obtain cache where cache: "AbsPath_Join fsRoot \<lparr>rp_value = d\<rparr> = Inr cache"
    using abs_join [OF assms(1)] by blast
  obtain e where e: "makeEnv sys m (ap_value cache) (sys_Env sys) = Inr e" "env_inv e"
      "Env_Lookup (sys_GOOS sys) (sys_ToUpper sys) e ''GOOS'' = Some (mb_TargetGOOS m)"
      "Env_Lookup (sys_GOOS sys) (sys_ToUpper sys) e ''GOARCH'' = Some (mb_TargetGOARCH m)"
      "Env_Lookup (sys_GOOS sys) (sys_ToUpper sys) e ''GOCACHE'' = Some (ap_value cache)"
    using makeEnv_spec [OF assms(3,4)] by blast
  obtain entries where es: "Env_Entries e = Inr entries"
    using Env_Entries_spec [OF e(2)] by blast
  have "build_env sys fsRoot m d entries"
    using cache e es by (auto simp: build_env_def)
  then show ?thesis
    by (rule that) (simp add: MakeBash_Run_def Let_def lift_bind src bin cache e(1) es MustParse_literals)
qed

text \<open>\<open>make\<close> is only run with the environment of the configured target and a cache directory created before.\<close>

definition build_rests :: "'e environment \<Rightarrow> system \<Rightarrow> AbsPath \<Rightarrow> MakeBashBenchmark \<Rightarrow> event list \<Rightarrow> event \<Rightarrow> bool" where
  "build_rests env sys fsRoot m pre ev \<longleftrightarrow>
     (case ev of
        RunWithEnv c entries \<Rightarrow> \<exists>d. seen env pre (MkdirTemp \<lparr>rp_value = ''.cache''\<rparr> ''gocache'') d \<and> build_env sys fsRoot m d entries
      | _ \<Rightarrow> True)"

interpretation buildq: quiet_history "build_rests env sys fsRoot m" "\<lambda>_. True" for env sys fsRoot m
  by unfold_locales (simp add: build_rests_def)

lemma triple_GetInstant: "triple J P (GetInstant sys) (\<lambda>_. P)"
  by (auto simp: triple_def GetInstant_def)

lemma triple_succeeds:
  assumes "\<And>tr. P tr \<Longrightarrow> J tr ev" and "stable P"
  shows "triple J P (succeeds (perform env ev)) (\<lambda>_. P)"
  using assms by (auto simp: triple_def succeeds_def perform_def justified_snoc stable_def split: sum.splits)

lemma triple_ignore:
  assumes "\<And>tr. P tr \<Longrightarrow> J tr ev" and "stable P"
  shows "triple J P (act_ignore (perform env ev)) (\<lambda>_. P)"
  unfolding act_ignore_def using assms by (intro triple_bind [OF triple_succeeds] triple_return)

lemma triple_defer:
  assumes "closes c m" and "\<And>tr. J tr c" and "triple J P body Q"
  shows "triple J P (with_defer m body) (\<lambda>_ _. True)"
  unfolding triple_def
proof (intro allI impI)
  fix tr r tr'
  assume h: "justified J tr" "P tr" "with_defer m body tr = (r, tr')"
  obtain r1 tr1 where body: "body tr = (r1, tr1)"
    by fastforce
  then have "justified J tr1" "\<exists>xs. tr1 = tr @ xs"
    using assms(3) h(1,2) unfolding triple_def by blast+
  moreover have "tr' = tr1 @ [c]"
    using with_defer_closes [of c m body tr r1 tr1] assms(1) body h(3) by simp
  ultimately show "justified J tr' \<and> (\<exists>xs. tr' = tr @ xs) \<and> (\<forall>x. r = Ok x \<longrightarrow> True)"
    using assms(2) by (auto simp: justified_snoc)
qed

lemma MakeBash_Run_safe:
  assumes "abs_ok fsRoot" and "rel_ok dir" and "env_inv (sys_Env sys)" and "upper_ok sys"
  shows "safe (MakeBash_Run env sys fsRoot m \<lparr>rp_value = d\<rparr> dir)"
    and "triple (build_rests env sys fsRoot m) (\<lambda>tr. seen env tr (MkdirTemp \<lparr>rp_value = ''.cache''\<rparr> ''gocache'') d)
      (MakeBash_Run env sys fsRoot m \<lparr>rp_value = d\<rparr> dir) (\<lambda>_ _. True)"
proof -
  obtain srcDir goBin entries where run: "build_env sys fsRoot m d entries"
      "MakeBash_Run env sys fsRoot m \<lparr>rp_value = d\<rparr> dir =
      (let ext = (if sys_GOOS sys = ''windows'' then ''.bat'' else ''.bash'')
       in act_bind (succeeds (perform env (Stat goBin \<lparr>so_FollowFinalSymlink = False, so_OnErrorTraverseParents = True\<rparr>))) (\<lambda>built.
          act_bind (if built then exec env (Cmd_In srcDir (cmdx_New [''./clean'' @ ext])) else act_return ()) (\<lambda>_.
          act_bind (GetInstant sys) (\<lambda>start.
          act_bind (perform env (RunWithEnv (Cmd_In srcDir (cmdx_New [''./make'' @ ext])) entries)) (\<lambda>_.
          act_bind (GetInstant sys) (\<lambda>stop. act_return (Instant_Sub stop start)))))))"
    using MakeBash_Run_cases [OF assms] .
  show "safe (MakeBash_Run env sys fsRoot m \<lparr>rp_value = d\<rparr> dir)"
    unfolding run(2) Let_def
    by (intro safe_bind safe_succeeds safe_perform safe_GetInstant safe_return) (auto intro: safe_exec safe_return)
  let ?J = "build_rests env sys fsRoot m" and ?P = "\<lambda>tr. seen env tr (MkdirTemp \<lparr>rp_value = ''.cache''\<rparr> ''gocache'') d"
  have stat: "triple ?J ?P (succeeds (perform env (Stat p so))) (\<lambda>_. ?P)" for p so
    by (rule triple_succeeds) (auto simp: build_rests_def)
  have clean: "triple ?J ?P (if built then exec env c else act_return ()) (\<lambda>_. ?P)" for built c
    using buildq.exec_quiet [of ?P] by (auto intro: triple_return)
  have make: "triple ?J ?P (perform env (RunWithEnv c entries)) (\<lambda>out tr. ?P tr \<and> seen env tr (RunWithEnv c entries) out)" for c
    by (rule triple_perform) (use run(1) in \<open>auto simp: build_rests_def\<close>)
  show "triple ?J ?P (MakeBash_Run env sys fsRoot m \<lparr>rp_value = d\<rparr> dir) (\<lambda>_ _. True)"
    unfolding run(2) Let_def
    by (rule triple_bind [OF stat], rule triple_bind [OF clean], rule triple_bind [OF triple_GetInstant],
        rule triple_bind [OF make], rule triple_bind [OF triple_GetInstant]) (rule triple_return, simp)
qed

definition host_ok :: "system \<Rightarrow> AbsPath \<Rightarrow> bool" where
  "host_ok sys fsRoot \<longleftrightarrow> abs_ok fsRoot \<and> env_inv (sys_Env sys) \<and> upper_ok sys"

definition fits :: "'e environment \<Rightarrow> system \<Rightarrow> AbsPath \<Rightarrow> MakeBashBenchmark \<Rightarrow> ('e, unit) act \<Rightarrow> bool" where
  "fits env sys fsRoot m a \<longleftrightarrow> safe a \<and> triple (build_rests env sys fsRoot m) (\<lambda>_. True) a (\<lambda>_ _. True)"

lemma fits_bind: "fits env sys fsRoot m a \<Longrightarrow> fits env sys fsRoot m b \<Longrightarrow> fits env sys fsRoot m (act_bind a (\<lambda>_. b))"
  unfolding fits_def by (blast intro: safe_bind triple_bind)

lemma fits_defer:
  assumes "closes c a" and "\<And>cmd es. c \<noteq> RunWithEnv cmd es" and "fits env sys fsRoot m b"
  shows "fits env sys fsRoot m (with_defer a b)"
proof -
  have "build_rests env sys fsRoot m tr c" for tr
    using assms(2) by (auto simp: build_rests_def split: event.split)
  then show ?thesis
    using assms(1,3) safe_defer [OF assms(1)] triple_defer [OF assms(1)] unfolding fits_def by blast
qed

lemma fits_return: "fits env sys fsRoot m (act_return ())"
  by (simp add: fits_def safe_return triple_return)

lemma fits_exec: "fits env sys fsRoot m (exec env c)"
  unfolding fits_def using buildq.exec_quiet [of "\<lambda>_. True"] safe_exec by auto

lemma fits_temp:
  assumes "\<And>tr d. env tr (MkdirTemp p pat) = Inr d \<Longrightarrow> fits env sys fsRoot m (f d)"
  shows "fits env sys fsRoot m (act_bind (perform env (MkdirTemp p pat)) f)"
proof -
  have "triple (build_rests env sys fsRoot m) (\<lambda>_. True) (perform env (MkdirTemp p pat)) (\<lambda>d tr. True \<and> seen env tr (MkdirTemp p pat) d)"
    by (rule triple_perform) (simp_all add: build_rests_def)
  moreover have "triple (build_rests env sys fsRoot m) (\<lambda>tr. True \<and> seen env tr (MkdirTemp p pat) d) (f d) (\<lambda>_ _. True)" for d
  proof (cases "\<exists>tr. env tr (MkdirTemp p pat) = Inr d")
    case True
    then show ?thesis
      using assms unfolding fits_def triple_def by blast
  qed (auto simp: triple_def seen_def)
  ultimately show ?thesis
    using safe_perform_bind assms unfolding fits_def by (blast intro: triple_bind)
qed

lemma measure_once_fits:
  assumes "host_ok sys fsRoot" and "rel_ok (bs_Root bs)"
  shows "fits env sys fsRoot m (measure_once env sys fsRoot m bs i)"
proof -
  let ?J = "build_rests env sys fsRoot m" and ?mk = "MkdirTemp \<lparr>rp_value = ''.cache''\<rparr> ''gocache''"
  note run = MakeBash_Run_safe [of fsRoot "bs_Root bs" sys]
  have ok: "abs_ok fsRoot" "env_inv (sys_Env sys)" "upper_ok sys"
    using assms(1) by (simp_all add: host_ok_def)
  let ?body = "\<lambda>d. act_bind (MakeBash_Run env sys fsRoot m \<lparr>rp_value = d\<rparr> (bs_Root bs)) (\<lambda>duration.
      act_ignore (perform env (Fprintf reportFormat [ArgString (bs_Label bs), ArgInt i, ArgDuration duration])))"
  have print: "triple ?J (\<lambda>_. True) (act_ignore (perform env (Fprintf f args))) (\<lambda>_ _. True)" for f args
    by (rule triple_ignore) (simp_all add: build_rests_def)
  have "triple ?J (\<lambda>tr. True \<and> seen env tr ?mk d) (with_defer (perform env (RemoveAll \<lparr>rp_value = d\<rparr>)) (?body d)) (\<lambda>_ _. True)" for d
    by (rule triple_defer [OF closes_perform])
      (use triple_bind [OF run(2) print] assms(2) ok in \<open>auto simp: build_rests_def\<close>)
  moreover have "triple ?J (\<lambda>_. True) (perform env ?mk) (\<lambda>d tr. True \<and> seen env tr ?mk d)"
    by (rule triple_perform) (simp_all add: build_rests_def)
  moreover have "safe (with_defer (perform env (RemoveAll \<lparr>rp_value = d\<rparr>)) (?body d))" for d
    using run(1) assms(2) ok by (intro safe_defer [OF closes_perform] safe_bind safe_ignore safe_perform)
  ultimately show ?thesis
    unfolding measure_once_def fits_def lift_bind [OF MustParse_literals(3)]
    by (blast intro: triple_bind safe_perform_bind)
qed

lemma iters_loop_fits:
  assumes "host_ok sys fsRoot" and "rel_ok (bs_Root bs)"
  shows "fits env sys fsRoot m (iters_loop env sys fsRoot m bs i n)"
  using assms
proof (induction env sys fsRoot m bs i n rule: iters_loop.induct)
  case (1 env sys fsRoot m bs i n)
  then show ?case
    by (subst iters_loop.simps) (auto intro!: fits_bind measure_once_fits fits_return)
qed

lemma setups_loop_fits:
  assumes "host_ok sys fsRoot" and "list_all (\<lambda>bs. rel_ok (bs_Root bs)) bss"
  shows "fits env sys fsRoot (bo_Config options) (setups_loop env sys fsRoot options bss)"
  using assms(2)
proof (induction bss)
  case (Cons bs bss)
  have "DefaultIters (MakeBash_Name (bo_Config options)) = Inr 1"
    by (simp add: DefaultIters_def MakeBash_Name_def)
  then show ?case
    using Cons iters_loop_fits [OF assms(1)] by (auto simp: lift_bind intro!: fits_bind)
qed (simp add: fits_return)

lemma measure_all_fits:
  assumes "host_ok sys fsRoot" and "list_all (\<lambda>bs. rel_ok (bs_Root bs)) bss"
  shows "fits env sys fsRoot (bo_Config options) (measure_all env sys fsRoot options bss)"
proof -
  have "triple (build_rests env sys fsRoot m) (\<lambda>_. True) (act_ignore (perform env (Fprintf f args))) (\<lambda>_ _. True)" for f args m
    by (rule triple_ignore) (simp_all add: build_rests_def)
  then have "fits env sys fsRoot m (act_ignore (perform env (Fprintf f args)))" for f args m
    by (simp add: fits_def safe_ignore safe_perform)
  then show ?thesis
    unfolding measure_all_def using assms MustParse_literals(4) by (intro fits_bind setups_loop_fits) simp_all
qed

lemma Benchmark_fits:
  assumes "host_ok sys fsRoot" and "\<And>tr p pat d. env tr (MkdirTemp p pat) = Inr d \<Longrightarrow> rel_ok \<lparr>rp_value = d\<rparr>"
  shows "fits env sys fsRoot (bo_Config options) (Benchmark env sys fsRoot options)"
proof (cases "bo_Baseline options")
  case None
  then show ?thesis
    using measure_all_fits [OF assms(1), of "[]"] by (simp add: Benchmark_def)
next
  case (Some b)
  let ?fits = "fits env sys fsRoot (bo_Config options)"
  have rest: "?fits (measure_all env sys fsRoot options [\<lparr>bs_Root = \<lparr>rp_value = d\<rparr>, bs_Label = ''baseline''\<rparr>])" if "rel_ok \<lparr>rp_value = d\<rparr>" for d
    using measure_all_fits [OF assms(1), of "[\<lparr>bs_Root = \<lparr>rp_value = d\<rparr>, bs_Label = ''baseline''\<rparr>]"] that by simp
  have "?fits (act_bind (exec env c) (\<lambda>_. with_defer (exec env c')
      (measure_all env sys fsRoot options [\<lparr>bs_Root = \<lparr>rp_value = d\<rparr>, bs_Label = ''baseline''\<rparr>])))" if "rel_ok \<lparr>rp_value = d\<rparr>" for c c' d
    by (intro fits_bind fits_exec fits_defer [OF closes_exec] rest that) simp
  then show ?thesis
    unfolding Benchmark_def Some option.case Let_def runJJ_def runGit_def lift_bind [OF MustParse_literals(3)]
    by (intro fits_temp fits_defer [OF closes_perform]) (auto intro: rest dest: assms(2))
qed

section \<open>Flags\<close>

definition target_ok :: "system \<Rightarrow> MakeBashBenchmark \<Rightarrow> bool" where
  "target_ok sys m \<longleftrightarrow> mb_TargetGOOS m \<in> insert (sys_GOOS sys) (set allowedOSes) \<and> mb_TargetGOARCH m \<in> insert (sys_GOARCH sys) (set allowedArchs)"

lemma MakeBash_Add_ok: "MakeBash_Add key val m = Inr m' \<Longrightarrow> target_ok sys m \<Longrightarrow> target_ok sys m'"
  by (auto simp: MakeBash_Add_def target_ok_def Let_def split: if_splits)

lemma config_loop_ok: "config_loop kvs m = Inr m' \<Longrightarrow> target_ok sys m \<Longrightarrow> target_ok sys m'"
proof (induction kvs arbitrary: m)
  case (Cons kv kvs)
  then show ?case
    by (auto simp: Let_def split: prod.splits if_splits sum.splits dest: MakeBash_Add_ok)
qed simp

lemma parseBaseline_total:
  "\<exists>r. parseBaseline flag = Inr r \<and> (case r of Inl _ \<Rightarrow> True | Inr b \<Rightarrow> b = None \<longleftrightarrow> flag = None)"
  by (auto simp: parseBaseline_def NewRevSet_def JJ_def VCS_Git_def Let_def split: option.splits prod.splits)

definition options_ok :: "system \<Rightarrow> benchmarkFlags \<Rightarrow> BenchmarkOptions \<Rightarrow> bool" where
  "options_ok sys flags options \<longleftrightarrow> target_ok sys (bo_Config options)
     \<and> bo_Iters options = (case fl_iters flags of Some n \<Rightarrow> if n > 0 then Some n else None | None \<Rightarrow> None)
     \<and> (bo_Baseline options = None \<longleftrightarrow> fl_baseline flags = None)"

lemma parseBenchmarkFlags_total:
  "\<exists>r :: 'e err + BenchmarkOptions. parseBenchmarkFlags sys flags = Inr r \<and> (case r of Inl _ \<Rightarrow> True | Inr options \<Rightarrow> options_ok sys flags options)"
proof -
  obtain b :: "'e err + RevSet option" where b: "parseBaseline (fl_baseline flags) = Inr b" "case b of Inl _ \<Rightarrow> True | Inr b \<Rightarrow> b = None \<longleftrightarrow> fl_baseline flags = None"
    using parseBaseline_total by blast
  let ?m = "\<lparr>mb_TargetGOOS = sys_GOOS sys, mb_TargetGOARCH = sys_GOARCH sys\<rparr>"
  have m: "target_ok sys m" if "(config_loop (fl_config flags) ?m :: 'e err + _) = Inr m" for m
    using config_loop_ok [OF that] by (simp add: target_ok_def)
  have new: "NewBenchmarkConfig sys ''make.bash'' = Inr ?m"
    by (simp add: NewBenchmarkConfig_def Benchmark_MakeBash_def)
  have iters: "iters = (case fl_iters flags of Some n \<Rightarrow> if n > 0 then Some n else None | None \<Rightarrow> None)"
    if "(parseIters (fl_iters flags) :: 'e err + _) = Inr iters" for iters
    using that by (auto simp: parseIters_def split: option.splits if_splits)
  show ?thesis
    using b m iters
    by (cases "parseIters (fl_iters flags) :: 'e err + _"; cases "config_loop (fl_config flags) ?m :: 'e err + _"; cases b)
      (auto simp: parseBenchmarkFlags_def new options_ok_def)
qed

lemma Benchmark_run:
  assumes "host_ok sys fsRoot" and "\<And>tr p pat d. env tr (MkdirTemp p pat) = Inr d \<Longrightarrow> rel_ok \<lparr>rp_value = d\<rparr>"
    and run: "Benchmark env sys fsRoot options [] = (r, tr)"
  shows "(\<forall>p. r \<noteq> Panic p) \<and> settled (benchmark_owes fsRoot) env [] tr
    \<and> justified (build_rests env sys fsRoot (bo_Config options)) tr
    \<and> (r = Ok () \<longrightarrow> reports tr = concat (map (\<lambda>label. map (Pair label) [1..case bo_Iters options of Some n \<Rightarrow> n | None \<Rightarrow> 1])
         (if bo_Baseline options = None then [''latest''] else [''baseline'', ''latest''])))"
proof -
  have fits: "fits env sys fsRoot (bo_Config options) (Benchmark env sys fsRoot options)"
    using Benchmark_fits [OF assms(1)] assms(2) by blast
  have "\<forall>p. r \<noteq> Panic p"
    using fits run unfolding fits_def safe_def by (metis fst_conv)
  moreover have set: "settled (benchmark_owes fsRoot) env [] tr"
    using Benchmark_settles [of fsRoot env sys options] run unfolding settles_def by fastforce
  have "justified (build_rests env sys fsRoot (bo_Config options)) []"
    by (simp add: justified_def)
  then have just: "justified (build_rests env sys fsRoot (bo_Config options)) tr"
    using fits run unfolding fits_def triple_def by blast
  moreover have "r = Ok () \<longrightarrow> reports tr = expected_reports options (if bo_Baseline options = None then [''latest''] else [''baseline'', ''latest''])"
    using Benchmark_prints [of env sys fsRoot options] run unfolding prints_def
    by (metis append_Nil concat.simps(1) list.simps(8) reports_def)
  ultimately show ?thesis
    using just set unfolding expected_reports_def by blast
qed

section \<open>Properties\<close>


definition example_host :: system where
  "example_host = \<lparr>sys_GOOS = ''linux'', sys_GOARCH = ''amd64'', sys_ToUpper = id, sys_Env = Env_Empty, sys_Instant = (\<lambda>tr. 5 * int (length tr))\<rparr>"

definition example_flags :: benchmarkFlags where
  "example_flags = \<lparr>fl_name = ''make.bash'', fl_iters = None, fl_config = [''TARGET_GOOS=darwin''], fl_baseline = Some ''git:main''\<rparr>"

definition example_disk :: "unit environment" where
  "example_disk tr ev = (case ev of MkdirTemp p pat \<Rightarrow> Inr ''a/b'' | Stat p so \<Rightarrow> Inl () | _ \<Rightarrow> Inr [])"

lemma example_benchmark_ok: "fst (benchmarkAction example_disk example_host \<lparr>ap_value = ''/a''\<rparr> example_flags []) = Ok ()"
  by code_simp


end
