(* ===== verification/Kido_List.thy ===== *)
theory Kido_List
  imports Workspace_Config Fsx "HOL-Library.Multiset"
begin

text \<open>
  \<^verbatim>\<open>misc/cmd/kido/list.go\<close> and the flags of the list command in \<^verbatim>\<open>main.go\<close>: the Go modules at the root of the repository. The enumerations are integers, as in the source. Decoding
  the configuration file and warnings are left out; \<open>out\<close> gives the error of writing a line after those written before.
\<close>

section \<open>Definitions\<close>

definition ListType_GoModules :: int where "ListType_GoModules = 1"
definition ListProvenance_All :: int where "ListProvenance_All = 1"
definition ListProvenance_FirstParty :: int where "ListProvenance_FirstParty = 2"
definition ListProvenance_Forked :: int where "ListProvenance_Forked = 3"

record ListOptions =
  lo_Type :: int
  lo_Provenance :: int

datatype 'e listError = UnknownListType int | ReadDirectory AbsPath 'e | NoModules | WriteError 'e | UnknownFlag string string

fun goModules_loop ::
  "'e FS \<Rightarrow> WorkspaceConfig \<Rightarrow> int \<Rightarrow> ('e + DirEntry) list \<Rightarrow> Name list \<Rightarrow> ('e listError + Name list) outcome" where
  "goModules_loop fs config provenance [] folders = Inr (Inr folders)"
| "goModules_loop fs config provenance (entryRes # rest) folders =
     (case entryRes of
        Inl err \<Rightarrow> Inr (Inl (ReadDirectory (fs_Root fs) err))
      | Inr entry \<Rightarrow>
          if \<not> de_isDir entry then goModules_loop fs config provenance rest folders
          else
            let name = de_BaseName entry
            in go_bind (RelPath_JoinComponents Dot [Name_String name, ''go.mod'']) (\<lambda>goModRel.
               case fs_Stat fs goModRel \<lparr>so_FollowFinalSymlink = True, so_OnErrorTraverseParents = False\<rparr> of
                 Inl statErr \<Rightarrow> goModules_loop fs config provenance rest folders
               | Inr _ \<Rightarrow>
                   go_bind (MustParseRelPath (Name_String name)) (\<lambda>key.
                   let isForked = (gm_get (wc_ForkedFolders config) key \<noteq> None);
                       folders =
                         (if provenance = ListProvenance_All then folders @ [name]
                          else if provenance = ListProvenance_FirstParty then (if \<not> isForked then folders @ [name] else folders)
                          else if provenance = ListProvenance_Forked then (if isForked then folders @ [name] else folders)
                          else folders)
                   in goModules_loop fs config provenance rest folders)))"

text \<open>Names that compare as equal are equal, so every algorithm that sorts by \<open>Name.Compare\<close> gives this list.\<close>

definition goModules :: "'e FS \<Rightarrow> WorkspaceConfig \<Rightarrow> int \<Rightarrow> ('e listError + Name list) outcome" where
  "goModules fs config provenance =
     go_bind (goModules_loop fs config provenance (fs_ReadDir fs Dot) []) (\<lambda>r. case r of
       Inl e \<Rightarrow> Inr (Inl e)
     | Inr folders \<Rightarrow>
         let folders = sort_key nm_value folders
         in if length folders = 0 then Inr (Inl NoModules) else Inr (Inr folders))"

fun print_loop :: "(string list \<Rightarrow> 'e option) \<Rightarrow> Name list \<Rightarrow> string list \<Rightarrow> 'e listError option \<times> string list" where
  "print_loop out [] lines = (None, lines)"
| "print_loop out (f # folders) lines =
     (case out (lines @ [Name_String f]) of
        Some e \<Rightarrow> (Some (WriteError e), lines)
      | None \<Rightarrow> print_loop out folders (lines @ [Name_String f]))"

definition listGoModules :: "'e FS \<Rightarrow> WorkspaceConfig \<Rightarrow> (string list \<Rightarrow> 'e option) \<Rightarrow> int \<Rightarrow> ('e listError option \<times> string list) outcome" where
  "listGoModules fs config out provenance =
     go_bind (goModules fs config provenance) (\<lambda>r. case r of
       Inl e \<Rightarrow> Inr (Some e, [])
     | Inr folders \<Rightarrow> Inr (print_loop out folders []))"

definition Workspace_List :: "'e FS \<Rightarrow> WorkspaceConfig \<Rightarrow> (string list \<Rightarrow> 'e option) \<Rightarrow> ListOptions \<Rightarrow> ('e listError option \<times> string list) outcome" where
  "Workspace_List fs config out opts =
     (if lo_Type opts = ListType_GoModules then listGoModules fs config out (lo_Provenance opts)
      else Inr (Some (UnknownListType (lo_Type opts)), []))"

definition listAction ::
  "'e FS \<Rightarrow> WorkspaceConfig \<Rightarrow> (string list \<Rightarrow> 'e option) \<Rightarrow> string \<Rightarrow> string option \<Rightarrow> ('e listError option \<times> string list) outcome" where
  "listAction fs config out typeFlag provenanceFlag =
     (if typeFlag \<noteq> ''go-module'' then Inr (Some (UnknownFlag ''--type'' typeFlag), [])
      else case provenanceFlag of
        None \<Rightarrow> Workspace_List fs config out \<lparr>lo_Type = ListType_GoModules, lo_Provenance = ListProvenance_All\<rparr>
      | Some p \<Rightarrow>
          if p = ''first-party'' then Workspace_List fs config out \<lparr>lo_Type = ListType_GoModules, lo_Provenance = ListProvenance_FirstParty\<rparr>
          else if p = ''forked'' then Workspace_List fs config out \<lparr>lo_Type = ListType_GoModules, lo_Provenance = ListProvenance_Forked\<rparr>
          else Inr (Some (UnknownFlag ''--provenance'' p), []))"

section \<open>Facts\<close>

text \<open>A directory whose \<^verbatim>\<open>go.mod\<close> can be read is a module; it is forked when the configuration has a folder of its name.\<close>

definition go_mod :: "Name \<Rightarrow> RelPath" where
  "go_mod name = (case RelPath_JoinComponents Dot [Name_String name, ''go.mod''] of Inr p \<Rightarrow> p | Inl _ \<Rightarrow> Dot)"

definition is_module :: "'e FS \<Rightarrow> DirEntry \<Rightarrow> bool" where
  "is_module fs entry \<longleftrightarrow> de_isDir entry
     \<and> (\<exists>info. fs_Stat fs (go_mod (de_BaseName entry)) \<lparr>so_FollowFinalSymlink = True, so_OnErrorTraverseParents = False\<rparr> = Inr info)"

definition name_key :: "Name \<Rightarrow> RelPath" where
  "name_key name = (case MustParseRelPath (Name_String name) of Inr p \<Rightarrow> p | Inl _ \<Rightarrow> Dot)"

definition is_forked :: "WorkspaceConfig \<Rightarrow> Name \<Rightarrow> bool" where
  "is_forked config name \<longleftrightarrow> gm_get (wc_ForkedFolders config) (name_key name) \<noteq> None"

definition wanted :: "WorkspaceConfig \<Rightarrow> string option \<Rightarrow> Name \<Rightarrow> bool" where
  "wanted config flag name \<longleftrightarrow> (case flag of None \<Rightarrow> True | Some p \<Rightarrow> (p = ''forked'') = is_forked config name)"

lemma go_mod_path: "name_ok name \<Longrightarrow> RelPath_JoinComponents Dot [Name_String name, ''go.mod''] = Inr (go_mod name)"
proof -
  assume "name_ok name"
  then have sep: "\<not> HasPathSeparators (Name_String name)" "\<not> HasPathSeparators ''go.mod''"
    by (auto simp: name_ok_def HasPathSeparators_def Name_String_def isUnixSeparator_def)
  have "rel_ok Dot"
    by code_simp
  then obtain v s trail where "Dot = \<lparr>rp_value = v\<rparr>" "rel_form v s trail"
    by (rule rel_okE)
  moreover have "checkElems [rp_value Dot] [Name_String name, ''go.mod''] = Inr ([rp_value Dot] @ [Name_String name, ''go.mod''])"
    using sep by (intro checkElems_ok) simp
  ultimately have "\<exists>q. RelPath_JoinComponents Dot [Name_String name, ''go.mod''] = Inr q"
    using Join_rel_ok [of v s trail "[Name_String name, ''go.mod'']"]
    unfolding RelPath_JoinComponents_def by (metis RelPath.select_convs(1) append_Cons append_Nil go_bind_Inr)
  then show ?thesis
    by (auto simp: go_mod_def)
qed

lemma name_key_path: "name_ok name \<Longrightarrow> MustParseRelPath (Name_String name) = Inr (name_key name)"
proof -
  assume "name_ok name"
  then have "Name_String name \<noteq> []" "\<not> IsAbs (Name_String name)"
    by (cases "nm_value name"; simp add: name_ok_def Name_String_def IsAbs_def isUnixSeparator_def)+
  then show ?thesis
    by (simp add: name_key_def MustParseRelPath_rel)
qed

text \<open>The provenance that a value of the flag stands for.\<close>

fun provenance_of :: "string option \<Rightarrow> int" where
  "provenance_of None = ListProvenance_All"
| "provenance_of (Some p) = (if p = ''first-party'' then ListProvenance_FirstParty else ListProvenance_Forked)"

lemmas provenance_defs = ListProvenance_All_def ListProvenance_FirstParty_def ListProvenance_Forked_def

lemma goModules_loop_spec:
  assumes "list_all (\<lambda>e. name_ok (de_BaseName e)) es" and "flag \<in> {None, Some ''first-party'', Some ''forked''}"
  shows "goModules_loop fs config (provenance_of flag) (map Inr es @ rest) folders =
    goModules_loop fs config (provenance_of flag) rest (folders @ filter (wanted config flag) (map de_BaseName (filter (is_module fs) es)))"
  using assms(1)
proof (induction es arbitrary: folders)
  case (Cons e es)
  let ?stat = "fs_Stat fs (go_mod (de_BaseName e)) \<lparr>so_FollowFinalSymlink = True, so_OnErrorTraverseParents = False\<rparr>"
  have e: "name_ok (de_BaseName e)"
    using Cons.prems by simp
  have "goModules_loop fs config (provenance_of flag) (map Inr (e # es) @ rest) folders =
      goModules_loop fs config (provenance_of flag) (map Inr es @ rest)
        (if is_module fs e \<and> wanted config flag (de_BaseName e) then folders @ [de_BaseName e] else folders)"
    using assms(2) by (cases ?stat) (auto simp: go_mod_path [OF e] name_key_path [OF e] is_module_def wanted_def is_forked_def provenance_defs Let_def)
  then show ?case
    using Cons by simp
qed simp

lemma listAction_flag:
  assumes "flag \<in> {None, Some ''first-party'', Some ''forked''}"
  shows "listAction fs config out ''go-module'' flag = listGoModules fs config out (provenance_of flag)"
  using assms by (auto simp: listAction_def Workspace_List_def)

lemma print_loop_ok: "print_loop (\<lambda>_. None) ms lines = (None, lines @ map nm_value ms)"
  by (induction ms arbitrary: lines) (simp_all add: Name_String_def)

section \<open>Properties\<close>

text \<open>
  C29. \<open>kido list --type=go-module\<close> never panics. It prints, in the order of their names and each as often as it is listed, the directories at the root with a readable \<^verbatim>\<open>go.mod\<close>: all of them, those that are forked folders of the
  configuration or the other ones. It fails when there is none, and with the first error of listing the root without printing anything.
\<close>

theorem list_correct:
  fixes fs :: "'e FS" and config :: WorkspaceConfig
  assumes "list_all (\<lambda>e. name_ok (de_BaseName e)) es" and "flag \<in> {None, Some ''first-party'', Some ''forked''}"
  defines "modules \<equiv> filter (wanted config flag) (map de_BaseName (filter (is_module fs) es))"
  shows "(fs_ReadDir fs Dot = map Inr es \<longrightarrow>
       (\<exists>ms. mset ms = mset modules \<and> sorted (map nm_value ms)
          \<and> listAction fs config out ''go-module'' flag = Inr (if modules = [] then (Some NoModules, []) else print_loop out ms [])
          \<and> (modules \<noteq> [] \<longrightarrow> listAction fs config (\<lambda>_. None) ''go-module'' flag = Inr (None, map nm_value ms))))
    \<and> (fs_ReadDir fs Dot = map Inr es @ Inl err # rest \<longrightarrow>
       listAction fs config out ''go-module'' flag = Inr (Some (ReadDirectory (fs_Root fs) err), []))"
proof (intro conjI impI)
  note loop = goModules_loop_spec [OF assms(1,2), of fs config _ "[]"]
  show "listAction fs config out ''go-module'' flag = Inr (Some (ReadDirectory (fs_Root fs) err), [])"
    if "fs_ReadDir fs Dot = map Inr es @ Inl err # rest"
    using loop [of "Inl err # rest"] that by (simp add: listAction_flag [OF assms(2)] listGoModules_def goModules_def)
  show "\<exists>ms. mset ms = mset modules \<and> sorted (map nm_value ms)
      \<and> listAction fs config out ''go-module'' flag = Inr (if modules = [] then (Some NoModules, []) else print_loop out ms [])
      \<and> (modules \<noteq> [] \<longrightarrow> listAction fs config (\<lambda>_. None) ''go-module'' flag = Inr (None, map nm_value ms))"
    if "fs_ReadDir fs Dot = map Inr es"
  proof (intro exI [of _ "sort_key nm_value modules"] conjI impI)
    have modules: "goModules fs config (provenance_of flag) = (if modules = [] then Inr (Inl NoModules) else Inr (Inr (sort_key nm_value modules)))"
      using loop [of "[]"] that unfolding goModules_def modules_def Let_def length_sort by simp
    then show "listAction fs config out ''go-module'' flag =
        Inr (if modules = [] then (Some NoModules, []) else print_loop out (sort_key nm_value modules) [])"
      by (simp add: listAction_flag [OF assms(2)] listGoModules_def)
    show "listAction fs config (\<lambda>_. None) ''go-module'' flag = Inr (None, map nm_value (sort_key nm_value modules))" if "modules \<noteq> []"
      using modules that by (simp add: listAction_flag [OF assms(2)] listGoModules_def print_loop_ok)
  qed simp_all
qed

definition example_repo :: "unit FS" where
  "example_repo =
    \<lparr>fs_Root = \<lparr>ap_value = ''/r''\<rparr>,
     fs_Stat = (\<lambda>p _. if rp_value p \<in> {''go/go.mod'', ''base/go.mod''} then Inr \<lparr>fi_isDir = False, fi_isRegular = True, fi_mode = 0\<rparr> else Inl ()),
     fs_ReadDir = (\<lambda>_. map (\<lambda>n. Inr \<lparr>de_BaseName = \<lparr>nm_value = n\<rparr>, de_isDir = True\<rparr>) [''go'', ''docs'', ''base'']),
     fs_ReadFile = (\<lambda>_. Inl ()), fs_isNotExist = (\<lambda>_. True)\<rparr>"

definition example_entries :: "DirEntry list" where
  "example_entries = map (\<lambda>n. \<lparr>de_BaseName = \<lparr>nm_value = n\<rparr>, de_isDir = True\<rparr>) [''go'', ''docs'', ''base'']"

lemma example_modules:
  "filter (wanted \<lparr>wc_ForkedFolders = Some [], wc_BranchMappings = Some []\<rparr> None) (map de_BaseName (filter (is_module example_repo) example_entries)) =
     [\<lparr>nm_value = ''go''\<rparr>, \<lparr>nm_value = ''base''\<rparr>]"
proof -
  have go_mod: "go_mod \<lparr>nm_value = ''go''\<rparr> = \<lparr>rp_value = ''go/go.mod''\<rparr>" "go_mod \<lparr>nm_value = ''docs''\<rparr> = \<lparr>rp_value = ''docs/go.mod''\<rparr>"
      "go_mod \<lparr>nm_value = ''base''\<rparr> = \<lparr>rp_value = ''base/go.mod''\<rparr>"
    by code_simp+
  show ?thesis
    by (simp add: example_entries_def is_module_def example_repo_def go_mod wanted_def)
qed

theorem list_correct_witness:
  "\<exists>ms. mset ms = mset [\<lparr>nm_value = ''go''\<rparr>, \<lparr>nm_value = ''base''\<rparr>] \<and> sorted (map nm_value ms)
     \<and> listAction example_repo \<lparr>wc_ForkedFolders = Some [], wc_BranchMappings = Some []\<rparr> (\<lambda>_. None) ''go-module'' None = Inr (None, map nm_value ms)"
proof -
  have "list_all (\<lambda>e. name_ok (de_BaseName e)) example_entries"
    by (simp add: example_entries_def name_ok_def isUnixSeparator_def)
  moreover have "fs_ReadDir example_repo Dot = map Inr example_entries"
    by (simp add: example_repo_def example_entries_def)
  ultimately show ?thesis
    using list_correct [where es = example_entries and flag = None and fs = example_repo
        and config = "\<lparr>wc_ForkedFolders = Some [], wc_BranchMappings = Some []\<rparr>" and out = "\<lambda>_. None"]
    by (auto simp: example_modules)
qed

end
