(* ===== verification/Syscaps.thy ===== *)
theory Syscaps
  imports Effects Env
begin

text \<open>
  \<^verbatim>\<open>base/syscaps/syscaps.go\<close>: the process environment, the working directory and the runner of commands. The list of \<^verbatim>\<open>os.Environ\<close>, the result of \<^verbatim>\<open>os.Getwd\<close> and the function
  \<open>run\<close>, which stands for \<^verbatim>\<open>exec.Cmd.Run\<close> and gives the error and what the child wrote, are arguments; the writers that log the output of a child are left out.
\<close>

section \<open>Definitions\<close>

fun environ_pairs :: "string list \<Rightarrow> (string \<times> string) list outcome" where
  "environ_pairs [] = Inr []"
| "environ_pairs (entry # entries) =
     (let (key, val, ok) = strings_Cut (CHR ''='') entry
      in go_bind (Postconditionf ok ''os.Environ entry missing '=': %q'') (\<lambda>_.
         go_bind (environ_pairs entries) (\<lambda>kvs. Inr ((key, val) # kvs))))"

definition syscaps_Env :: "string \<Rightarrow> (string \<Rightarrow> string) \<Rightarrow> string list \<Rightarrow> Env outcome" where
  "syscaps_Env GOOS ToUpper environ = go_bind (environ_pairs environ) (Env_NewIgnoringDupes GOOS ToUpper)"

definition WorkingDirectory :: "'e + string \<Rightarrow> ('e + AbsPath) outcome" where
  "WorkingDirectory getwd =
     (case getwd of
        Inl err \<Rightarrow> Inr (Inl err)
      | Inr wd \<Rightarrow> go_bind (MustParseAbsPath wd) (\<lambda>p. Inr (Inr p)))"

record RunOptions =
  ro_CaptureStdout :: bool
  ro_CaptureStderr :: bool
  ro_TransformEnv :: "(Env \<Rightarrow> Env outcome) option"

record RunOutput =
  ru_Stdout :: string
  ru_Stderr :: string

definition RunOptionsDefault :: RunOptions where
  "RunOptionsDefault = \<lparr>ro_CaptureStdout = False, ro_CaptureStderr = False, ro_TransformEnv = None\<rparr>"

definition WithCaptureStdout :: "RunOptions \<Rightarrow> RunOptions" where
  "WithCaptureStdout opts = opts\<lparr>ro_CaptureStdout := True\<rparr>"

definition WithCaptureStderr :: "RunOptions \<Rightarrow> RunOptions" where
  "WithCaptureStderr opts = opts\<lparr>ro_CaptureStderr := True\<rparr>"

record execCmd =
  xc_Args :: "string list"
  xc_Dir :: string
  xc_Env :: "string list"

definition CmdRunner_Run ::
  "(execCmd \<Rightarrow> 'e option \<times> string \<times> string) \<Rightarrow> Env \<Rightarrow> Cmd \<Rightarrow> RunOptions \<Rightarrow> (RunOutput \<times> 'e err option) outcome" where
  "CmdRunner_Run run env cmd options =
     go_bind (if cmd_argv cmd = [] then Inl index_panic else Inr ()) (\<lambda>_.
     go_bind (case ro_TransformEnv options of Some f \<Rightarrow> go_bind (f env) Env_Entries | None \<Rightarrow> Env_Entries env) (\<lambda>entries.
     let (err, out, errOut) =
           run \<lparr>xc_Args = cmd_argv cmd, xc_Dir = (case cmd_dir cmd of Some dir \<Rightarrow> ap_value dir | None \<Rightarrow> []), xc_Env = entries\<rparr>;
         output = \<lparr>ru_Stdout = (if ro_CaptureStdout options then out else []), ru_Stderr = (if ro_CaptureStderr options then errOut else [])\<rparr>
     in case err of
          Some e \<Rightarrow> Inr (output, Some (ErrWrap (ErrEnv e) ''%s'' (cmd_argv cmd)))
        | None \<Rightarrow> Inr (output, None)))"

section \<open>The environment of a child\<close>

lemma strings_Cut_found: "c \<notin> set a \<Longrightarrow> strings_Cut c (a @ c # b) = (a, b, True)"
proof -
  assume "c \<notin> set a"
  then have "takeWhile (\<lambda>x. x \<noteq> c) (a @ c # b) = a"
    by (auto simp: takeWhile_append)
  then show ?thesis
    by (simp add: strings_Cut_def)
qed

definition entry_of :: "string \<times> string \<Rightarrow> string" where
  "entry_of kv = fst kv @ ''='' @ snd kv"

lemma environ_pairs_spec: "\<forall>kv \<in> set kvs. CHR ''='' \<notin> set (fst kv) \<Longrightarrow> environ_pairs (map entry_of kvs) = Inr kvs"
  by (induction kvs) (auto simp: entry_of_def strings_Cut_found)

lemma environ_pairs_panics:
  "s \<in> set environ \<Longrightarrow> CHR ''='' \<notin> set s \<Longrightarrow>
     environ_pairs environ = Inl (AssertionError ''postcondition violation: os.Environ entry missing '=': %q'')"
proof (induction environ)
  case (Cons t environ)
  show ?case
  proof (cases "s = t")
    case True
    then have "takeWhile (\<lambda>c. c \<noteq> CHR ''='') t = t"
      using Cons.prems(2) by (auto simp: takeWhile_eq_all_conv)
    then have "strings_Cut (CHR ''='') t = (t, [], False)"
      unfolding strings_Cut_def Let_def by simp
    then show ?thesis
      by (simp add: assert_defs)
  next
    case False
    then show ?thesis
      using Cons by (cases "strings_Cut (CHR ''='') t") (auto simp: assert_defs)
  qed
qed simp

lemma update_fresh: "k \<notin> fst ` set al \<Longrightarrow> AList.update k v al = al @ [(k, v)]"
  by (induction al) auto

lemma fold_update_fresh:
  "distinct (map (c \<circ> fst) kvs) \<Longrightarrow> fst ` set al \<inter> (c \<circ> fst) ` set kvs = {} \<Longrightarrow>
     fold (\<lambda>(k, v). AList.update (c k) \<lparr>ee_key = k, ee_value = v\<rparr>) kvs al = al @ map (\<lambda>(k, v). (c k, \<lparr>ee_key = k, ee_value = v\<rparr>)) kvs"
proof (induction kvs arbitrary: al)
  case (Cons kv kvs)
  obtain k v where kv: "kv = (k, v)"
    by fastforce
  have "AList.update (c k) \<lparr>ee_key = k, ee_value = v\<rparr> al = al @ [(c k, \<lparr>ee_key = k, ee_value = v\<rparr>)]"
    using Cons.prems(2) kv by (intro update_fresh) auto
  then show ?case
    using Cons.IH [of "al @ [(c k, \<lparr>ee_key = k, ee_value = v\<rparr>)]"] Cons.prems kv by auto
qed simp

text \<open>A command that is run with the default options sees the environment of the process, when no two of its keys are the same.\<close>

lemma child_environment:
  assumes "\<forall>kv \<in> set kvs. CHR ''='' \<notin> set (fst kv)" and "distinct (map (canonicalKey GOOS ToUpper \<circ> fst) kvs)"
    and "cmd_argv cmd \<noteq> []"
  shows "\<exists>env. syscaps_Env GOOS ToUpper (map entry_of kvs) = Inr env \<and> env_inv env
    \<and> CmdRunner_Run run env cmd RunOptionsDefault =
        Inr (let (err, _) = run \<lparr>xc_Args = cmd_argv cmd, xc_Dir = (case cmd_dir cmd of Some dir \<Rightarrow> ap_value dir | None \<Rightarrow> []), xc_Env = map entry_of kvs\<rparr>
             in (\<lparr>ru_Stdout = [], ru_Stderr = []\<rparr>, map_option (\<lambda>e. ErrWrap (ErrEnv e) ''%s'' (cmd_argv cmd)) err))"
proof -
  let ?c = "canonicalKey GOOS ToUpper"
  obtain m where m: "Env_NewIgnoringDupes_loop ?c kvs NewMonotoneMap = Inr m" "mm_inv m"
      "mm_abs m = fold (\<lambda>(k, v). AList.update (?c k) \<lparr>ee_key = k, ee_value = v\<rparr>) kvs (mm_abs NewMonotoneMap)"
    using Env_NewIgnoringDupes_loop_spec [OF NewMonotoneMap_spec(1)] by blast
  let ?env = "\<lparr>env_entries = m\<rparr>"
  have inv: "env_inv ?env"
    by (simp add: env_inv_def m(2))
  have "env_abs ?env = map (\<lambda>(k, v). (?c k, \<lparr>ee_key = k, ee_value = v\<rparr>)) kvs"
    using m(3) fold_update_fresh [OF assms(2), of "[]"] by (simp add: env_abs_def NewMonotoneMap_spec)
  then have "Env_Entries ?env = Inr (map entry_of kvs)"
    by (simp add: Env_Entries_spec [OF inv] entry_of_def split_def comp_def)
  moreover have "syscaps_Env GOOS ToUpper (map entry_of kvs) = Inr ?env"
    by (simp add: syscaps_Env_def environ_pairs_spec [OF assms(1)] Env_NewIgnoringDupes_def m(1))
  ultimately show ?thesis
    using assms(3) inv
    by (intro exI [of _ ?env]) (auto simp: CmdRunner_Run_def RunOptionsDefault_def Let_def split: prod.split option.split)
qed

end
