(* ===== verification/Temp_File.thy ===== *)
theory Temp_File
  imports Fsx Time_Pattern
begin

text \<open>
  \<^verbatim>\<open>base/fsx/fsx_temp/temp.go\<close> and \<^verbatim>\<open>base/syscaps/temp_file.go\<close>: temporary files with names from a pattern, on Unix. The random generator of
  \<^verbatim>\<open>math/rand\<close> is given by the two functions \<open>NewSource\<close> and \<open>Uint32\<close>, the file system by the function \<open>openFile\<close> on its state.
\<close>

section \<open>Creating a file\<close>

abbreviation CreateFileErrorKind_IOError :: "8 word" where "CreateFileErrorKind_IOError \<equiv> 1"
abbreviation CreateFileErrorKind_OutOfNames :: "8 word" where "CreateFileErrorKind_OutOfNames \<equiv> 2"

record 'e CreateFileError =
  cf_kind :: "8 word"
  cf_path :: RelPath
  cf_err :: "'e option"

definition createFile_body ::
  "('e \<Rightarrow> bool) \<Rightarrow> (RelPath \<Rightarrow> OpenOptions \<Rightarrow> 'w \<Rightarrow> ('e + 'f) \<times> 'w) \<Rightarrow> RelPath \<Rightarrow> OpenOptions \<Rightarrow>
   (Name, ('e CreateFileError + 'f) option \<times> 'w) body" where
  "createFile_body isExist openFile dir opts name st =
     go_bind (RelPath_JoinOne dir name) (\<lambda>rel.
     case openFile rel opts (snd st) of
       (Inr f, w) \<Rightarrow> Inr (False, (Some (Inr f), w))
     | (Inl err, w) \<Rightarrow>
         if isExist err then Inr (True, (None, w))
         else Inr (False, (Some (Inl \<lparr>cf_kind = CreateFileErrorKind_IOError, cf_path = rel, cf_err = Some err\<rparr>), w)))"

definition CreateFile ::
  "('e \<Rightarrow> bool) \<Rightarrow> (RelPath \<Rightarrow> OpenOptions \<Rightarrow> 'w \<Rightarrow> ('e + 'f) \<times> 'w) \<Rightarrow> RelPath \<Rightarrow> (Name, ('e CreateFileError + 'f) option \<times> 'w) Seq \<Rightarrow>
   OpenOptionsBuilder \<Rightarrow> 'w \<Rightarrow> (('e CreateFileError + 'f) \<times> 'w) outcome" where
  "CreateFile isExist openFile dir names opts w =
     go_bind (go_bind (WithMode opts OpenMode_CreateNew) Build) (\<lambda>built.
     go_bind (case built of
         Inl err \<Rightarrow> go_bind (Preconditionf False ''CreateFile.opts failed to build with OpenMode_CreateNew: %v (input: %+v)'') (\<lambda>_.
           Inr \<lparr>oo_rw = 0, oo_mode = 0, oo_append = False, oo_truncate = False\<rparr>)
       | Inr opts2 \<Rightarrow> Inr opts2) (\<lambda>opts2.
     go_bind (names (createFile_body isExist openFile dir opts2) (None, w)) (\<lambda>(res, w).
     case res of
       Some r \<Rightarrow> Inr (r, w)
     | None \<Rightarrow> Inr (Inl \<lparr>cf_kind = CreateFileErrorKind_OutOfNames, cf_path = \<lparr>rp_value = []\<rparr>, cf_err = None\<rparr>, w))))"

definition CreateFileError_Kind :: "'e CreateFileError \<Rightarrow> 8 word" where
  "CreateFileError_Kind e = cf_kind e"

definition CreateFileError_Path :: "'e CreateFileError \<Rightarrow> RelPath outcome" where
  "CreateFileError_Path e =
     (if cf_kind e = CreateFileErrorKind_IOError then Inr (cf_path e)
      else if cf_kind e = CreateFileErrorKind_OutOfNames
      then go_bind (Preconditionf False ''Path() called on CreateFileError kind %v'') (\<lambda>_. Inr \<lparr>rp_value = []\<rparr>)
      else PanicUnknownCase)"

definition CreateFileError_Error :: "('e option \<Rightarrow> string) \<Rightarrow> 'e CreateFileError \<Rightarrow> string outcome" where
  "CreateFileError_Error show e =
     (if cf_kind e = CreateFileErrorKind_IOError then Inr (''create temporary file '' @ rp_value (cf_path e) @ '': '' @ show (cf_err e))
      else if cf_kind e = CreateFileErrorKind_OutOfNames then Inr ''no temporary file candidate name could be created''
      else PanicUnknownCase)"

definition CreateFileError_Unwrap :: "'e CreateFileError \<Rightarrow> 'e option" where
  "CreateFileError_Unwrap e = cf_err e"

text \<open>The builder is part of the state of the loop, and reset after each name.\<close>

definition Names :: "string \<Rightarrow> (string, 's \<times> string) Seq \<Rightarrow> string \<Rightarrow> (Name, 's) Seq" where
  "Names prefix fragments suffix yield st =
     go_bind (fragments (\<lambda>fragment (st, builder).
       let builder = builder @ prefix @ fragment @ suffix
       in go_bind (Name_New builder) (\<lambda>name.
          go_bind (yield name st) (\<lambda>(more, st).
          if \<not> more then Inr (False, (st, builder)) else Inr (True, (st, []))))) (st, [])) (\<lambda>(st, _). Inr st)"

section \<open>Names from a pattern\<close>

text \<open>\<open>inSuffix\<close>: the variable \<open>current\<close> points to the suffix.\<close>

fun append_current :: "char \<Rightarrow> bool \<Rightarrow> string \<Rightarrow> string \<Rightarrow> string \<times> string" where
  "append_current c inSuffix prefix suffix = (if inSuffix then (prefix, suffix @ [c]) else (prefix @ [c], suffix))"

function split_loop :: "string \<Rightarrow> string \<Rightarrow> string \<Rightarrow> bool \<Rightarrow> nat \<Rightarrow> (string \<times> string \<times> nat) outcome" where
  "split_loop [] prefix suffix inSuffix wildcards = Inr (prefix, suffix, wildcards)"
| "split_loop (c # cs) prefix suffix inSuffix wildcards =
     (if c = CHR 0x5C
      then go_bind (if cs = [] then Preconditionf False ''temp file pattern %q has a trailing escape'' else Inr ()) (\<lambda>_.
           let escaped = cs ! 0
           in go_bind (if escaped \<noteq> CHR ''*'' \<and> escaped \<noteq> CHR 0x5C
                       then Preconditionf False ''temp file pattern %q contains invalid escape sequence'' else Inr ()) (\<lambda>_.
              let (prefix, suffix) = append_current escaped inSuffix prefix suffix
              in split_loop (drop 1 cs) prefix suffix inSuffix wildcards))
      else if c = CHR ''*''
      then go_bind (if wildcards + 1 > 1 then Preconditionf False ''temp file pattern %q contains more than one wildcard'' else Inr ()) (\<lambda>_.
           split_loop cs prefix suffix True (wildcards + 1))
      else let (prefix, suffix) = append_current c inSuffix prefix suffix
           in split_loop cs prefix suffix inSuffix wildcards)"
  by pat_completeness auto
termination
  by (relation "measure (\<lambda>(cs, _). length cs)") auto

definition splitTempFileNamePattern :: "string \<Rightarrow> (string \<times> string) outcome" where
  "splitTempFileNamePattern pattern =
     go_bind (split_loop pattern [] [] False 0) (\<lambda>(prefix, suffix, wildcards).
     go_bind (if wildcards = 0 then Preconditionf False ''temp file pattern %q does not contain a wildcard'' else Inr ()) (\<lambda>_.
     Inr (prefix, suffix)))"

function zero_loop :: "nat \<Rightarrow> nat \<Rightarrow> string \<Rightarrow> string" where
  "zero_loop i n out = (if i < n then zero_loop (i + 1) n (out[i := CHR ''0'']) else out)"
  by auto
termination
  by (relation "measure (\<lambda>(i, n, _). n - i)") auto

declare zero_loop.simps [simp del]

text \<open>
  One iteration: the digits are written after \<^verbatim>\<open>tmp\<close> (there are at most ten, so \<open>AppendUint\<close> stays within the array), copied to the right end,
  and zeros put before them.
\<close>

definition fragment_step :: "string \<Rightarrow> 32 word \<Rightarrow> string" where
  "fragment_step out val =
     (let digits = nat_digits (unat val);
          n = length digits;
          out = take 3 out @ digits @ drop (3 + n) out;
          out = take (length out - n) out @ take n (drop 3 out)
      in zero_loop 3 (length out - n) out)"

fun fragments_loop :: "nat \<Rightarrow> ('g \<Rightarrow> 32 word \<times> 'g) \<Rightarrow> 'g \<Rightarrow> string \<Rightarrow> (string, 's) Seq" where
  "fragments_loop 0 Uint32 rng out yield st = Inr st"
| "fragments_loop (Suc k) Uint32 rng out yield st =
     (let (val, rng) = Uint32 rng; out = fragment_step out val
      in go_bind (yield out st) (\<lambda>(more, st). if \<not> more then Inr st else fragments_loop k Uint32 rng out yield st))"

definition TempFileFragments_MaxIters :: nat where
  "TempFileFragments_MaxIters = 100"

definition fragment_seed :: "64 word \<Rightarrow> 64 word \<Rightarrow> 64 word" where
  "fragment_seed pid addr = push_bit 32 addr AND pid"

definition TempFileFragments :: "(64 word \<Rightarrow> 'g) \<Rightarrow> ('g \<Rightarrow> 32 word \<times> 'g) \<Rightarrow> 64 word \<Rightarrow> 64 word \<Rightarrow> (string, 's) Seq" where
  "TempFileFragments NewSource Uint32 pid addr =
     fragments_loop TempFileFragments_MaxIters Uint32 (NewSource (fragment_seed pid addr)) ''tmp0000000000''"

definition TempFileNames :: "(64 word \<Rightarrow> 'g) \<Rightarrow> ('g \<Rightarrow> 32 word \<times> 'g) \<Rightarrow> 64 word \<Rightarrow> 64 word \<Rightarrow> string \<Rightarrow> (Name, 's) Seq outcome" where
  "TempFileNames NewSource Uint32 pid addr pattern =
     go_bind (splitTempFileNamePattern pattern) (\<lambda>(prefix, suffix).
     Inr (Names prefix (TempFileFragments NewSource Uint32 pid addr) suffix))"

section \<open>Fragments\<close>

lemma zero_loop_spec:
  "i \<le> n \<Longrightarrow> n \<le> length out \<Longrightarrow> zero_loop i n out = take i out @ replicate (n - i) (CHR ''0'') @ drop n out"
proof (induction i n out rule: zero_loop.induct)
  case (1 i n out)
  show ?case
  proof (cases "i < n")
    case True
    then have "zero_loop i n out = take (Suc i) (out[i := CHR ''0'']) @ replicate (n - Suc i) (CHR ''0'') @ drop n out"
      using 1 by (subst zero_loop.simps) simp
    also have "take (Suc i) (out[i := CHR ''0'']) = take i out @ [CHR ''0'']"
      using True 1(3) by (simp add: take_Suc_conv_app_nth)
    also have "n - i = Suc (n - Suc i)"
      using True by simp
    ultimately show ?thesis
      by simp
  qed (use 1 in \<open>simp add: zero_loop.simps\<close>)
qed

lemma nat_digits_length: "0 < k \<Longrightarrow> n < 10 ^ k \<Longrightarrow> length (nat_digits n) \<le> k"
proof (induction k arbitrary: n)
  case (Suc k)
  show ?case
  proof (cases "n < 10")
    case True
    then show ?thesis
      by (simp add: nat_digits.simps)
  next
    case False
    then have "0 < k" "n div 10 < 10 ^ k"
      using Suc.prems by (auto intro: gr0I simp: less_mult_imp_div_less mult.commute)
    then have "length (nat_digits (n div 10)) \<le> k"
      using Suc.IH by blast
    then show ?thesis
      using False by (subst nat_digits.simps) simp
  qed
qed simp

lemma Uint32_digits: "length (nat_digits (unat (val :: 32 word))) \<le> 10"
proof (rule nat_digits_length)
  have "unat val < 2 ^ 32"
    using unsigned_less [of val] by simp
  also have "(2 :: nat) ^ 32 < 10 ^ 10"
    by simp
  finally show "unat val < 10 ^ 10" .
qed simp

definition fragment_of :: "32 word \<Rightarrow> string" where
  "fragment_of val = ''tmp'' @ padded 10 (uint val)"

lemma fragment_step_spec:
  assumes "length out = 13" and "take 3 out = ''tmp''"
  shows "fragment_step out val = fragment_of val"
proof -
  let ?d = "nat_digits (unat val)"
  note n = Uint32_digits [of val]
  define k where "k = length ?d"
  have k: "k \<le> 10" "length ?d = k"
    using n by (simp_all add: k_def)
  define buf where "buf = take (13 - k) (''tmp'' @ ?d @ drop (3 + k) out) @ ?d"
  have "fragment_step out val = zero_loop 3 (13 - k) buf"
    using assms k by (simp add: fragment_step_def Let_def buf_def)
  also have "\<dots> = take 3 buf @ replicate (10 - k) (CHR ''0'') @ drop (13 - k) buf"
    using k assms by (subst zero_loop_spec) (simp_all add: buf_def)
  also have "drop (13 - k) buf = ?d"
    using k assms by (simp add: buf_def)
  also have "take 3 buf = ''tmp''"
    using k by (simp add: buf_def min_absorb1)
  finally show ?thesis
    by (simp add: fragment_of_def padded_def Let_def k_def)
qed

lemma fragment_of_shape: "length (fragment_of val) = 13" "take 3 (fragment_of val) = ''tmp''"
  using Uint32_digits [of val] by (simp_all add: fragment_of_def padded_def Let_def)

text \<open>The numbers that \<open>k\<close> calls of the generator give.\<close>

fun draws :: "nat \<Rightarrow> ('g \<Rightarrow> 32 word \<times> 'g) \<Rightarrow> 'g \<Rightarrow> 32 word list" where
  "draws 0 Uint32 rng = []"
| "draws (Suc k) Uint32 rng = (let (val, rng) = Uint32 rng in val # draws k Uint32 rng)"

lemma fragments_loop_spec:
  "length out = 13 \<Longrightarrow> take 3 out = ''tmp'' \<Longrightarrow> fragments_loop k Uint32 rng out yield st = FromSlice (map fragment_of (draws k Uint32 rng)) yield st"
proof (induction k arbitrary: rng out st)
  case (Suc k)
  then show ?case
    by (auto simp: Let_def split_def fragment_step_spec fragment_of_shape intro!: go_bind_cong)
qed simp

lemma TempFileFragments_spec:
  "TempFileFragments NewSource Uint32 pid addr =
     FromSlice (map fragment_of (draws 100 Uint32 (NewSource (fragment_seed pid addr))))"
  by (intro ext) (simp add: TempFileFragments_def TempFileFragments_MaxIters_def fragments_loop_spec del: draws.simps)

section \<open>Names\<close>

lemma Names_spec:
  assumes "\<forall>x \<in> set xs. \<not> hasPathSeparators (prefix @ x @ suffix) \<and> prefix @ x @ suffix \<noteq> []"
  shows "Names prefix (FromSlice xs) suffix = FromSlice (map (\<lambda>x. \<lparr>nm_value = prefix @ x @ suffix\<rparr>) xs)"
proof (intro ext)
  show "Names prefix (FromSlice xs) suffix yield st = FromSlice (map (\<lambda>x. \<lparr>nm_value = prefix @ x @ suffix\<rparr>) xs) yield st" for yield st
    using assms
  proof (induction xs arbitrary: st)
    case (Cons x xs)
    have "Name_New (prefix @ x @ suffix) = Inr \<lparr>nm_value = prefix @ x @ suffix\<rparr>"
      using Cons.prems by (auto simp: Name_New_def Name_Parse_def)
    then show ?case
      using Cons by (auto simp: Names_def go_bind_assoc split_def Let_def intro!: go_bind_cong)
  qed (simp add: Names_def)
qed

section \<open>Patterns\<close>

text \<open>A literal text as it is written in a pattern.\<close>

fun escape :: "string \<Rightarrow> string" where
  "escape [] = []"
| "escape (c # cs) = (if c = CHR ''*'' \<or> c = CHR 0x5C then CHR 0x5C # c # escape cs else c # escape cs)"

lemma split_loop_escape:
  "split_loop (escape a @ rest) prefix suffix inSuffix w =
     split_loop rest (if inSuffix then prefix else prefix @ a) (if inSuffix then suffix @ a else suffix) inSuffix w"
  by (induction a arbitrary: prefix suffix) (auto simp: Let_def)

lemma split_suffix:
  "split_loop cs prefix suffix True (Suc 0) = Inr r \<Longrightarrow> \<exists>b. cs = escape b \<and> r = (prefix, suffix @ b, 1)"
proof (induction "length cs" arbitrary: cs suffix rule: less_induct)
  case less
  have step: "\<exists>b. cs = escape b \<and> r = (prefix, suffix @ b, 1)"
    if "cs = escape [x] @ cs'" "split_loop cs' prefix (suffix @ [x]) True (Suc 0) = Inr r" for x cs'
  proof -
    note step = that
    have len: "length cs' < length cs"
      using step(1) by simp
    obtain b where "cs' = escape b" "r = (prefix, (suffix @ [x]) @ b, 1)"
      using less.hyps [OF len step(2)] by auto
    then show ?thesis
      using that(1) by (intro exI [of _ "x # b"]) (auto split: if_splits)
  qed
  show ?case
  proof (cases cs)
    case Nil
    then show ?thesis
      using less.prems by (intro exI [of _ "[]"]) auto
  next
    case (Cons c cs')
    then show ?thesis
      using less.prems step [of c cs'] step [of "hd cs'" "tl cs'"]
      by (cases cs') (auto simp: Let_def assert_defs split: if_splits)
  qed
qed

lemma split_prefix:
  "split_loop cs prefix suffix False 0 = Inr (prefix', suffix', w) \<Longrightarrow> w \<noteq> 0 \<Longrightarrow>
     \<exists>a b. cs = escape a @ ''*'' @ escape b \<and> prefix' = prefix @ a \<and> suffix' = suffix @ b"
proof (induction "length cs" arbitrary: cs prefix rule: less_induct)
  case less
  have step: "\<exists>a b. cs = escape a @ ''*'' @ escape b \<and> prefix' = prefix @ a \<and> suffix' = suffix @ b"
    if "cs = escape [x] @ cs'" "split_loop cs' (prefix @ [x]) suffix False 0 = Inr (prefix', suffix', w)" for x cs'
  proof -
    note step = that
    have len: "length cs' < length cs"
      using step(1) by simp
    obtain a b where "cs' = escape a @ ''*'' @ escape b" "prefix' = (prefix @ [x]) @ a" "suffix' = suffix @ b"
      using less.hyps [OF len step(2) less.prems(2)] by auto
    then show ?thesis
      using that(1) by (intro exI [of _ "x # a"] exI [of _ b]) (auto split: if_splits)
  qed
  show ?case
  proof (cases cs)
    case Nil
    then show ?thesis
      using less.prems by auto
  next
    case (Cons c cs')
    show ?thesis
    proof (cases "c = CHR ''*''")
      case True
      then obtain b where "cs' = escape b" "(prefix', suffix', w) = (prefix, suffix @ b, 1)"
        using less.prems Cons split_suffix [of cs' prefix suffix] by auto
      then show ?thesis
        using Cons True by (intro exI [of _ "[]"] exI [of _ b]) auto
    next
      case False
      then show ?thesis
        using Cons less.prems step [of c cs'] step [of "hd cs'" "tl cs'"]
        by (cases cs') (auto simp: Let_def assert_defs split: if_splits)
    qed
  qed
qed

lemma split_iff: "splitTempFileNamePattern p = Inr (a, b) \<longleftrightarrow> p = escape a @ ''*'' @ escape b"
proof
  assume "splitTempFileNamePattern p = Inr (a, b)"
  then obtain w where "split_loop p [] [] False 0 = Inr (a, b, w)" "w \<noteq> 0"
    by (auto simp: splitTempFileNamePattern_def go_bind_Inr_iff assert_defs split: if_splits)
  then show "p = escape a @ ''*'' @ escape b"
    using split_prefix by fastforce
next
  have "split_loop (escape b) a [] True (Suc 0) = Inr (a, b, Suc 0)"
    using split_loop_escape [of b "[]" a "[]" True "Suc 0"] by simp
  then show "splitTempFileNamePattern p = Inr (a, b)" if "p = escape a @ ''*'' @ escape b"
    using that by (simp add: splitTempFileNamePattern_def split_loop_escape)
qed

definition pattern_panics :: "panic set" where
  "pattern_panics = (\<lambda>m. AssertionError (''precondition violation: temp file pattern %q '' @ m)) `
     {''has a trailing escape'', ''contains invalid escape sequence'', ''contains more than one wildcard'', ''does not contain a wildcard''}"

lemma split_loop_panics: "split_loop cs prefix suffix inSuffix w = Inl p \<Longrightarrow> p \<in> pattern_panics"
proof (induction cs prefix suffix inSuffix w rule: split_loop.induct)
  case (2 c cs prefix suffix inSuffix w)
  then show ?case
    by (cases inSuffix) (auto simp: Let_def assert_defs pattern_panics_def split: if_splits)
qed simp

lemma split_panics:
  assumes "\<nexists>a b. p = escape a @ ''*'' @ escape b"
  obtains x where "splitTempFileNamePattern p = Inl x" "x \<in> pattern_panics"
proof (cases "splitTempFileNamePattern p")
  case (Inl x)
  then have "x \<in> pattern_panics"
    using split_loop_panics
    by (auto simp: splitTempFileNamePattern_def go_bind_Inl_iff assert_defs pattern_panics_def split: if_splits)
  then show ?thesis
    using Inl that by blast
next
  case (Inr ab)
  then show ?thesis
    using assms split_iff by (metis surj_pair)
qed

lemma fragment_of_name:
  assumes "\<not> hasPathSeparators prefix" and "\<not> hasPathSeparators suffix"
  shows "\<not> hasPathSeparators (prefix @ fragment_of val @ suffix)"
proof -
  have "CHR ''/'' \<notin> set (nat_digits n)" for n
  proof (induction n rule: nat_digits.induct)
    case (1 n)
    have digit: "CHR ''/'' \<noteq> (char_of (48 + k) :: char)" if "k < 10" for k :: nat
    proof
      assume "CHR ''/'' = (char_of (48 + k) :: char)"
      then have "(of_char CHR ''/'' :: nat) = of_char (char_of (48 + k) :: char)"
        by simp
      then show False
        using that by simp
    qed
    show ?case
      using 1 digit [of n] digit [of "n mod 10"] by (subst nat_digits.simps) auto
  qed
  then show ?thesis
    using assms by (simp add: hasPathSeparators_def fragment_of_def padded_def Let_def)
qed

section \<open>Creating a file: the search\<close>

text \<open>
  Opening with \<open>O_CREATE | O_EXCL\<close>, as \<^verbatim>\<open>open(2)\<close> describes it: \<open>files\<close> is the set of paths at which something exists. The open fails with an error that says so exactly when
  the path exists, creates the file when it succeeds, and changes nothing otherwise.
\<close>

definition exclusive_open ::
  "('e \<Rightarrow> bool) \<Rightarrow> (RelPath \<Rightarrow> OpenOptions \<Rightarrow> 'w \<Rightarrow> ('e + 'f) \<times> 'w) \<Rightarrow> ('w \<Rightarrow> RelPath set) \<Rightarrow> bool" where
  "exclusive_open isExist openFile files \<longleftrightarrow> (\<forall>p opts w. oo_mode opts = OpenMode_CreateNew \<longrightarrow>
     (case openFile p opts w of
        (Inr f, w') \<Rightarrow> p \<notin> files w \<and> files w' = insert p (files w)
      | (Inl e, w') \<Rightarrow> files w' = files w \<and> (isExist e \<longleftrightarrow> p \<in> files w)))"

definition created_at :: "('w \<Rightarrow> RelPath set) \<Rightarrow> ('e \<Rightarrow> bool) \<Rightarrow> RelPath list \<Rightarrow> 'w \<Rightarrow> 'e CreateFileError + 'f \<Rightarrow> 'w \<Rightarrow> bool" where
  "created_at files isExist paths w res w' \<longleftrightarrow>
     (case dropWhile (\<lambda>p. p \<in> files w) paths of
        [] \<Rightarrow> res = Inl \<lparr>cf_kind = CreateFileErrorKind_OutOfNames, cf_path = \<lparr>rp_value = []\<rparr>, cf_err = None\<rparr> \<and> files w' = files w
      | p # _ \<Rightarrow>
          (\<exists>f. res = Inr f) \<and> files w' = insert p (files w)
          \<or> (\<exists>e. res = Inl \<lparr>cf_kind = CreateFileErrorKind_IOError, cf_path = p, cf_err = Some e\<rparr> \<and> \<not> isExist e) \<and> files w' = files w)"

definition finish :: "('e CreateFileError + 'f) option \<times> 'w \<Rightarrow> ('e CreateFileError + 'f) \<times> 'w" where
  "finish st = (case st of (Some r, w) \<Rightarrow> (r, w)
     | (None, w) \<Rightarrow> (Inl \<lparr>cf_kind = CreateFileErrorKind_OutOfNames, cf_path = \<lparr>rp_value = []\<rparr>, cf_err = None\<rparr>, w))"

lemma CreateFile_loop:
  assumes "exclusive_open isExist openFile files" and "oo_mode opts = OpenMode_CreateNew"
    and "map (RelPath_JoinOne dir) names = map Inr paths"
  shows "\<exists>st. FromSlice names (createFile_body isExist openFile dir opts) (None, w) = Inr st
    \<and> created_at files isExist paths w (fst (finish st)) (snd (finish st))"
  using assms(3)
proof (induction names arbitrary: paths w)
  case Nil
  then show ?case
    by (simp add: created_at_def finish_def)
next
  case (Cons name names)
  then obtain p ps where p: "paths = p # ps" "RelPath_JoinOne dir name = Inr p" "map (RelPath_JoinOne dir) names = map Inr ps"
    by (cases paths) auto
  obtain r w' where r: "openFile p opts w = (r, w')"
    by fastforce
  then have r': "case r of Inr f \<Rightarrow> p \<notin> files w \<and> files w' = insert p (files w)
      | Inl e \<Rightarrow> files w' = files w \<and> (isExist e \<longleftrightarrow> p \<in> files w)"
    using assms(1,2) unfolding exclusive_open_def by (metis (no_types, lifting) case_prod_conv)
  show ?case
  proof (cases "\<exists>e. r = Inl e \<and> isExist e")
    case True
    then have skip: "p \<in> files w" "files w' = files w"
      using r' by auto
    obtain st where st: "FromSlice names (createFile_body isExist openFile dir opts) (None, w') = Inr st"
        "created_at files isExist ps w' (fst (finish st)) (snd (finish st))"
      using Cons.IH [OF p(3)] by blast
    have "created_at files isExist paths w (fst (finish st)) (snd (finish st))"
      using st(2) skip(1) unfolding created_at_def p(1) skip(2) by simp
    moreover have "FromSlice (name # names) (createFile_body isExist openFile dir opts) (None, w) = Inr st"
      using True p(2) r st(1) by (auto simp: createFile_body_def [of _ _ _ _ name])
    ultimately show ?thesis
      by blast
  next
    case False
    then show ?thesis
      using p r r' by (auto simp: createFile_body_def created_at_def finish_def split: sum.splits)
  qed
qed

lemma RelPath_JoinOne_paths:
  assumes "rel_ok dir"
  shows "\<exists>paths. map (RelPath_JoinOne dir) names = map Inr paths"
proof (induction names)
  case (Cons name names)
  obtain v s trail where "dir = \<lparr>rp_value = v\<rparr>" "rel_form v s trail"
    using rel_okE [OF assms] .
  then obtain q where "RelPath_JoinOne dir name = Inr q"
    using Join_rel_ok [of v s trail "[Name_String name]"] by (auto simp: RelPath_JoinOne_def)
  then show ?case
    using Cons by (metis list.simps(9))
qed simp

section \<open>Properties\<close>



text \<open>
  C28. The seed of the generator is zero for every process identifier below \<open>2\<^sup>3\<^sup>2\<close> and every address, so all processes try the same names in the same order: the address is shifted
  above all bits of the identifier and the two are then combined with \<^verbatim>\<open>&\<close>.
\<close>

theorem TempFileFragments_same_everywhere:
  assumes "pid < 2 ^ 32" and "pid' < 2 ^ 32"
  shows "fragment_seed pid addr = 0
    \<and> TempFileFragments NewSource Uint32 pid addr = TempFileFragments NewSource Uint32 pid' addr'"
proof -
  have zero: "fragment_seed p a = 0" if "p < 2 ^ 32" for p a
  proof -
    have "take_bit 32 p = p"
      using that by (simp add: take_bit_eq_mod unsigned_take_bit_eq word_less_def mod_word_less)
    then have "fragment_seed p a = push_bit 32 a AND take_bit 32 p"
      by (simp add: fragment_seed_def)
    also have "\<dots> = 0"
      by (rule bit_eqI) (auto simp: bit_simps)
    finally show ?thesis .
  qed
  then show ?thesis
    using assms by (simp add: TempFileFragments_def)
qed

theorem TempFileFragments_same_everywhere_witness:
  "fragment_seed 4711 0xC000012340 = 0 \<and> TempFileFragments id (\<lambda>n. (ucast n, n + 1)) 4711 0xC000012340 = TempFileFragments id (\<lambda>n. (ucast n, n + 1)) 1 0xC000056780"
  by (rule TempFileFragments_same_everywhere) simp_all

text \<open>
  C21. \<open>CreateFile\<close> never panics for options that allow writing and never touches what exists: it creates the file at the first candidate path at which nothing exists, or reports the error of that
  attempt, and reports that it is out of names exactly when all candidates exist. Options that do not allow writing panic before any file is opened.
\<close>

theorem CreateFile_correct:
  assumes "exclusive_open isExist openFile files" and "rel_ok dir" and "oo_rw opts \<in> {OpenRW_WriteOnly, OpenRW_ReadWrite}"
  shows "(\<exists>paths res w'. map (RelPath_JoinOne dir) names = map Inr paths
      \<and> CreateFile isExist openFile dir (FromSlice names) opts w = Inr (res, w') \<and> created_at files isExist paths w res w')
    \<and> CreateFile isExist openFile dir (FromSlice names) (opts\<lparr>oo_rw := OpenRW_ReadOnly\<rparr>) w =
        Inl (AssertionError ''precondition violation: CreateFile.opts failed to build with OpenMode_CreateNew: %v (input: %+v)'')"
proof
  obtain paths where paths: "map (RelPath_JoinOne dir) names = map Inr paths"
    using RelPath_JoinOne_paths [OF assms(2)] by blast
  obtain st where st: "FromSlice names (createFile_body isExist openFile dir (opts\<lparr>oo_mode := OpenMode_CreateNew\<rparr>)) (None, w) = Inr st"
      "created_at files isExist paths w (fst (finish st)) (snd (finish st))"
    using CreateFile_loop [OF assms(1) _ paths] by force
  have "CreateFile isExist openFile dir (FromSlice names) opts w = Inr (finish st)"
    using assms(3) st(1) by (auto simp: CreateFile_def WithMode_def Build_def finish_def split: prod.splits option.splits)
  then show "\<exists>paths res w'. map (RelPath_JoinOne dir) names = map Inr paths
      \<and> CreateFile isExist openFile dir (FromSlice names) opts w = Inr (res, w') \<and> created_at files isExist paths w res w'"
    using paths st(2) by (metis prod.collapse)
  show "CreateFile isExist openFile dir (FromSlice names) (opts\<lparr>oo_rw := OpenRW_ReadOnly\<rparr>) w =
      Inl (AssertionError ''precondition violation: CreateFile.opts failed to build with OpenMode_CreateNew: %v (input: %+v)'')"
    by (simp add: CreateFile_def WithMode_def Build_def OpenMode_String_def assert_defs)
qed

definition example_open :: "RelPath \<Rightarrow> OpenOptions \<Rightarrow> RelPath list \<Rightarrow> (unit + RelPath) \<times> RelPath list" where
  "example_open p opts w = (if p \<in> set w then (Inl (), w) else (Inr p, p # w))"

theorem CreateFile_correct_witness:
  "\<exists>paths res w'. map (RelPath_JoinOne \<lparr>rp_value = ''a''\<rparr>) [\<lparr>nm_value = ''x''\<rparr>, \<lparr>nm_value = ''y''\<rparr>] = map Inr paths
    \<and> CreateFile (\<lambda>_. True) example_open \<lparr>rp_value = ''a''\<rparr> (FromSlice [\<lparr>nm_value = ''x''\<rparr>, \<lparr>nm_value = ''y''\<rparr>])
        \<lparr>oo_rw = OpenRW_WriteOnly, oo_mode = OpenMode_Existing, oo_append = False, oo_truncate = False\<rparr> [\<lparr>rp_value = ''a/x''\<rparr>] = Inr (res, w')
    \<and> created_at set (\<lambda>_. True) paths [\<lparr>rp_value = ''a/x''\<rparr>] res w'"
proof -
  have "exclusive_open (\<lambda>_. True) example_open set"
    by (simp add: exclusive_open_def example_open_def)
  from CreateFile_correct [OF this rel_ok_examples(2),
      of "\<lparr>oo_rw = OpenRW_WriteOnly, oo_mode = OpenMode_Existing, oo_append = False, oo_truncate = False\<rparr>"
        "[\<lparr>nm_value = ''x''\<rparr>, \<lparr>nm_value = ''y''\<rparr>]" "[\<lparr>rp_value = ''a/x''\<rparr>]", THEN conjunct1]
  show ?thesis
    by (simp only: OpenOptions.select_convs insertI1)
qed

end
