(* ===== verification/Math_Bits.thy ===== *)
theory Math_Bits
  imports Prelude
begin

unbundle bit_operations_syntax

text \<open>
  The two bit-scanning routines of \<^verbatim>\<open>math/bits\<close> (the tree's own \<^verbatim>\<open>go/src/math/bits\<close>) that
  \<open>BitVec\<close> relies on: \<open>Len64\<close> by a binary search over shifts and an eight-bit table, and
  \<open>TrailingZeros64\<close> by a de Bruijn multiplication. Both are proved equal to the position of
  the highest and of the lowest set bit.
\<close>

section \<open>Definitions\<close>

text \<open>The table \<open>len8tab\<close>: entry \<open>x\<close> is the number of bits needed for the byte \<open>x\<close>.\<close>

definition len8tab :: "nat list" where
  "len8tab = [0, 1] @ replicate 2 2 @ replicate 4 3 @ replicate 8 4 @ replicate 16 5
     @ replicate 32 6 @ replicate 64 7 @ replicate 128 8"

definition deBruijn64 :: "64 word" where
  "deBruijn64 = 0x03f79d71b4ca8b09"

definition deBruijn64tab :: "nat list" where
  "deBruijn64tab = [
     0, 1, 56, 2, 57, 49, 28, 3, 61, 58, 42, 50, 38, 29, 17, 4,
     62, 47, 59, 36, 45, 43, 51, 22, 53, 39, 33, 30, 24, 18, 12, 5,
     63, 55, 48, 27, 60, 41, 37, 16, 46, 35, 44, 21, 52, 32, 23, 11,
     54, 26, 40, 15, 34, 20, 31, 10, 25, 14, 19, 9, 13, 8, 7, 6]"

text \<open>One of the three \<open>if x >= 1<<k { x >>= k; n += k }\<close> blocks of \<open>Len64\<close>.\<close>

definition len64_block :: "nat \<Rightarrow> 64 word \<times> nat \<Rightarrow> 64 word \<times> nat" where
  "len64_block k xn =
     (case xn of (x, n) \<Rightarrow> if x \<ge> 2 ^ k then (drop_bit k x, n + k) else (x, n))"

definition Len64 :: "64 word \<Rightarrow> nat" where
  "Len64 x0 =
     (let (x, n) = len64_block 8 (len64_block 16 (len64_block 32 (x0, 0)))
      in n + len8tab ! unat (ucast x :: 8 word))"

definition LeadingZeros64 :: "64 word \<Rightarrow> nat" where
  "LeadingZeros64 x = 64 - Len64 x"

definition TrailingZeros64 :: "64 word \<Rightarrow> nat" where
  "TrailingZeros64 x =
     (if x = 0 then 64
      else deBruijn64tab ! unat (drop_bit (64 - 6) ((x AND - x) * deBruijn64)))"

section \<open>The highest set bit\<close>

text \<open>\<open>n\<close> bits are exactly enough for \<open>v\<close>.\<close>

definition bit_length :: "nat \<Rightarrow> nat \<Rightarrow> bool" where
  "bit_length v n \<longleftrightarrow> v < 2 ^ n \<and> (n = 0 \<or> 2 ^ (n - 1) \<le> v)"

lemma bit_length_shift:
  assumes "bit_length (v div 2 ^ k) n" and "2 ^ k \<le> v"
  shows "bit_length v (n + k)"
proof -
  from assms(2) have "0 < v div 2 ^ k"
    by (simp add: div_greater_zero_iff)
  with assms(1) obtain m where n: "n = Suc m"
    by (cases n) (auto simp: bit_length_def)
  with assms(1) have "v div 2 ^ k < 2 ^ Suc m" "2 ^ m \<le> v div 2 ^ k"
    by (auto simp: bit_length_def)
  then have "v < 2 ^ Suc m * 2 ^ k" "2 ^ m * 2 ^ k \<le> v"
    by (simp_all add: div_less_iff_less_mult less_eq_div_iff_mult_less_eq)
  with n show ?thesis
    by (simp add: bit_length_def power_add)
qed

lemma len8tab_bit_length:
  assumes "v < 256"
  shows "bit_length v (len8tab ! v)"
proof -
  consider "v = 0" | "v = 1" | "2 \<le> v \<and> v < 4" | "4 \<le> v \<and> v < 8" | "8 \<le> v \<and> v < 16"
    | "16 \<le> v \<and> v < 32" | "32 \<le> v \<and> v < 64" | "64 \<le> v \<and> v < 128" | "128 \<le> v"
    by linarith
  then show ?thesis
    using assms by cases (simp_all add: bit_length_def len8tab_def nth_append less_diff_conv2)
qed

text \<open>A block keeps the shifted-out length in \<open>n\<close> and halves the width of what remains.\<close>

lemma len64_block_inv:
  assumes blk: "len64_block k (x, n) = (x', n')" and k: "k < 64" and x: "unat x < 2 ^ (k + k)"
  shows "unat x' < 2 ^ k"
    and "bit_length (unat x') m \<Longrightarrow> \<exists>d. n' = n + d \<and> bit_length (unat x) (m + d)"
proof -
  have "unat (drop_bit k x) = unat x div 2 ^ k"
    by (subst unat_drop_bit_eq) (simp add: drop_bit_eq_div)
  moreover have "2 ^ k \<le> x \<longleftrightarrow> 2 ^ k \<le> unat x"
    using k by (simp add: word_le_nat_alt unat_power_two)
  ultimately have eq: "unat (drop_bit k x) = unat x div 2 ^ k" "2 ^ k \<le> x \<longleftrightarrow> 2 ^ k \<le> unat x"
    by simp_all
  show "unat x' < 2 ^ k"
    using blk x by (auto simp: len64_block_def eq div_less_iff_less_mult power_add split: if_splits)
  show "\<exists>d. n' = n + d \<and> bit_length (unat x) (m + d)" if "bit_length (unat x') m"
    using blk that by (auto simp: len64_block_def eq bit_length_shift split: if_splits)
qed

lemma Len64_bit_length: "bit_length (unat x) (Len64 x)"
proof -
  obtain x1 n1 where 1: "len64_block 32 (x, 0) = (x1, n1)" by fastforce
  obtain x2 n2 where 2: "len64_block 16 (x1, n1) = (x2, n2)" by fastforce
  obtain x3 n3 where 3: "len64_block 8 (x2, n2) = (x3, n3)" by fastforce
  have w1: "unat x1 < 2 ^ 32"
    using len64_block_inv(1) [OF 1] unsigned_less [of x] by simp
  have w2: "unat x2 < 2 ^ 16"
    using len64_block_inv(1) [OF 2] w1 by simp
  have w3: "unat x3 < 2 ^ 8"
    using len64_block_inv(1) [OF 3] w2 by simp
  then have "bit_length (unat x3) (len8tab ! unat x3)"
    by (simp add: len8tab_bit_length)
  then obtain d3 where d3: "n3 = n2 + d3" "bit_length (unat x2) (len8tab ! unat x3 + d3)"
    using len64_block_inv(2) [OF 3] w2 by fastforce
  then obtain d2 where d2: "n2 = n1 + d2" "bit_length (unat x1) (len8tab ! unat x3 + d3 + d2)"
    using len64_block_inv(2) [OF 2] w1 by fastforce
  then obtain d1 where d1: "n1 = d1" "bit_length (unat x) (len8tab ! unat x3 + d3 + d2 + d1)"
    using len64_block_inv(2) [OF 1] unsigned_less [of x] by fastforce
  moreover have "Len64 x = n3 + len8tab ! unat x3"
    using w3 by (simp add: Len64_def 1 2 3 unsigned_ucast_eq take_bit_nat_eq_self)
  ultimately show ?thesis
    using d3(1) d2(1) by (simp add: ac_simps)
qed

text \<open>For a non-zero word, \<open>63 - LeadingZeros64 x\<close> is the highest set bit.\<close>

lemma bit_length_word:
  assumes "bit_length (unat x) (Suc n)"
  shows "bit (x :: 'a::len word) n" and "n < i \<Longrightarrow> \<not> bit x i"
proof -
  from assms have b: "2 ^ n \<le> unat x" "unat x < 2 ^ Suc n"
    by (simp_all add: bit_length_def)
  then have "unat x div 2 ^ n = 1"
    by (intro div_nat_eqI) simp_all
  then have "bit (unat x) n"
    by (simp add: bit_iff_odd)
  then show "bit x n"
    by (simp add: bit_unsigned_iff)
  show "\<not> bit x i" if "n < i"
  proof -
    have "unat x < 2 ^ i"
      using b(2) that by (meson Suc_leI less_le_trans one_le_numeral power_increasing)
    then have "\<not> bit (unat x) i"
      by (simp add: bit_iff_odd)
    then show ?thesis
      by (auto simp: bit_unsigned_iff dest: bit_imp_le_length)
  qed
qed

section \<open>The lowest set bit\<close>

lemma odd_and_minus:
  fixes y :: "'a::len word"
  assumes "odd y"
  shows "y AND - y = 1"
proof (rule bit_word_eqI)
  fix n
  assume n: "n < LENGTH('a)"
  have "even (y - 1)"
    using assms by simp
  then have "bit y n \<longleftrightarrow> bit (y - 1) n \<or> n = 0"
    using even_bit_succ_iff [of "y - 1" n] by simp
  moreover have "bit (y - 1) 0 = False"
    using \<open>even (y - 1)\<close> by (simp add: bit_0)
  ultimately show "bit (y AND - y) n = bit 1 n"
    using n by (auto simp: bit_and_iff minus_eq_not_minus_1 bit_not_iff bit_1_iff)
qed

lemma lowest_bit_split:
  fixes x :: "'a::len word"
  assumes "bit x k" and low: "\<And>i. i < k \<Longrightarrow> \<not> bit x i"
  shows "x AND - x = 2 ^ k"
proof -
  let ?y = "drop_bit k x"
  have k: "k < LENGTH('a)"
    using assms(1) by (rule bit_imp_le_length)
  have "k \<le> n" if "bit x n" for n
    using low that not_less by blast
  then have "x = push_bit k ?y"
    by (intro bit_word_eqI) (auto simp: bit_simps)
  then have x: "x = ?y * 2 ^ k"
    by (simp add: push_bit_eq_mult)
  have "odd ?y"
    using assms(1) by (simp add: bit_iff_odd drop_bit_eq_div)
  then have "push_bit k (?y AND - ?y) = push_bit k 1"
    by (simp add: odd_and_minus)
  moreover have "push_bit k ?y AND push_bit k (- ?y) = x AND - x"
    using x by (metis mult_minus_left push_bit_eq_mult)
  ultimately show ?thesis
    by (simp add: push_bit_of_1)
qed

lemma deBruijn64_lookup:
  assumes "k < 64"
  shows "deBruijn64tab ! unat (drop_bit 58 (2 ^ k * deBruijn64)) = k"
proof -
  have "list_all (\<lambda>k. deBruijn64tab ! (2 ^ k * 0x03f79d71b4ca8b09 mod 2 ^ 64 div 2 ^ 58) = k) [0..<64]"
    by (simp add: deBruijn64tab_def upt_conv_Cons)
  then have "deBruijn64tab ! (2 ^ k * 0x03f79d71b4ca8b09 mod 2 ^ 64 div 2 ^ 58) = k"
    using assms by (simp add: list_all_iff)
  moreover have "unat (2 ^ k * deBruijn64) = 2 ^ k * 0x03f79d71b4ca8b09 mod 2 ^ 64"
    using assms by (simp add: unat_word_ariths unat_power_two deBruijn64_def)
  ultimately show ?thesis
    by (subst unat_drop_bit_eq) (simp add: drop_bit_eq_div)
qed

lemma TrailingZeros64_eq:
  assumes "bit x k" and "\<And>i. i < k \<Longrightarrow> \<not> bit x i"
  shows "TrailingZeros64 x = k"
proof -
  have "x \<noteq> 0"
    using assms(1) by auto
  moreover have "k < 64"
    using bit_imp_le_length [OF assms(1)] by simp
  ultimately show ?thesis
    using lowest_bit_split [OF assms] by (simp add: TrailingZeros64_def deBruijn64_lookup)
qed

lemma LeadingZeros64_highest:
  assumes "x \<noteq> 0"
  shows "LeadingZeros64 x \<le> 63" "bit x (63 - LeadingZeros64 x)"
    "bit x i \<Longrightarrow> i \<le> 63 - LeadingZeros64 x"
proof -
  have bl: "bit_length (unat x) (Len64 x)"
    by (rule Len64_bit_length)
  have "0 < unat x"
    using assms by (simp add: unat_gt_0)
  with bl obtain n where n: "Len64 x = Suc n"
    by (cases "Len64 x") (auto simp: bit_length_def)
  with bl have hi: "bit x n" "\<And>i. n < i \<Longrightarrow> \<not> bit x i"
    by (auto dest: bit_length_word)
  have "n < 64"
    using bit_imp_le_length [OF hi(1)] by simp
  then show "LeadingZeros64 x \<le> 63" "bit x (63 - LeadingZeros64 x)"
    "bit x i \<Longrightarrow> i \<le> 63 - LeadingZeros64 x"
    using hi not_less by (auto simp: LeadingZeros64_def n)
qed

lemma TrailingZeros64_lowest:
  assumes "x \<noteq> 0"
  shows "bit x (TrailingZeros64 x)" "bit x i \<Longrightarrow> TrailingZeros64 x \<le> i"
proof -
  define k where "k = (LEAST i. bit x i)"
  obtain j where "bit x j"
    using assms by (auto simp: bit_eq_iff)
  then have k: "bit x k" "\<And>i. i < k \<Longrightarrow> \<not> bit x i"
    by (auto simp: k_def intro: LeastI dest: not_less_Least)
  then have "TrailingZeros64 x = k"
    by (rule TrailingZeros64_eq)
  with k show "bit x (TrailingZeros64 x)" "bit x i \<Longrightarrow> TrailingZeros64 x \<le> i"
    using not_less by auto
qed

text \<open>
  For every non-zero word, \<open>63 - LeadingZeros64\<close> is its highest and \<open>TrailingZeros64\<close>
  its lowest set bit.
\<close>

lemma bit_scans_exact:
  assumes "x \<noteq> 0"
  shows "bit x (63 - LeadingZeros64 x) \<and> (\<forall>i. bit x i \<longrightarrow> i \<le> 63 - LeadingZeros64 x)
       \<and> bit x (TrailingZeros64 x) \<and> (\<forall>i. bit x i \<longrightarrow> TrailingZeros64 x \<le> i)"
  using LeadingZeros64_highest [OF assms] TrailingZeros64_lowest [OF assms] by blast

end
