(* ===== verification/Bit_Vec.thy ===== *)
theory Bit_Vec
  imports Assert Math_Bits
begin

unbundle bit_operations_syntax

text \<open>
  \<^verbatim>\<open>base/collections/bit_vec.go\<close>: the fixed-length bit vector over 64-bit blocks. Go's \<open>int\<close>
  arguments are integers; \<open>>>\<close> and \<open>&\<close> on them are \<open>drop_bit\<close> and \<open>AND\<close>. The two searches
  are the source's loops over block indices. The vector is abstracted to a list of booleans.
\<close>

section \<open>Definitions\<close>

record BitVec =
  bv_blocks :: "64 word list"
  bv_len :: int

definition blocksForBits :: "int \<Rightarrow> int" where
  "blocksForBits n = (let blocks = drop_bit 6 n in if n AND 63 \<noteq> 0 then blocks + 1 else blocks)"

definition blockIndex :: "int \<Rightarrow> int" where
  "blockIndex i = drop_bit 6 i"

definition bitMask :: "int \<Rightarrow> 64 word" where
  "bitMask i = push_bit (nat (i AND 63)) 1"

definition lowBitsMask :: "8 word \<Rightarrow> 64 word" where
  "lowBitsMask n = push_bit (unat n) 1 - 1"

definition BitVec_checkIndex :: "BitVec \<Rightarrow> int \<Rightarrow> unit outcome" where
  "BitVec_checkIndex b i =
     (if i < 0 \<or> bv_len b \<le> i
      then Preconditionf False ''bit index %d out of range [0, %d)'' else Inr ())"

definition NewBitVec :: "int \<Rightarrow> BitVec outcome" where
  "NewBitVec n =
     go_bind (if n < 0 then Preconditionf False ''BitVec length must be >= 0, but got: %d'' else Inr ())
       (\<lambda>_. Inr \<lparr>bv_blocks = replicate (nat (blocksForBits n)) 0, bv_len = n\<rparr>)"

definition BitVec_Len :: "BitVec \<Rightarrow> int" where
  "BitVec_Len b = bv_len b"

definition BitVec_Get :: "BitVec \<Rightarrow> int \<Rightarrow> bool outcome" where
  "BitVec_Get b i =
     go_bind (BitVec_checkIndex b i) (\<lambda>_.
     go_bind (slice_get (bv_blocks b) (blockIndex i)) (\<lambda>w. Inr (w AND bitMask i \<noteq> 0)))"

definition BitVec_Set :: "BitVec \<Rightarrow> int \<Rightarrow> BitVec outcome" where
  "BitVec_Set b i =
     go_bind (BitVec_checkIndex b i) (\<lambda>_.
     go_bind (slice_get (bv_blocks b) (blockIndex i)) (\<lambda>w.
     go_bind (slice_set (bv_blocks b) (blockIndex i) (w OR bitMask i)) (\<lambda>bs.
     Inr (b\<lparr>bv_blocks := bs\<rparr>))))"

definition BitVec_Clear :: "BitVec \<Rightarrow> int \<Rightarrow> BitVec outcome" where
  "BitVec_Clear b i =
     go_bind (BitVec_checkIndex b i) (\<lambda>_.
     go_bind (slice_get (bv_blocks b) (blockIndex i)) (\<lambda>w.
     go_bind (slice_set (bv_blocks b) (blockIndex i) (w AND NOT (bitMask i))) (\<lambda>bs.
     Inr (b\<lparr>bv_blocks := bs\<rparr>))))"

text \<open>The loop \<open>for oi := startBlock; 0 <= oi; oi--\<close>.\<close>

function findBefore_loop :: "BitVec \<Rightarrow> int \<Rightarrow> int \<Rightarrow> int \<Rightarrow> int option outcome" where
  "findBefore_loop b i startBlock oi =
     (if 0 \<le> oi
      then go_bind (slice_get (bv_blocks b) oi) (\<lambda>w.
             let blockBits = (if oi = startBlock
                              then w AND lowBitsMask (word_of_int (i AND 63) + 1) else w)
             in if blockBits \<noteq> 0
                then Inr (Some (oi * 64 + 63 - int (LeadingZeros64 blockBits)))
                else findBefore_loop b i startBlock (oi - 1))
      else Inr None)"
  by pat_completeness auto
termination
  by (relation "measure (\<lambda>(b, i, s, oi). nat (oi + 1))") auto

definition BitVec_FindAtOrBefore :: "BitVec \<Rightarrow> int \<Rightarrow> int option outcome" where
  "BitVec_FindAtOrBefore b i =
     go_bind (BitVec_checkIndex b i) (\<lambda>_. findBefore_loop b i (blockIndex i) (blockIndex i))"

text \<open>The loop \<open>for oi := startBlock; oi < len(b.blocks); oi++\<close>.\<close>

function findAfter_loop :: "BitVec \<Rightarrow> int \<Rightarrow> int \<Rightarrow> int \<Rightarrow> int option outcome" where
  "findAfter_loop b i startBlock oi =
     (if oi < int (length (bv_blocks b))
      then go_bind (slice_get (bv_blocks b) oi) (\<lambda>w.
             let blockBits = (if oi = startBlock
                              then w AND NOT (lowBitsMask (word_of_int (i AND 63))) else w)
             in if blockBits \<noteq> 0
                then let idx = oi * 64 + int (TrailingZeros64 blockBits)
                     in go_bind (if bv_len b \<le> idx
                                 then Invariantf False ''unused bit %d is set in BitVec of length %d''
                                 else Inr ()) (\<lambda>_. Inr (Some idx))
                else findAfter_loop b i startBlock (oi + 1))
      else Inr None)"
  by pat_completeness auto
termination
  by (relation "measure (\<lambda>(b, i, s, oi). nat (int (length (bv_blocks b)) - oi))") auto

definition BitVec_FindAtOrAfter :: "BitVec \<Rightarrow> int \<Rightarrow> int option outcome" where
  "BitVec_FindAtOrAfter b i =
     go_bind (BitVec_checkIndex b i) (\<lambda>_. findAfter_loop b i (blockIndex i) (blockIndex i))"

declare findBefore_loop.simps [simp del] findAfter_loop.simps [simp del]

section \<open>Abstraction and invariant\<close>

text \<open>The bit stored for index \<open>k\<close>, and the vector as a list of booleans.\<close>

definition bv_bit :: "BitVec \<Rightarrow> nat \<Rightarrow> bool" where
  "bv_bit b k = bit (bv_blocks b ! (k div 64)) (k mod 64)"

definition bv_abs :: "BitVec \<Rightarrow> bool list" where
  "bv_abs b = map (bv_bit b) [0..<nat (bv_len b)]"

text \<open>The blocks are just enough for the length, and no bit beyond the length is set.\<close>

definition bv_inv :: "BitVec \<Rightarrow> bool" where
  "bv_inv b \<longleftrightarrow> 0 \<le> bv_len b \<and> int (length (bv_blocks b)) = blocksForBits (bv_len b)
     \<and> (\<forall>k < 64 * length (bv_blocks b). bv_bit b k \<longrightarrow> k < nat (bv_len b))"

lemma and_63 [simp]: "int k AND 63 = int (k mod 64)"
proof -
  have "int k AND mask 6 = int k mod 2 ^ 6"
    by (simp flip: take_bit_eq_mask add: take_bit_eq_mod)
  then show ?thesis
    by (simp add: mask_eq_exp_minus_1 zmod_int)
qed

lemma blockIndex_int [simp]: "blockIndex (int k) = int (k div 64)"
  by (simp add: blockIndex_def drop_bit_eq_div zdiv_int)

lemma blocksForBits_int: "blocksForBits (int n) = int ((n + 63) div 64)"
proof -
  define q r where "q = n div 64" and "r = n mod 64"
  then have n: "n = 64 * q + r" and "r < 64"
    by simp_all
  then have "(n + 63) div 64 = q + (r + 63) div 64"
    by simp
  also have "(r + 63) div 64 = (if r = 0 then 0 else 1)"
    using \<open>r < 64\<close> by (simp add: div_nat_eqI)
  finally show ?thesis
    by (simp add: blocksForBits_def drop_bit_eq_div zdiv_int Let_def q_def r_def)
qed

lemma bitMask_int [simp]: "bitMask (int k) = push_bit (k mod 64) 1"
  by (simp add: bitMask_def)

lemma bit_bitMask: "bit (bitMask (int k)) t \<longleftrightarrow> t = k mod 64"
  by (auto simp: bit_exp_iff)

lemma bit_lowBitsMask: "unat n \<le> 64 \<Longrightarrow> bit (lowBitsMask n) t \<longleftrightarrow> t < unat n"
  by (auto simp: lowBitsMask_def push_bit_eq_mult bit_mask_iff simp flip: mask_eq_exp_minus_1)

lemma unat_low6 [simp]:
  "unat (word_of_nat (k mod 64) :: 8 word) = k mod 64"
  "unat (word_of_nat (k mod 64) + 1 :: 8 word) = k mod 64 + 1"
proof -
  have k: "k mod 64 < 64" by simp
  then have "k mod 64 < 256" by linarith
  then show 1: "unat (word_of_nat (k mod 64) :: 8 word) = k mod 64"
    by (simp add: unat_of_nat)
  show "unat (word_of_nat (k mod 64) + 1 :: 8 word) = k mod 64 + 1"
    using k by (subst unat_word_ariths) (simp add: 1 del: unat_of_nat)
qed

lemma bv_inv_blocks:
  assumes "bv_inv b" and "k < nat (bv_len b)"
  shows "k div 64 < length (bv_blocks b)"
proof -
  have "int (length (bv_blocks b)) = int ((nat (bv_len b) + 63) div 64)"
    using assms(1) by (simp add: bv_inv_def flip: blocksForBits_int)
  then have "length (bv_blocks b) = (nat (bv_len b) + 63) div 64"
    by linarith
  moreover have "k div 64 < (nat (bv_len b) + 63) div 64"
    using assms(2) by linarith
  ultimately show ?thesis
    by simp
qed

lemma bv_abs_nth [simp]: "k < nat (bv_len b) \<Longrightarrow> bv_abs b ! k = bv_bit b k"
  by (simp add: bv_abs_def)

lemma length_bv_abs [simp]: "length (bv_abs b) = nat (bv_len b)"
  by (simp add: bv_abs_def)

lemma BitVec_checkIndex_ok [simp]:
  "k < nat (bv_len b) \<Longrightarrow> BitVec_checkIndex b (int k) = Inr ()"
  by (auto simp: BitVec_checkIndex_def)

lemma BitVec_checkIndex_panics:
  "i < 0 \<or> bv_len b \<le> i \<Longrightarrow> BitVec_checkIndex b i =
     Inl (AssertionError ''precondition violation: bit index %d out of range [0, %d)'')"
  by (simp add: BitVec_checkIndex_def assert_defs)

section \<open>Construction, reads and writes\<close>

lemma NewBitVec_spec:
  "\<exists>b. NewBitVec (int n) = Inr b \<and> bv_inv b \<and> bv_abs b = replicate n False"
proof -
  let ?b = "\<lparr>bv_blocks = replicate ((n + 63) div 64) 0, bv_len = int n\<rparr>"
  have "\<not> bv_bit ?b k" if "k < 64 * ((n + 63) div 64)" for k
    using that by (simp add: bv_bit_def div_less_iff_less_mult mult.commute)
  moreover have "n \<le> 64 * ((n + 63) div 64)"
    by linarith
  ultimately have "bv_inv ?b" "bv_abs ?b = replicate n False"
    by (auto simp: bv_inv_def blocksForBits_int intro!: nth_equalityI)
  then show ?thesis
    by (simp add: NewBitVec_def blocksForBits_int)
qed

lemma word_and_bitMask: "w AND bitMask (int k) \<noteq> 0 \<longleftrightarrow> bit w (k mod 64)"
  by (subst bit_eq_zero_iff) (auto simp: bit_and_iff bit_bitMask simp del: bitMask_int)

lemma BitVec_Get_spec:
  assumes "bv_inv b" and "k < nat (bv_len b)"
  shows "BitVec_Get b (int k) = Inr (bv_abs b ! k)"
  using assms bv_inv_blocks [OF assms]
  by (simp add: BitVec_Get_def word_and_bitMask bv_bit_def del: bitMask_int)

text \<open>Writing one block changes exactly the bits the new block changes.\<close>

lemma bv_bit_update:
  assumes "q < length (bv_blocks b)"
  shows "bv_bit (b\<lparr>bv_blocks := (bv_blocks b)[q := w]\<rparr>) k =
     (if k div 64 = q then bit w (k mod 64) else bv_bit b k)"
  using assms by (auto simp: bv_bit_def nth_list_update)

lemma bv_update_spec:
  assumes inv: "bv_inv b" and k: "k < nat (bv_len b)"
    and w: "\<And>t. t < 64 \<Longrightarrow> bit w t = (if t = k mod 64 then v else bit (bv_blocks b ! (k div 64)) t)"
  shows "bv_inv (b\<lparr>bv_blocks := (bv_blocks b)[k div 64 := w]\<rparr>)" (is "bv_inv ?b")
    and "bv_abs (b\<lparr>bv_blocks := (bv_blocks b)[k div 64 := w]\<rparr>) = (bv_abs b)[k := v]"
proof -
  have upd: "bv_bit ?b j = (if j = k then v else bv_bit b j)" for j
  proof -
    have "j = k \<longleftrightarrow> j div 64 = k div 64 \<and> j mod 64 = k mod 64"
      by (metis div_mult_mod_eq)
    then show ?thesis
      using bv_inv_blocks [OF inv k] by (simp add: bv_bit_update w) (auto simp: bv_bit_def)
  qed
  with inv k show "bv_inv ?b"
    by (auto simp: bv_inv_def)
  show "bv_abs ?b = (bv_abs b)[k := v]"
    using k by (auto intro!: nth_equalityI simp: upd nth_list_update)
qed

lemma BitVec_Set_spec:
  assumes "bv_inv b" and "k < nat (bv_len b)"
  shows "\<exists>b'. BitVec_Set b (int k) = Inr b' \<and> bv_inv b' \<and> bv_abs b' = (bv_abs b)[k := True]"
proof -
  let ?w = "bv_blocks b ! (k div 64) OR bitMask (int k)"
  have "bit ?w t = (if t = k mod 64 then True else bit (bv_blocks b ! (k div 64)) t)" for t
    by (simp add: bit_or_iff bit_bitMask del: bitMask_int)
  from bv_update_spec [OF assms this] show ?thesis
    using assms bv_inv_blocks [OF assms] by (simp add: BitVec_Set_def del: bitMask_int)
qed

lemma BitVec_Clear_spec:
  assumes "bv_inv b" and "k < nat (bv_len b)"
  shows "\<exists>b'. BitVec_Clear b (int k) = Inr b' \<and> bv_inv b' \<and> bv_abs b' = (bv_abs b)[k := False]"
proof -
  let ?w = "bv_blocks b ! (k div 64) AND NOT (bitMask (int k))"
  have "bit ?w t = (if t = k mod 64 then False else bit (bv_blocks b ! (k div 64)) t)" if "t < 64" for t
    using that by (simp add: bit_and_iff bit_not_iff bit_bitMask del: bitMask_int)
  from bv_update_spec [OF assms this] show ?thesis
    using assms bv_inv_blocks [OF assms] by (simp add: BitVec_Clear_def del: bitMask_int)
qed

section \<open>The searches\<close>

text \<open>The block the loop looks at: only the bits on the searched side of \<open>i\<close> remain.\<close>

lemma bit_before_block:
  assumes "q \<le> i div 64" and "t < 64"
  shows "bit (if int q = int (i div 64)
              then bv_blocks b ! q AND lowBitsMask (word_of_int (int i AND 63) + 1)
              else bv_blocks b ! q) t
     \<longleftrightarrow> bv_bit b (64 * q + t) \<and> 64 * q + t \<le> i"
proof (cases "q = i div 64")
  case True
  then have "64 * q + t \<le> i \<longleftrightarrow> t \<le> i mod 64"
    by (metis add_le_cancel_left mult_div_mod_eq)
  with True assms(2) show ?thesis
    by (simp add: bit_and_iff bit_lowBitsMask bv_bit_def less_Suc_eq_le)
next
  case False
  then have "64 * q + t \<le> i"
    using assms by linarith
  with False assms(2) show ?thesis
    by (simp add: bv_bit_def)
qed

lemma bit_after_block:
  assumes "i div 64 \<le> q" and "t < 64"
  shows "bit (if int q = int (i div 64)
              then bv_blocks b ! q AND NOT (lowBitsMask (word_of_int (int i AND 63)))
              else bv_blocks b ! q) t
     \<longleftrightarrow> bv_bit b (64 * q + t) \<and> i \<le> 64 * q + t"
proof (cases "q = i div 64")
  case True
  then have "i \<le> 64 * q + t \<longleftrightarrow> i mod 64 \<le> t"
    by (metis add_le_cancel_left mult_div_mod_eq)
  with True assms(2) show ?thesis
    by (simp add: bit_and_iff bit_not_iff bit_lowBitsMask bv_bit_def not_less)
next
  case False
  then have "i \<le> 64 * q + t"
    using assms by linarith
  with False assms(2) show ?thesis
    by (simp add: bv_bit_def)
qed

definition is_last_before :: "BitVec \<Rightarrow> nat \<Rightarrow> int option \<Rightarrow> bool" where
  "is_last_before b i r = (case r of
       None \<Rightarrow> \<forall>k \<le> i. \<not> bv_bit b k
     | Some j \<Rightarrow> \<exists>k. j = int k \<and> k \<le> i \<and> bv_bit b k \<and> (\<forall>l. k < l \<and> l \<le> i \<longrightarrow> \<not> bv_bit b l))"

definition is_first_after :: "BitVec \<Rightarrow> nat \<Rightarrow> int option \<Rightarrow> bool" where
  "is_first_after b i r = (case r of
       None \<Rightarrow> \<forall>k. i \<le> k \<and> k < nat (bv_len b) \<longrightarrow> \<not> bv_bit b k
     | Some j \<Rightarrow> \<exists>k. j = int k \<and> i \<le> k \<and> k < nat (bv_len b) \<and> bv_bit b k
                 \<and> (\<forall>l. i \<le> l \<and> l < k \<longrightarrow> \<not> bv_bit b l))"

lemma findBefore_loop_spec:
  assumes inv: "bv_inv b" and i: "i < nat (bv_len b)"
    and "n \<le> Suc (i div 64)" and "\<And>k. 64 * n \<le> k \<Longrightarrow> k \<le> i \<Longrightarrow> \<not> bv_bit b k"
  shows "\<exists>r. findBefore_loop b (int i) (int (i div 64)) (int n - 1) = Inr r \<and> is_last_before b i r"
  using assms(3,4)
proof (induction n)
  case 0
  then show ?case
    by (simp add: findBefore_loop.simps [of _ _ _ "-1"] is_last_before_def)
next
  case (Suc q)
  define w where "w = (if int q = int (i div 64)
      then bv_blocks b ! q AND lowBitsMask (word_of_int (int i AND 63) + 1) else bv_blocks b ! q)"
  have q: "q \<le> i div 64" "q < length (bv_blocks b)"
    using Suc.prems(1) bv_inv_blocks [OF inv i] by simp_all
  have bits: "bit w t \<longleftrightarrow> bv_bit b (64 * q + t) \<and> 64 * q + t \<le> i" if "t < 64" for t
    unfolding w_def using q(1) that by (rule bit_before_block)
  have loop: "findBefore_loop b (int i) (int (i div 64)) (int q) =
      (if w \<noteq> 0 then Inr (Some (int q * 64 + 63 - int (LeadingZeros64 w)))
       else findBefore_loop b (int i) (int (i div 64)) (int q - 1))"
    using q(2) by (simp only: findBefore_loop.simps [of b "int i" "int (i div 64)" "int q"])
      (simp add: w_def Let_def)
  have above: "\<not> bv_bit b k" if "64 * Suc q \<le> k" "k \<le> i" for k
    using Suc.prems(2) that by blast
  show ?case
  proof (cases "w = 0")
    case True
    have "\<not> bv_bit b k" if "64 * q \<le> k" "k \<le> i" for k
    proof (cases "k < 64 * Suc q")
      case True
      then show ?thesis
        using bits [of "k - 64 * q"] \<open>w = 0\<close> that by auto
    next
      case False
      then show ?thesis
        using above that(2) by simp
    qed
    then show ?thesis
      using Suc.IH q(1) loop True by simp
  next
    case False
    define h where "h = 63 - LeadingZeros64 w"
    have h: "bit w h" "\<And>t. bit w t \<Longrightarrow> t \<le> h" and idx: "int q * 64 + 63 - int (LeadingZeros64 w) = int (64 * q + h)"
      using LeadingZeros64_highest [OF False] by (auto simp: h_def)
    have "h < 64"
      by (simp add: h_def)
    have "\<not> bv_bit b l" if "64 * q + h < l" "l \<le> i" for l
    proof (cases "l < 64 * Suc q")
      case True
      then show ?thesis
        using bits [of "l - 64 * q"] h(2) [of "l - 64 * q"] that by auto
    next
      case False
      then show ?thesis
        using above that(2) by simp
    qed
    with bits [OF \<open>h < 64\<close>] h(1) show ?thesis
      using loop False idx by (auto simp: is_last_before_def intro!: exI [of _ "64 * q + h"])
  qed
qed

text \<open>The bits from \<open>i\<close> on in one block, when there is none in the blocks before.\<close>

lemma first_in_block:
  assumes bits: "\<And>t. t < 64 \<Longrightarrow> bit w t \<longleftrightarrow> bv_bit b (64 * q + t) \<and> i \<le> 64 * q + t"
    and below: "\<And>k. i \<le> k \<Longrightarrow> k < 64 * q \<Longrightarrow> \<not> bv_bit b k"
  shows "w = 0 \<Longrightarrow> i \<le> k \<Longrightarrow> k < 64 * Suc q \<Longrightarrow> \<not> bv_bit b k"
    and "w \<noteq> 0 \<Longrightarrow> bv_bit b (64 * q + TrailingZeros64 w) \<and> i \<le> 64 * q + TrailingZeros64 w \<and> TrailingZeros64 w < 64
      \<and> (\<forall>l. i \<le> l \<and> l < 64 * q + TrailingZeros64 w \<longrightarrow> \<not> bv_bit b l)"
proof -
  have at: "bit w (k - 64 * q) \<longleftrightarrow> bv_bit b k" if "i \<le> k" "64 * q \<le> k" "k < 64 * Suc q" for k
    using bits [of "k - 64 * q"] that by auto
  show "\<not> bv_bit b k" if "w = 0" "i \<le> k" "k < 64 * Suc q"
    using at [of k] below [of k] that by (cases "k < 64 * q") auto
  assume "w \<noteq> 0"
  then have h: "bit w (TrailingZeros64 w)" "\<And>t. bit w t \<Longrightarrow> TrailingZeros64 w \<le> t"
    using TrailingZeros64_lowest by auto
  have h64: "TrailingZeros64 w < 64"
    using bit_imp_le_length [OF h(1)] by simp
  have "\<not> bv_bit b l" if "i \<le> l" "l < 64 * q + TrailingZeros64 w" for l
    using at [of l] below [of l] h(2) [of "l - 64 * q"] h64 that by (cases "l < 64 * q") auto
  then show "bv_bit b (64 * q + TrailingZeros64 w) \<and> i \<le> 64 * q + TrailingZeros64 w \<and> TrailingZeros64 w < 64
      \<and> (\<forall>l. i \<le> l \<and> l < 64 * q + TrailingZeros64 w \<longrightarrow> \<not> bv_bit b l)"
    using bits [OF h64] h(1) h64 by blast
qed

lemma findAfter_loop_spec:
  assumes inv: "bv_inv b"
    and "i div 64 \<le> q" and "q \<le> length (bv_blocks b)"
    and "\<And>k. i \<le> k \<Longrightarrow> k < 64 * q \<Longrightarrow> \<not> bv_bit b k"
  shows "\<exists>r. findAfter_loop b (int i) (int (i div 64)) (int q) = Inr r \<and> is_first_after b i r"
  using assms(2-4)
proof (induction "length (bv_blocks b) - q" arbitrary: q)
  case 0
  then have q: "q = length (bv_blocks b)"
    by simp
  have "k < 64 * q" if "k < nat (bv_len b)" for k
    using bv_inv_blocks [OF inv that] q by (simp add: div_less_iff_less_mult mult.commute)
  with 0 q show ?case
    by (subst findAfter_loop.simps) (auto simp: is_first_after_def)
next
  case (Suc d)
  define w where "w = (if int q = int (i div 64)
      then bv_blocks b ! q AND NOT (lowBitsMask (word_of_int (int i AND 63))) else bv_blocks b ! q)"
  have q: "q < length (bv_blocks b)"
    using Suc.hyps(2) by simp
  have bits: "bit w t \<longleftrightarrow> bv_bit b (64 * q + t) \<and> i \<le> 64 * q + t" if "t < 64" for t
    unfolding w_def using Suc.prems(1) that by (rule bit_after_block)
  note block = first_in_block [OF bits Suc.prems(3), simplified]
  have loop: "findAfter_loop b (int i) (int (i div 64)) (int q) =
      (if w \<noteq> 0 then let idx = int q * 64 + int (TrailingZeros64 w) in
         go_bind (if bv_len b \<le> idx
                  then Invariantf False ''unused bit %d is set in BitVec of length %d'' else Inr ())
           (\<lambda>_. Inr (Some idx))
       else findAfter_loop b (int i) (int (i div 64)) (int q + 1))"
    using q by (simp only: findAfter_loop.simps [of b "int i" "int (i div 64)" "int q"])
      (simp add: w_def Let_def)
  show ?case
  proof (cases "w = 0")
    case True
    have "\<exists>r. findAfter_loop b (int i) (int (i div 64)) (int (Suc q)) = Inr r \<and> is_first_after b i r"
      using Suc.hyps(2) Suc.prems(1) q block(1) [OF True] by (intro Suc.hyps(1)) auto
    then show ?thesis
      using loop True by (simp add: add.commute)
  next
    case False
    define h where "h = TrailingZeros64 w"
    have hit: "bv_bit b (64 * q + h)" "i \<le> 64 * q + h" "h < 64" "\<And>l. i \<le> l \<Longrightarrow> l < 64 * q + h \<Longrightarrow> \<not> bv_bit b l"
      using block(2) [OF False] by (auto simp: h_def)
    moreover have "64 * q + h < 64 * length (bv_blocks b)"
      using \<open>h < 64\<close> q by linarith
    ultimately have "64 * q + h < nat (bv_len b)"
      using inv by (simp add: bv_inv_def)
    with hit show ?thesis
      using loop False
      by (auto simp: is_first_after_def Let_def h_def [symmetric] intro!: exI [of _ "64 * q + h"])
  qed
qed

lemma BitVec_FindAtOrBefore_spec:
  assumes "bv_inv b" and "i < nat (bv_len b)"
  shows "\<exists>r. BitVec_FindAtOrBefore b (int i) = Inr r \<and> is_last_before b i r"
proof -
  have "i < 64 * Suc (i div 64)"
    using dividend_less_times_div [of 64 i] by simp
  then have "\<not> bv_bit b k" if "64 * Suc (i div 64) \<le> k" "k \<le> i" for k
    using that by linarith
  with findBefore_loop_spec [OF assms, of "Suc (i div 64)"] show ?thesis
    using assms by (simp add: BitVec_FindAtOrBefore_def)
qed

lemma BitVec_FindAtOrAfter_spec:
  assumes "bv_inv b" and "i < nat (bv_len b)"
  shows "\<exists>r. BitVec_FindAtOrAfter b (int i) = Inr r \<and> is_first_after b i r"
proof -
  have "\<not> bv_bit b k" if "i \<le> k" "k < 64 * (i div 64)" for k
    using that by linarith
  from findAfter_loop_spec [OF assms(1) _ _ this] show ?thesis
    using assms bv_inv_blocks [OF assms] by (simp add: BitVec_FindAtOrAfter_def)
qed

lemma FindAtOrBefore_greatest:
  assumes inv: "bv_inv b" and i: "i < length (bv_abs b)"
  shows "BitVec_FindAtOrBefore b (int i) =
           Inr (if \<exists>k \<le> i. bv_abs b ! k then Some (int (GREATEST k. k \<le> i \<and> bv_abs b ! k)) else None)"
proof -
  have i': "i < nat (bv_len b)"
    using i by simp
  obtain r where r: "BitVec_FindAtOrBefore b (int i) = Inr r" "is_last_before b i r"
    using BitVec_FindAtOrBefore_spec [OF inv i'] by blast
  have bits: "bv_abs b ! k \<longleftrightarrow> bv_bit b k" if "k \<le> i" for k
    using that i' by simp
  have "r = (if \<exists>k \<le> i. bv_abs b ! k then Some (int (GREATEST k. k \<le> i \<and> bv_abs b ! k)) else None)"
  proof (cases r)
    case None
    with r(2) show ?thesis
      by (auto simp: is_last_before_def bits)
  next
    case (Some j)
    with r(2) obtain k where "j = int k" "k \<le> i" "bv_bit b k" "\<forall>l. k < l \<and> l \<le> i \<longrightarrow> \<not> bv_bit b l"
      by (auto simp: is_last_before_def)
    moreover from this have "(GREATEST k. k \<le> i \<and> bv_abs b ! k) = k"
      by (intro Greatest_equality) (use bits not_less in blast)+
    ultimately show ?thesis
      using Some bits by auto
  qed
  with r(1) show "BitVec_FindAtOrBefore b (int i) =
      Inr (if \<exists>k \<le> i. bv_abs b ! k then Some (int (GREATEST k. k \<le> i \<and> bv_abs b ! k)) else None)"
    by simp
qed

lemma FindAtOrAfter_least:
  assumes inv: "bv_inv b" and i: "i < length (bv_abs b)"
  shows "BitVec_FindAtOrAfter b (int i) =
           Inr (if \<exists>k. i \<le> k \<and> k < length (bv_abs b) \<and> bv_abs b ! k
                then Some (int (LEAST k. i \<le> k \<and> k < length (bv_abs b) \<and> bv_abs b ! k)) else None)"
proof -
  have i': "i < nat (bv_len b)"
    using i by simp
  obtain r where r: "BitVec_FindAtOrAfter b (int i) = Inr r" "is_first_after b i r"
    using BitVec_FindAtOrAfter_spec [OF inv i'] by blast
  let ?P = "\<lambda>k. i \<le> k \<and> k < length (bv_abs b) \<and> bv_abs b ! k"
  have P: "?P k \<longleftrightarrow> i \<le> k \<and> k < nat (bv_len b) \<and> bv_bit b k" for k
    by auto
  have "r = (if \<exists>k. ?P k then Some (int (LEAST k. ?P k)) else None)"
  proof (cases r)
    case None
    with r(2) show ?thesis
      unfolding P by (auto simp: is_first_after_def)
  next
    case (Some j)
    with r(2) obtain k where k: "j = int k" "i \<le> k" "k < nat (bv_len b)" "bv_bit b k"
        "\<forall>l. i \<le> l \<and> l < k \<longrightarrow> \<not> bv_bit b l"
      by (auto simp: is_first_after_def)
    then have "?P k"
      by simp
    moreover from k have "(LEAST k. ?P k) = k"
      unfolding P by (intro Least_equality) (use not_less in blast)+
    ultimately show ?thesis
      using Some k(1) by auto
  qed
  with r(1) show "BitVec_FindAtOrAfter b (int i) =
      Inr (if \<exists>k. ?P k then Some (int (LEAST k. ?P k)) else None)"
    by simp
qed

section \<open>The interface the clients use\<close>

text \<open>
  A vector of booleans with checked updates: what a client of \<open>BitVec\<close> may assume of it. The
  client lemma proved here says what a vector holds after a sequence of \<open>Set\<close> calls.
\<close>

locale bool_vector =
  fixes new :: "int \<Rightarrow> 'v outcome" and get :: "'v \<Rightarrow> int \<Rightarrow> bool outcome"
    and set :: "'v \<Rightarrow> int \<Rightarrow> 'v outcome" and abs :: "'v \<Rightarrow> bool list" and inv :: "'v \<Rightarrow> bool"
  assumes new: "\<exists>v. new (int n) = Inr v \<and> inv v \<and> abs v = replicate n False"
    and get: "inv v \<Longrightarrow> k < length (abs v) \<Longrightarrow> get v (int k) = Inr (abs v ! k)"
    and set: "inv v \<Longrightarrow> k < length (abs v) \<Longrightarrow>
                \<exists>v'. set v (int k) = Inr v' \<and> inv v' \<and> abs v' = (abs v)[k := True]"
begin

fun set_each :: "'v \<Rightarrow> nat list \<Rightarrow> 'v outcome" where
  "set_each v [] = Inr v"
| "set_each v (k # ks) = go_bind (set v (int k)) (\<lambda>v'. set_each v' ks)"

lemma set_each_spec:
  assumes "inv v" and "\<forall>k \<in> List.set ks. k < length (abs v)"
  shows "\<exists>v'. set_each v ks = Inr v' \<and> inv v' \<and> length (abs v') = length (abs v)
           \<and> (\<forall>j < length (abs v). abs v' ! j \<longleftrightarrow> abs v ! j \<or> j \<in> List.set ks)"
  using assms
proof (induction ks arbitrary: v)
  case Nil
  then show ?case by auto
next
  case (Cons k ks)
  then obtain v1 where v1: "set v (int k) = Inr v1" "inv v1" "abs v1 = (abs v)[k := True]"
    using set by (metis list.set_intros(1))
  then obtain v' where "set_each v1 ks = Inr v'" "inv v'" "length (abs v') = length (abs v1)"
      "\<forall>j < length (abs v1). abs v' ! j \<longleftrightarrow> abs v1 ! j \<or> j \<in> List.set ks"
    using Cons.IH [of v1] Cons.prems by auto
  with v1 Cons.prems show ?case
    by (auto simp: nth_list_update)
qed

end

interpretation bv: bool_vector NewBitVec BitVec_Get BitVec_Set bv_abs bv_inv
  by unfold_locales (simp_all add: NewBitVec_spec BitVec_Get_spec BitVec_Set_spec)

section \<open>Properties\<close>

text \<open>
  C30. Under the invariant, every index in range is read, set and cleared as in a list of
  booleans, and every index out of range makes all five operations panic with the documented
  pre-condition violation.
\<close>

theorem BitVec_refines_bool_list:
  assumes inv: "bv_inv b"
  shows "(0 \<le> i \<and> i < BitVec_Len b \<longrightarrow>
            BitVec_Get b i = Inr (bv_abs b ! nat i)
          \<and> (\<exists>b'. BitVec_Set b i = Inr b' \<and> bv_inv b' \<and> bv_abs b' = (bv_abs b)[nat i := True])
          \<and> (\<exists>b'. BitVec_Clear b i = Inr b' \<and> bv_inv b' \<and> bv_abs b' = (bv_abs b)[nat i := False]))
       \<and> (\<not> (0 \<le> i \<and> i < BitVec_Len b) \<longrightarrow>
            (let p = AssertionError ''precondition violation: bit index %d out of range [0, %d)'' in
             BitVec_Get b i = Inl p \<and> BitVec_Set b i = Inl p \<and> BitVec_Clear b i = Inl p
             \<and> BitVec_FindAtOrBefore b i = Inl p \<and> BitVec_FindAtOrAfter b i = Inl p))"
proof (cases "0 \<le> i \<and> i < BitVec_Len b")
  case True
  then obtain k where "i = int k" "k < nat (bv_len b)"
    using that [of "nat i"] by (simp add: BitVec_Len_def)
  with True show ?thesis
    using BitVec_Get_spec [OF inv] BitVec_Set_spec [OF inv] BitVec_Clear_spec [OF inv] by simp
next
  case False
  then have "BitVec_checkIndex b i =
      Inl (AssertionError ''precondition violation: bit index %d out of range [0, %d)'')"
    by (intro BitVec_checkIndex_panics) (auto simp: BitVec_Len_def)
  with False show ?thesis
    by (auto simp: BitVec_Get_def BitVec_Set_def BitVec_Clear_def BitVec_FindAtOrBefore_def
        BitVec_FindAtOrAfter_def Let_def)
qed

theorem BitVec_refines_bool_list_witness:
  "\<exists>b. NewBitVec 70 = Inr b \<and> bv_inv b
     \<and> (\<exists>b'. BitVec_Set b 65 = Inr b' \<and> bv_inv b' \<and> bv_abs b' = (replicate 70 False)[65 := True])"
proof -
  obtain b where b: "NewBitVec 70 = Inr b" "bv_inv b" "bv_abs b = replicate 70 False"
    using NewBitVec_spec [of 70] by auto
  then have "BitVec_Len b = 70"
    by (auto simp: NewBitVec_def BitVec_Len_def)
  with b show ?thesis
    using BitVec_refines_bool_list [OF b(2), of 65] by auto
qed

text \<open>
  C11. The two searches return the greatest set index at or before, and the least set index at
  or after, a given index, or nothing when there is none; they never reach the assertion about
  unused bits.
\<close>

theorem BitVec_find_correct:
  assumes inv: "bv_inv b" and i: "i < length (bv_abs b)"
  shows "BitVec_FindAtOrBefore b (int i) =
           Inr (if \<exists>k \<le> i. bv_abs b ! k then Some (int (GREATEST k. k \<le> i \<and> bv_abs b ! k)) else None)
       \<and> BitVec_FindAtOrAfter b (int i) =
           Inr (if \<exists>k. i \<le> k \<and> k < length (bv_abs b) \<and> bv_abs b ! k
                then Some (int (LEAST k. i \<le> k \<and> k < length (bv_abs b) \<and> bv_abs b ! k)) else None)"
  using FindAtOrBefore_greatest [OF assms] FindAtOrAfter_least [OF assms] by blast

theorem BitVec_find_correct_witness:
  "\<exists>b b'. NewBitVec 70 = Inr b \<and> BitVec_Set b 65 = Inr b' \<and> bv_inv b'
     \<and> BitVec_FindAtOrBefore b' 69 = Inr (Some 65) \<and> BitVec_FindAtOrAfter b' 69 = Inr None"
proof -
  obtain b where b: "NewBitVec 70 = Inr b" "bv_inv b" "bv_abs b = replicate 70 False"
    using NewBitVec_spec [of 70] by auto
  moreover obtain b' where b': "BitVec_Set b 65 = Inr b'" "bv_inv b'"
      "bv_abs b' = (replicate 70 False)[65 := True]"
    using bv.set [OF b(2), of 65] b(3) by auto
  moreover have "bv_abs b' ! k \<longleftrightarrow> k = 65" if "k < 70" for k
    using b'(3) that by (simp add: nth_list_update)
  moreover have "(GREATEST k. k \<le> 69 \<and> bv_abs b' ! k) = 65"
    by (rule Greatest_equality) (use calculation in auto)
  ultimately show ?thesis
    using BitVec_find_correct [OF b'(2), of 69] by (auto simp: nth_list_update split: if_splits)
qed

end
