(* ===== verification/Segmented_Text.thy ===== *)
theory Segmented_Text
  imports Bit_Vec Utf8
begin

text \<open>
  \<^verbatim>\<open>base/internal/uniseg\<close>: a text with its grapheme cluster boundaries, kept in a \<open>BitVec\<close>. The third-party
  segmentation (\<^verbatim>\<open>rivo/uniseg\<close>) is the parameter \<open>positions\<close>: the pairs \<open>Positions()\<close> returns after each
  successful \<open>Next()\<close> for a string, in order. What the code relies on, that the clusters are consecutive, not
  empty and made of whole code points, is the hypothesis \<open>segmentation\<close>.
\<close>

section \<open>Definitions\<close>

datatype Bound = Bound_Start | Bound_End

definition Bound_String :: "Bound \<Rightarrow> string" where
  "Bound_String b = (case b of Bound_Start \<Rightarrow> ''start'' | Bound_End \<Rightarrow> ''end'')"

text \<open>
  A cluster is a view of the iterator's current position, valid while the loop body that received it runs.
\<close>

record GraphemeCluster =
  gc_string :: bytes
  gc_positions :: "int \<times> int"

definition GraphemeCluster_Str :: "GraphemeCluster \<Rightarrow> bytes outcome" where
  "GraphemeCluster_Str c = slice_sub (gc_string c) (fst (gc_positions c)) (snd (gc_positions c))"

definition GraphemeCluster_Span :: "GraphemeCluster \<Rightarrow> Span outcome" where
  "GraphemeCluster_Span c = NewSpan (fst (gc_positions c)) (snd (gc_positions c))"

definition GraphemeClusters :: "(bytes \<Rightarrow> (int \<times> int) list) \<Rightarrow> Text \<Rightarrow> GraphemeCluster list" where
  "GraphemeClusters positions text =
     map (\<lambda>p. \<lparr>gc_string = txt_text text, gc_positions = p\<rparr>) (positions (txt_text text))"

record SegmentedText =
  st_text :: Text
  st_boundaries :: BitVec

fun setEnds :: "GraphemeCluster list \<Rightarrow> BitVec \<Rightarrow> BitVec outcome" where
  "setEnds [] boundaries = Inr boundaries"
| "setEnds (cluster # rest) boundaries =
     go_bind (GraphemeCluster_Span cluster) (\<lambda>sp.
     go_bind (BitVec_Set boundaries (Span_End sp)) (setEnds rest))"

definition NewSegmentedText :: "(bytes \<Rightarrow> (int \<times> int) list) \<Rightarrow> Text \<Rightarrow> SegmentedText outcome" where
  "NewSegmentedText positions text =
     go_bind (NewBitVec (int (Text_Len text) + 1)) (\<lambda>b.
     go_bind (BitVec_Set b 0) (\<lambda>b.
     go_bind (setEnds (GraphemeClusters positions text) b) (\<lambda>b.
     Inr \<lparr>st_text = text, st_boundaries = b\<rparr>)))"

datatype SpanBoundaryErrorKind =
  SpanBoundaryErrorKind_NotUTF8Boundary | SpanBoundaryErrorKind_NotGraphemeBoundary

record SpanBoundaryError =
  sbe_kind :: SpanBoundaryErrorKind
  sbe_bound :: Bound
  sbe_span :: Span

definition SpanBoundaryError_ByteOffset :: "SpanBoundaryError \<Rightarrow> int" where
  "SpanBoundaryError_ByteOffset e =
     (case sbe_bound e of Bound_Start \<Rightarrow> Span_Start (sbe_span e) | Bound_End \<Rightarrow> Span_End (sbe_span e))"

text \<open>The condition \<open>offset != len && !IsPotentialStartOfRune(text.GetByte(offset))\<close>.\<close>

definition insideCodePoint :: "SegmentedText \<Rightarrow> int \<Rightarrow> bool outcome" where
  "insideCodePoint t offset =
     (if offset = int (Text_Len (st_text t)) then Inr False
      else go_bind (Text_GetByte (st_text t) offset) (\<lambda>b. Inr (\<not> IsPotentialStartOfRune b)))"

definition CheckSpan :: "SegmentedText \<Rightarrow> Span \<Rightarrow> SpanBoundaryError option outcome" where
  "CheckSpan t span =
     (let start = Span_Start span; stop = Span_End span;
          err = (\<lambda>k b. Inr (Some \<lparr>sbe_kind = k, sbe_bound = b, sbe_span = span\<rparr>))
      in go_bind (insideCodePoint t start) (\<lambda>bad.
         if bad then err SpanBoundaryErrorKind_NotUTF8Boundary Bound_Start
         else go_bind (insideCodePoint t stop) (\<lambda>bad.
         if bad then err SpanBoundaryErrorKind_NotUTF8Boundary Bound_End
         else go_bind (BitVec_Get (st_boundaries t) start) (\<lambda>ok.
         if \<not> ok then err SpanBoundaryErrorKind_NotGraphemeBoundary Bound_Start
         else go_bind (BitVec_Get (st_boundaries t) stop) (\<lambda>ok.
         if \<not> ok then err SpanBoundaryErrorKind_NotGraphemeBoundary Bound_End
         else Inr None)))))"

record GraphemeClusterWindow =
  gcw_span :: Span
  gcw_isFullCluster :: bool

definition nextCodePointEnd :: "SegmentedText \<Rightarrow> int \<Rightarrow> int outcome" where
  "nextCodePointEnd t i =
     go_bind (slice_sub (txt_text (st_text t)) i (int (Text_Len (st_text t)))) (\<lambda>s.
     let decoded = TryDecodeFirstRune s
     in go_bind (Invariant (RuneDecodingResult_Kind decoded = RuneDecodingResultKind_Valid)
          ''segmented text should contain valid UTF-8'') (\<lambda>_.
        Inr (i + int (RuneDecodingResult_ByteLen decoded))))"

function previousStart_loop :: "SegmentedText \<Rightarrow> int \<Rightarrow> int outcome" where
  "previousStart_loop t start =
     (if 0 < start
      then go_bind (Text_GetByte (st_text t) start) (\<lambda>b.
           if \<not> IsPotentialStartOfRune b then previousStart_loop t (start - 1) else Inr start)
      else Inr start)"
  by pat_completeness auto
termination by (relation "measure (\<lambda>(_, start). nat start)") auto

declare previousStart_loop.simps [simp del]

definition previousCodePointStart :: "SegmentedText \<Rightarrow> int \<Rightarrow> int outcome" where
  "previousCodePointStart t before = previousStart_loop t (before - 1)"

text \<open>The two optimistic loops, which count code points up to \<open>maxCodePoints\<close>.\<close>

function left_loop :: "SegmentedText \<Rightarrow> int \<Rightarrow> int \<Rightarrow> int \<Rightarrow> (int \<times> int) outcome" where
  "left_loop t maxCodePoints codePoints start =
     (if codePoints < maxCodePoints
      then go_bind (BitVec_Get (st_boundaries t) start) (\<lambda>b.
           if \<not> b then go_bind (previousCodePointStart t start) (\<lambda>start.
                       left_loop t maxCodePoints (codePoints + 1) start)
           else Inr (codePoints, start))
      else Inr (codePoints, start))"
  by pat_completeness auto
termination by (relation "measure (\<lambda>(_, maxCodePoints, codePoints, _). nat (maxCodePoints - codePoints))") auto

function right_loop :: "SegmentedText \<Rightarrow> int \<Rightarrow> int \<Rightarrow> int \<Rightarrow> (int \<times> int) outcome" where
  "right_loop t maxCodePoints codePoints stop =
     (if codePoints < maxCodePoints
      then go_bind (BitVec_Get (st_boundaries t) stop) (\<lambda>b.
           if \<not> b then go_bind (nextCodePointEnd t stop) (\<lambda>stop.
                       right_loop t maxCodePoints (codePoints + 1) stop)
           else Inr (codePoints, stop))
      else Inr (codePoints, stop))"
  by pat_completeness auto
termination by (relation "measure (\<lambda>(_, maxCodePoints, codePoints, _). nat (maxCodePoints - codePoints))") auto

definition bothBoundaries :: "SegmentedText \<Rightarrow> int \<Rightarrow> int \<Rightarrow> bool outcome" where
  "bothBoundaries t start stop =
     go_bind (BitVec_Get (st_boundaries t) start) (\<lambda>b.
     if b then BitVec_Get (st_boundaries t) stop else Inr False)"

text \<open>The fallback loop \<open>for i := 0; i < rightBudget; i++\<close>.\<close>

function balanced_loop :: "SegmentedText \<Rightarrow> int \<Rightarrow> int \<Rightarrow> int \<Rightarrow> int \<Rightarrow> int \<Rightarrow> (int \<times> int) outcome" where
  "balanced_loop t leftBudget rightBudget i start stop =
     (if i < rightBudget
      then go_bind (if i < leftBudget
                    then go_bind (BitVec_Get (st_boundaries t) start) (\<lambda>b.
                         if \<not> b then previousCodePointStart t start else Inr start)
                    else Inr start) (\<lambda>start.
           go_bind (go_bind (BitVec_Get (st_boundaries t) stop) (\<lambda>b.
                    if \<not> b then nextCodePointEnd t stop else Inr stop)) (\<lambda>stop.
           go_bind (bothBoundaries t start stop) (\<lambda>full.
           if full then Inr (start, stop)
           else balanced_loop t leftBudget rightBudget (i + 1) start stop)))
      else Inr (start, stop))"
  by pat_completeness auto
termination by (relation "measure (\<lambda>(_, _, rightBudget, i, _, _). nat (rightBudget - i))") auto

declare left_loop.simps [simp del] right_loop.simps [simp del] balanced_loop.simps [simp del]

text \<open>\<open>maxCodePoints / 2\<close> truncates; \<open>maxCodePoints\<close> is positive there.\<close>

definition FindGraphemeClusterContaining ::
    "SegmentedText \<Rightarrow> int \<Rightarrow> int \<Rightarrow> GraphemeClusterWindow option outcome" where
  "FindGraphemeClusterContaining t offset maxCodePoints =
     go_bind (if offset < 0 \<or> int (Text_Len (st_text t)) < offset
              then Preconditionf False ''offset %d outside text bounds [0, %d]'' else Inr ()) (\<lambda>_.
     go_bind (if maxCodePoints < 1 then Preconditionf False ''maxCodePoints %d below 1'' else Inr ()) (\<lambda>_.
     go_bind (insideCodePoint t offset) (\<lambda>bad.
     go_bind (if bad then Preconditionf False ''offset %d is not a UTF-8 boundary'' else Inr ()) (\<lambda>_.
     go_bind (if offset = 0 \<or> offset = int (Text_Len (st_text t)) then Inr True
              else BitVec_Get (st_boundaries t) offset) (\<lambda>none.
     if none then Inr None
     else
       go_bind (left_loop t maxCodePoints 0 offset) (\<lambda>(codePoints, start).
       go_bind (right_loop t maxCodePoints codePoints offset) (\<lambda>(codePoints, stop).
       go_bind (bothBoundaries t start stop) (\<lambda>full.
       if full
       then go_bind (NewSpan start stop) (\<lambda>sp. Inr (Some \<lparr>gcw_span = sp, gcw_isFullCluster = True\<rparr>))
       else let leftBudget = maxCodePoints div 2; rightBudget = maxCodePoints - leftBudget
            in go_bind (balanced_loop t leftBudget rightBudget 0 offset offset) (\<lambda>(start, stop).
               go_bind (NewSpan start stop) (\<lambda>sp.
               go_bind (bothBoundaries t start stop) (\<lambda>full.
               Inr (Some \<lparr>gcw_span = sp, gcw_isFullCluster = full\<rparr>))))))))))))"

section \<open>Characters and clusters\<close>

text \<open>The positions of consecutive pieces, and what the code relies on of the segmentation.\<close>

fun piece_positions :: "nat \<Rightarrow> bytes list \<Rightarrow> (int \<times> int) list" where
  "piece_positions n [] = []"
| "piece_positions n (g # gs) = (int n, int (n + length g)) # piece_positions (n + length g) gs"

definition segmentation :: "(bytes \<Rightarrow> (int \<times> int) list) \<Rightarrow> bytes \<Rightarrow> bytes list \<Rightarrow> bool" where
  "segmentation positions s gs \<longleftrightarrow>
     concat gs = s \<and> (\<forall>g \<in> set gs. g \<noteq> [] \<and> utf8_text g) \<and> positions s = piece_positions 0 gs"

text \<open>The offset at which the \<open>k\<close>-th piece starts.\<close>

definition off :: "bytes list \<Rightarrow> nat \<Rightarrow> nat" where
  "off cs k = length (concat (take k cs))"

lemma off_0 [simp]: "off cs 0 = 0"
  by (simp add: off_def)

lemma off_end [simp]: "length cs \<le> k \<Longrightarrow> off cs k = length (concat cs)"
  by (simp add: off_def)

lemma off_Suc: "k < length cs \<Longrightarrow> off cs (Suc k) = off cs k + length (cs ! k)"
  by (simp add: off_def take_Suc_conv_app_nth)

lemma off_mono: "i \<le> j \<Longrightarrow> off cs i \<le> off cs j"
proof -
  assume "i \<le> j"
  then have "take j cs = take i cs @ take (j - i) (drop i cs)"
    by (metis le_add_diff_inverse take_add)
  then show ?thesis
    by (simp add: off_def)
qed

lemma off_le: "off cs k \<le> length (concat cs)"
  using off_mono [of k "max k (length cs)" cs] by simp

lemma off_strict:
  assumes "\<forall>c \<in> set cs. c \<noteq> []" and "i < j" and "j \<le> length cs"
  shows "off cs i < off cs j"
proof -
  have "off cs i < off cs (Suc i)"
    using assms by (simp add: off_Suc)
  also have "\<dots> \<le> off cs j"
    using assms(2) by (intro off_mono) simp
  finally show ?thesis .
qed

lemma off_inj:
  assumes "\<forall>c \<in> set cs. c \<noteq> []" and "i \<le> length cs" and "j \<le> length cs"
  shows "off cs i = off cs j \<longleftrightarrow> i = j"
  using off_strict [OF assms(1)] assms(2,3) by (metis less_irrefl linorder_neqE_nat)

lemma concat_split:
  assumes "k < length cs"
  shows "concat cs = concat (take k cs) @ cs ! k @ concat (drop (Suc k) cs)"
  using assms by (metis append_take_drop_id concat.simps(2) concat_append Cons_nth_drop_Suc)

text \<open>A valid text is a sequence of characters.\<close>

lemma chars_text: "\<forall>c \<in> set cs. utf8_char c \<Longrightarrow> utf8_text (concat cs)"
  by (induction cs) (auto intro: utf8_text.intros)

lemma utf8_text_chars: "utf8_text s \<longleftrightarrow> (\<exists>cs. concat cs = s \<and> (\<forall>c \<in> set cs. utf8_char c))"
proof
  show "utf8_text s \<Longrightarrow> \<exists>cs. concat cs = s \<and> (\<forall>c \<in> set cs. utf8_char c)"
  proof (induction rule: utf8_text.induct)
    case Nil
    then show ?case
      by (intro exI [of _ "[]"]) simp
  next
    case (Char c s)
    then obtain cs where "concat cs = s" "\<forall>c \<in> set cs. utf8_char c"
      by blast
    then show ?case
      using Char by (intro exI [of _ "c # cs"]) simp
  qed
qed (auto intro: chars_text)

lemma utf8_text_append: "utf8_text a \<Longrightarrow> utf8_text (a @ b) \<longleftrightarrow> utf8_text b"
  by (induction arbitrary: rule: utf8_text.induct) (simp_all add: utf8_text_cons)

section \<open>Stepping over characters\<close>

text \<open>
  The relation the proofs use: the text is the concatenation of the characters \<open>cs\<close>, and there is a bit for
  every offset. \<open>gb t cs k\<close> tells whether a cluster starts with the \<open>k\<close>-th character.
\<close>

definition seg_rel :: "SegmentedText \<Rightarrow> bytes list \<Rightarrow> bool" where
  "seg_rel t cs \<longleftrightarrow> concat cs = txt_text (st_text t) \<and> (\<forall>c \<in> set cs. utf8_char c)
     \<and> bv_inv (st_boundaries t) \<and> length (bv_abs (st_boundaries t)) = length (txt_text (st_text t)) + 1"

definition gb :: "SegmentedText \<Rightarrow> bytes list \<Rightarrow> nat \<Rightarrow> bool" where
  "gb t cs k = bv_abs (st_boundaries t) ! off cs k"

lemma chars_ne: "\<forall>c \<in> set cs. utf8_char c \<Longrightarrow> \<forall>c \<in> set cs. c \<noteq> []"
  using utf8_char_ne by blast

lemma get_off:
  assumes "seg_rel t cs"
  shows "BitVec_Get (st_boundaries t) (int (off cs k)) = Inr (gb t cs k)"
  using assms off_le [of cs k] bv.get [of "st_boundaries t" "off cs k"] by (simp add: seg_rel_def gb_def)

lemma next_off:
  assumes "seg_rel t cs" and "k < length cs"
  shows "nextCodePointEnd t (int (off cs k)) = Inr (int (off cs (Suc k)))"
proof -
  let ?s = "txt_text (st_text t)" and ?c = "cs ! k"
  have s: "?s = concat (take k cs) @ ?c @ concat (drop (Suc k) cs)" and c: "utf8_char ?c"
    using assms concat_split [OF assms(2)] by (simp_all add: seg_rel_def)
  have d: "drop (off cs k) ?s = ?c @ concat (drop (Suc k) cs)"
    by (subst s) (simp add: off_def)
  obtain r where r: "DecodeRuneInString (?c @ concat (drop (Suc k) cs)) = (r, length ?c)"
      "\<not> (r = RuneError \<and> length ?c = 1)"
    using decode_valid [OF c] by blast
  have l: "0 < length ?c" "length ?c \<le> 4"
    using utf8_char_tails(3) [OF c] utf8_char_ne [OF c] by simp_all
  have dec: "RuneDecodingResult_Kind (TryDecodeFirstRune (drop (off cs k) ?s)) = RuneDecodingResultKind_Valid"
    "RuneDecodingResult_ByteLen (TryDecodeFirstRune (drop (off cs k) ?s)) = length ?c"
    using r l unfolding d TryDecodeFirstRune_def RuneDecodingResult_Kind_def RuneDecodingResult_ByteLen_def
    by (auto simp: unat_of_nat word_unat_eq_iff)
  have "off cs k \<le> length ?s"
    using off_le [of cs k] assms(1) by (simp add: seg_rel_def)
  then show ?thesis
    using dec by (simp add: nextCodePointEnd_def Text_Len_def off_Suc [OF assms(2)] nat_diff_distrib)
qed

lemma previousStart_loop_char:
  assumes "txt_text (st_text t) = pre @ c @ post" and "utf8_char c" and "i < length c"
  shows "previousStart_loop t (int (length pre + i)) = Inr (int (length pre))"
  using assms(3)
proof (induction i)
  case 0
  then show ?case
    using assms(1) utf8_char_tails(1) [OF assms(2)]
    by (subst previousStart_loop.simps) (simp add: Text_GetByte_def nth_append IsPotentialStartOfRune_def)
next
  case (Suc i)
  have "Text_GetByte (st_text t) (int (length pre + Suc i)) = Inr (c ! Suc i)"
    using assms(1) Suc.prems by (simp add: Text_GetByte_def slice_get_def nth_append nat_add_distrib)
  moreover have "\<not> IsPotentialStartOfRune (c ! Suc i)"
    using utf8_char_tails(2) [OF assms(2), of "Suc i"] Suc.prems by (simp add: IsPotentialStartOfRune_def)
  moreover have "int (length pre + Suc i) - 1 = int (length pre + i)"
    by simp
  ultimately show ?case
    using Suc by (subst previousStart_loop.simps) simp
qed

lemma prev_off:
  assumes "seg_rel t cs" and "k < length cs"
  shows "previousCodePointStart t (int (off cs (Suc k))) = Inr (int (off cs k))"
proof -
  have c: "utf8_char (cs ! k)" and s: "txt_text (st_text t) = concat (take k cs) @ cs ! k @ concat (drop (Suc k) cs)"
    using assms concat_split [OF assms(2)] by (simp_all add: seg_rel_def)
  obtain n where n: "length (cs ! k) = Suc n"
    using utf8_char_ne [OF c] by (metis length_0_conv not0_implies_Suc)
  then have "int (off cs (Suc k)) - 1 = int (length (concat (take k cs)) + n)"
    using assms(2) by (simp add: off_Suc) (simp add: off_def)
  then show ?thesis
    using previousStart_loop_char [OF s c, of n] n
    by (simp add: previousCodePointStart_def off_def)
qed

section \<open>The loops\<close>

text \<open>The cluster of the characters from \<open>lo\<close> to \<open>hi\<close>, with the \<open>m\<close>-th character inside it.\<close>

definition cluster_at :: "SegmentedText \<Rightarrow> bytes list \<Rightarrow> nat \<Rightarrow> nat \<Rightarrow> nat \<Rightarrow> bool" where
  "cluster_at t cs lo m hi \<longleftrightarrow> lo < m \<and> m < hi \<and> hi \<le> length cs \<and> gb t cs lo \<and> gb t cs hi
     \<and> (\<forall>j. lo < j \<longrightarrow> j < hi \<longrightarrow> \<not> gb t cs j)"

lemma cluster_left:
  assumes "cluster_at t cs lo m hi" and "l \<le> m - lo"
  shows "gb t cs (m - l) \<longleftrightarrow> l = m - lo"
proof (cases "l = m - lo")
  case False
  then have "lo < m - l" "m - l < hi"
    using assms by (auto simp: cluster_at_def)
  then show ?thesis
    using assms(1) False by (simp add: cluster_at_def)
qed (use assms in \<open>simp add: cluster_at_def\<close>)

lemma cluster_right:
  assumes "cluster_at t cs lo m hi" and "r \<le> hi - m"
  shows "gb t cs (m + r) \<longleftrightarrow> r = hi - m"
proof (cases "r = hi - m")
  case False
  then have "lo < m + r" "m + r < hi"
    using assms by (auto simp: cluster_at_def)
  then show ?thesis
    using assms(1) False by (simp add: cluster_at_def)
qed (use assms in \<open>simp add: cluster_at_def\<close>)

lemma left_loop_step:
  assumes "seg_rel t cs" and "cluster_at t cs lo m hi" and "l \<le> m - lo" and "C < M"
  shows "left_loop t (int M) (int C) (int (off cs (m - l))) =
    (if l = m - lo then Inr (int C, int (off cs (m - l)))
     else left_loop t (int M) (int (Suc C)) (int (off cs (m - Suc l))))"
proof (cases "l = m - lo")
  case True
  then show ?thesis
    using get_off [OF assms(1), of "m - l"] cluster_left [OF assms(2,3)] by (subst left_loop.simps) simp
next
  case False
  then have "m - l = Suc (m - Suc l)" "m - Suc l < length cs"
    using assms(2,3) by (auto simp: cluster_at_def)
  then have "previousCodePointStart t (int (off cs (m - l))) = Inr (int (off cs (m - Suc l)))"
    using prev_off [OF assms(1), of "m - Suc l"] by simp
  then show ?thesis
    using get_off [OF assms(1), of "m - l"] cluster_left [OF assms(2,3)] assms(4) False
    by (subst left_loop.simps) (simp add: add.commute)
qed

lemma shift_count: "Suc a \<le> (b :: nat) \<Longrightarrow> Suc c + (b - Suc a) = c + (b - a)"
  by simp

lemma left_loop_spec:
  assumes "seg_rel t cs" and "cluster_at t cs lo m hi" and "l \<le> m - lo" and "C \<le> M"
  shows "left_loop t (int M) (int C) (int (off cs (m - l))) =
    (let l' = min (l + (M - C)) (m - lo) in Inr (int (C + (l' - l)), int (off cs (m - l'))))"
  using assms(3,4)
proof (induction "M - C" arbitrary: l C)
  case 0
  then show ?case
    by (subst left_loop.simps) (simp add: Let_def)
next
  case (Suc n)
  show ?case
  proof (cases "l = m - lo")
    case True
    then show ?thesis
      using left_loop_step [OF assms(1,2) Suc.prems(1), of C M] Suc(2) by (simp add: Let_def)
  next
    case False
    let ?l' = "min (l + (M - C)) (m - lo)"
    have step: "Suc l + (M - Suc C) = l + (M - C)" "Suc l \<le> ?l'"
      using False Suc(2,3) by simp_all
    have l': "min (Suc l + (M - Suc C)) (m - lo) = ?l'" "Suc C + (?l' - Suc l) = C + (?l' - l)"
      by (simp_all only: step(1) shift_count [OF step(2)])
    have "left_loop t (int M) (int (Suc C)) (int (off cs (m - Suc l))) =
        Inr (int (Suc C + (?l' - Suc l)), int (off cs (m - ?l')))"
      using Suc(1) [of "Suc C" "Suc l"] Suc(2,3) False by (simp only: l' Let_def)
    then show ?thesis
      using left_loop_step [OF assms(1,2) Suc.prems(1), of C M] False Suc(2) by (simp only: l' Let_def) simp
  qed
qed

lemma right_loop_step:
  assumes "seg_rel t cs" and "cluster_at t cs lo m hi" and "r \<le> hi - m" and "C < M"
  shows "right_loop t (int M) (int C) (int (off cs (m + r))) =
    (if r = hi - m then Inr (int C, int (off cs (m + r)))
     else right_loop t (int M) (int (Suc C)) (int (off cs (m + Suc r))))"
proof (cases "r = hi - m")
  case True
  then show ?thesis
    using get_off [OF assms(1), of "m + r"] cluster_right [OF assms(2,3)] by (subst right_loop.simps) simp
next
  case False
  then have "m + r < length cs"
    using assms(2,3) by (auto simp: cluster_at_def)
  then have "nextCodePointEnd t (int (off cs (m + r))) = Inr (int (off cs (m + Suc r)))"
    using next_off [OF assms(1), of "m + r"] by simp
  then show ?thesis
    using get_off [OF assms(1), of "m + r"] cluster_right [OF assms(2,3)] assms(4) False
    by (subst right_loop.simps) (simp add: add.commute)
qed

lemma right_loop_spec:
  assumes "seg_rel t cs" and "cluster_at t cs lo m hi" and "r \<le> hi - m" and "C \<le> M"
  shows "right_loop t (int M) (int C) (int (off cs (m + r))) =
    (let r' = min (r + (M - C)) (hi - m) in Inr (int (C + (r' - r)), int (off cs (m + r'))))"
  using assms(3,4)
proof (induction "M - C" arbitrary: r C)
  case 0
  then show ?case
    by (subst right_loop.simps) (simp add: Let_def)
next
  case (Suc n)
  show ?case
  proof (cases "r = hi - m")
    case True
    then show ?thesis
      using right_loop_step [OF assms(1,2) Suc.prems(1), of C M] Suc(2) by (simp add: Let_def)
  next
    case False
    let ?r' = "min (r + (M - C)) (hi - m)"
    have step: "Suc r + (M - Suc C) = r + (M - C)" "Suc r \<le> ?r'"
      using False Suc(2,3) by simp_all
    have r': "min (Suc r + (M - Suc C)) (hi - m) = ?r'" "Suc C + (?r' - Suc r) = C + (?r' - r)"
      by (simp_all only: step(1) shift_count [OF step(2)])
    have "right_loop t (int M) (int (Suc C)) (int (off cs (m + Suc r))) =
        Inr (int (Suc C + (?r' - Suc r)), int (off cs (m + ?r')))"
      using Suc(1) [of "Suc C" "Suc r"] Suc(2,3) False by (simp only: r' Let_def)
    then show ?thesis
      using right_loop_step [OF assms(1,2) Suc.prems(1), of C M] False Suc(2) by (simp only: r' Let_def) simp
  qed
qed

lemma bothBoundaries_spec:
  assumes "seg_rel t cs" and "cluster_at t cs lo m hi" and "l \<le> m - lo" and "r \<le> hi - m"
  shows "bothBoundaries t (int (off cs (m - l))) (int (off cs (m + r))) = Inr (l = m - lo \<and> r = hi - m)"
  using get_off [OF assms(1)] cluster_left [OF assms(2,3)] cluster_right [OF assms(2,4)]
  by (simp add: bothBoundaries_def)

lemma step_left:
  assumes "seg_rel t cs" and "cluster_at t cs lo m hi" and "l \<le> m - lo"
  shows "go_bind (BitVec_Get (st_boundaries t) (int (off cs (m - l)))) (\<lambda>b.
      if \<not> b then previousCodePointStart t (int (off cs (m - l))) else Inr (int (off cs (m - l)))) =
    Inr (int (off cs (m - min (Suc l) (m - lo))))"
proof (cases "l = m - lo")
  case False
  then have "m - l = Suc (m - Suc l)" "m - Suc l < length cs" "min (Suc l) (m - lo) = Suc l"
    using assms(2,3) by (auto simp: cluster_at_def)
  then show ?thesis
    using prev_off [OF assms(1), of "m - Suc l"] get_off [OF assms(1)] cluster_left [OF assms(2,3)] False by simp
qed (use get_off [OF assms(1)] cluster_left [OF assms(2,3)] in simp)

lemma step_right:
  assumes "seg_rel t cs" and "cluster_at t cs lo m hi" and "r \<le> hi - m"
  shows "go_bind (BitVec_Get (st_boundaries t) (int (off cs (m + r)))) (\<lambda>b.
      if \<not> b then nextCodePointEnd t (int (off cs (m + r))) else Inr (int (off cs (m + r)))) =
    Inr (int (off cs (m + min (Suc r) (hi - m))))"
proof (cases "r = hi - m")
  case False
  then have "m + r < length cs" "min (Suc r) (hi - m) = Suc r"
    using assms(2,3) by (auto simp: cluster_at_def)
  then show ?thesis
    using next_off [OF assms(1), of "m + r"] get_off [OF assms(1)] cluster_right [OF assms(2,3)] False by simp
qed (use get_off [OF assms(1)] cluster_right [OF assms(2,3)] in simp)

lemma balanced_loop_spec:
  assumes "seg_rel t cs" and "cluster_at t cs lo m hi" and "i \<le> rb" and "lb \<le> rb"
  shows "balanced_loop t (int lb) (int rb) (int i)
      (int (off cs (m - min (min i lb) (m - lo)))) (int (off cs (m + min i (hi - m)))) =
    Inr (int (off cs (m - min lb (m - lo))), int (off cs (m + min rb (hi - m))))"
  using assms(3)
proof (induction "rb - i" arbitrary: i)
  case 0
  then show ?case
    using assms(4) by (subst balanced_loop.simps) simp
next
  case (Suc n)
  let ?l = "min (min i lb) (m - lo)" and ?r = "min i (hi - m)"
  let ?l' = "min (min (Suc i) lb) (m - lo)" and ?r' = "min (Suc i) (hi - m)"
  have left: "(if int i < int lb then go_bind (BitVec_Get (st_boundaries t) (int (off cs (m - ?l)))) (\<lambda>b.
        if \<not> b then previousCodePointStart t (int (off cs (m - ?l))) else Inr (int (off cs (m - ?l))))
      else Inr (int (off cs (m - ?l)))) = Inr (int (off cs (m - ?l')))"
  proof (cases "i < lb")
    case True
    then have "min (Suc ?l) (m - lo) = ?l'"
      by simp
    then show ?thesis
      using step_left [OF assms(1,2), of ?l] True by simp
  next
    case False
    then have "min i lb = min (Suc i) lb"
      by simp
    then show ?thesis
      using False by simp
  qed
  have "min (Suc ?r) (hi - m) = ?r'"
    by simp
  then have right: "go_bind (BitVec_Get (st_boundaries t) (int (off cs (m + ?r)))) (\<lambda>b.
        if \<not> b then nextCodePointEnd t (int (off cs (m + ?r))) else Inr (int (off cs (m + ?r)))) =
      Inr (int (off cs (m + ?r')))"
    using step_right [OF assms(1,2), of ?r] by simp
  have both: "bothBoundaries t (int (off cs (m - ?l'))) (int (off cs (m + ?r'))) = Inr (?l' = m - lo \<and> ?r' = hi - m)"
    using bothBoundaries_spec [OF assms(1,2)] by simp
  have i: "int i < int rb" "int i + 1 = int (Suc i)"
    using Suc(2,3) by simp_all
  show ?case
  proof (cases "?l' = m - lo \<and> ?r' = hi - m")
    case True
    then have "min lb (m - lo) = ?l'" "min rb (hi - m) = ?r'"
      using Suc(2,3) by auto
    then show ?thesis
      using i True both left right by (subst balanced_loop.simps) simp
  next
    case False
    have "balanced_loop t (int lb) (int rb) (int (Suc i)) (int (off cs (m - ?l'))) (int (off cs (m + ?r'))) =
        Inr (int (off cs (m - min lb (m - lo))), int (off cs (m + min rb (hi - m))))"
      using Suc(1) [of "Suc i"] Suc(2,3) by simp
    then show ?thesis
      by (subst balanced_loop.simps) (simp only: i(1) if_True left right go_bind_Inr both if_not_P [OF False] i(2))
  qed
qed

section \<open>Boundaries\<close>

definition char_boundary :: "bytes \<Rightarrow> nat \<Rightarrow> bool" where
  "char_boundary s n \<longleftrightarrow> (\<exists>pre post. s = pre @ post \<and> utf8_text pre \<and> utf8_text post \<and> n = length pre)"

definition cluster_boundary :: "bytes list \<Rightarrow> nat \<Rightarrow> bool" where
  "cluster_boundary gs n \<longleftrightarrow> (\<exists>k \<le> length gs. n = off gs k)"

lemma char_boundary_le: "char_boundary s n \<Longrightarrow> n \<le> length s"
  by (auto simp: char_boundary_def)

lemma char_boundary_iff:
  assumes "utf8_text s" and "n \<le> length s"
  shows "char_boundary s n \<longleftrightarrow> n = length s \<or> RuneStart (s ! n)"
proof
  assume "char_boundary s n"
  then obtain pre post where s: "s = pre @ post" "utf8_text post" "n = length pre"
    by (auto simp: char_boundary_def)
  show "n = length s \<or> RuneStart (s ! n)"
  proof (cases "post = []")
    case False
    with s(2) obtain c r where "post = c @ r" "utf8_char c"
      by (cases rule: utf8_text.cases) auto
    then show ?thesis
      using s utf8_char_tails(1) [of c] utf8_char_ne [of c] by (simp add: nth_append)
  qed (use s in simp)
next
  assume n: "n = length s \<or> RuneStart (s ! n)"
  show "char_boundary s n"
  proof (cases "n = length s")
    case True
    then show ?thesis
      using assms(1) utf8_text.Nil by (auto simp: char_boundary_def)
  next
    case False
    then obtain pre c post where c: "s = pre @ c @ post" "utf8_text pre" "utf8_char c" "utf8_text post"
        "length pre < n + 1" "n + 1 \<le> length pre + length c"
      using text_position [OF assms(1), of "n + 1"] assms(2) by auto
    have k: "n - length pre < length c" "length pre \<le> n"
      using c(5,6) by linarith+
    then have "RuneStart (c ! (n - length pre))"
      using n False c(1) by (simp add: nth_append)
    then have "n - length pre = 0"
      using utf8_char_tails(2) [OF c(3), of "n - length pre"] k(1) by blast
    then have "n = length pre"
      using k(2) by simp
    then show ?thesis
      using c utf8_text.Char [OF c(3,4)] by (auto simp: char_boundary_def)
  qed
qed

lemma insideCodePoint_spec:
  assumes "utf8_text (txt_text (st_text t))" and "n \<le> length (txt_text (st_text t))"
  shows "insideCodePoint t (int n) = Inr (\<not> char_boundary (txt_text (st_text t)) n)"
  using assms char_boundary_iff [OF assms]
  by (auto simp: insideCodePoint_def Text_Len_def Text_GetByte_def IsPotentialStartOfRune_def)

lemma insideCodePoint_out:
  assumes "i < 0 \<or> int (length (txt_text (st_text t))) < i"
  shows "\<not> is_ok (insideCodePoint t i)"
  using assms by (auto simp: insideCodePoint_def Text_Len_def Text_GetByte_def slice_get_def)

section \<open>Construction\<close>

definition ends :: "nat \<Rightarrow> bytes list \<Rightarrow> nat list" where
  "ends n gs = map (\<lambda>k. n + off gs (Suc k)) [0..<length gs]"

lemma off_Cons: "off (g # gs) (Suc k) = length g + off gs k"
  by (simp add: off_def)

lemma ends_Cons: "ends n (g # gs) = (n + length g) # ends (n + length g) gs"
  unfolding ends_def by (simp only: list.size upt_Suc_shift add_Suc_right add_0_right) (simp add: off_Cons add.assoc)

lemma setEnds_set_each:
  "setEnds (map (\<lambda>p. \<lparr>gc_string = s, gc_positions = p\<rparr>) (piece_positions n gs)) b = bv.set_each b (ends n gs)"
proof (induction gs arbitrary: n b)
  case (Cons g gs)
  then have "setEnds (map (\<lambda>p. \<lparr>gc_string = s, gc_positions = p\<rparr>) (piece_positions (n + length g) gs)) =
      (\<lambda>b. bv.set_each b (ends (n + length g) gs))"
    by (intro ext)
  then show ?case
    by (simp add: ends_Cons GraphemeCluster_Span_def NewSpan_def Span_End_def)
qed (simp add: ends_def)

lemma NewSegmentedText_spec:
  assumes "segmentation positions s gs"
  shows "\<exists>t. NewSegmentedText positions \<lparr>txt_text = s\<rparr> = Inr t \<and> st_text t = \<lparr>txt_text = s\<rparr>
    \<and> bv_inv (st_boundaries t) \<and> length (bv_abs (st_boundaries t)) = length s + 1
    \<and> (\<forall>n \<le> length s. bv_abs (st_boundaries t) ! n \<longleftrightarrow> cluster_boundary gs n)"
proof -
  have gs: "concat gs = s" "positions s = piece_positions 0 gs"
    using assms by (auto simp: segmentation_def)
  obtain b where b: "NewBitVec (int (length s + 1)) = Inr b" "bv_inv b" "bv_abs b = replicate (length s + 1) False"
    using bv.new by blast
  obtain b1 where b1: "BitVec_Set b (int 0) = Inr b1" "bv_inv b1" "bv_abs b1 = (replicate (length s + 1) False)[0 := True]"
    using bv.set [OF b(2), of 0] b(3) by auto
  have "\<forall>k \<in> set (ends 0 gs). k < length (bv_abs b1)"
    using off_le [of gs] gs(1) by (auto simp: ends_def b1(3) less_Suc_eq_le)
  from bv.set_each_spec [OF b1(2) this] obtain b2 where b2: "bv.set_each b1 (ends 0 gs) = Inr b2" "bv_inv b2"
      "length (bv_abs b2) = length s + 1"
      "\<forall>j < length s + 1. bv_abs b2 ! j \<longleftrightarrow> bv_abs b1 ! j \<or> j \<in> set (ends 0 gs)"
    using b1(3) by auto
  have "bv_abs b2 ! n \<longleftrightarrow> cluster_boundary gs n" if "n \<le> length s" for n
  proof -
    have "bv_abs b2 ! n \<longleftrightarrow> n = 0 \<or> (\<exists>k < length gs. n = off gs (Suc k))"
      using b2(4) that b1(3) by (auto simp: nth_list_update ends_def)
    also have "\<dots> \<longleftrightarrow> cluster_boundary gs n"
      unfolding cluster_boundary_def by (metis Suc_le_eq le0 not0_implies_Suc off_0)
    finally show ?thesis .
  qed
  then show ?thesis
    using b b1 b2 gs(2) setEnds_set_each [of s 0 gs b1]
    by (simp add: NewSegmentedText_def GraphemeClusters_def Text_Len_def add.commute)
qed

lemma segmentation_text: "segmentation positions s gs \<Longrightarrow> utf8_text s"
proof -
  have "(\<forall>g \<in> set gs. utf8_text g) \<Longrightarrow> utf8_text (concat gs)" for gs
    by (induction gs) (auto intro: utf8_text.intros simp: utf8_text_append)
  then show "segmentation positions s gs \<Longrightarrow> utf8_text s"
    by (auto simp: segmentation_def)
qed

text \<open>
  For every segmentation of a valid text into clusters, \<open>NewSegmentedText\<close> returns without panicking, and
  \<open>CheckSpan\<close> on its result accepts a span of the text exactly when both of its bounds are boundaries of clusters.
  Otherwise it reports the first failure in the order of the code: a bound inside a code point (the start before the
  end), then a bound inside a cluster.\<close>

lemma CheckSpan_correct:
  assumes "segmentation positions s gs"
  shows "\<exists>t. NewSegmentedText positions \<lparr>txt_text = s\<rparr> = Inr t
    \<and> (\<forall>a b. a \<le> b \<longrightarrow> b \<le> length s \<longrightarrow>
        (let sp = \<lparr>span_start = int a, span_end = int b\<rparr>;
             err = (\<lambda>k d. Inr (Some \<lparr>sbe_kind = k, sbe_bound = d, sbe_span = sp\<rparr>))
         in CheckSpan t sp =
           (if \<not> char_boundary s a then err SpanBoundaryErrorKind_NotUTF8Boundary Bound_Start
            else if \<not> char_boundary s b then err SpanBoundaryErrorKind_NotUTF8Boundary Bound_End
            else if \<not> cluster_boundary gs a then err SpanBoundaryErrorKind_NotGraphemeBoundary Bound_Start
            else if \<not> cluster_boundary gs b then err SpanBoundaryErrorKind_NotGraphemeBoundary Bound_End
            else Inr None)))"
proof -
  obtain t where t: "NewSegmentedText positions \<lparr>txt_text = s\<rparr> = Inr t" "st_text t = \<lparr>txt_text = s\<rparr>"
      "bv_inv (st_boundaries t)" "length (bv_abs (st_boundaries t)) = length s + 1"
      "\<forall>n \<le> length s. bv_abs (st_boundaries t) ! n \<longleftrightarrow> cluster_boundary gs n"
    using NewSegmentedText_spec [OF assms] by blast
  have inside: "insideCodePoint t (int n) = Inr (\<not> char_boundary s n)" if "n \<le> length s" for n
    using insideCodePoint_spec [of t n] segmentation_text [OF assms] t(2) that by simp
  have get: "BitVec_Get (st_boundaries t) (int n) = Inr (cluster_boundary gs n)" if "n \<le> length s" for n
    using bv.get [OF t(3), of n] t(4,5) that by simp
  show ?thesis
    using t(1) inside get by (auto simp: CheckSpan_def Let_def Span_Start_def Span_End_def)
qed

section \<open>The window around an offset\<close>

text \<open>A boundary of characters is a boundary of clusters or strictly inside one of them.\<close>

lemma char_boundary_cases:
  assumes "\<forall>g \<in> set gs. utf8_text g" and "char_boundary (concat gs) n"
  shows "cluster_boundary gs n \<or>
    (\<exists>gl g gr a b. gs = gl @ g # gr \<and> g = a @ b \<and> utf8_text a \<and> utf8_text b \<and> a \<noteq> [] \<and> b \<noteq> []
       \<and> n = length (concat gl) + length a)"
  using assms
proof (induction gs arbitrary: n)
  case Nil
  then show ?case
    by (auto simp: char_boundary_def cluster_boundary_def)
next
  case (Cons g gs)
  obtain pre post where p: "g @ concat gs = pre @ post" "utf8_text pre" "utf8_text post" "n = length pre"
    using Cons.prems(2) by (auto simp: char_boundary_def)
  have g: "utf8_text g"
    using Cons.prems(1) by simp
  from p(1) consider r where "pre = g @ r" "concat gs = r @ post" | r where "g = pre @ r" "post = r @ concat gs"
    by (auto simp: append_eq_append_conv2)
  then show ?case
  proof cases
    case 1
    then have "char_boundary (concat gs) (n - length g)" and n: "n = length g + (n - length g)"
      using p g utf8_text_append [OF g, of r] by (auto simp: char_boundary_def)
    from Cons.IH [OF _ this(1)] Cons.prems(1) have "cluster_boundary gs (n - length g) \<or>
        (\<exists>gl h gr a b. gs = gl @ h # gr \<and> h = a @ b \<and> utf8_text a \<and> utf8_text b \<and> a \<noteq> [] \<and> b \<noteq> []
         \<and> n - length g = length (concat gl) + length a)"
      by simp
    then show ?thesis
    proof (elim disjE)
      assume "cluster_boundary gs (n - length g)"
      then obtain k where "k \<le> length gs" "n - length g = off gs k"
        by (auto simp: cluster_boundary_def)
      then have "cluster_boundary (g # gs) n"
        using n unfolding cluster_boundary_def by (intro exI [of _ "Suc k"]) (simp add: off_Cons)
      then show ?thesis ..
    next
      assume "\<exists>gl h gr a b. gs = gl @ h # gr \<and> h = a @ b \<and> utf8_text a \<and> utf8_text b \<and> a \<noteq> [] \<and> b \<noteq> []
         \<and> n - length g = length (concat gl) + length a"
      then obtain gl h gr a b where "gs = gl @ h # gr" "h = a @ b" "utf8_text a" "utf8_text b" "a \<noteq> []" "b \<noteq> []"
          "n - length g = length (concat gl) + length a"
        by blast
      then show ?thesis
        using n by (intro disjI2 exI [of _ "g # gl"] exI [of _ h] exI [of _ gr] exI [of _ a] exI [of _ b]) simp
    qed
  next
    case 2
    then have r: "utf8_text r"
      using utf8_text_append [OF p(2), of r] g by simp
    consider "pre = []" | "r = []" | "pre \<noteq> []" "r \<noteq> []"
      by blast
    then show ?thesis
    proof cases
      case 1
      then show ?thesis
        using p(4) by (auto simp: cluster_boundary_def intro: exI [of _ 0])
    next
      case r0: 2
      then show ?thesis
        using p(4) 2 by (auto simp: cluster_boundary_def off_def intro: exI [of _ 1])
    next
      case 3
      then show ?thesis
        using p(2,4) r 2 by (intro disjI2 exI [of _ "[]"] exI [of _ g] exI [of _ gs] exI [of _ pre] exI [of _ r]) simp
    qed
  qed
qed

text \<open>
  The characters of a text whose clusters are \<open>gl\<close>, one cluster of the characters \<open>before\<close> and \<open>after\<close>, and \<open>gr\<close>.
\<close>

lemma cluster_chars:
  assumes seg: "segmentation positions s (gl @ concat (before @ after) # gr)"
    and chars: "\<forall>c \<in> set (before @ after). utf8_char c" and ne: "before \<noteq> []" "after \<noteq> []"
    and t: "st_text t = \<lparr>txt_text = s\<rparr>" "bv_inv (st_boundaries t)" "length (bv_abs (st_boundaries t)) = length s + 1"
      "\<forall>n \<le> length s. bv_abs (st_boundaries t) ! n \<longleftrightarrow> cluster_boundary (gl @ concat (before @ after) # gr) n"
  shows "\<exists>cl cr. seg_rel t (cl @ before @ after @ cr) \<and> length (concat cl) = length (concat gl)
    \<and> cluster_at t (cl @ before @ after @ cr) (length cl) (length cl + length before) (length cl + length before + length after)"
proof -
  let ?gs = "gl @ concat (before @ after) # gr" and ?g = "concat (before @ after)"
  have gne: "\<forall>g \<in> set ?gs. g \<noteq> []" and s: "s = concat gl @ ?g @ concat gr"
    and gl: "\<forall>g \<in> set gl. utf8_text g" and gr: "\<forall>g \<in> set gr. utf8_text g"
    using seg by (auto simp: segmentation_def)
  have "utf8_text (concat gl)" "utf8_text (concat gr)"
    using segmentation_text [of "\<lambda>_. piece_positions 0 gl" "concat gl" gl] segmentation_text [of "\<lambda>_. piece_positions 0 gr" "concat gr" gr]
      seg by (auto simp: segmentation_def)
  then obtain cl cr where cl: "concat cl = concat gl" "\<forall>c \<in> set cl. utf8_char c"
      and cr: "concat cr = concat gr" "\<forall>c \<in> set cr. utf8_char c"
    by (auto simp: utf8_text_chars)
  let ?cs = "cl @ before @ after @ cr"
  let ?lo = "length cl" and ?hi = "length cl + length before + length after"
  have rel: "seg_rel t ?cs"
    using cl cr s t chars by (auto simp: seg_rel_def)
  have cne: "\<forall>c \<in> set ?cs. c \<noteq> []"
    using cl cr chars by (intro chars_ne) auto
  have o: "off ?cs ?lo = off ?gs (length gl)" "off ?cs ?hi = off ?gs (Suc (length gl))"
    using cl by (simp_all add: off_def)
  have bit: "gb t ?cs k \<longleftrightarrow> cluster_boundary ?gs (off ?cs k)" for k
  proof -
    have "concat ?cs = s"
      using s cl cr by simp
    then have "off ?cs k \<le> length s"
      using off_le [of ?cs k] by simp
    then show ?thesis
      unfolding gb_def using t(4) by blast
  qed
  have "\<not> gb t ?cs j" if "?lo < j" "j < ?hi" for j
  proof
    assume "gb t ?cs j"
    then obtain k where k: "k \<le> length ?gs" "off ?cs j = off ?gs k"
      using bit by (auto simp: cluster_boundary_def)
    have "off ?gs (length gl) < off ?gs k" "off ?gs k < off ?gs (Suc (length gl))"
      using off_strict [OF cne that(1)] off_strict [OF cne that(2)] that k(2) o by simp_all
    then show False
      using off_mono [of k "length gl" ?gs] off_mono [of "Suc (length gl)" k ?gs] by linarith
  qed
  moreover have "gb t ?cs ?lo" "gb t ?cs ?hi"
    unfolding bit o cluster_boundary_def by (metis le_add1 length_append length_Cons Suc_le_mono add_Suc_right)+
  ultimately have "cluster_at t ?cs ?lo (?lo + length before) ?hi"
    using ne by (simp add: cluster_at_def)
  then show ?thesis
    using rel cl by (intro exI [of _ cl] exI [of _ cr]) simp
qed

text \<open>The window of at most \<open>M\<close> characters around the boundary between \<open>before\<close> and \<open>after\<close> in a cluster.\<close>

definition window :: "nat \<Rightarrow> nat \<Rightarrow> bytes list \<Rightarrow> bytes list \<Rightarrow> GraphemeClusterWindow" where
  "window offset M before after =
     (let fits = length before + length after \<le> M;
          x = (if fits then length before else min (M div 2) (length before));
          y = (if fits then length after else min (M - M div 2) (length after))
      in \<lparr>gcw_span = \<lparr>span_start = int (offset - length (concat (drop (length before - x) before))),
                     span_end = int (offset + length (concat (take y after)))\<rparr>,
          gcw_isFullCluster = fits\<rparr>)"

lemma Find_index:
  assumes rel: "seg_rel t cs" and cl: "cluster_at t cs lo m hi" and M: "1 \<le> M"
    and inside: "insideCodePoint t (int (off cs m)) = Inr False"
  shows "FindGraphemeClusterContaining t (int (off cs m)) (int M) =
    (let fits = hi - lo \<le> M;
         x = (if fits then m - lo else min (M div 2) (m - lo));
         y = (if fits then hi - m else min (M - M div 2) (hi - m))
     in Inr (Some \<lparr>gcw_span = \<lparr>span_start = int (off cs (m - x)), span_end = int (off cs (m + y))\<rparr>,
                  gcw_isFullCluster = fits\<rparr>))"
proof -
  let ?l = "min M (m - lo)"
  let ?r = "min (M - ?l) (hi - m)"
  have m: "lo < m" "m < hi" "hi \<le> length cs"
    using cl by (simp_all add: cluster_at_def)
  have cs: "concat cs = txt_text (st_text t)" "\<forall>c \<in> set cs. c \<noteq> []"
    using rel chars_ne [of cs] by (auto simp: seg_rel_def)
  have o: "0 < off cs m" "off cs m < length (txt_text (st_text t))"
    using off_strict [OF cs(2), of 0 m] off_strict [OF cs(2), of m "length cs"] m cs(1) by simp_all
  have get: "BitVec_Get (st_boundaries t) (int (off cs m)) = Inr False"
    using get_off [OF rel, of m] cl by (simp add: cluster_at_def)
  have left: "left_loop t (int M) 0 (int (off cs m)) = Inr (int ?l, int (off cs (m - ?l)))"
    using left_loop_spec [OF rel cl, of 0 0 M] by (simp add: Let_def)
  have right: "right_loop t (int M) (int ?l) (int (off cs m)) = Inr (int (?l + ?r), int (off cs (m + ?r)))"
    using right_loop_spec [OF rel cl, of 0 ?l M] by (simp add: Let_def)
  have both: "bothBoundaries t (int (off cs (m - ?l))) (int (off cs (m + ?r))) = Inr (hi - lo \<le> M)"
  proof -
    have "bothBoundaries t (int (off cs (m - ?l))) (int (off cs (m + ?r))) = Inr (?l = m - lo \<and> ?r = hi - m)"
      by (rule bothBoundaries_spec [OF rel cl]) simp_all
    moreover have "?l = m - lo \<and> ?r = hi - m \<longleftrightarrow> hi - lo \<le> M"
      using m by auto
    ultimately show ?thesis
      by simp
  qed
  have span: "NewSpan (int (off cs (m - x))) (int (off cs (m + y))) =
      Inr \<lparr>span_start = int (off cs (m - x)), span_end = int (off cs (m + y))\<rparr>" for x y
    using off_mono [of "m - x" "m + y" cs] by (intro NewSpan_eq) simp
  have guard: "FindGraphemeClusterContaining t (int (off cs m)) (int M) =
      (if hi - lo \<le> M
       then go_bind (NewSpan (int (off cs (m - ?l))) (int (off cs (m + ?r)))) (\<lambda>sp.
            Inr (Some \<lparr>gcw_span = sp, gcw_isFullCluster = True\<rparr>))
       else go_bind (balanced_loop t (int M div 2) (int M - int M div 2) 0 (int (off cs m)) (int (off cs m))) (\<lambda>(start, stop).
            go_bind (NewSpan start stop) (\<lambda>sp.
            go_bind (bothBoundaries t start stop) (\<lambda>full.
            Inr (Some \<lparr>gcw_span = sp, gcw_isFullCluster = full\<rparr>)))))"
    using o M inside get left right both
    by (simp add: FindGraphemeClusterContaining_def Text_Len_def Let_def)
  show ?thesis
  proof (cases "hi - lo \<le> M")
    case True
    then have "?l = m - lo" "?r = hi - m"
      using m by auto
    then show ?thesis
      using True guard span by (simp add: Let_def)
  next
    case False
    let ?x = "min (M div 2) (m - lo)" and ?y = "min (M - M div 2) (hi - m)"
    have "int M div 2 = int (M div 2)" "int M - int M div 2 = int (M - M div 2)"
      by (simp_all add: zdiv_int of_nat_diff)
    then have bal: "balanced_loop t (int M div 2) (int M - int M div 2) 0 (int (off cs m)) (int (off cs m)) =
        Inr (int (off cs (m - ?x)), int (off cs (m + ?y)))"
      using balanced_loop_spec [OF rel cl, of 0 "M - M div 2" "M div 2"] by simp
    have "bothBoundaries t (int (off cs (m - ?x))) (int (off cs (m + ?y))) = Inr (?x = m - lo \<and> ?y = hi - m)"
      by (rule bothBoundaries_spec [OF rel cl]) simp_all
    moreover have "\<not> (?x = m - lo \<and> ?y = hi - m)"
      using False m by linarith
    ultimately show ?thesis
      using False guard span bal by (simp add: Let_def)
  qed
qed

lemma Find_inside:
  assumes seg: "segmentation positions s (gl @ concat (before @ after) # gr)"
    and t: "NewSegmentedText positions \<lparr>txt_text = s\<rparr> = Inr t" and M: "1 \<le> M"
    and chars: "\<forall>c \<in> set (before @ after). utf8_char c" "before \<noteq> []" "after \<noteq> []"
    and n: "n = length (concat gl) + length (concat before)"
  shows "FindGraphemeClusterContaining t (int n) (int M) = Inr (Some (window n M before after))"
proof -
  have st: "st_text t = \<lparr>txt_text = s\<rparr>" "bv_inv (st_boundaries t)" "length (bv_abs (st_boundaries t)) = length s + 1"
      "\<forall>n \<le> length s. bv_abs (st_boundaries t) ! n \<longleftrightarrow> cluster_boundary (gl @ concat (before @ after) # gr) n"
    using NewSegmentedText_spec [OF seg] t by auto
  from cluster_chars [OF seg chars st] obtain cl cr where rel: "seg_rel t (cl @ before @ after @ cr)"
      and len: "length (concat cl) = length (concat gl)"
      and at: "cluster_at t (cl @ before @ after @ cr) (length cl) (length cl + length before) (length cl + length before + length after)"
    by blast
  let ?cs = "cl @ before @ after @ cr" and ?m = "length cl + length before"
  have left: "off ?cs (?m - x) = n - length (concat (drop (length before - x) before))" if "x \<le> length before" for x
  proof -
    have "concat before = concat (take (length before - x) before) @ concat (drop (length before - x) before)"
      by (metis append_take_drop_id concat_append)
    moreover have "?m - x = length cl + (length before - x)"
      using that by simp
    ultimately show ?thesis
      using n len by (simp add: off_def)
  qed
  have right: "off ?cs (?m + y) = n + length (concat (take y after))" if "y \<le> length after" for y
    using that n len by (simp add: off_def)
  have cb: "char_boundary s n"
  proof -
    have "s = (concat cl @ concat before) @ (concat after @ concat cr)" "utf8_text (concat cl @ concat before)" "utf8_text (concat after @ concat cr)"
      using rel st(1) chars_text [of "cl @ before"] chars_text [of "after @ cr"] by (auto simp: seg_rel_def)
    then show ?thesis
      using n len unfolding char_boundary_def by (metis length_append)
  qed
  have d: "length cl + length before + length after - length cl = length before + length after"
    "?m - length cl = length before" "?m + length after - ?m = length after"
    by simp_all
  have m: "off ?cs ?m = n"
    using right [of 0] by simp
  have ins: "insideCodePoint t (int (off ?cs ?m)) = Inr False"
    unfolding m using insideCodePoint_spec [of t n] segmentation_text [OF seg] st(1) cb char_boundary_le [OF cb] by simp
  note F = Find_index [OF rel at M ins, unfolded d m Let_def]
  show ?thesis
  proof (cases "length before + length after \<le> M")
    case True
    show ?thesis
      unfolding F window_def Let_def by (simp only: True if_True left [OF order_refl] right [OF order_refl])
  next
    case False
    show ?thesis
      unfolding F window_def Let_def by (simp only: False if_False left [OF min.cobounded2] right [OF min.cobounded2])
  qed
qed

lemma Find_panics:
  assumes "utf8_text s" and "st_text t = \<lparr>txt_text = s\<rparr>"
    and "is_ok (FindGraphemeClusterContaining t offset M)"
  shows "1 \<le> M \<and> (\<exists>n \<le> length s. offset = int n \<and> char_boundary s n)"
proof -
  have ok: "0 \<le> offset" "offset \<le> int (length s)" "1 \<le> M" "insideCodePoint t offset = Inr False"
    using assms(2,3) by (auto simp: FindGraphemeClusterContaining_def Text_Len_def is_ok_iff go_bind_Inr_iff assert_defs split: if_splits)
  then obtain n where n: "offset = int n" "n \<le> length s"
    by (metis nonneg_int_cases of_nat_le_iff)
  then have "char_boundary s n"
    using insideCodePoint_spec [of t n] assms(1,2) ok(4) by simp
  then show ?thesis
    using n ok(3) by blast
qed

lemma Find_boundary:
  assumes seg: "segmentation positions s gs" and t: "NewSegmentedText positions \<lparr>txt_text = s\<rparr> = Inr t"
    and "cluster_boundary gs n" and "char_boundary s n" and "1 \<le> M"
  shows "FindGraphemeClusterContaining t (int n) M = Inr None"
proof -
  have st: "st_text t = \<lparr>txt_text = s\<rparr>" "bv_inv (st_boundaries t)" "length (bv_abs (st_boundaries t)) = length s + 1"
      "\<forall>n \<le> length s. bv_abs (st_boundaries t) ! n \<longleftrightarrow> cluster_boundary gs n"
    using NewSegmentedText_spec [OF seg] t by auto
  have n: "n \<le> length s"
    by (rule char_boundary_le [OF assms(4)])
  have "insideCodePoint t (int n) = Inr False"
    using insideCodePoint_spec [of t n] segmentation_text [OF seg] st(1) n assms(4) by simp
  moreover have "BitVec_Get (st_boundaries t) (int n) = Inr True"
    using bv.get [OF st(2), of n] st(3,4) n assms(3) by simp
  ultimately show ?thesis
    using n st(1) assms(5) by (simp add: FindGraphemeClusterContaining_def Text_Len_def)
qed

text \<open>
  C14. \<open>FindGraphemeClusterContaining\<close> on a segmented text returns exactly when its preconditions hold (a positive
  number of code points and an offset on a code point boundary of the text), and every loop ends. On a cluster
  boundary it returns None. Inside a cluster with the code points \<open>before\<close> and \<open>after\<close> the offset, it
  returns the whole cluster when that has at most \<open>M\<close> code points, and otherwise the window of up to \<open>M div 2\<close> code
  points before the offset and up to \<open>M - M div 2\<close> after it.\<close>

theorem FindGraphemeClusterContaining_correct:
  assumes "segmentation positions s gs" and "NewSegmentedText positions \<lparr>txt_text = s\<rparr> = Inr t"
  shows "(is_ok (FindGraphemeClusterContaining t offset M) \<longleftrightarrow>
      1 \<le> M \<and> (\<exists>n \<le> length s. offset = int n \<and> char_boundary s n))
    \<and> (1 \<le> M \<and> cluster_boundary gs n \<and> char_boundary s n \<longrightarrow> FindGraphemeClusterContaining t (int n) M = Inr None)
    \<and> (1 \<le> M \<and> gs = gl @ concat (before @ after) # gr \<and> before \<noteq> [] \<and> after \<noteq> []
        \<and> (\<forall>c \<in> set (before @ after). utf8_char c) \<and> n = length (concat gl) + length (concat before) \<longrightarrow>
        FindGraphemeClusterContaining t (int n) M = Inr (Some (window n (nat M) before after)))"
proof -
  have st: "st_text t = \<lparr>txt_text = s\<rparr>"
    using NewSegmentedText_spec [OF assms(1)] assms(2) by auto
  have valid: "utf8_text s" and gs: "concat gs = s" "\<forall>g \<in> set gs. utf8_text g"
    using segmentation_text [OF assms(1)] assms(1) by (auto simp: segmentation_def)
  have inside: "FindGraphemeClusterContaining t (int n) M = Inr (Some (window n (nat M) before after))"
    if "1 \<le> M" "gs = gl @ concat (before @ after) # gr" "before \<noteq> []" "after \<noteq> []"
      "\<forall>c \<in> set (before @ after). utf8_char c" "n = length (concat gl) + length (concat before)" for n gl before after gr
    using Find_inside [of positions s gl before after gr t "nat M" n] assms that by simp
  have "is_ok (FindGraphemeClusterContaining t (int n) M)" if M: "1 \<le> M" and cb: "char_boundary s n" for n
  proof -
    consider "cluster_boundary gs n" | gl g gr a b where "gs = gl @ g # gr" "g = a @ b" "utf8_text a" "utf8_text b"
        "a \<noteq> []" "b \<noteq> []" "n = length (concat gl) + length a"
      using char_boundary_cases [OF gs(2), of n] cb gs(1) by blast
    then show ?thesis
    proof cases
      case 1
      then show ?thesis
        using Find_boundary [OF assms 1 cb M] by simp
    next
      case 2
      obtain ca cb where c: "concat ca = a" "\<forall>c \<in> set ca. utf8_char c" "concat cb = b" "\<forall>c \<in> set cb. utf8_char c"
        using 2(3,4) by (auto simp: utf8_text_chars)
      then have "ca \<noteq> []" "cb \<noteq> []"
        using 2(5,6) by auto
      then have "FindGraphemeClusterContaining t (int n) M = Inr (Some (window n (nat M) ca cb))"
        using c 2 by (intro inside [OF M, of gl _ _ gr]) auto
      then show ?thesis
        by simp
    qed
  qed
  then show ?thesis
    using Find_panics [OF valid st] Find_boundary [OF assms] inside by blast
qed

text \<open>An \<open>a\<close> with two combining accents is one cluster of three characters; two of them fit into the window.\<close>

theorem FindGraphemeClusterContaining_correct_witness:
  "\<exists>t. NewSegmentedText (\<lambda>_. [(0, 5)]) \<lparr>txt_text = [0x61, 0xCC, 0x81, 0xCC, 0x82]\<rparr> = Inr t
    \<and> FindGraphemeClusterContaining t 1 2 =
        Inr (Some \<lparr>gcw_span = \<lparr>span_start = 0, span_end = 3\<rparr>, gcw_isFullCluster = False\<rparr>)
    \<and> FindGraphemeClusterContaining t 1 3 =
        Inr (Some \<lparr>gcw_span = \<lparr>span_start = 0, span_end = 5\<rparr>, gcw_isFullCluster = True\<rparr>)"
proof -
  let ?s = "[0x61, 0xCC, 0x81, 0xCC, 0x82] :: bytes"
  let ?after = "[[0xCC, 0x81], [0xCC, 0x82]] :: bytes list"
  have chars: "\<forall>c \<in> set ([[0x61]] @ ?after). utf8_char c"
    by simp
  then have "utf8_text ?s"
    using chars_text [of "[[0x61]] @ ?after"] by simp
  then have seg: "segmentation (\<lambda>_. [(0, 5)]) ?s [?s]"
    by (simp add: segmentation_def)
  then obtain t where t: "NewSegmentedText (\<lambda>_. [(0, 5)]) \<lparr>txt_text = ?s\<rparr> = Inr t"
    using NewSegmentedText_spec by blast
  have "FindGraphemeClusterContaining t (int 1) M = Inr (Some (window 1 (nat M) [[0x61]] ?after))" if "1 \<le> M" for M
    using FindGraphemeClusterContaining_correct [OF seg t, of _ M 1 "[]" "[[0x61]]" ?after "[]"] chars that by simp
  from this [of 2] this [of 3] t show ?thesis
    by (simp add: window_def)
qed

end
