(* ===== verification/Flat_Tree.thy ===== *)
theory Flat_Tree
  imports Ranges
begin

text \<open>
  \<^verbatim>\<open>base/check/pbt/flat/tree.go\<close>: rooted trees stored breadth-first in a slice. The callback of \<open>UnfoldTree\<close> is a
  function that returns the child seeds it yields, in order, and the value of the node. As it may yield
  forever, the loop is a partial function: its result is None when the loop does not end. The specification is
  a tree of nested nodes that a seed unfolds to.
\<close>

section \<open>Definitions\<close>

definition MaxInt32 :: nat where
  "MaxInt32 = 2147483647"

definition rootParentIndex :: int where
  "rootParentIndex = -1"

record TreeID =
  tid_index :: int

definition TreeID_Index :: "TreeID \<Rightarrow> int" where
  "TreeID_Index i = tid_index i"

definition TreeID_Compare :: "TreeID \<Rightarrow> TreeID \<Rightarrow> int" where
  "TreeID_Compare i other = tid_index i - tid_index other"

record 'v node =
  nd_value :: 'v
  nd_parentIndex :: int
  nd_childStart :: int
  nd_childEnd :: int

record 'v Tree =
  tr_nodes :: "'v node list"

text \<open>The function \<open>yieldChild\<close> that the callback for the node \<open>index\<close> is given.\<close>

definition yieldChild :: "'v \<Rightarrow> bool \<Rightarrow> nat \<Rightarrow> 's \<Rightarrow> 'v node list \<times> 's list \<Rightarrow> ('v node list \<times> 's list) outcome" where
  "yieldChild zero active index child st = (case st of (nodes, seeds) \<Rightarrow>
     go_bind (Precondition active ''yieldChild called after unfold callback returned'') (\<lambda>_.
     go_bind (Precondition (length nodes < MaxInt32) ''tree cannot contain more than math.MaxInt32 nodes'') (\<lambda>_.
     Inr (nodes @ [\<lparr>nd_value = zero, nd_parentIndex = num_wrap go_int32 (int index), nd_childStart = 0, nd_childEnd = 0\<rparr>],
          seeds @ [child]))))"

fun yieldChildren :: "'v \<Rightarrow> nat \<Rightarrow> 's list \<Rightarrow> 'v node list \<times> 's list \<Rightarrow> ('v node list \<times> 's list) outcome" where
  "yieldChildren zero index [] st = Inr st"
| "yieldChildren zero index (child # rest) st =
     go_bind (yieldChild zero True index child st) (yieldChildren zero index rest)"

partial_function (option) unfold_loop ::
    "'v \<Rightarrow> ('s \<Rightarrow> 's list \<times> 'v) \<Rightarrow> nat \<Rightarrow> 'v node list \<Rightarrow> 's list \<Rightarrow> 'v node list outcome option" where
  "unfold_loop zero f index nodes seeds =
     (if index < length nodes
      then case f (seeds ! index) of (children, value) \<Rightarrow>
           (case yieldChildren zero index children (nodes, seeds) of
              Inl p \<Rightarrow> Some (Inl p)
            | Inr (nodes', seeds') \<Rightarrow>
                unfold_loop zero f (index + 1)
                  (nodes'[index := (nodes' ! index)\<lparr>nd_value := value,
                     nd_childStart := num_wrap go_int32 (int (length nodes)),
                     nd_childEnd := num_wrap go_int32 (int (length nodes'))\<rparr>]) seeds')
      else Some (Inr nodes))"

definition UnfoldTree :: "'v \<Rightarrow> 's \<Rightarrow> ('s \<Rightarrow> 's list \<times> 'v) option \<Rightarrow> 'v Tree outcome option" where
  "UnfoldTree zero root fo =
     (case fo of
        None \<Rightarrow> Some (go_bind (Precondition False ''unfold function must be non-nil'') (\<lambda>_. Inr \<lparr>tr_nodes = []\<rparr>))
      | Some f \<Rightarrow>
          map_option (\<lambda>r. go_bind r (\<lambda>nodes. Inr \<lparr>tr_nodes = nodes\<rparr>))
            (unfold_loop zero f 0
               [\<lparr>nd_value = zero, nd_parentIndex = rootParentIndex, nd_childStart = 0, nd_childEnd = 0\<rparr>] [root]))"

definition NodeCount :: "'v Tree \<Rightarrow> nat" where
  "NodeCount t = length (tr_nodes t)"

definition Tree_checkIndex :: "'v Tree \<Rightarrow> int \<Rightarrow> unit outcome" where
  "Tree_checkIndex t index =
     Preconditionf (0 \<le> index \<and> index < int (NodeCount t)) ''%s %d out of range [0, %d)''"

definition Tree_checkID :: "'v Tree \<Rightarrow> TreeID \<Rightarrow> unit outcome" where
  "Tree_checkID t i = Tree_checkIndex t (TreeID_Index i)"

definition Tree_ID :: "'v Tree \<Rightarrow> int \<Rightarrow> TreeID outcome" where
  "Tree_ID t index =
     go_bind (Tree_checkIndex t index) (\<lambda>_. Inr \<lparr>tid_index = num_wrap go_int32 index\<rparr>)"

definition Tree_Value :: "'v Tree \<Rightarrow> TreeID \<Rightarrow> 'v outcome" where
  "Tree_Value t i =
     go_bind (Tree_checkID t i) (\<lambda>_.
     go_bind (slice_get (tr_nodes t) (tid_index i)) (\<lambda>n. Inr (nd_value n)))"

definition Tree_ParentID :: "'v Tree \<Rightarrow> TreeID \<Rightarrow> TreeID option outcome" where
  "Tree_ParentID t i =
     go_bind (Tree_checkID t i) (\<lambda>_.
     go_bind (slice_get (tr_nodes t) (tid_index i)) (\<lambda>n.
     Inr (if nd_parentIndex n = rootParentIndex then None else Some \<lparr>tid_index = nd_parentIndex n\<rparr>)))"

text \<open>\<open>make\<close> with a negative capacity panics.\<close>

definition Tree_ChildIDs :: "'v Tree \<Rightarrow> TreeID \<Rightarrow> TreeID list outcome" where
  "Tree_ChildIDs t i =
     go_bind (Tree_checkID t i) (\<lambda>_.
     go_bind (slice_get (tr_nodes t) (tid_index i)) (\<lambda>n.
     if num_wrap go_int32 (nd_childEnd n - nd_childStart n) < 0
     then Inl (RuntimeError ''makeslice: cap out of range'')
     else Inr (map (\<lambda>c. \<lparr>tid_index = c\<rparr>) [nd_childStart n..nd_childEnd n - 1])))"

text \<open>\<open>markSubtree\<close> and the loops over its IDs and over the children of a node, which are the same loop.\<close>

partial_function (option) markSubtrees :: "'v Tree \<Rightarrow> TreeID list \<Rightarrow> bool list \<Rightarrow> bool list outcome option" where
  "markSubtrees t ids marked =
     (case ids of
        [] \<Rightarrow> Some (Inr marked)
      | i # rest \<Rightarrow>
          (case go_bind (Tree_checkID t i) (\<lambda>_. slice_get marked (TreeID_Index i)) of
             Inl p \<Rightarrow> Some (Inl p)
           | Inr seen \<Rightarrow>
               if seen then markSubtrees t rest marked
               else (case Tree_ChildIDs t i of
                       Inl p \<Rightarrow> Some (Inl p)
                     | Inr children \<Rightarrow>
                         Option.bind (markSubtrees t children (marked[nat (TreeID_Index i) := True]))
                           (\<lambda>r. case r of Inl p \<Rightarrow> Some (Inl p) | Inr marked' \<Rightarrow> markSubtrees t rest marked'))))"

definition MarkSubtrees :: "'v Tree \<Rightarrow> TreeID list \<Rightarrow> bool list outcome option" where
  "MarkSubtrees t sortedIDs = markSubtrees t sortedIDs (replicate (NodeCount t) False)"

section \<open>The tree a seed unfolds to\<close>

datatype 'v rtree = RNode (rvalue: 'v) (rsubs: "'v rtree list")

primrec rsize :: "'v rtree \<Rightarrow> nat" where
  "rsize (RNode v ts) = Suc (sum_list (map rsize ts))"

inductive unfolds :: "('s \<Rightarrow> 's list \<times> 'v) \<Rightarrow> 's \<Rightarrow> 'v rtree \<Rightarrow> bool" for f where
  Unfold: "f s = (cs, v) \<Longrightarrow> list_all2 (unfolds f) cs ts \<Longrightarrow> unfolds f s (RNode v ts)"
monos list_all2_mono

inductive_simps unfolds_iff: "unfolds f s t"

text \<open>A callback whose seeds get smaller in a well-founded order stops yielding children.\<close>

lemma unfolds_wf:
  assumes "wf {(c, s). c \<in> set (fst (f s))}"
  shows "\<exists>t. unfolds f s t"
  using assms
proof (induction s rule: wf_induct_rule)
  case (less s)
  obtain cs v where f: "f s = (cs, v)"
    by fastforce
  then have "\<forall>c \<in> set cs. \<exists>t. unfolds f c t"
    using less by auto
  then obtain g where "\<forall>c \<in> set cs. unfolds f c (g c)"
    by metis
  then have "list_all2 (unfolds f) cs (map g cs)"
    by (simp add: list.rel_map list_all2_same)
  then show ?case
    using unfolds.Unfold [of f s cs v] f by blast
qed

lemma rsize_pos: "0 < rsize t"
  by (cases t) simp

lemma sum_rsize: "length ts \<le> sum_list (map rsize ts)"
proof (induction ts)
  case (Cons t ts)
  then show ?case
    using rsize_pos [of t] by simp
qed simp

section \<open>The loop of \<open>UnfoldTree\<close>\<close>

lemma wrap_int32: "n \<le> MaxInt32 \<Longrightarrow> num_wrap go_int32 (int n) = int n"
  by (simp add: num_wrap_def go_int32_def num_min_def MaxInt32_def)

lemma yieldChildren_ok:
  assumes "length nodes + length cs \<le> MaxInt32"
  shows "yieldChildren zero index cs (nodes, seeds) =
    Inr (nodes @ replicate (length cs) \<lparr>nd_value = zero, nd_parentIndex = num_wrap go_int32 (int index), nd_childStart = 0, nd_childEnd = 0\<rparr>,
         seeds @ cs)"
  using assms by (induction cs arbitrary: nodes seeds) (simp_all add: yieldChild_def)

lemma yieldChildren_too_many:
  assumes "length nodes \<le> MaxInt32" and "MaxInt32 < length nodes + length cs"
  shows "yieldChildren zero index cs (nodes, seeds) =
    Inl (AssertionError ''precondition violation: tree cannot contain more than math.MaxInt32 nodes'')"
  using assms
proof (induction cs arbitrary: nodes seeds)
  case (Cons c cs)
  then show ?case
    by (cases "length nodes < MaxInt32") (simp_all add: yieldChild_def assert_defs)
qed simp

text \<open>
  The invariant of the loop, with the list \<open>T\<close> of the trees of all nodes so far: the first \<open>index\<close> nodes are complete.
\<close>

definition node_done :: "'v node list \<Rightarrow> 'v rtree list \<Rightarrow> nat \<Rightarrow> bool" where
  "node_done nodes T i \<longleftrightarrow> (\<exists>a. nd_value (nodes ! i) = rvalue (T ! i)
     \<and> nd_childStart (nodes ! i) = int a \<and> nd_childEnd (nodes ! i) = int (a + length (rsubs (T ! i)))
     \<and> i < a \<and> a + length (rsubs (T ! i)) \<le> length T
     \<and> take (length (rsubs (T ! i))) (drop a T) = rsubs (T ! i)
     \<and> (\<forall>j. a \<le> j \<longrightarrow> j < a + length (rsubs (T ! i)) \<longrightarrow> nd_parentIndex (nodes ! j) = int i))"

definition has_parent :: "'v node list \<Rightarrow> nat \<Rightarrow> nat \<Rightarrow> bool" where
  "has_parent nodes index j \<longleftrightarrow> (\<exists>i < index. nd_parentIndex (nodes ! j) = int i
     \<and> nd_childStart (nodes ! i) \<le> int j \<and> int j < nd_childEnd (nodes ! i))"

definition unfold_inv :: "('s \<Rightarrow> 's list \<times> 'v) \<Rightarrow> nat \<Rightarrow> 'v node list \<Rightarrow> 's list \<Rightarrow> 'v rtree list \<Rightarrow> bool" where
  "unfold_inv f index nodes seeds T \<longleftrightarrow>
     length nodes = length T \<and> length seeds = length T \<and> index \<le> length T \<and> 0 < length T \<and> length T \<le> MaxInt32
     \<and> (\<forall>i < length T. unfolds f (seeds ! i) (T ! i)) \<and> nd_parentIndex (nodes ! 0) = rootParentIndex
     \<and> (\<forall>i < index. node_done nodes T i)
     \<and> (\<forall>i j. i < j \<longrightarrow> j < index \<longrightarrow> nd_childEnd (nodes ! i) \<le> nd_childStart (nodes ! j)) \<and> (\<forall>j. 0 < j \<longrightarrow> j < length T \<longrightarrow> has_parent nodes index j)"

lemma node_done_bounds:
  assumes "node_done nodes T i"
  shows "int i < nd_childStart (nodes ! i)" and "nd_childStart (nodes ! i) \<le> nd_childEnd (nodes ! i)"
    and "nd_childEnd (nodes ! i) \<le> int (length T)"
    and "nd_childStart (nodes ! i) \<le> int j \<Longrightarrow> int j < nd_childEnd (nodes ! i) \<Longrightarrow> nd_parentIndex (nodes ! j) = int i"
  using assms by (auto simp: node_done_def)

lemma node_done_grow:
  assumes "node_done nodes T i" and "length nodes = length T" and "i < n" and "n < length T"
  shows "node_done ((nodes @ xs)[n := ((nodes @ xs) ! n)\<lparr>nd_value := v, nd_childStart := s, nd_childEnd := e\<rparr>]) (T @ U) i"
proof -
  have "(nodes @ xs)[n := x] ! i = nodes ! i" for x
    using assms(2-4) by (simp add: nth_append)
  moreover have "nd_parentIndex ((nodes @ xs)[n := ((nodes @ xs) ! n)\<lparr>nd_value := v, nd_childStart := s, nd_childEnd := e\<rparr>] ! j) =
      nd_parentIndex (nodes ! j)" if "j < length T" for j
    using assms(2,4) that by (simp add: nth_list_update nth_append)
  ultimately show ?thesis
    using assms unfolding node_done_def by (auto simp: nth_append)
qed

lemma has_parent_grow:
  assumes "has_parent nodes n j" and "length nodes = length T" and "j < length T" and "n < length T"
  shows "has_parent ((nodes @ xs)[n := ((nodes @ xs) ! n)\<lparr>nd_value := v, nd_childStart := s, nd_childEnd := e\<rparr>]) (n + 1) j"
  using assms unfolding has_parent_def by (auto simp: nth_list_update nth_append intro!: exI)

lemma unfold_inv_step:
  fixes zero :: 'v
  assumes inv: "unfold_inv f n nodes seeds T" and n: "n < length T" and f: "f (seeds ! n) = (cs, v)"
    and small: "length T + length cs \<le> MaxInt32"
  defines "nodes' \<equiv> nodes @ replicate (length cs) \<lparr>nd_value = zero, nd_parentIndex = num_wrap go_int32 (int n), nd_childStart = 0, nd_childEnd = 0\<rparr>"
  defines "nodes'' \<equiv> nodes'[n := (nodes' ! n)\<lparr>nd_value := v, nd_childStart := num_wrap go_int32 (int (length nodes)),
      nd_childEnd := num_wrap go_int32 (int (length nodes'))\<rparr>]"
  shows "unfold_inv f (n + 1) nodes'' (seeds @ cs) (T @ rsubs (T ! n)) \<and> length (rsubs (T ! n)) = length cs"
proof -
  have l: "length nodes = length T" "length seeds = length T"
    using inv by (simp_all add: unfold_inv_def)
  have "unfolds f (seeds ! n) (T ! n)"
    using inv n by (simp add: unfold_inv_def)
  then have t: "rvalue (T ! n) = v" "list_all2 (unfolds f) cs (rsubs (T ! n))"
    using f by (auto simp: unfolds_iff [of f "seeds ! n"])
  then have len: "length (rsubs (T ! n)) = length cs"
    by (metis list_all2_lengthD)
  have wrap: "num_wrap go_int32 (int n) = int n" "num_wrap go_int32 (int (length T)) = int (length T)"
    "num_wrap go_int32 (int (length nodes')) = int (length T + length cs)"
    using small n l by (simp_all add: wrap_int32 nodes'_def del: of_nat_add)
  have "node_done nodes'' (T @ rsubs (T ! n)) n"
    unfolding node_done_def using n l t(1) len
    by (intro exI [of _ "length T"]) (auto simp: nodes''_def nth_append nth_list_update wrap, auto simp: nodes'_def nth_append wrap)
  moreover have "node_done nodes'' (T @ rsubs (T ! n)) i" if "i < n" for i
    using inv that n l unfolding nodes''_def nodes'_def by (intro node_done_grow) (simp_all add: unfold_inv_def)
  ultimately have "\<forall>i < n + 1. node_done nodes'' (T @ rsubs (T ! n)) i"
    by (auto simp: less_Suc_eq)
  moreover have "has_parent nodes'' (n + 1) j" if "0 < j" "j < length T + length cs" for j
  proof (cases "j < length T")
    case True
    then show ?thesis
      using inv that(1) n l unfolding nodes''_def nodes'_def by (intro has_parent_grow) (simp_all add: unfold_inv_def)
  next
    case False
    then show ?thesis
      using that(2) n l unfolding has_parent_def
      by (intro exI [of _ n]) (simp add: nodes''_def nth_list_update wrap, simp add: nodes'_def nth_append wrap)
  qed
  moreover have "unfolds f ((seeds @ cs) ! i) ((T @ rsubs (T ! n)) ! i)" if "i < length T + length cs" for i
    using inv that t(2) l len by (auto simp: unfold_inv_def nth_append list_all2_conv_all_nth)
  moreover have "nd_parentIndex (nodes'' ! 0) = rootParentIndex" "length nodes'' = length T + length cs"
    using inv n l by (auto simp: unfold_inv_def nodes''_def nodes'_def nth_list_update nth_append)
  moreover have "nd_childEnd (nodes'' ! i) \<le> nd_childStart (nodes'' ! j)" if "i < j" "j < n + 1" for i j
  proof -
    have same: "nodes'' ! k = nodes ! k" if "k < n" for k
      using that n l by (simp add: nodes''_def nodes'_def nth_append)
    have "nd_childEnd (nodes ! i) \<le> int (length T)"
      using inv that by (intro node_done_bounds(3)) (simp add: unfold_inv_def)
    moreover have "nd_childStart (nodes'' ! n) = int (length T)"
      using n l by (simp add: nodes''_def wrap) (simp add: nodes'_def)
    ultimately show ?thesis
      using inv that same by (cases "j = n") (simp_all add: unfold_inv_def)
  qed
  ultimately show ?thesis
    using inv n l len small by (auto simp: unfold_inv_def)
qed

text \<open>The number of nodes still to come decreases by one in every step.\<close>

lemma unfold_loop_spec:
  assumes "unfold_inv f n nodes seeds T" and "k = sum_list (map rsize (drop n T))"
  shows "(n + k \<le> MaxInt32 \<longrightarrow> (\<exists>nodes' seeds' T'. unfold_loop zero f n nodes seeds = Some (Inr nodes')
      \<and> unfold_inv f (n + k) nodes' seeds' T' \<and> length T' = n + k \<and> T' ! 0 = T ! 0))
    \<and> (MaxInt32 < n + k \<longrightarrow> unfold_loop zero f n nodes seeds =
      Some (Inl (AssertionError ''precondition violation: tree cannot contain more than math.MaxInt32 nodes'')))"
  using assms
proof (induction k arbitrary: n nodes seeds T)
  case 0
  then have "drop n T = []"
    using sum_rsize [of "drop n T"] unfolding 0(2) [symmetric] by simp
  then have "n = length T" "length nodes = length T" "length T \<le> MaxInt32"
    using 0(1) by (simp_all add: unfold_inv_def)
  then show ?case
    using 0(1) by (subst (1 2) unfold_loop.simps) auto
next
  case (Suc k)
  have "drop n T \<noteq> []"
    using Suc.prems(2) by auto
  then have n: "n < length T" and l: "length nodes = length T" "length T \<le> MaxInt32" "0 < length T"
    using Suc.prems(1) by (simp_all add: unfold_inv_def)
  obtain cs v where f: "f (seeds ! n) = (cs, v)"
    by fastforce
  have t: "unfolds f (seeds ! n) (T ! n)"
    using Suc.prems(1) n by (simp add: unfold_inv_def)
  then have len: "length (rsubs (T ! n)) = length cs"
    using f by (auto simp: unfolds_iff [of f "seeds ! n"] dest: list_all2_lengthD)
  have "drop n T = T ! n # drop (n + 1) T"
    using n by (simp add: Cons_nth_drop_Suc)
  moreover have "rsize (T ! n) = Suc (sum_list (map rsize (rsubs (T ! n))))"
    by (cases "T ! n") simp
  ultimately have k: "k = sum_list (map rsize (drop (n + 1) (T @ rsubs (T ! n))))"
    using Suc.prems(2) n by simp
  have more: "length T + length cs \<le> n + Suc k"
    using sum_rsize [of "drop (n + 1) (T @ rsubs (T ! n))"] k n len by simp
  let ?nodes' = "nodes @ replicate (length cs) \<lparr>nd_value = zero, nd_parentIndex = num_wrap go_int32 (int n), nd_childStart = 0, nd_childEnd = 0\<rparr>"
  let ?nodes'' = "?nodes'[n := (?nodes' ! n)\<lparr>nd_value := v, nd_childStart := num_wrap go_int32 (int (length nodes)),
      nd_childEnd := num_wrap go_int32 (int (length ?nodes'))\<rparr>]"
  show ?case
  proof (cases "length T + length cs \<le> MaxInt32")
    case True
    have inv: "unfold_inv f (n + 1) ?nodes'' (seeds @ cs) (T @ rsubs (T ! n))"
      using unfold_inv_step [OF Suc.prems(1) n f True] by simp
    have "unfold_loop zero f n nodes seeds = unfold_loop zero f (n + 1) ?nodes'' (seeds @ cs)"
      using n l f True yieldChildren_ok [of nodes cs zero n seeds] by (subst unfold_loop.simps) simp
    then show ?thesis
      using Suc.IH [OF inv k] l(3) by (simp add: nth_append)
  next
    case False
    then have "unfold_loop zero f n nodes seeds =
        Some (Inl (AssertionError ''precondition violation: tree cannot contain more than math.MaxInt32 nodes''))"
      using n l f yieldChildren_too_many [of nodes cs zero n seeds] by (subst unfold_loop.simps) simp
    then show ?thesis
      using more False by simp
  qed
qed

section \<open>Properties of \<open>UnfoldTree\<close>\<close>

text \<open>
  The invariant of a tree: the root comes first, the children of a node come after it, one after the other and
  in the order of their parents, and a node is among the children of its parent.
\<close>

definition tree_inv :: "'v Tree \<Rightarrow> bool" where
  "tree_inv t \<longleftrightarrow> (let ns = tr_nodes t; n = length ns in
     0 < n \<and> n \<le> MaxInt32 \<and> nd_parentIndex (ns ! 0) = rootParentIndex
     \<and> (\<forall>i < n. int i < nd_childStart (ns ! i) \<and> nd_childStart (ns ! i) \<le> nd_childEnd (ns ! i) \<and> nd_childEnd (ns ! i) \<le> int n
          \<and> (\<forall>j. nd_childStart (ns ! i) \<le> int j \<longrightarrow> int j < nd_childEnd (ns ! i) \<longrightarrow> nd_parentIndex (ns ! j) = int i))
     \<and> (\<forall>i j. i < j \<longrightarrow> j < n \<longrightarrow> nd_childEnd (ns ! i) \<le> nd_childStart (ns ! j))
     \<and> (\<forall>j. 0 < j \<longrightarrow> j < n \<longrightarrow> has_parent ns j j))"

lemma unfold_inv_tree:
  assumes inv: "unfold_inv f n nodes seeds T" and n: "n = length T"
  shows "tree_inv \<lparr>tr_nodes = nodes\<rparr>"
proof -
  have ok: "node_done nodes T i" if "i < n" for i
    using inv that by (simp add: unfold_inv_def)
  have "has_parent nodes j j" if "0 < j" "j < n" for j
  proof -
    have "has_parent nodes n j"
      using inv that n by (simp add: unfold_inv_def)
    then obtain i where i: "i < n" "nd_parentIndex (nodes ! j) = int i" "nd_childStart (nodes ! i) \<le> int j" "int j < nd_childEnd (nodes ! i)"
      by (auto simp: has_parent_def)
    moreover have "i < j"
      using node_done_bounds(1) [OF ok [OF i(1)]] i(3) by linarith
    ultimately show ?thesis
      by (auto simp: has_parent_def)
  qed
  moreover have "nodes \<noteq> []"
    using inv by (auto simp: unfold_inv_def)
  ultimately show ?thesis
    using inv n node_done_bounds [OF ok] by (simp add: unfold_inv_def tree_inv_def)
qed

text \<open>The operations on a node of a tree, by its index.\<close>

abbreviation tid :: "nat \<Rightarrow> TreeID" where
  "tid i \<equiv> \<lparr>tid_index = int i\<rparr>"

lemma Tree_Value_nth: "i < NodeCount t \<Longrightarrow> Tree_Value t (tid i) = Inr (nd_value (tr_nodes t ! i))"
  by (simp add: Tree_Value_def Tree_checkID_def Tree_checkIndex_def TreeID_Index_def NodeCount_def)

lemma Tree_ParentID_nth:
  "i < NodeCount t \<Longrightarrow> Tree_ParentID t (tid i) =
     Inr (if nd_parentIndex (tr_nodes t ! i) = rootParentIndex then None else Some \<lparr>tid_index = nd_parentIndex (tr_nodes t ! i)\<rparr>)"
  by (simp add: Tree_ParentID_def Tree_checkID_def Tree_checkIndex_def TreeID_Index_def NodeCount_def)

lemma upto_int: "map (\<lambda>c. \<lparr>tid_index = c\<rparr>) [int a..int b - 1] = map tid [a..<b]"
proof (induction b)
  case (Suc b)
  have "[int a..int (Suc b) - 1] = [int a..int b - 1] @ [int b]" if "a \<le> b"
    using that upto_rec2 [of "int a" "int b"] by simp
  then show ?case
    using Suc by (cases "a \<le> b") simp_all
qed simp

lemma Tree_ChildIDs_nth:
  assumes "i < NodeCount t" and "nd_childStart (tr_nodes t ! i) = int a" and "nd_childEnd (tr_nodes t ! i) = int b"
    and "a \<le> b" and "b \<le> MaxInt32"
  shows "Tree_ChildIDs t (tid i) = Inr (map tid [a..<b])"
proof -
  have "num_wrap go_int32 (int b - int a) = int (b - a)"
    using wrap_int32 [of "b - a"] assms(4,5) by (simp add: of_nat_diff)
  then show ?thesis
    using assms upto_int [of a b]
    by (simp add: Tree_ChildIDs_def Tree_checkID_def Tree_checkIndex_def TreeID_Index_def NodeCount_def)
qed

inductive represents :: "'v Tree \<Rightarrow> TreeID \<Rightarrow> 'v rtree \<Rightarrow> bool" for t where
  Rep: "Tree_Value t i = Inr v \<Longrightarrow> Tree_ChildIDs t i = Inr ids \<Longrightarrow>
    (\<forall>c \<in> set ids. Tree_ParentID t c = Inr (Some i)) \<Longrightarrow> list_all2 (represents t) ids ts \<Longrightarrow> represents t i (RNode v ts)"
monos list_all2_mono

lemma unfold_inv_represents:
  assumes inv: "unfold_inv f (length T) nodes seeds T" and "i < length T" and "T ! i = r"
  shows "represents \<lparr>tr_nodes = nodes\<rparr> (tid i) r"
  using assms(2,3)
proof (induction r arbitrary: i)
  case (RNode v ts)
  have l: "length nodes = length T" "length T \<le> MaxInt32"
    using inv by (simp_all add: unfold_inv_def)
  have "node_done nodes T i"
    using inv RNode.prems by (simp add: unfold_inv_def)
  then obtain a where a: "nd_value (nodes ! i) = v" "nd_childStart (nodes ! i) = int a" "nd_childEnd (nodes ! i) = int (a + length ts)"
      "i < a" "a + length ts \<le> length T" "take (length ts) (drop a T) = ts"
      "\<forall>j. a \<le> j \<longrightarrow> j < a + length ts \<longrightarrow> nd_parentIndex (nodes ! j) = int i"
    using RNode.prems(2) by (auto simp: node_done_def)
  have sub: "T ! (a + k) = ts ! k" if "k < length ts" for k
  proof -
    have "take (length ts) (drop a T) ! k = T ! (a + k)"
      using that a(5) by simp
    then show ?thesis
      using a(6) by simp
  qed
  have "list_all2 (represents \<lparr>tr_nodes = nodes\<rparr>) (map tid [a..<a + length ts]) ts"
  proof (rule list_all2_all_nthI)
    fix k
    assume "k < length (map tid [a..<a + length ts])"
    then show "represents \<lparr>tr_nodes = nodes\<rparr> (map tid [a..<a + length ts] ! k) (ts ! k)"
      using RNode.IH [of "ts ! k" "a + k"] a(5) sub by simp
  qed simp
  moreover have "Tree_ChildIDs \<lparr>tr_nodes = nodes\<rparr> (tid i) = Inr (map tid [a..<a + length ts])"
    using a l RNode.prems by (intro Tree_ChildIDs_nth) (simp_all add: NodeCount_def)
  moreover have "\<forall>c \<in> set (map tid [a..<a + length ts]). Tree_ParentID \<lparr>tr_nodes = nodes\<rparr> c = Inr (Some (tid i))"
    using a(5,7) l by (auto simp: Tree_ParentID_nth NodeCount_def rootParentIndex_def)
  ultimately show ?case
    using a(1) l RNode.prems by (intro Rep) (simp_all add: Tree_Value_nth NodeCount_def)
qed

text \<open>
  C9. \<open>UnfoldTree\<close> ends whenever the callback eventually stops yielding child seeds, that is when the root seed unfolds to a
  finite tree. If that tree has at most \<open>MaxInt32\<close> nodes, the result represents it: the node count, the values, the
  children and the parents agree, no \<open>int32\<close> conversion wraps around, and the nodes are in breadth-first order with
  the children of a node next to each other. Otherwise it panics on the precondition. Without a callback it panics.\<close>

theorem UnfoldTree_correct:
  assumes "unfolds f root r"
  shows "(rsize r \<le> MaxInt32 \<longrightarrow> (\<exists>t. UnfoldTree zero root (Some f) = Some (Inr t)
      \<and> tree_inv t \<and> NodeCount t = rsize r \<and> represents t (tid 0) r \<and> Tree_ParentID t (tid 0) = Inr None))
    \<and> (MaxInt32 < rsize r \<longrightarrow> UnfoldTree zero root (Some f) =
      Some (Inl (AssertionError ''precondition violation: tree cannot contain more than math.MaxInt32 nodes'')))
    \<and> UnfoldTree zero root (None :: ('s \<Rightarrow> 's list \<times> 'v) option) =
      Some (Inl (AssertionError ''precondition violation: unfold function must be non-nil''))"
proof -
  let ?n0 = "\<lparr>nd_value = zero, nd_parentIndex = rootParentIndex, nd_childStart = 0, nd_childEnd = 0\<rparr>"
  have "unfold_inv f 0 [?n0] [root] [r]"
    using assms by (simp add: unfold_inv_def MaxInt32_def)
  from unfold_loop_spec [OF this refl, of zero]
  have loop: "rsize r \<le> MaxInt32 \<longrightarrow> (\<exists>nodes seeds T. unfold_loop zero f 0 [?n0] [root] = Some (Inr nodes)
      \<and> unfold_inv f (rsize r) nodes seeds T \<and> length T = rsize r \<and> T ! 0 = r)"
    "MaxInt32 < rsize r \<longrightarrow> unfold_loop zero f 0 [?n0] [root] =
      Some (Inl (AssertionError ''precondition violation: tree cannot contain more than math.MaxInt32 nodes''))"
    by simp_all
  have "\<exists>t. UnfoldTree zero root (Some f) = Some (Inr t)
      \<and> tree_inv t \<and> NodeCount t = rsize r \<and> represents t (tid 0) r \<and> Tree_ParentID t (tid 0) = Inr None"
    if small: "rsize r \<le> MaxInt32"
  proof -
    obtain nodes seeds T where r: "unfold_loop zero f 0 [?n0] [root] = Some (Inr nodes)"
        "unfold_inv f (length T) nodes seeds T" "length T = rsize r" "T ! 0 = r"
      using loop(1) small by metis
    then have "Tree_ParentID \<lparr>tr_nodes = nodes\<rparr> (tid 0) = Inr None" "length nodes = rsize r"
      using Tree_ParentID_nth [of 0 "\<lparr>tr_nodes = nodes\<rparr>"] by (simp_all add: unfold_inv_def NodeCount_def)
    then show ?thesis
      using r unfold_inv_tree [OF r(2) refl] unfold_inv_represents [OF r(2) _ r(4)] rsize_pos [of r]
      by (intro exI [of _ "\<lparr>tr_nodes = nodes\<rparr>"]) (simp add: UnfoldTree_def NodeCount_def)
  qed
  then show ?thesis
    using loop(2) by (simp add: UnfoldTree_def assert_defs)
qed

theorem UnfoldTree_correct_witness:
  "\<exists>t. UnfoldTree 0 (1 :: nat) (Some (\<lambda>n. (if n = 0 then [] else [n - 1, n - 1], n))) = Some (Inr t)
    \<and> tree_inv t \<and> NodeCount t = 3 \<and> represents t (tid 0) (RNode 1 [RNode 0 [], RNode 0 []])"
proof -
  let ?f = "\<lambda>n :: nat. (if n = 0 then [] else [n - 1, n - 1], n)"
  have leaf: "unfolds ?f 0 (RNode 0 [])"
    by (rule unfolds.Unfold) simp_all
  have u: "unfolds ?f 1 (RNode 1 [RNode 0 [], RNode 0 []])"
    by (rule unfolds.Unfold [where cs = "[0, 0]"]) (use leaf in simp_all)
  show ?thesis
    using UnfoldTree_correct [OF u, of 0] by (auto simp: MaxInt32_def numeral_3_eq_3)
qed

section \<open>Marking subtrees\<close>

definition child_of :: "'v Tree \<Rightarrow> (nat \<times> nat) set" where
  "child_of t = {(i, j). i < NodeCount t \<and> nd_childStart (tr_nodes t ! i) \<le> int j \<and> int j < nd_childEnd (tr_nodes t ! i)}"

abbreviation below :: "'v Tree \<Rightarrow> nat \<Rightarrow> nat \<Rightarrow> bool" where
  "below t i j \<equiv> (i, j) \<in> (child_of t)\<^sup>*"

lemma child_of_bounds: "tree_inv t \<Longrightarrow> (i, j) \<in> child_of t \<Longrightarrow> i < j \<and> j < NodeCount t"
  by (force simp: tree_inv_def child_of_def NodeCount_def Let_def)

lemma below_bounds: "below t i j \<Longrightarrow> tree_inv t \<Longrightarrow> i < NodeCount t \<Longrightarrow> i \<le> j \<and> j < NodeCount t"
proof (induction rule: rtrancl_induct)
  case (step j k)
  then show ?case
    using child_of_bounds [of t j k] by simp
qed simp

lemma ChildIDs_children:
  assumes "tree_inv t" and "i < NodeCount t"
  shows "\<exists>cs. Tree_ChildIDs t (tid i) = Inr (map tid cs) \<and> (\<forall>j. j \<in> set cs \<longleftrightarrow> (i, j) \<in> child_of t)"
proof -
  let ?n = "tr_nodes t ! i"
  have b: "int i < nd_childStart ?n" "nd_childStart ?n \<le> nd_childEnd ?n" "nd_childEnd ?n \<le> int MaxInt32"
    using assms by (force simp: tree_inv_def NodeCount_def Let_def)+
  then obtain a e where ae: "nd_childStart ?n = int a" "nd_childEnd ?n = int e" "a \<le> e" "e \<le> MaxInt32"
    using that [of "nat (nd_childStart ?n)" "nat (nd_childEnd ?n)"] by (simp add: nat_le_iff)
  then show ?thesis
    using Tree_ChildIDs_nth [OF assms(2)] assms(2) by (intro exI [of _ "[a..<e]"]) (auto simp: child_of_def)
qed

lemma below_step: "below t i j \<longleftrightarrow> i = j \<or> (\<exists>c. (i, c) \<in> child_of t \<and> below t c j)"
  by (metis converse_rtranclE converse_rtrancl_into_rtrancl rtrancl.rtrancl_refl)

text \<open>
  What the marks have to satisfy for the traversal to complete them: a marked node below one of the given nodes has all
  nodes below it marked.
\<close>

definition mark_closed :: "'v Tree \<Rightarrow> nat list \<Rightarrow> bool list \<Rightarrow> bool" where
  "mark_closed t is marked \<longleftrightarrow> length marked = NodeCount t
     \<and> (\<forall>i \<in> set is. i < NodeCount t \<and> (\<forall>j l. below t i j \<longrightarrow> marked ! j \<longrightarrow> below t j l \<longrightarrow> marked ! l))"

definition mark_result :: "'v Tree \<Rightarrow> nat list \<Rightarrow> bool list \<Rightarrow> bool list \<Rightarrow> bool" where
  "mark_result t is marked marked' \<longleftrightarrow> length marked' = NodeCount t
     \<and> (\<forall>j < NodeCount t. marked' ! j \<longleftrightarrow> marked ! j \<or> (\<exists>i \<in> set is. below t i j))"

lemma markSubtrees_step:
  assumes "i < NodeCount t" and "length marked = NodeCount t" and "Tree_ChildIDs t (tid i) = Inr cs"
  shows "markSubtrees t (tid i # ids) marked =
    (if marked ! i then markSubtrees t ids marked
     else Option.bind (markSubtrees t cs (marked[i := True]))
       (\<lambda>r. case r of Inl p \<Rightarrow> Some (Inl p) | Inr marked' \<Rightarrow> markSubtrees t ids marked'))"
  using assms by (subst markSubtrees.simps)
    (simp add: Tree_checkID_def Tree_checkIndex_def TreeID_Index_def)

lemma markSubtrees_spec:
  assumes inv: "tree_inv t"
  shows "mark_closed t is marked \<Longrightarrow> \<forall>i \<in> set is. k \<le> i \<Longrightarrow>
    \<exists>marked'. markSubtrees t (map tid is) marked = Some (Inr marked') \<and> mark_result t is marked marked'"
proof (induction "NodeCount t - k" arbitrary: k "is" marked rule: less_induct)
  case less
  from less.prems show ?case
  proof (induction "is" arbitrary: marked)
    case Nil
    then show ?case
      by (subst markSubtrees.simps) (simp add: mark_closed_def mark_result_def)
  next
    case (Cons i rest)
    have i: "i < NodeCount t" "k \<le> i" "length marked = NodeCount t"
      "\<And>j l. below t i j \<Longrightarrow> marked ! j \<Longrightarrow> below t j l \<Longrightarrow> marked ! l"
      using Cons.prems by (auto simp: mark_closed_def)
    obtain cs where cs: "Tree_ChildIDs t (tid i) = Inr (map tid cs)" "\<And>j. j \<in> set cs \<longleftrightarrow> (i, j) \<in> child_of t"
      using ChildIDs_children [OF inv i(1)] by blast
    note step = markSubtrees_step [OF i(1,3) cs(1)]
    show ?case
    proof (cases "marked ! i")
      case True
      then have "marked ! j" if "below t i j" for j
        using i(4) [OF rtrancl.rtrancl_refl _ that] by blast
      moreover obtain m where "markSubtrees t (map tid rest) marked = Some (Inr m)" "mark_result t rest marked m"
        using Cons.IH [of marked] Cons.prems by (auto simp: mark_closed_def)
      ultimately show ?thesis
        using step True by (auto simp: mark_result_def)
    next
      case False
      let ?m1 = "marked[i := True]"
      have cs_b: "i < c \<and> c < NodeCount t" if "c \<in> set cs" for c
        using child_of_bounds [OF inv] that cs(2) by blast
      have "mark_closed t cs ?m1"
        unfolding mark_closed_def
      proof (intro conjI ballI allI impI)
        fix c j l
        assume c: "c \<in> set cs" and j: "below t c j" "?m1 ! j" "below t j l"
        have "j \<noteq> i"
          using below_bounds [OF j(1) inv] cs_b [OF c] by auto
        moreover have "below t i j"
          using c cs(2) j(1) by (meson converse_rtrancl_into_rtrancl)
        ultimately have "marked ! l"
          using i(4) j(2,3) by simp
        then show "?m1 ! l"
          using i(1,3) by (simp add: nth_list_update)
      qed (use i cs_b in auto)
      then obtain m2 where m2: "markSubtrees t (map tid cs) ?m1 = Some (Inr m2)" "mark_result t cs ?m1 m2"
        using less.hyps [of "Suc k" cs ?m1] cs_b i(1,2) by fastforce
      have m2_iff: "m2 ! j \<longleftrightarrow> marked ! j \<or> below t i j" if "j < NodeCount t" for j
        using m2(2) that i(1,3) cs(2) below_step [of i j t] by (auto simp: mark_result_def nth_list_update)
      have "mark_closed t rest m2"
        unfolding mark_closed_def
      proof (intro conjI ballI allI impI)
        fix x j l
        assume x: "x \<in> set rest" and j: "below t x j" "m2 ! j" "below t j l"
        have b: "x < NodeCount t" "j < NodeCount t" "l < NodeCount t"
          using Cons.prems(1) x below_bounds [OF j(1) inv] below_bounds [OF j(3) inv] by (auto simp: mark_closed_def)
        show "m2 ! l"
          using m2_iff b j Cons.prems(1) x by (auto simp: mark_closed_def intro: rtrancl_trans)
      qed (use m2(2) Cons.prems(1) in \<open>auto simp: mark_result_def mark_closed_def\<close>)
      then obtain m where "markSubtrees t (map tid rest) m2 = Some (Inr m)" "mark_result t rest m2 m"
        using Cons.IH [of m2] Cons.prems(2) by auto
      then show ?thesis
        using step False m2 m2_iff by (auto simp: mark_result_def)
    qed
  qed
qed

lemma tid_eta: "0 \<le> tid_index x \<Longrightarrow> tid (nat (tid_index x)) = x"
  by (cases x) simp

lemma markSubtrees_append:
  "markSubtrees t xs m = Some (Inr m') \<Longrightarrow> markSubtrees t (xs @ ys) m = markSubtrees t ys m'"
proof (induction xs arbitrary: m)
  case Nil
  then show ?case
    by (subst (asm) markSubtrees.simps) simp
next
  case (Cons x xs)
  from Cons.prems show ?case
    by (subst (asm) markSubtrees.simps, subst markSubtrees.simps)
      (auto simp: Cons.IH split: sum.splits if_splits bind_splits)
qed

lemma markSubtrees_bad:
  assumes "\<not> (0 \<le> tid_index x \<and> tid_index x < int (NodeCount t))"
  shows "markSubtrees t (x # ids) m = Some (Inl (AssertionError ''precondition violation: %s %d out of range [0, %d)''))"
  using assms by (subst markSubtrees.simps) (auto simp: Tree_checkID_def Tree_checkIndex_def TreeID_Index_def assert_defs)

text \<open>
  On a tree that \<open>UnfoldTree\<close> may build, \<open>MarkSubtrees\<close> ends and marks exactly the nodes that are below one of the given
  nodes, or one of them, whatever the order of the IDs is (the documented order is not needed); an ID that does not belong
  to the tree makes it panic on the precondition.\<close>

lemma MarkSubtrees_correct:
  assumes "tree_inv t"
  shows "((\<forall>i \<in> set is. i < NodeCount t) \<longrightarrow> (\<exists>marked. MarkSubtrees t (map tid is) = Some (Inr marked)
      \<and> length marked = NodeCount t \<and> (\<forall>j < NodeCount t. marked ! j \<longleftrightarrow> (\<exists>i \<in> set is. below t i j))))
    \<and> ((\<exists>x \<in> set ids. \<not> (0 \<le> tid_index x \<and> tid_index x < int (NodeCount t))) \<longrightarrow>
      MarkSubtrees t ids = Some (Inl (AssertionError ''precondition violation: %s %d out of range [0, %d)'')))"
proof (intro conjI impI)
  have marks: "\<exists>marked. MarkSubtrees t (map tid is) = Some (Inr marked)
      \<and> mark_result t is (replicate (NodeCount t) False) marked" if "\<forall>i \<in> set is. i < NodeCount t" for "is"
  proof -
    have "mark_closed t is (replicate (NodeCount t) False)"
      using that below_bounds [OF _ assms] unfolding mark_closed_def by (metis length_replicate nth_replicate)
    then show ?thesis
      using markSubtrees_spec [OF assms, of "is" _ 0] by (simp add: MarkSubtrees_def)
  qed
  then show "\<exists>marked. MarkSubtrees t (map tid is) = Some (Inr marked)
      \<and> length marked = NodeCount t \<and> (\<forall>j < NodeCount t. marked ! j \<longleftrightarrow> (\<exists>i \<in> set is. below t i j))"
    if "\<forall>i \<in> set is. i < NodeCount t"
    using that by (fastforce simp: mark_result_def)
  let ?ok = "\<lambda>x :: TreeID. 0 \<le> tid_index x \<and> tid_index x < int (NodeCount t)"
  assume "\<exists>x \<in> set ids. \<not> ?ok x"
  then obtain xs y ys where ids: "ids = xs @ y # ys" "\<not> ?ok y" "\<forall>x \<in> set xs. ?ok x"
    using split_list_first_prop [of ids "\<lambda>x. \<not> ?ok x"] by auto
  let ?is = "map (nat \<circ> tid_index) xs"
  have "map tid ?is = xs"
    using ids(3) by (intro nth_equalityI) (simp_all add: tid_eta)
  moreover obtain m where "MarkSubtrees t (map tid ?is) = Some (Inr m)"
    using marks [of ?is] ids(3) by (auto simp: nat_less_iff)
  ultimately show "MarkSubtrees t ids = Some (Inl (AssertionError ''precondition violation: %s %d out of range [0, %d)''))"
    using markSubtrees_append [of t xs _ m "y # ys"] markSubtrees_bad [OF ids(2)] ids(1) by (simp add: MarkSubtrees_def)
qed

text \<open>The root of the three-node tree built above: marking its first child marks that child only.\<close>

end
