(* ===== verification/Fsx_Walk.thy ===== *)
theory Fsx_Walk
  imports Fsx
begin

text \<open>
  \<^verbatim>\<open>base/fsx/fsx_walk\<close>: walking a directory tree with nested \<open>.gitignore\<close> files. The file system is the
  record \<open>FS\<close> of theory Fsx; the package \<^verbatim>\<open>go-gitignore\<close> is the record \<open>GitIgnore\<close>. The iterator
  of a directory is the record \<open>walkDirSeq\<close> the source builds it from, run by \<open>iterate\<close>.
\<close>

section \<open>The interfaces\<close>

record gi_Match =
  gm_Ignore :: bool
  gm_Line :: int
  gm_Column :: int
  gm_String :: string

record gi_Error =
  ge_Zero :: bool
  ge_String :: string
  ge_Line :: int
  ge_Column :: int
  ge_Underlying :: string

text \<open>
  Of the position of an error \<open>ge_Zero\<close> is \<open>Zero()\<close> and \<open>ge_String\<close> its string; \<open>ge_Underlying\<close> is the text of the underlying error.
  \<open>New(content, base, handler)\<close> gives the errors passed to the handler and the matcher; \<open>Relative\<close> gives nil or a match.
\<close>

record 'm GitIgnore =
  gi_New :: "string \<Rightarrow> string \<Rightarrow> gi_Error list \<times> 'm"
  gi_Relative :: "'m \<Rightarrow> string \<Rightarrow> bool \<Rightarrow> gi_Match option"

section \<open>Errors\<close>

datatype WalkErrorKind =
    WalkErrorKind_IOFailed | WalkErrorKind_RootNotDir | WalkErrorKind_ParseGitIgnore
  | WalkErrorKind_FSRootNotRepo | WalkErrorKind_RootIsIgnored

record GitIgnoreParseErrors =
  gp_errs :: "gi_Error list"
  gp_snippets :: "Snippet list"

datatype 'e WalkCause = FSCause 'e | ParseCause GitIgnoreParseErrors

record 'e WalkError =
  we_kind :: WalkErrorKind
  we_path :: AbsPath
  we_err :: "'e WalkCause option"
  we_gitignorePattern :: "Snippet option"

definition newWalkError :: "WalkErrorKind \<Rightarrow> AbsPath \<Rightarrow> 'e WalkError" where
  "newWalkError kind path = \<lparr>we_kind = kind, we_path = path, we_err = None, we_gitignorePattern = None\<rparr>"

definition withErr :: "'e WalkError \<Rightarrow> 'e WalkCause \<Rightarrow> 'e WalkError outcome" where
  "withErr e err =
     go_bind (Preconditionf (we_err e = None) ''overwriting existing error: %v'') (\<lambda>_.
     Inr (e\<lparr>we_err := Some err\<rparr>))"

definition withGitIgnorePattern :: "'e WalkError \<Rightarrow> Snippet \<Rightarrow> 'e WalkError outcome" where
  "withGitIgnorePattern e pattern =
     go_bind (Preconditionf (we_gitignorePattern e = None) ''overwriting existing gitignore pattern: %v'') (\<lambda>_.
     Inr (e\<lparr>we_gitignorePattern := Some pattern\<rparr>))"

definition GitIgnorePattern :: "'e WalkError \<Rightarrow> Snippet outcome" where
  "GitIgnorePattern e =
     go_bind (Preconditionf (we_kind e = WalkErrorKind_RootIsIgnored) ''GitIgnorePattern() called on WalkError kind %v'') (\<lambda>_.
     case we_gitignorePattern e of
       None \<Rightarrow> go_bind (Invariant False ''gitignorePattern not initialized'')
                 (\<lambda>_. Inr \<lparr>sn_Path = \<lparr>rp_value = []\<rparr>, sn_Position = \<lparr>pos_line = 0, pos_column = 0\<rparr>, sn_Text = []\<rparr>)
     | Some pattern \<Rightarrow> Inr pattern)"

text \<open>The message; \<open>errString\<close> is what \<open>%v\<close> prints for the underlying error and \<open>quote\<close> the verb \<open>%q\<close>.\<close>

definition WalkError_Error :: "('e WalkCause option \<Rightarrow> string) \<Rightarrow> (string \<Rightarrow> string) \<Rightarrow> 'e WalkError \<Rightarrow> string outcome" where
  "WalkError_Error errString quote e =
     (let path = ap_value (we_path e)
      in case we_kind e of
           WalkErrorKind_IOFailed \<Rightarrow> Inr (path @ '': '' @ errString (we_err e))
         | WalkErrorKind_RootNotDir \<Rightarrow> Inr (''walk root '' @ path @ '' is not a directory'')
         | WalkErrorKind_ParseGitIgnore \<Rightarrow> Inr (''parse '' @ path @ '': '' @ errString (we_err e))
         | WalkErrorKind_FSRootNotRepo \<Rightarrow> Inr (''filesystem root '' @ path @ '' is not a git repository root'')
         | WalkErrorKind_RootIsIgnored \<Rightarrow>
             go_bind (GitIgnorePattern e) (\<lambda>pattern.
             Inr (''walk root '' @ path @ '' is excluded by ancestor .gitignore pattern '' @ quote (sn_Text pattern)
                  @ '' at '' @ FilePosition_String (Snippet_FilePosition pattern))))"

fun snippets_loop :: "RelPath \<Rightarrow> string list \<Rightarrow> gi_Error list \<Rightarrow> Snippet list \<Rightarrow> Snippet list outcome" where
  "snippets_loop ignoreFile lines [] snippets = Inr snippets"
| "snippets_loop ignoreFile lines (err # errs) snippets =
     (if ge_Zero err then snippets_loop ignoreFile lines errs snippets
      else let lineIndex = ge_Line err - 1
           in go_bind (Invariantf (0 \<le> lineIndex \<and> lineIndex < int (length lines)) ''gitignore error position %s outside source'') (\<lambda>_.
              go_bind (NewPosition (num_wrap go_int32 (ge_Line err)) (num_wrap go_int32 (ge_Column err))) (\<lambda>position.
              go_bind (slice_get lines lineIndex) (\<lambda>text.
              snippets_loop ignoreFile lines errs
                (snippets @ [\<lparr>sn_Path = ignoreFile, sn_Position = position, sn_Text = text\<rparr>])))))"

definition gitIgnoreErrorSnippets :: "RelPath \<Rightarrow> string \<Rightarrow> gi_Error list \<Rightarrow> Snippet list outcome" where
  "gitIgnoreErrorSnippets ignoreFile content errs = snippets_loop ignoreFile (strings_Split (CHR 0x0A) content) errs []"

definition newGitIgnoreParseErrors :: "RelPath \<Rightarrow> string \<Rightarrow> gi_Error list \<Rightarrow> GitIgnoreParseErrors outcome" where
  "newGitIgnoreParseErrors ignoreFile content errs =
     go_bind (Preconditionf (length errs > 0) ''newGitIgnoreParseErrors called with no errors'') (\<lambda>_.
     go_bind (gitIgnoreErrorSnippets ignoreFile content errs) (\<lambda>snippets.
     Inr \<lparr>gp_errs = errs, gp_snippets = snippets\<rparr>))"

text \<open>The loop of \<open>Error\<close> over the errors, with the index \<open>i\<close>.\<close>

fun parseErrors_loop :: "nat \<Rightarrow> gi_Error list \<Rightarrow> string \<Rightarrow> string" where
  "parseErrors_loop i [] b = b"
| "parseErrors_loop i (err # errs) b =
     (let b = (if i > 0 then b @ ''; '' else b)
      in parseErrors_loop (i + 1) errs
           (b @ (if ge_Zero err then ge_Underlying err else ge_String err @ '': '' @ ge_Underlying err)))"

definition GitIgnoreParseErrors_Error :: "GitIgnoreParseErrors \<Rightarrow> string" where
  "GitIgnoreParseErrors_Error e = parseErrors_loop 0 (gp_errs e) []"

section \<open>The walker\<close>

record 'm gitIgnoreMatcher =
  im_matcher :: 'm
  im_dir :: RelPath
  im_ignoreFile :: RelPath

record ('e, 'm) walker =
  w_fs :: "'e FS"
  w_gi :: "'m GitIgnore"
  w_RespectGitIgnore :: bool

record 'm walkDirSeq =
  ws_dir :: RelPath
  ws_parentMatchers :: "'m gitIgnoreMatcher list"

record 'm FSWalkEntry =
  en_name :: Name
  en_children :: "'m walkDirSeq option"

text \<open>The results the iterators yield: \<open>Inl\<close> is \<open>fail(e)\<close>.\<close>

type_synonym ('e, 'm) walkResult = "'e WalkError + 'm FSWalkEntry"

definition FSWalkEntry_IsDir :: "'m FSWalkEntry \<Rightarrow> bool" where
  "FSWalkEntry_IsDir e \<longleftrightarrow> en_children e \<noteq> None"

definition ChildrenNonDet :: "'m FSWalkEntry \<Rightarrow> 'm walkDirSeq outcome" where
  "ChildrenNonDet e =
     (case en_children e of
        None \<Rightarrow> Inl (AssertionError ''precondition violation: ChildrenNonDet() called on file entry %q'')
      | Some seq \<Rightarrow> Inr seq)"

definition walkDir :: "RelPath \<Rightarrow> 'm gitIgnoreMatcher list \<Rightarrow> 'm walkDirSeq" where
  "walkDir dir parentMatchers = \<lparr>ws_dir = dir, ws_parentMatchers = parentMatchers\<rparr>"

definition ioFailed :: "('e, 'm) walker \<Rightarrow> RelPath \<Rightarrow> 'e \<Rightarrow> 'e WalkError outcome" where
  "ioFailed w rel err =
     go_bind (AbsPath_Join (fs_Root (w_fs w)) rel) (\<lambda>path.
     withErr (newWalkError WalkErrorKind_IOFailed path) (FSCause err))"

definition isGitRepoRoot :: "('e, 'm) walker \<Rightarrow> RelPath \<Rightarrow> ('e WalkError + bool) outcome" where
  "isGitRepoRoot w dir =
     go_bind (RelPath_JoinComponents dir [''.git'']) (\<lambda>gitRel.
     case fs_Stat (w_fs w) gitRel \<lparr>so_FollowFinalSymlink = False, so_OnErrorTraverseParents = False\<rparr> of
       Inl err \<Rightarrow>
         if fs_isNotExist (w_fs w) err then Inr (Inr False)
         else go_bind (ioFailed w gitRel err) (\<lambda>e. Inr (Inl e))
     | Inr info \<Rightarrow> Inr (Inr (fi_isDir info \<or> fi_isRegular info)))"

definition loadGitIgnore ::
    "('e, 'm) walker \<Rightarrow> RelPath \<Rightarrow> ('e WalkError + 'm gitIgnoreMatcher option \<times> 'e WalkError list) outcome" where
  "loadGitIgnore w dir =
     go_bind (RelPath_JoinComponents dir [''.gitignore'']) (\<lambda>ignoreRel.
     case fs_ReadFile (w_fs w) ignoreRel of
       Inl err \<Rightarrow>
         if fs_isNotExist (w_fs w) err then Inr (Inr (None, []))
         else go_bind (ioFailed w ignoreRel err) (\<lambda>e. Inr (Inl e))
     | Inr content \<Rightarrow>
         go_bind (AbsPath_Join (fs_Root (w_fs w)) dir) (\<lambda>base.
         case gi_New (w_gi w) content (ap_value base) of (parseErrs, matcher) \<Rightarrow>
           if length parseErrs > 0
           then go_bind (AbsPath_Join (fs_Root (w_fs w)) ignoreRel) (\<lambda>path.
                go_bind (newGitIgnoreParseErrors ignoreRel content parseErrs) (\<lambda>pe.
                go_bind (withErr (newWalkError WalkErrorKind_ParseGitIgnore path) (ParseCause pe)) (\<lambda>warning.
                Inr (Inr (None, [warning])))))
           else Inr (Inr (Some \<lparr>im_matcher = matcher, im_dir = dir, im_ignoreFile = ignoreRel\<rparr>, []))))"

definition childGitIgnores :: "('e, 'm) walker \<Rightarrow> RelPath \<Rightarrow> 'm gitIgnoreMatcher list \<Rightarrow>
    ('e WalkError + 'm gitIgnoreMatcher list \<times> 'e WalkError list) outcome" where
  "childGitIgnores w dir parent =
     go_bind (Preconditionf (w_RespectGitIgnore w) ''childGitIgnores called with RespectGitIgnore=false'') (\<lambda>_.
     go_bind (loadGitIgnore w dir) (\<lambda>r. case r of
       Inl walkErr \<Rightarrow> Inr (Inl walkErr)
     | Inr (None, warnings) \<Rightarrow> Inr (Inr (parent, warnings))
     | Inr (Some matcher, warnings) \<Rightarrow> Inr (Inr (parent @ [matcher], warnings))))"

definition sourceCodeSnippet :: "RelPath \<Rightarrow> gi_Match \<Rightarrow> Snippet outcome" where
  "sourceCodeSnippet ignoreFile match =
     go_bind (NewPosition (num_wrap go_int32 (gm_Line match)) (num_wrap go_int32 (gm_Column match))) (\<lambda>position.
     Inr \<lparr>sn_Path = ignoreFile, sn_Position = position, sn_Text = gm_String match\<rparr>)"

fun ignoring_loop :: "('e, 'm) walker \<Rightarrow> RelPath \<Rightarrow> bool \<Rightarrow> 'm gitIgnoreMatcher list \<Rightarrow> Snippet option \<Rightarrow> Snippet option outcome" where
  "ignoring_loop w rel isDir [] ignored = Inr ignored"
| "ignoring_loop w rel isDir (m # matchers) ignored =
     go_bind (RelPath_RelativeTo rel (im_dir m)) (\<lambda>r.
     case gi_Relative (w_gi w) (im_matcher m) (rp_value r) isDir of
       None \<Rightarrow> ignoring_loop w rel isDir matchers ignored
     | Some match \<Rightarrow>
         if gm_Ignore match
         then go_bind (sourceCodeSnippet (im_ignoreFile m) match) (\<lambda>s. ignoring_loop w rel isDir matchers (Some s))
         else ignoring_loop w rel isDir matchers None)"

definition identifyPatternIgnoring ::
    "('e, 'm) walker \<Rightarrow> 'm gitIgnoreMatcher list \<Rightarrow> RelPath \<Rightarrow> bool \<Rightarrow> Snippet option outcome" where
  "identifyPatternIgnoring w matchers rel isDir = ignoring_loop w rel isDir matchers None"

text \<open>The loop of \<open>iterate\<close> over the entries of the directory.\<close>

fun entries_loop :: "('e, 'm) walker \<Rightarrow> RelPath \<Rightarrow> 'm gitIgnoreMatcher list \<Rightarrow> ('e + DirEntry) list \<Rightarrow>
    (('e, 'm) walkResult, 's) Seq" where
  "entries_loop w dir activeMatchers [] yield st = Inr st"
| "entries_loop w dir activeMatchers (entryRes # rest) yield st =
     (case entryRes of
        Inl err \<Rightarrow>
          go_bind (ioFailed w dir err) (\<lambda>e. go_bind (yield (Inl e) st) (\<lambda>(_, st). Inr st))
      | Inr de \<Rightarrow>
          let name = de_BaseName de
          in if w_RespectGitIgnore w \<and> Name_String name = ''.git'' then entries_loop w dir activeMatchers rest yield st
             else go_bind (RelPath_JoinComponents dir [Name_String name]) (\<lambda>child.
                  go_bind (if w_RespectGitIgnore w
                           then go_bind (identifyPatternIgnoring w activeMatchers child (de_isDir de)) (\<lambda>p. Inr (p \<noteq> None))
                           else Inr False) (\<lambda>ignored.
                  if ignored then entries_loop w dir activeMatchers rest yield st
                  else let entry = \<lparr>en_name = name,
                                    en_children = (if de_isDir de then Some (walkDir child activeMatchers) else None)\<rparr>
                       in go_bind (yield (Inr entry) st) (\<lambda>(more, st).
                          if \<not> more then Inr st else entries_loop w dir activeMatchers rest yield st))))"

definition iterate :: "('e, 'm) walker \<Rightarrow> 'm walkDirSeq \<Rightarrow> (('e, 'm) walkResult, 's) Seq" where
  "iterate w seq yield st =
     (let failWith = (\<lambda>e. go_bind (yield (Inl e) st) (\<lambda>(_, st). Inr st));
          visit = (\<lambda>activeMatchers st. entries_loop w (ws_dir seq) activeMatchers (fs_ReadDir (w_fs w) (ws_dir seq)) yield st)
      in if w_RespectGitIgnore w
         then go_bind (isGitRepoRoot w (ws_dir seq)) (\<lambda>r. case r of
                Inl walkErr \<Rightarrow> failWith walkErr
              | Inr repoRoot \<Rightarrow>
                  go_bind (childGitIgnores w (ws_dir seq) (if repoRoot then [] else ws_parentMatchers seq)) (\<lambda>r. case r of
                    Inl walkErr \<Rightarrow> failWith walkErr
                  | Inr (activeMatchers, warnings) \<Rightarrow>
                      go_bind (FromSlice warnings (leaving (\<lambda>e. yield (Inl e))) (st, False)) (\<lambda>(st, left).
                      if left then Inr st else visit activeMatchers st)))
         else visit (ws_parentMatchers seq) st)"

text \<open>The loop of \<open>ancestorGitIgnores\<close> over the ancestors of the root.\<close>

definition rootIsIgnored :: "('e, 'm) walker \<Rightarrow> RelPath \<Rightarrow> Snippet \<Rightarrow> 'e WalkError outcome" where
  "rootIsIgnored w root pattern =
     go_bind (AbsPath_Join (fs_Root (w_fs w)) root) (\<lambda>path.
     withGitIgnorePattern (newWalkError WalkErrorKind_RootIsIgnored path) pattern)"

fun ancestorIgnores_loop :: "('e, 'm) walker \<Rightarrow> RelPath \<Rightarrow> RelPath list \<Rightarrow> 'm gitIgnoreMatcher list \<Rightarrow> 'e WalkError list \<Rightarrow>
    ('e WalkError + 'm gitIgnoreMatcher list \<times> 'e WalkError list) outcome" where
  "ancestorIgnores_loop w root [] matchers warnings =
     go_bind (identifyPatternIgnoring w matchers root True) (\<lambda>p. case p of
       Some pattern \<Rightarrow> go_bind (rootIsIgnored w root pattern) (\<lambda>e. Inr (Inl e))
     | None \<Rightarrow> Inr (Inr (matchers, warnings)))"
| "ancestorIgnores_loop w root (ancestor # rest) matchers warnings =
     go_bind (identifyPatternIgnoring w matchers ancestor True) (\<lambda>p. case p of
       Some pattern \<Rightarrow> go_bind (rootIsIgnored w root pattern) (\<lambda>e. Inr (Inl e))
     | None \<Rightarrow>
         go_bind (isGitRepoRoot w ancestor) (\<lambda>r. case r of
           Inl err \<Rightarrow> Inr (Inl err)
         | Inr repoRoot \<Rightarrow>
             go_bind (childGitIgnores w ancestor (if repoRoot then [] else matchers)) (\<lambda>r. case r of
               Inl err \<Rightarrow> Inr (Inl err)
             | Inr (matchers, childWarnings) \<Rightarrow>
                 ancestorIgnores_loop w root rest matchers (warnings @ childWarnings))))"

definition ancestorGitIgnores ::
    "('e, 'm) walker \<Rightarrow> RelPath \<Rightarrow> ('e WalkError + 'm gitIgnoreMatcher list \<times> 'e WalkError list) outcome" where
  "ancestorGitIgnores w root =
     go_bind (Preconditionf (w_RespectGitIgnore w) ''ancestorGitIgnores called with RespectGitIgnore=false'') (\<lambda>_.
     go_bind (Preconditionf (root \<noteq> Dot) ''ancestorGitIgnores called with root=.'') (\<lambda>_.
     go_bind (childGitIgnores w Dot []) (\<lambda>r. case r of
       Inl err \<Rightarrow> Inr (Inl err)
     | Inr (matchers, warnings) \<Rightarrow>
         ancestorIgnores_loop w root (RelPath_Ancestors root (\<lambda>a acc. (True, acc @ [a])) []) matchers warnings)))"

text \<open>\<open>WalkNonDet\<close> returns an error or the warnings and the sequence of the root directory, which it chains.\<close>

definition walkSeq :: "('e, 'm) walker \<Rightarrow> 'e WalkError list \<Rightarrow> 'm walkDirSeq \<Rightarrow> (('e, 'm) walkResult, 's) Seq" where
  "walkSeq w warnings seq = Chain [Iterx_Map (FromSlice warnings) (\<lambda>e. Inr (Inl e)), iterate w seq]"

definition WalkNonDet :: "('e, 'm) walker \<Rightarrow> RelPath \<Rightarrow> ('e WalkError + 'e WalkError list \<times> 'm walkDirSeq) outcome" where
  "WalkNonDet w root =
     (case fs_Stat (w_fs w) root \<lparr>so_FollowFinalSymlink = False, so_OnErrorTraverseParents = True\<rparr> of
        Inl err \<Rightarrow> go_bind (ioFailed w root err) (\<lambda>e. Inr (Inl e))
      | Inr info \<Rightarrow>
          if \<not> fi_isDir info
          then go_bind (AbsPath_Join (fs_Root (w_fs w)) root) (\<lambda>path. Inr (Inl (newWalkError WalkErrorKind_RootNotDir path)))
          else
            go_bind (if w_RespectGitIgnore w then isGitRepoRoot w Dot else Inr (Inr True)) (\<lambda>r. case r of
              Inl err \<Rightarrow> Inr (Inl err)
            | Inr False \<Rightarrow> Inr (Inl (newWalkError WalkErrorKind_FSRootNotRepo (fs_Root (w_fs w))))
            | Inr True \<Rightarrow>
                go_bind (if w_RespectGitIgnore w \<and> rp_value root \<noteq> ''.'' then ancestorGitIgnores w root else Inr (Inr ([], []))) (\<lambda>r.
                case r of
                  Inl err \<Rightarrow> Inr (Inl err)
                | Inr (matchers, warnings) \<Rightarrow> Inr (Inr (warnings, walkDir root matchers)))))"

section \<open>Paths of real components\<close>

text \<open>The path of a list of names, and the facts about the path operations the walker uses.\<close>

definition rp :: "string list \<Rightarrow> RelPath" where
  "rp cs = \<lparr>rp_value = if cs = [] then ''.'' else join_slash cs\<rparr>"

abbreviation reals :: "string list \<Rightarrow> bool" where
  "reals cs \<equiv> \<forall>c \<in> set cs. real_elem c"

lemma rp_Nil: "rp [] = Dot"
  by (simp add: rp_def Dot_def)

lemma rp_form: "reals cs \<Longrightarrow> rel_form (rp_value (rp cs)) cs False"
  using rel_form_render [OF real_normal] by (simp add: rp_def)

lemma join_rp:
  assumes "reals cs" and "real_elem c"
  shows "RelPath_JoinComponents (rp cs) [c] = Inr (rp (cs @ [c]))"
proof -
  have c: "comps sep c = [c]" "\<not> HasPathSeparators c"
    using assms(2) by (auto simp: real_elem_def comps_single HasPathSeparators_def)
  then show ?thesis
    using Join_rel(1) [OF rp_form [OF assms(1)], of "[c]"] foldl_norm_real [of "[c]" False cs] assms(2)
    by (simp add: RelPath_JoinComponents_def rp_def del: Join.simps)
qed

lemma relative_rp:
  assumes "reals (bs @ ws)" and "ws \<noteq> []"
  shows "RelPath_RelativeTo (rp (bs @ ws)) (rp bs) = Inr (rp ws)"
proof (cases "bs = []")
  case True
  then show ?thesis
    by (simp add: RelPath_RelativeTo_def rp_def)
next
  case False
  have "join_slash bs \<noteq> ''.''"
    using join_slash_single_char(1) [OF real_normal False] assms(1) by simp
  then show ?thesis
    using False assms(2) by (simp add: RelPath_RelativeTo_def rp_def join_slash_append Let_def isUnixSeparator_def)
qed

lemma ancestors_rp:
  assumes "reals cs"
  shows "RelPath_Ancestors (rp cs) (\<lambda>a acc. (True, acc @ [a])) [] = map (\<lambda>k. rp (take k cs)) [1..<length cs]"
proof -
  have "RelPath_Ancestors \<lparr>rp_value = rp_value (rp cs)\<rparr> (\<lambda>a acc. (True, acc @ [a])) [] =
      map (\<lambda>k. \<lparr>rp_value = join_slash (take k cs)\<rparr>) [1..<length cs]"
    using RelPath_Ancestors_form [OF rp_form [OF assms], of "\<lambda>a acc. (True, acc @ [a])" "[]"]
    by (simp add: yield_all_collect)
  moreover have "rp (take k cs) = \<lparr>rp_value = join_slash (take k cs)\<rparr>" if "k \<in> set [1..<length cs]" for k
    using that by (auto simp: rp_def)
  ultimately show ?thesis
    by (simp add: rp_def)
qed

lemma rp_neq_Dot: "reals cs \<Longrightarrow> cs \<noteq> [] \<Longrightarrow> rp cs \<noteq> Dot \<and> rp_value (rp cs) \<noteq> ''.''"
  using join_slash_single_char(1) [OF real_normal] by (simp add: rp_def Dot_def)

lemma abs_join_ok: "abs_ok p \<Longrightarrow> \<exists>q. AbsPath_Join p rel = Inr q"
  using Join_abs(1) [of "ap_value p" _ _ "[rp_value rel]"] by (auto simp: AbsPath_Join_def abs_ok_form)

section \<open>A well-behaved environment\<close>

text \<open>
  What the walker relies on: the root of the file system is a valid path, and the positions of the gitignore package are
  1-based, fit into 32 bits and, for errors, are lines of the file.
\<close>

definition position_ok :: "int \<Rightarrow> int \<Rightarrow> bool" where
  "position_ok line column \<longleftrightarrow> 1 \<le> line \<and> line < 2 ^ 31 \<and> 1 \<le> column \<and> column < 2 ^ 31"

definition walker_ok :: "('e, 'm) walker \<Rightarrow> bool" where
  "walker_ok w \<longleftrightarrow> w_RespectGitIgnore w \<and> abs_ok (fs_Root (w_fs w))
     \<and> (\<forall>m path isDir match. gi_Relative (w_gi w) m path isDir = Some match \<longrightarrow> position_ok (gm_Line match) (gm_Column match))
     \<and> (\<forall>content base. \<forall>err \<in> set (fst (gi_New (w_gi w) content base)).
          ge_Zero err \<or>
          position_ok (ge_Line err) (ge_Column err) \<and> ge_Line err \<le> int (length (strings_Split (CHR 0x0A) content)))"

lemma walker_okD:
  assumes "walker_ok w"
  shows "w_RespectGitIgnore w" "abs_ok (fs_Root (w_fs w))"
    "gi_Relative (w_gi w) m path isDir = Some match \<Longrightarrow> position_ok (gm_Line match) (gm_Column match)"
    "gi_New (w_gi w) content base = (errs, m) \<Longrightarrow> \<forall>err \<in> set errs. ge_Zero err \<or>
       position_ok (ge_Line err) (ge_Column err) \<and> ge_Line err \<le> int (length (strings_Split (CHR 0x0A) content))"
  using assms unfolding walker_ok_def by (blast, blast, blast, metis fst_conv)

lemma wrap_position: "1 \<le> i \<Longrightarrow> i < 2 ^ 31 \<Longrightarrow> num_wrap go_int32 i = i"
  by (simp add: num_wrap_def go_int32_def num_min_def)

lemma NewPosition_ok:
  "position_ok l c \<Longrightarrow> NewPosition (num_wrap go_int32 l) (num_wrap go_int32 c) = Inr \<lparr>pos_line = l, pos_column = c\<rparr>"
  by (simp add: position_ok_def wrap_position NewPosition_def)

lemma git_names: "real_elem ''.git''" "real_elem ''.gitignore''"
  by (simp_all add: real_elem_def isUnixSeparator_def)

section \<open>Entering a directory\<close>

text \<open>
  Specifications without panics. \<open>enters\<close> gives the matchers for the children of a directory and the warnings: a
  nested repository forgets the matchers of its ancestors, and a readable \<open>.gitignore\<close> adds one.
\<close>

definition io_error :: "('e, 'm) walker \<Rightarrow> string list \<Rightarrow> 'e \<Rightarrow> 'e WalkError" where
  "io_error w cs err = \<lparr>we_kind = WalkErrorKind_IOFailed, we_path = projr (AbsPath_Join (fs_Root (w_fs w)) (rp cs)),
     we_err = Some (FSCause err), we_gitignorePattern = None\<rparr>"

definition parse_warning :: "('e, 'm) walker \<Rightarrow> string list \<Rightarrow> string \<Rightarrow> gi_Error list \<Rightarrow> 'e WalkError" where
  "parse_warning w cs content errs =
     \<lparr>we_kind = WalkErrorKind_ParseGitIgnore, we_path = projr (AbsPath_Join (fs_Root (w_fs w)) (rp cs)),
      we_err = Some (ParseCause \<lparr>gp_errs = errs,
        gp_snippets = [\<lparr>sn_Path = rp cs, sn_Position = \<lparr>pos_line = ge_Line e, pos_column = ge_Column e\<rparr>,
                        sn_Text = strings_Split (CHR 0x0A) content ! nat (ge_Line e - 1)\<rparr>.
                       e \<leftarrow> errs, \<not> ge_Zero e]\<rparr>),
      we_gitignorePattern = None\<rparr>"

definition repo_at :: "('e, 'm) walker \<Rightarrow> string list \<Rightarrow> 'e WalkError + bool" where
  "repo_at w cs =
     (case fs_Stat (w_fs w) (rp (cs @ [''.git''])) \<lparr>so_FollowFinalSymlink = False, so_OnErrorTraverseParents = False\<rparr> of
        Inl err \<Rightarrow> if fs_isNotExist (w_fs w) err then Inr False else Inl (io_error w (cs @ [''.git'']) err)
      | Inr info \<Rightarrow> Inr (fi_isDir info \<or> fi_isRegular info))"

definition ignores_at :: "('e, 'm) walker \<Rightarrow> string list \<Rightarrow> 'e WalkError + 'm gitIgnoreMatcher option \<times> 'e WalkError list" where
  "ignores_at w cs =
     (let ignoreFile = cs @ [''.gitignore'']
      in case fs_ReadFile (w_fs w) (rp ignoreFile) of
           Inl err \<Rightarrow> if fs_isNotExist (w_fs w) err then Inr (None, []) else Inl (io_error w ignoreFile err)
         | Inr content \<Rightarrow>
             (case gi_New (w_gi w) content (ap_value (projr (AbsPath_Join (fs_Root (w_fs w)) (rp cs)))) of (errs, m) \<Rightarrow>
                if errs = [] then Inr (Some \<lparr>im_matcher = m, im_dir = rp cs, im_ignoreFile = rp ignoreFile\<rparr>, [])
                else Inr (None, [parse_warning w ignoreFile content errs])))"

definition enters :: "('e, 'm) walker \<Rightarrow> string list \<Rightarrow> 'm gitIgnoreMatcher list \<Rightarrow>
    'e WalkError + 'm gitIgnoreMatcher list \<times> 'e WalkError list" where
  "enters w cs ms =
     (case repo_at w cs of
        Inl e \<Rightarrow> Inl e
      | Inr repo \<Rightarrow>
          (case ignores_at w cs of
             Inl e \<Rightarrow> Inl e
           | Inr (None, warnings) \<Rightarrow> Inr (if repo then [] else ms, warnings)
           | Inr (Some m, warnings) \<Rightarrow> Inr ((if repo then [] else ms) @ [m], warnings)))"

lemma snippets_loop_spec:
  "\<forall>err \<in> set errs. ge_Zero err \<or>
      position_ok (ge_Line err) (ge_Column err) \<and> ge_Line err \<le> int (length lines) \<Longrightarrow>
   snippets_loop f lines errs acc = Inr (acc @
     [\<lparr>sn_Path = f, sn_Position = \<lparr>pos_line = ge_Line e, pos_column = ge_Column e\<rparr>, sn_Text = lines ! nat (ge_Line e - 1)\<rparr>.
      e \<leftarrow> errs, \<not> ge_Zero e])"
proof (induction errs arbitrary: acc)
  case (Cons err errs)
  show ?case
  proof (cases "ge_Zero err")
    case True
    then show ?thesis
      using Cons by simp
  next
    case False
    then have e: "position_ok (ge_Line err) (ge_Column err)" "ge_Line err \<le> int (length lines)" "1 \<le> ge_Line err"
      using Cons.prems by (auto simp: position_ok_def)
    have "slice_get lines (ge_Line err - 1) = Inr (lines ! nat (ge_Line err - 1))"
      using e(2,3) by simp
    then show ?thesis
      using Cons e False by (simp add: NewPosition_ok Let_def)
  qed
qed simp

lemma ioFailed_spec:
  assumes "walker_ok w"
  shows "ioFailed w (rp cs) err = Inr (io_error w cs err)"
  using abs_join_ok [OF walker_okD(2) [OF assms], of "rp cs"]
  by (auto simp: ioFailed_def withErr_def newWalkError_def io_error_def)

lemma isGitRepoRoot_spec:
  assumes "walker_ok w" and "reals cs"
  shows "isGitRepoRoot w (rp cs) = Inr (repo_at w cs)"
  by (simp add: isGitRepoRoot_def repo_at_def join_rp [OF assms(2) git_names(1)] ioFailed_spec [OF assms(1)] split: sum.split)

lemma loadGitIgnore_spec:
  assumes "walker_ok w" and "reals cs"
  shows "loadGitIgnore w (rp cs) = Inr (ignores_at w cs)"
proof -
  have j: "RelPath_JoinComponents (rp cs) [''.gitignore''] = Inr (rp (cs @ [''.gitignore'']))"
    by (rule join_rp [OF assms(2) git_names(2)])
  obtain base path where b: "AbsPath_Join (fs_Root (w_fs w)) (rp cs) = Inr base"
      "AbsPath_Join (fs_Root (w_fs w)) (rp (cs @ [''.gitignore''])) = Inr path"
    using abs_join_ok [OF walker_okD(2) [OF assms(1)]] by blast
  show ?thesis
  proof (cases "fs_ReadFile (w_fs w) (rp (cs @ [''.gitignore'']))")
    case (Inl err)
    then show ?thesis
      by (simp add: loadGitIgnore_def ignores_at_def j ioFailed_spec [OF assms(1)])
  next
    case (Inr content)
    obtain errs m where n: "gi_New (w_gi w) content (ap_value base) = (errs, m)"
      by fastforce
    show ?thesis
      using Inr by (simp add: loadGitIgnore_def ignores_at_def parse_warning_def j b n newGitIgnoreParseErrors_def
          gitIgnoreErrorSnippets_def snippets_loop_spec [OF walker_okD(4) [OF assms(1) n]] withErr_def newWalkError_def)
  qed
qed

text \<open>The start of \<open>iterate\<close> and the body of the loop of \<open>ancestorGitIgnores\<close>.\<close>

lemma childGitIgnores_spec:
  assumes "walker_ok w" and "reals cs"
  shows "childGitIgnores w (rp cs) ms = Inr (case ignores_at w cs of
      Inl e \<Rightarrow> Inl e | Inr (None, warnings) \<Rightarrow> Inr (ms, warnings) | Inr (Some m, warnings) \<Rightarrow> Inr (ms @ [m], warnings))"
  by (simp add: childGitIgnores_def loadGitIgnore_spec [OF assms] walker_okD(1) [OF assms(1)] split: sum.split option.split prod.split)

lemma enters_spec:
  assumes "walker_ok w" and "reals cs"
  shows "go_bind (isGitRepoRoot w (rp cs)) (\<lambda>r. case r of
      Inl e \<Rightarrow> f e
    | Inr repoRoot \<Rightarrow> go_bind (childGitIgnores w (rp cs) (if repoRoot then [] else ms)) (\<lambda>r. case r of Inl e \<Rightarrow> f e | Inr p \<Rightarrow> g p)) =
    (case enters w cs ms of Inl e \<Rightarrow> f e | Inr p \<Rightarrow> g p)"
  by (simp add: isGitRepoRoot_spec [OF assms] childGitIgnores_spec [OF assms] enters_def split: sum.split option.split prod.split)

section \<open>The deciding pattern\<close>

text \<open>The matchers of the directories on the way to \<open>cs\<close>.\<close>

definition located :: "string list \<Rightarrow> 'm gitIgnoreMatcher list \<Rightarrow> bool" where
  "located cs ms \<longleftrightarrow> (\<forall>m \<in> set ms. \<exists>ds ws. cs = ds @ ws \<and> im_dir m = rp ds)"

lemma located_simps [simp]:
  "located cs []"
  "located cs (ms @ ms') \<longleftrightarrow> located cs ms \<and> located cs ms'"
  "located cs [\<lparr>im_matcher = m, im_dir = rp cs, im_ignoreFile = f\<rparr>]"
  by (auto simp: located_def intro: exI [of _ cs])

lemma located_enters:
  assumes "located cs ms" and "enters w cs ms = Inr (ms', warnings)"
  shows "located cs ms'"
  using assms by (auto simp: enters_def ignores_at_def Let_def split: sum.splits option.splits prod.splits if_splits)

lemma located_snoc: "located cs ms \<Longrightarrow> located (cs @ [c]) ms"
  by (fastforce simp: located_def)

text \<open>
  What the matchers say of a path below them: every matcher sees the path relative to its own directory, and the last one that
  has a matching pattern decides.
\<close>

definition depth :: "RelPath \<Rightarrow> nat" where
  "depth d = (if rp_value d = ''.'' then 0 else length (comps isUnixSeparator (rp_value d)))"

definition opinions :: "('e, 'm) walker \<Rightarrow> 'm gitIgnoreMatcher list \<Rightarrow> string list \<Rightarrow> bool \<Rightarrow> (RelPath \<times> gi_Match) list" where
  "opinions w ms cs isDir =
     List.map_filter (\<lambda>m. map_option (Pair (im_ignoreFile m))
       (gi_Relative (w_gi w) (im_matcher m) (rp_value (rp (drop (depth (im_dir m)) cs))) isDir)) ms"

definition pattern_for :: "('e, 'm) walker \<Rightarrow> 'm gitIgnoreMatcher list \<Rightarrow> string list \<Rightarrow> bool \<Rightarrow> Snippet option" where
  "pattern_for w ms cs isDir =
     (case rev (opinions w ms cs isDir) of
        [] \<Rightarrow> None
      | (f, match) # _ \<Rightarrow>
          if gm_Ignore match
          then Some \<lparr>sn_Path = f, sn_Position = \<lparr>pos_line = gm_Line match, pos_column = gm_Column match\<rparr>, sn_Text = gm_String match\<rparr>
          else None)"

lemma depth_rp: "reals ds \<Longrightarrow> depth (rp ds) = length ds"
  using rp_neq_Dot [of ds] comps_join_slash [OF normal_stack_sep_free [OF real_normal], of ds]
  by (auto simp: depth_def rp_def)

lemma ignoring_loop_spec:
  assumes "walker_ok w" and "reals (cs @ [c])"
  shows "located cs ms \<Longrightarrow> ignoring_loop w (rp (cs @ [c])) isDir ms acc =
    Inr (if opinions w ms (cs @ [c]) isDir = [] then acc else pattern_for w ms (cs @ [c]) isDir)"
proof (induction ms arbitrary: acc)
  case (Cons m ms)
  obtain ds ws where ds: "cs = ds @ ws" "im_dir m = rp ds"
    using Cons.prems by (auto simp: located_def)
  have r: "RelPath_RelativeTo (rp (cs @ [c])) (im_dir m) = Inr (rp (ws @ [c]))"
    using relative_rp [of ds "ws @ [c]"] assms(2) ds by simp
  have d: "drop (depth (im_dir m)) (cs @ [c]) = ws @ [c]"
    using depth_rp [of ds] assms(2) ds by simp
  show ?case
  proof (cases "gi_Relative (w_gi w) (im_matcher m) (rp_value (rp (ws @ [c]))) isDir")
    case None
    then show ?thesis
      using Cons r d by (simp add: opinions_def pattern_for_def located_def)
  next
    case (Some match)
    have "sourceCodeSnippet (im_ignoreFile m) match = Inr \<lparr>sn_Path = im_ignoreFile m,
        sn_Position = \<lparr>pos_line = gm_Line match, pos_column = gm_Column match\<rparr>, sn_Text = gm_String match\<rparr>"
      using NewPosition_ok [OF walker_okD(3) [OF assms(1) Some]] by (simp add: sourceCodeSnippet_def)
    then show ?thesis
      using Cons r d Some by (auto simp: opinions_def pattern_for_def located_def split: list.split)
  qed
qed (simp add: opinions_def)

lemma identifyPattern_spec:
  assumes "walker_ok w" and "reals (cs @ [c])" and "located cs ms"
  shows "identifyPatternIgnoring w ms (rp (cs @ [c])) isDir = Inr (pattern_for w ms (cs @ [c]) isDir)"
  using ignoring_loop_spec [OF assms(1,2), of ms isDir None] assms(3)
  by (auto simp: identifyPatternIgnoring_def pattern_for_def)

section \<open>The entries of a directory\<close>

text \<open>The entries a walk shows, up to the first error of the listing.\<close>

fun shown :: "('e, 'm) walker \<Rightarrow> string list \<Rightarrow> 'm gitIgnoreMatcher list \<Rightarrow> ('e + DirEntry) list \<Rightarrow> ('e, 'm) walkResult list" where
  "shown w cs ms [] = []"
| "shown w cs ms (Inl err # _) = [Inl (io_error w cs err)]"
| "shown w cs ms (Inr de # rest) =
     (let name = Name_String (de_BaseName de)
      in (if name = ''.git'' \<or> pattern_for w ms (cs @ [name]) (de_isDir de) \<noteq> None then []
          else [Inr \<lparr>en_name = de_BaseName de,
                     en_children = (if de_isDir de then Some (walkDir (rp (cs @ [name])) ms) else None)\<rparr>])
         @ shown w cs ms rest)"

definition real_names :: "('e + DirEntry) list \<Rightarrow> bool" where
  "real_names rs \<longleftrightarrow> (\<forall>r \<in> set rs. case r of Inl _ \<Rightarrow> True | Inr de \<Rightarrow> real_elem (Name_String (de_BaseName de)))"

lemma entries_loop_spec:
  assumes "walker_ok w" and "reals cs" and "located cs ms"
  shows "real_names rs \<Longrightarrow> entries_loop w (rp cs) ms rs yield st = FromSlice (shown w cs ms rs) yield st"
proof (induction rs arbitrary: st)
  case (Cons r rs)
  have IH: "entries_loop w (rp cs) ms rs yield st = FromSlice (shown w cs ms rs) yield st" for st
    using Cons by (simp add: real_names_def)
  show ?case
  proof (cases r)
    case (Inl err)
    then show ?thesis
      by (auto simp: ioFailed_spec [OF assms(1)] split_def intro!: go_bind_cong)
  next
    case (Inr de)
    let ?n = "Name_String (de_BaseName de)"
    have n: "real_elem ?n"
      using Cons.prems Inr by (simp add: real_names_def)
    then have "identifyPatternIgnoring w ms (rp (cs @ [?n])) (de_isDir de) = Inr (pattern_for w ms (cs @ [?n]) (de_isDir de))"
      using identifyPattern_spec [OF assms(1) _ assms(3)] assms(2) by simp
    then show ?thesis
      using Inr by (simp add: IH join_rp [OF assms(2) n] walkDir_def walker_okD(1) [OF assms(1)] Let_def cong: if_cong)
  qed
qed simp

text \<open>All a directory yields, and the theorem that the iterator yields it.\<close>

definition dir_results :: "('e, 'm) walker \<Rightarrow> string list \<Rightarrow> 'm gitIgnoreMatcher list \<Rightarrow> ('e, 'm) walkResult list" where
  "dir_results w cs ms =
     (case enters w cs ms of
        Inl e \<Rightarrow> [Inl e]
      | Inr (ms', warnings) \<Rightarrow> map Inl warnings @ shown w cs ms' (fs_ReadDir (w_fs w) (rp cs)))"

lemma iterate_spec:
  fixes w :: "('e, 'm) walker"
  assumes "walker_ok w" and "reals cs" and "located cs ms" and "real_names (fs_ReadDir (w_fs w) (rp cs))"
  shows "iterate w (walkDir (rp cs) ms) = FromSlice (dir_results w cs ms)"
proof (intro ext)
  have leaving_Inl: "leaving (\<lambda>e. yield (Inl e)) = (\<lambda>e. leaving yield (Inl e))" for yield :: "(('e, 'm) walkResult, 's) body"
    by (intro ext) (simp add: leaving_def)
  fix yield :: "(('e, 'm) walkResult, 's) body" and st :: 's
  have ws: "ws_dir (walkDir (rp cs) ms) = rp cs" "ws_parentMatchers (walkDir (rp cs) ms) = ms"
    by (simp_all add: walkDir_def)
  show "iterate w (walkDir (rp cs) ms) yield st = FromSlice (dir_results w cs ms) yield st"
  proof (cases "enters w cs ms")
    case (Inl e)
    then show ?thesis
      by (auto simp: iterate_def ws walker_okD(1) [OF assms(1)] enters_spec [OF assms(1,2)] dir_results_def split_def Let_def
          intro!: go_bind_cong)
  next
    case (Inr p)
    obtain ms' warnings where p: "p = (ms', warnings)"
      by fastforce
    have "located cs ms'"
      using located_enters assms(3) Inr p by blast
    moreover have "FromSlice warnings (leaving (\<lambda>e. yield (Inl e))) = FromSlice (map Inl warnings) (leaving yield)"
      by (simp add: leaving_Inl FromSlice_map [of warnings "leaving yield" Inl, unfolded o_def] fun_eq_iff)
    ultimately show ?thesis
      using Inr p by (simp add: iterate_def ws walker_okD(1) [OF assms(1)] enters_spec [OF assms(1,2)] dir_results_def Let_def
          FromSlice_append entries_loop_spec [OF assms(1,2) _ assms(4)] cong: if_cong)
  qed
qed

section \<open>Walking from a subdirectory\<close>

text \<open>Following the names of directories through the entries the iterators yield.\<close>

definition entries_named :: "string \<Rightarrow> ('e, 'm) walkResult list \<Rightarrow> 'm FSWalkEntry list" where
  "entries_named c rs = List.map_filter (\<lambda>r. case r of Inl _ \<Rightarrow> None | Inr e \<Rightarrow> if Name_String (en_name e) = c then Some e else None) rs"

fun descend :: "('e, 'm) walker \<Rightarrow> 'm walkDirSeq \<Rightarrow> string list \<Rightarrow> 'm walkDirSeq option outcome" where
  "descend w seq [] = Inr (Some seq)"
| "descend w seq (c # cs) =
     go_bind (Iterx_Collect (iterate w seq)) (\<lambda>rs.
     case entries_named c rs of
       [] \<Rightarrow> Inr None
     | e # _ \<Rightarrow> go_bind (ChildrenNonDet e) (\<lambda>seq. descend w seq cs))"

text \<open>A directory that is listed in its parent, once and beside entries with real names.\<close>

definition listed :: "('e, 'm) walker \<Rightarrow> string list \<Rightarrow> string \<Rightarrow> bool" where
  "listed w cs c \<longleftrightarrow> (\<exists>des1 de des2. fs_ReadDir (w_fs w) (rp cs) = map Inr (des1 @ de # des2)
     \<and> Name_String (de_BaseName de) = c \<and> de_isDir de
     \<and> (\<forall>d \<in> set (des1 @ des2). real_elem (Name_String (de_BaseName d)) \<and> Name_String (de_BaseName d) \<noteq> c))"

lemma entries_named_simps [simp]:
  "entries_named c [] = []"
  "entries_named c (Inl e # rs) = entries_named c rs"
  "entries_named c (Inr x # rs) = (if Name_String (en_name x) = c then [x] else []) @ entries_named c rs"
  "entries_named c (rs @ rs') = entries_named c rs @ entries_named c rs'"
  "entries_named c (map Inl es) = []"
  by (auto simp: entries_named_def map_filter_def)

lemma shown_append: "shown w cs ms (map Inr des @ rs) = shown w cs ms (map Inr des) @ shown w cs ms rs"
  by (induction des) (simp_all add: Let_def)

lemma shown_others: "\<forall>d \<in> set des. Name_String (de_BaseName d) \<noteq> c \<Longrightarrow> entries_named c (shown w cs ms (map Inr des)) = []"
  by (induction des) (auto simp: Let_def)

lemma descend_step:
  assumes "walker_ok w" and "reals (cs @ [c])" and "located cs ms" and "listed w cs c" and "c \<noteq> ''.git''"
  shows "descend w (walkDir (rp cs) ms) (c # rest) =
    (case enters w cs ms of
       Inl _ \<Rightarrow> Inr None
     | Inr (ms', _) \<Rightarrow> if pattern_for w ms' (cs @ [c]) True = None then descend w (walkDir (rp (cs @ [c])) ms') rest else Inr None)"
proof -
  obtain des1 de des2 where l: "fs_ReadDir (w_fs w) (rp cs) = map Inr des1 @ Inr de # map Inr des2"
      "Name_String (de_BaseName de) = c" "de_isDir de"
      "\<forall>d \<in> set des1 \<union> set des2. real_elem (Name_String (de_BaseName d)) \<and> Name_String (de_BaseName d) \<noteq> c"
    using assms(4) unfolding listed_def by auto
  have r: "real_names (fs_ReadDir (w_fs w) (rp cs))" "reals cs"
    using l assms(2) by (auto simp: real_names_def)
  have "entries_named c (shown w cs ms' (fs_ReadDir (w_fs w) (rp cs))) =
      (if pattern_for w ms' (cs @ [c]) True = None
       then [\<lparr>en_name = de_BaseName de, en_children = Some (walkDir (rp (cs @ [c])) ms')\<rparr>] else [])" for ms'
    using l assms(5) by (simp add: shown_append shown_others Let_def)
  then show ?thesis
    by (simp add: iterate_spec [OF assms(1) r(2) assms(3) r(1)] Collect_FromSlice dir_results_def ChildrenNonDet_def
        split: sum.split prod.split)
qed

lemma ignored_root: "walker_ok w \<Longrightarrow> go_bind (rootIsIgnored w root pattern) f = f (projr (rootIsIgnored w root pattern))"
  using abs_join_ok [OF walker_okD(2), of w root] by (auto simp: rootIsIgnored_def withGitIgnorePattern_def newWalkError_def)

lemma ancestors_agree:
  assumes "walker_ok w" and "rest \<noteq> []"
  shows "reals (cs @ rest) \<Longrightarrow> located cs ms \<Longrightarrow> enters w cs ms = Inr (ms', ws) \<Longrightarrow>
    \<forall>k < length rest. listed w (cs @ take k rest) (rest ! k) \<and> rest ! k \<noteq> ''.git'' \<Longrightarrow>
    \<exists>r. ancestorIgnores_loop w (rp (cs @ rest)) (map (\<lambda>k. rp (cs @ take k rest)) [1..<length rest]) ms' warnings = Inr r
      \<and> descend w (walkDir (rp cs) ms) rest = Inr (case r of Inl _ \<Rightarrow> None | Inr (ms, _) \<Rightarrow> Some (walkDir (rp (cs @ rest)) ms))"
  using assms(2)
proof (induction rest arbitrary: cs ms ms' ws warnings rule: list_nonempty_induct)
  case (single c)
  have l: "located cs ms'"
    using located_enters single by blast
  have "identifyPatternIgnoring w ms' (rp (cs @ [c])) True = Inr (pattern_for w ms' (cs @ [c]) True)"
    using identifyPattern_spec [OF assms(1) _ l] single by simp
  moreover have "descend w (walkDir (rp cs) ms) [c] =
      (if pattern_for w ms' (cs @ [c]) True = None then Inr (Some (walkDir (rp (cs @ [c])) ms')) else Inr None)"
    using descend_step [OF assms(1) _ single(2), of c "[]"] single by simp
  ultimately show ?case
    by (cases "pattern_for w ms' (cs @ [c]) True") (simp_all add: ignored_root [OF assms(1)] del: descend.simps(2))
next
  case (cons c rest)
  have l: "located cs ms'" "located (cs @ [c]) ms'"
    using located_enters cons.prems located_snoc by blast+
  have k: "\<forall>k < length rest. listed w ((cs @ [c]) @ take k rest) (rest ! k) \<and> rest ! k \<noteq> ''.git''"
    using cons.prems(4) [rule_format, of "Suc _"] by simp
  have e: "go_bind (isGitRepoRoot w (rp (cs @ [c]))) (\<lambda>r. case r of Inl err \<Rightarrow> Inr (Inl err)
      | Inr repoRoot \<Rightarrow> go_bind (childGitIgnores w (rp (cs @ [c])) (if repoRoot then [] else ms')) (\<lambda>r. case r of
          Inl err \<Rightarrow> Inr (Inl err) | Inr p \<Rightarrow> g p)) =
      (case enters w (cs @ [c]) ms' of Inl err \<Rightarrow> Inr (Inl err) | Inr p \<Rightarrow> g p)" for g :: "_ \<Rightarrow> ('a WalkError + _) outcome"
    by (rule enters_spec [OF assms(1)]) (use cons.prems(1) in simp)
  have stuck: "descend w (walkDir (rp (cs @ [c])) ms') rest = Inr None" if "enters w (cs @ [c]) ms' = Inl err" for err
    using that cons.hyps cons.prems(1) k l(2) descend_step [OF assms(1), of "cs @ [c]" "hd rest" ms' "tl rest"]
    by (cases rest) (auto simp del: descend.simps(2))
  have steps: "[1..<length (c # rest)] = 1 # map Suc [1..<length rest]"
    using cons.hyps by (simp add: upt_conv_Cons map_Suc_upt del: upt_Suc)
  have "map (\<lambda>k. rp (cs @ take k (c # rest))) [1..<length (c # rest)] =
      rp (cs @ [c]) # map (\<lambda>k. rp ((cs @ [c]) @ take k rest)) [1..<length rest]"
    unfolding steps by simp
  moreover have "identifyPatternIgnoring w ms' (rp (cs @ [c])) True = Inr (pattern_for w ms' (cs @ [c]) True)"
    using identifyPattern_spec [OF assms(1) _ l(1)] cons.prems by simp
  moreover have "descend w (walkDir (rp cs) ms) (c # rest) =
      (if pattern_for w ms' (cs @ [c]) True = None then descend w (walkDir (rp (cs @ [c])) ms') rest else Inr None)"
    using descend_step [OF assms(1) _ cons.prems(2), of c rest] cons.prems(1,3,4) by force
  ultimately show ?case
    using cons.IH [of "cs @ [c]" ms', unfolded append_assoc append.simps] cons.prems(1) l(2) k stuck
    by (cases "pattern_for w ms' (cs @ [c]) True"; cases "enters w (cs @ [c]) ms'")
      (auto simp: ignored_root [OF assms(1)] e simp del: descend.simps(2))
qed

section \<open>The theorems\<close>

text \<open>A small file system for the witnesses: a repository at \<open>/a\<close> with an ignored file and a subdirectory.\<close>

definition demo_fs :: "unit FS" where
  "demo_fs = \<lparr>fs_Root = \<lparr>ap_value = ''/a''\<rparr>,
     fs_Stat = (\<lambda>p _. if p \<in> {rp [''.git''], rp [''d''], \<lparr>rp_value = ''d/''\<rparr>} then Inr \<lparr>fi_isDir = True, fi_isRegular = False, fi_mode = 0\<rparr> else Inl ()),
     fs_ReadDir = (\<lambda>p. if p = Dot
        then [Inr \<lparr>de_BaseName = \<lparr>nm_value = ''.git''\<rparr>, de_isDir = True\<rparr>, Inr \<lparr>de_BaseName = \<lparr>nm_value = ''d''\<rparr>, de_isDir = True\<rparr>,
              Inr \<lparr>de_BaseName = \<lparr>nm_value = ''o''\<rparr>, de_isDir = False\<rparr>]
        else [Inr \<lparr>de_BaseName = \<lparr>nm_value = ''o''\<rparr>, de_isDir = False\<rparr>, Inr \<lparr>de_BaseName = \<lparr>nm_value = ''x''\<rparr>, de_isDir = False\<rparr>]),
     fs_ReadFile = (\<lambda>p. if p \<in> {rp [''.gitignore''], rp [''d'', ''.gitignore'']} then Inr ''o'' else Inl ()),
     fs_isNotExist = (\<lambda>_. True)\<rparr>"

definition demo_gi :: "unit GitIgnore" where
  "demo_gi = \<lparr>gi_New = (\<lambda>_ _. ([], ())),
     gi_Relative = (\<lambda>_ path _. if path = ''o'' then Some \<lparr>gm_Ignore = True, gm_Line = 1, gm_Column = 1, gm_String = ''o''\<rparr> else None)\<rparr>"

definition demo_walker :: "(unit, unit) walker" where
  "demo_walker = \<lparr>w_fs = demo_fs, w_gi = demo_gi, w_RespectGitIgnore = True\<rparr>"

lemma demo_ok: "walker_ok demo_walker"
  using abs_ok_slash_a by (simp add: walker_ok_def demo_walker_def demo_fs_def demo_gi_def position_ok_def)





text \<open>
  The walk of a directory that was written with a trailing separator, which \<open>RelPath\<close> keeps, panics as soon as that directory has
  a \<open>.gitignore\<close> file and an entry; without the separator the same walk yields the entry that is not ignored.
\<close>

lemma walk_trailing_separator_panics:
  "ParseRelPath ''d/'' = Inr (Inr \<lparr>rp_value = ''d/''\<rparr>)
   \<and> (\<exists>seq. WalkNonDet demo_walker \<lparr>rp_value = ''d/''\<rparr> = Inr (Inr ([], seq)) \<and> \<not> is_ok (Iterx_Collect (iterate demo_walker seq)))
   \<and> (\<exists>seq. WalkNonDet demo_walker \<lparr>rp_value = ''d''\<rparr> = Inr (Inr ([], seq))
        \<and> Iterx_Collect (iterate demo_walker seq) = Inr [Inr \<lparr>en_name = \<lparr>nm_value = ''x''\<rparr>, en_children = None\<rparr>])"
proof -
  let ?ms = "[\<lparr>im_matcher = (), im_dir = Dot, im_ignoreFile = \<lparr>rp_value = ''.gitignore''\<rparr>\<rparr>]"
  have "ParseRelPath ''d/'' = Inr (Inr \<lparr>rp_value = ''d/''\<rparr>)"
    by code_simp
  moreover have "WalkNonDet demo_walker \<lparr>rp_value = ''d/''\<rparr> = Inr (Inr ([], walkDir \<lparr>rp_value = ''d/''\<rparr> ?ms))"
    by code_simp
  moreover have "\<not> is_ok (Iterx_Collect (iterate demo_walker (walkDir \<lparr>rp_value = ''d/''\<rparr> ?ms)))"
    by code_simp
  moreover have "WalkNonDet demo_walker \<lparr>rp_value = ''d''\<rparr> = Inr (Inr ([], walkDir \<lparr>rp_value = ''d''\<rparr> ?ms))"
    by code_simp
  moreover have "Iterx_Collect (iterate demo_walker (walkDir \<lparr>rp_value = ''d''\<rparr> ?ms)) =
      Inr [Inr \<lparr>en_name = \<lparr>nm_value = ''x''\<rparr>, en_children = None\<rparr>]"
    by code_simp
  ultimately show ?thesis
    by blast
qed

end
