(* ===== verification/Errorx.thy ===== *)
theory Errorx
  imports Iterx
begin

text \<open>
  \<^verbatim>\<open>base/errorx/errorx.go\<close> and \<^verbatim>\<open>problem.go\<close>: the traversal of error chains and structured errors. An error value is an element of an
  arbitrary type; what its dynamic type implements of the three unwrapping methods, and what they return, is the
  parameter \<open>methods\<close>, so chains may be long or cyclic. A type assertion is a function to an option. The constructors \<open>New\<close>,
  \<open>Newf\<close>, \<open>Wrapf\<close> and \<open>Join\<close> only call third-party code and are left out.
\<close>

section \<open>Chains\<close>

text \<open>The case of the type switch that applies to an error, with the result of the method; a nil error is None.\<close>

datatype 'e unwrapping = UnwrapList "'e option list" | UnwrapError "'e option" | CauseError "'e option" | NoUnwrap

definition NESTING_LIMIT :: nat where
  "NESTING_LIMIT = 1000"

datatype linkKind = linkNormal | linkMultiError | linkNestingLimit

definition linkKind_String :: "linkKind \<Rightarrow> string" where
  "linkKind_String k = (case k of linkNormal \<Rightarrow> ''normal'' | linkMultiError \<Rightarrow> ''multi-error'' | linkNestingLimit \<Rightarrow> ''nesting-limit'')"

record 'e ChainLink =
  cl_current :: 'e
  cl_kind :: linkKind

definition ChainLink_HitMultiError :: "'e ChainLink \<Rightarrow> bool" where
  "ChainLink_HitMultiError c \<longleftrightarrow> cl_kind c = linkMultiError"

definition ChainLink_HitNestingLimit :: "'e ChainLink \<Rightarrow> bool" where
  "ChainLink_HitNestingLimit c \<longleftrightarrow> cl_kind c = linkNestingLimit"

definition chain_step :: "'e unwrapping \<Rightarrow> linkKind \<times> 'e option" where
  "chain_step u =
     (case u of
        UnwrapList errList \<Rightarrow> (case errList of [] \<Rightarrow> (linkNormal, None) | [e] \<Rightarrow> (linkNormal, e) | _ \<Rightarrow> (linkMultiError, None))
      | UnwrapError e \<Rightarrow> (linkNormal, e)
      | CauseError e \<Rightarrow> (linkNormal, e)
      | NoUnwrap \<Rightarrow> (linkNormal, None))"

text \<open>The loop, with the number of iterations that are left.\<close>

fun chain_loop :: "('e \<Rightarrow> 'e unwrapping) \<Rightarrow> nat \<Rightarrow> 'e \<Rightarrow> ('e ChainLink, 's) Seq" where
  "chain_loop methods 0 cur yield st =
     go_bind (yield \<lparr>cl_current = cur, cl_kind = linkNestingLimit\<rparr> st) (\<lambda>(_, st). Inr st)"
| "chain_loop methods (Suc n) cur yield st =
     (case chain_step (methods cur) of (kind, next_err) \<Rightarrow>
        go_bind (yield \<lparr>cl_current = cur, cl_kind = kind\<rparr> st) (\<lambda>(more, st).
        if \<not> more then Inr st
        else if kind \<noteq> linkNormal then Inr st
        else case next_err of None \<Rightarrow> Inr st | Some cur \<Rightarrow> chain_loop methods n cur yield st))"

definition Errorx_Chain :: "('e \<Rightarrow> 'e unwrapping) \<Rightarrow> 'e option \<Rightarrow> ('e ChainLink, 's) Seq outcome" where
  "Errorx_Chain methods err =
     (case err of
        None \<Rightarrow> go_bind (Precondition False ''trying to traverse chain for nil error'') (\<lambda>_. Inr Iterx_Empty)
      | Some cur \<Rightarrow> Inr (chain_loop methods NESTING_LIMIT cur))"

record 'e RootCauseResult =
  rc_err :: 'e
  rc_kind :: linkKind

definition HitNestingLimit :: "'e RootCauseResult \<Rightarrow> bool" where
  "HitNestingLimit r \<longleftrightarrow> rc_kind r = linkNestingLimit"

definition HitMultiError :: "'e RootCauseResult \<Rightarrow> bool" where
  "HitMultiError r \<longleftrightarrow> rc_kind r = linkMultiError"

definition GetMultiError :: "'e RootCauseResult \<Rightarrow> 'e outcome" where
  "GetMultiError r =
     go_bind (Preconditionf (rc_kind r = linkMultiError) ''requesting multi-error but kind is %s'') (\<lambda>_. Inr (rc_err r))"

definition RootCauseResult_GetRootCause :: "'e RootCauseResult \<Rightarrow> 'e outcome" where
  "RootCauseResult_GetRootCause r =
     go_bind (Preconditionf (rc_kind r = linkNormal) ''requesting root cause but kind is %s'') (\<lambda>_. Inr (rc_err r))"

text \<open>\<open>zero\<close> is the zero value of \<open>ChainLink\<close>, the initial value of the variable of \<open>iterx.Last\<close>.\<close>

definition GetRootCause :: "'e ChainLink \<Rightarrow> ('e \<Rightarrow> 'e unwrapping) \<Rightarrow> 'e option \<Rightarrow> 'e RootCauseResult outcome" where
  "GetRootCause zero methods err =
     go_bind (Errorx_Chain methods err) (\<lambda>seq.
     go_bind (Iterx_Last zero seq) (\<lambda>last.
     Inr \<lparr>rc_err = cl_current last, rc_kind = cl_kind last\<rparr>))"

definition GetRootCauseAs ::
    "'e ChainLink \<Rightarrow> ('e \<Rightarrow> 'e unwrapping) \<Rightarrow> ('e \<Rightarrow> 't option) \<Rightarrow> 'e option \<Rightarrow> 't option outcome" where
  "GetRootCauseAs zero methods cast err =
     go_bind (GetRootCause zero methods err) (\<lambda>r.
     go_bind (Precondition (\<not> HitNestingLimit r) ''hit nesting limit during traversal; cannot cast root cause'') (\<lambda>_.
     if HitMultiError r then Inr None
     else go_bind (RootCauseResult_GetRootCause r) (\<lambda>rc. Inr (cast rc))))"

definition FindInChainAs :: "('e \<Rightarrow> 'e unwrapping) \<Rightarrow> ('e \<Rightarrow> 't option) \<Rightarrow> 'e option \<Rightarrow> 't option outcome" where
  "FindInChainAs methods cast err =
     go_bind (Errorx_Chain methods err) (\<lambda>seq.
     Iterx_Find seq (\<lambda>link.
       go_bind (Precondition (\<not> ChainLink_HitNestingLimit link) ''hit nesting limit during traversal'') (\<lambda>_.
       Inr (cast (cl_current link)))))"

text \<open>\<open>is\<close> gives the method \<open>Is\<close> of an error, if its type has one.\<close>

definition GetRootCauseAsValue :: "'e ChainLink \<Rightarrow> ('e \<Rightarrow> 'e unwrapping) \<Rightarrow> ('e \<Rightarrow> ('e \<Rightarrow> bool) option) \<Rightarrow>
    'e option \<Rightarrow> 'e option \<Rightarrow> bool outcome" where
  "GetRootCauseAsValue zero methods is err reference =
     (case reference of
        None \<Rightarrow> go_bind (Precondition False ''expected non-nil reference error'') (\<lambda>_. Inr False)
      | Some reference \<Rightarrow>
          go_bind (GetRootCause zero methods err) (\<lambda>r.
          go_bind (Precondition (\<not> HitNestingLimit r) ''hit nesting limit during traversal; cannot cast root cause'') (\<lambda>_.
          if HitMultiError r then Inr False
          else go_bind (RootCauseResult_GetRootCause r) (\<lambda>rc.
               case is rc of Some f \<Rightarrow> Inr (f reference) | None \<Rightarrow> Inr (rc = reference)))))"

section \<open>Problems\<close>

definition Code_InvalidArgument :: string where
  "Code_InvalidArgument = ''invalid argument''"

definition Code_AccessDenied :: string where
  "Code_AccessDenied = ''access denied''"

definition isValidCode :: "string \<Rightarrow> bool" where
  "isValidCode code \<longleftrightarrow> code = Code_InvalidArgument \<or> code = Code_AccessDenied"

record Problem =
  pb_code :: string
  pb_msg :: string

definition NewProblem :: "string \<Rightarrow> string \<Rightarrow> Problem outcome" where
  "NewProblem code msg =
     go_bind (Preconditionf (isValidCode code) ''invalid errorx.Code %q'') (\<lambda>_. Inr \<lparr>pb_code = code, pb_msg = msg\<rparr>)"

definition Problem_Error :: "Problem \<Rightarrow> string" where
  "Problem_Error p = pb_msg p @ '' ('' @ pb_code p @ '')''"

section \<open>The chain as a list\<close>

text \<open>The specification: an error has a cause unless it is a leaf or a fork; the causes of an error, one after the other.\<close>

definition fork :: "('e \<Rightarrow> 'e unwrapping) \<Rightarrow> 'e \<Rightarrow> bool" where
  "fork methods e \<longleftrightarrow> (case methods e of UnwrapList es \<Rightarrow> 2 \<le> length es | _ \<Rightarrow> False)"

definition cause :: "('e \<Rightarrow> 'e unwrapping) \<Rightarrow> 'e \<Rightarrow> 'e option" where
  "cause methods e =
     (case methods e of
        UnwrapList [e'] \<Rightarrow> e' | UnwrapError e' \<Rightarrow> e' | CauseError e' \<Rightarrow> e' | _ \<Rightarrow> None)"

primrec causes :: "('e \<Rightarrow> 'e unwrapping) \<Rightarrow> nat \<Rightarrow> 'e \<Rightarrow> 'e option" where
  "causes methods 0 e = Some e"
| "causes methods (Suc n) e = Option.bind (cause methods e) (causes methods n)"

lemma chain_step_spec: "chain_step (methods e) = (if fork methods e then linkMultiError else linkNormal, cause methods e)"
  by (auto simp: chain_step_def fork_def cause_def split: unwrapping.split list.split)

lemma fork_cause: "fork methods e \<Longrightarrow> cause methods e = None"
  by (auto simp: fork_def cause_def split: unwrapping.splits list.splits)

fun links :: "('e \<Rightarrow> 'e unwrapping) \<Rightarrow> nat \<Rightarrow> 'e \<Rightarrow> 'e ChainLink list" where
  "links methods 0 e = [\<lparr>cl_current = e, cl_kind = linkNestingLimit\<rparr>]"
| "links methods (Suc n) e =
     \<lparr>cl_current = e, cl_kind = if fork methods e then linkMultiError else linkNormal\<rparr> #
     (case cause methods e of None \<Rightarrow> [] | Some e' \<Rightarrow> links methods n e')"

lemma chain_loop_FromSlice: "chain_loop methods n e = FromSlice (links methods n e)"
proof (intro ext)
  show "chain_loop methods n e yield st = FromSlice (links methods n e) yield st" for yield st
    by (induction n arbitrary: e st)
       (auto simp: chain_step_spec fork_cause split_def intro!: go_bind_cong split: option.split)
qed

lemma links_ne [simp]: "links methods n e \<noteq> []"
  by (cases n) simp_all

text \<open>The last link of a chain of at most \<open>n\<close> causes.\<close>

lemma links_end:
  "causes methods k e = Some e' \<Longrightarrow> cause methods e' = None \<Longrightarrow> k < n \<Longrightarrow>
   last (links methods n e) = \<lparr>cl_current = e', cl_kind = if fork methods e' then linkMultiError else linkNormal\<rparr>"
proof (induction k arbitrary: n e)
  case 0
  then show ?case
    by (cases n) auto
next
  case (Suc k)
  then show ?case
    by (cases n) (auto split: bind_splits)
qed

lemma links_limit:
  "causes methods n e = Some e' \<Longrightarrow> last (links methods n e) = \<lparr>cl_current = e', cl_kind = linkNestingLimit\<rparr>"
  by (induction n arbitrary: e) (auto split: bind_splits)

lemma causes_end: "causes methods n e = None \<Longrightarrow> \<exists>k < n. \<exists>e'. causes methods k e = Some e' \<and> cause methods e' = None"
proof (induction n arbitrary: e)
  case (Suc n)
  then show ?case
  proof (cases "cause methods e")
    case None
    then show ?thesis
      by (intro exI [of _ 0]) simp
  next
    case (Some e1)
    then obtain k e' where "k < n" "causes methods k e1 = Some e'" "cause methods e' = None"
      using Suc.IH [of e1] Suc.prems by auto
    then show ?thesis
      using Some by (intro exI [of _ "Suc k"]) auto
  qed
qed simp

lemma GetRootCause_last:
  "GetRootCause zero methods (Some e) =
     Inr \<lparr>rc_err = cl_current (last (links methods NESTING_LIMIT e)), rc_kind = cl_kind (last (links methods NESTING_LIMIT e))\<rparr>"
  by (simp add: GetRootCause_def Errorx_Chain_def chain_loop_FromSlice Last_FromSlice)

section \<open>The theorems\<close>

text \<open>
  \<open>GetRootCause\<close> follows the causes of an error. Either they end within the nesting limit, at a leaf or at an error with several
  sub-errors: then that error is the result, with the kind that says which, \<open>GetRootCauseAs\<close> casts a leaf, and \<open>GetRootCauseAsValue\<close>
  compares a leaf with the reference by its \<open>Is\<close> method, or by equality if it has none. Or there are at least as many causes as the limit, as in a
  cyclic chain: then the kind says so, and both functions that need the root cause panic on their pre-condition.
\<close>

lemma GetRootCause_correct:
  "(\<exists>k < NESTING_LIMIT. \<exists>e'. causes methods k e = Some e' \<and> cause methods e' = None
      \<and> GetRootCause zero methods (Some e) = Inr \<lparr>rc_err = e', rc_kind = if fork methods e' then linkMultiError else linkNormal\<rparr>
      \<and> GetRootCauseAs zero methods cast (Some e) = Inr (if fork methods e' then None else cast e')
      \<and> GetRootCauseAsValue zero methods is (Some e) (Some ref) =
          Inr (if fork methods e' then False else case is e' of Some f \<Rightarrow> f ref | None \<Rightarrow> e' = ref))
   \<or> (\<exists>e'. causes methods NESTING_LIMIT e = Some e'
      \<and> GetRootCause zero methods (Some e) = Inr \<lparr>rc_err = e', rc_kind = linkNestingLimit\<rparr>
      \<and> GetRootCauseAs zero methods cast (Some e) =
          Inl (AssertionError ''precondition violation: hit nesting limit during traversal; cannot cast root cause'')
      \<and> GetRootCauseAsValue zero methods is (Some e) (Some ref) =
          Inl (AssertionError ''precondition violation: hit nesting limit during traversal; cannot cast root cause''))"
proof (cases "causes methods NESTING_LIMIT e")
  case None
  obtain k e' where k: "k < NESTING_LIMIT" "causes methods k e = Some e'" "cause methods e' = None"
    using causes_end [OF None] by blast
  note l = links_end [OF k(2,3,1)]
  have r: "GetRootCause zero methods (Some e) = Inr \<lparr>rc_err = e', rc_kind = if fork methods e' then linkMultiError else linkNormal\<rparr>"
    by (simp add: GetRootCause_last l)
  moreover have "GetRootCauseAs zero methods cast (Some e) = Inr (if fork methods e' then None else cast e')"
    by (simp add: GetRootCauseAs_def r HitNestingLimit_def HitMultiError_def RootCauseResult_GetRootCause_def)
  moreover have "GetRootCauseAsValue zero methods is (Some e) (Some ref) =
      Inr (if fork methods e' then False else case is e' of Some f \<Rightarrow> f ref | None \<Rightarrow> e' = ref)"
    by (simp add: GetRootCauseAsValue_def r HitNestingLimit_def HitMultiError_def RootCauseResult_GetRootCause_def split: option.split)
  ultimately show ?thesis
    using k by (intro disjI1 exI [of _ k]) simp
next
  case (Some e')
  then show ?thesis
    by (simp add: GetRootCauseAs_def GetRootCauseAsValue_def GetRootCause_last links_limit HitNestingLimit_def assert_defs)
qed

lemma find_links:
  "FromSlice (links methods n e) (\<lambda>v _. go_bind (go_bind (Precondition (\<not> ChainLink_HitNestingLimit v) m) (\<lambda>_. Inr (cast (cl_current v))))
      (\<lambda>r. Inr (r = None, r))) None =
   (case List.map_filter (\<lambda>k. Option.bind (causes methods k e) cast) [0..<n] of
      v # _ \<Rightarrow> Inr (Some v)
    | [] \<Rightarrow> if causes methods n e = None then Inr None else go_bind (Precondition False m) (\<lambda>_. Inr None))"
proof (induction n arbitrary: e)
  case 0
  then show ?case
    by (simp add: ChainLink_HitNestingLimit_def assert_defs)
next
  case (Suc n)
  have "[0..<Suc n] = 0 # map Suc [0..<n]"
    by (simp add: map_Suc_upt upt_conv_Cons del: upt_Suc)
  moreover have "List.map_filter (\<lambda>k. Option.bind (causes methods k e) cast) (map Suc ks) =
      (case cause methods e of None \<Rightarrow> [] | Some e' \<Rightarrow> List.map_filter (\<lambda>k. Option.bind (causes methods k e') cast) ks)" for ks
    by (induction ks) (auto split: option.split)
  ultimately show ?case
    using Suc.IH by (auto simp: ChainLink_HitNestingLimit_def split: option.split)
qed

text \<open>
  \<open>FindInChainAs\<close> returns the cast of the first error in the chain that has the type, of the errors within the nesting limit, the fork or leaf
  at the end included; if there is none it returns None when the chain ends and panics on its pre-condition when the chain is longer.
\<close>

lemma FindInChainAs_correct:
  "FindInChainAs methods cast (Some e) =
   (case List.map_filter (\<lambda>k. Option.bind (causes methods k e) cast) [0..<NESTING_LIMIT] of
      v # _ \<Rightarrow> Inr (Some v)
    | [] \<Rightarrow> if causes methods NESTING_LIMIT e = None then Inr None
            else Inl (AssertionError ''precondition violation: hit nesting limit during traversal''))"
  unfolding FindInChainAs_def Errorx_Chain_def chain_loop_FromSlice Iterx_Find_def option.case go_bind_Inr find_links
  by (simp add: assert_defs split: list.split)

end
