(* ===== verification/Find_Executable.thy ===== *)
theory Find_Executable
  imports Env Errorx Fsx
begin

text \<open>
  \<^verbatim>\<open>base/envx/envx_path/find_executable.go\<close>: the search for an executable along PATH within a rooted file system. \<open>runtime.GOOS\<close>, \<open>strings.ToUpper\<close>
  and \<open>strings.ToLower\<close> are parameters (the last two are only called on Windows), \<open>quote\<close> is the verb \<^verbatim>\<open>%q\<close> and \<open>errString\<close> the text of an error.
  The path types and the list separator are those of the Unix build.
\<close>

section \<open>Definitions\<close>

unbundle bit_operations_syntax

datatype 'e ignoredErr = StatErr 'e | NotExecutableErr

record 'e IgnoredPath =
  ip_Path :: AbsPath
  ip_Err :: "'e ignoredErr"

text \<open>The errors that are returned: a problem, or one of the sentinels wrapped with a message.\<close>

datatype exeErr = ProblemErr Problem | WrappedErrDot string | WrappedNotExist string

datatype 'e FindError = Bare exeErr | ExeSearchError exeErr "'e IgnoredPath list"

definition wrapIgnored :: "exeErr \<Rightarrow> 'e IgnoredPath list \<Rightarrow> 'e FindError" where
  "wrapIgnored err ignoredPaths = (if length ignoredPaths = 0 then Bare err else ExeSearchError err ignoredPaths)"

fun ignored_loop :: "(string \<Rightarrow> string) \<Rightarrow> ('e ignoredErr \<Rightarrow> string) \<Rightarrow> 'e IgnoredPath list \<Rightarrow> string \<Rightarrow> string" where
  "ignored_loop quote errString [] b = b"
| "ignored_loop quote errString (ignoredPath # rest) b =
     ignored_loop quote errString rest
       (b @ [CHR 0x0A] @
        (case ip_Err ignoredPath of
           NotExecutableErr \<Rightarrow> ''ignored '' @ quote (ap_value (ip_Path ignoredPath)) @ '' as it was not executable''
         | StatErr e \<Rightarrow> ''ignored '' @ quote (ap_value (ip_Path ignoredPath)) @ '' due to Stat error '' @ errString (ip_Err ignoredPath)))"

definition ExeSearchError_Error ::
    "(string \<Rightarrow> string) \<Rightarrow> ('e ignoredErr \<Rightarrow> string) \<Rightarrow> (exeErr \<Rightarrow> string) \<Rightarrow> exeErr \<Rightarrow> 'e IgnoredPath list \<Rightarrow> string" where
  "ExeSearchError_Error quote errString innerString inner ignoredPaths =
     ignored_loop quote errString ignoredPaths
       (innerString inner @ '' ('' @ writeInt (int (length ignoredPaths)) @ '' candidates ignored)'')"

text \<open>The formatted messages.\<close>

definition outsideMsg :: "(string \<Rightarrow> string) \<Rightarrow> string \<Rightarrow> AbsPath \<Rightarrow> string" where
  "outsideMsg quote pathEntry root =
     ''PATH entry '' @ quote pathEntry @ '' resolves outside filesystem root '' @ quote (ap_value root)"

definition errDotMsg :: "(string \<Rightarrow> string) \<Rightarrow> string \<Rightarrow> AbsPath \<Rightarrow> string" where
  "errDotMsg quote pathEntry candidatePath =
     ''PATH entry '' @ quote pathEntry @ '' resolved executable '' @ ap_value candidatePath @ '' relative to filesystem root''"

definition notFoundMsg :: "(string \<Rightarrow> string) \<Rightarrow> string \<Rightarrow> string \<Rightarrow> string" where
  "notFoundMsg quote name pathEnvVar = ''failed to find executable '' @ quote name @ '' in PATH '' @ quote pathEnvVar"

record searchDir =
  sd_pathEntry :: string
  sd_isRelative :: bool

fun searchDirs_loop :: "string list \<Rightarrow> (searchDir, 's) Seq" where
  "searchDirs_loop [] yield st = Inr st"
| "searchDirs_loop (pathEntry # rest) yield st =
     (if pathEntry = [] then searchDirs_loop rest yield st
      else go_bind (yield \<lparr>sd_pathEntry = pathEntry, sd_isRelative = \<not> IsAbs pathEntry\<rparr> st) (\<lambda>(more, st).
           if \<not> more then Inr st else searchDirs_loop rest yield st))"

definition searchDirs :: "string \<Rightarrow> (searchDir, 's) Seq" where
  "searchDirs pathEnvVar = searchDirs_loop (strings_Split (CHR '':'') pathEnvVar)"

text \<open>\<open>filepath.Ext\<close>, with the index counted down.\<close>

fun Ext_loop :: "string \<Rightarrow> nat \<Rightarrow> string" where
  "Ext_loop path 0 = []"
| "Ext_loop path (Suc i) =
     (if isUnixSeparator (path ! i) then [] else if path ! i = CHR ''.'' then drop i path else Ext_loop path i)"

definition Ext :: "string \<Rightarrow> string" where
  "Ext path = Ext_loop path (length path)"

fun extensions_loop :: "AbsPath \<Rightarrow> string list \<Rightarrow> (AbsPath, 's) Seq" where
  "extensions_loop base [] yield st = Inr st"
| "extensions_loop base (ext # rest) yield st =
     (if ext = [] then extensions_loop base rest yield st
      else go_bind (AbsPath_AppendExtension base ext) (\<lambda>p.
           go_bind (yield p st) (\<lambda>(more, st). if \<not> more then Inr st else extensions_loop base rest yield st)))"

definition candidatePaths :: "string \<Rightarrow> (string \<Rightarrow> string) \<Rightarrow> (string \<Rightarrow> string) \<Rightarrow> Env \<Rightarrow> AbsPath \<Rightarrow> (AbsPath, 's) Seq" where
  "candidatePaths GOOS ToUpper ToLower env base yield st =
     (if GOOS \<noteq> ''windows'' \<or> Ext (ap_value base) \<noteq> []
      then go_bind (yield base st) (\<lambda>(_, st). Inr st)
      else let pathExt = (case Env_Lookup GOOS ToUpper env ''PATHEXT'' of
                            None \<Rightarrow> ''.com;.exe;.bat;.cmd''
                          | Some pathExt \<Rightarrow> if pathExt = [] then ''.com;.exe;.bat;.cmd'' else pathExt)
           in extensions_loop base (strings_Split (CHR '';'') (ToLower pathExt)) yield st)"

definition isExecutableCandidate :: "string \<Rightarrow> 32 word \<Rightarrow> bool" where
  "isExecutableCandidate GOOS mode \<longleftrightarrow> GOOS = ''windows'' \<or> mode AND 0x49 \<noteq> 0"

text \<open>The state of the two loops: the ignored paths and, once the function returns, its results.\<close>

type_synonym 'e search_state = "'e IgnoredPath list \<times> (AbsPath \<times> 'e FindError option) option"

definition tryCandidate :: "string \<Rightarrow> (string \<Rightarrow> string) \<Rightarrow> 'e FS \<Rightarrow> searchDir \<Rightarrow> (AbsPath, 'e search_state) body" where
  "tryCandidate GOOS quote fs dir candidatePath st =
     (case st of (ignoredPaths, ret) \<Rightarrow>
        go_bind (AbsPath_MakeRelativeTo candidatePath (fs_Root fs)) (\<lambda>r.
        case r of
          None \<Rightarrow> go_bind (Invariantf False ''candidate path %q escaped filesystem root %q'') (\<lambda>_. Inr (True, st))
        | Some rootRel \<Rightarrow>
            (case fs_Stat fs (RootRelPath_Rel rootRel) \<lparr>so_FollowFinalSymlink = True, so_OnErrorTraverseParents = False\<rparr> of
               Inl statErr \<Rightarrow>
                 Inr (True, (if \<not> fs_isNotExist fs statErr
                             then ignoredPaths @ [\<lparr>ip_Path = candidatePath, ip_Err = StatErr statErr\<rparr>] else ignoredPaths, ret))
             | Inr info \<Rightarrow>
                 if fi_isDir info then Inr (True, st)
                 else if \<not> isExecutableCandidate GOOS (fi_mode info)
                 then Inr (True, (ignoredPaths @ [\<lparr>ip_Path = candidatePath, ip_Err = NotExecutableErr\<rparr>], ret))
                 else if sd_isRelative dir
                 then Inr (False, (ignoredPaths, Some (candidatePath, Some (wrapIgnored (WrappedErrDot
                        (errDotMsg quote (sd_pathEntry dir) candidatePath)) ignoredPaths))))
                 else Inr (False, (ignoredPaths, Some (candidatePath, None))))))"

definition tryDir :: "string \<Rightarrow> (string \<Rightarrow> string) \<Rightarrow> (string \<Rightarrow> string) \<Rightarrow> (string \<Rightarrow> string) \<Rightarrow> 'e FS \<Rightarrow> Env \<Rightarrow> string \<Rightarrow>
    (searchDir, 'e search_state) body" where
  "tryDir GOOS ToUpper ToLower quote fs env name searchDir st =
     go_bind (if sd_isRelative searchDir
              then go_bind (MustParseRelPath (sd_pathEntry searchDir)) (AbsPath_Join (fs_Root fs))
              else MustParseAbsPath (sd_pathEntry searchDir)) (\<lambda>dir.
     go_bind (AbsPath_MakeRelativeTo dir (fs_Root fs)) (\<lambda>r.
     case r of
       None \<Rightarrow>
         go_bind (NewProblem Code_AccessDenied (outsideMsg quote (sd_pathEntry searchDir) (fs_Root fs))) (\<lambda>p.
         Inr (False, (fst st, Some (\<lparr>ap_value = []\<rparr>, Some (wrapIgnored (ProblemErr p) (fst st))))))
     | Some _ \<Rightarrow>
         go_bind (AbsPath_JoinComponents dir [name]) (\<lambda>base.
         go_bind (candidatePaths GOOS ToUpper ToLower env base (tryCandidate GOOS quote fs searchDir) st) (\<lambda>st.
         Inr (snd st = None, st)))))"

definition FindExecutable :: "string \<Rightarrow> (string \<Rightarrow> string) \<Rightarrow> (string \<Rightarrow> string) \<Rightarrow> (string \<Rightarrow> string) \<Rightarrow> 'e FS \<Rightarrow> Env \<Rightarrow> string \<Rightarrow>
    (AbsPath \<times> 'e FindError option) outcome" where
  "FindExecutable GOOS ToUpper ToLower quote fs env name =
     go_bind (Preconditionf (name \<noteq> []) ''name is empty'') (\<lambda>_.
     go_bind (Preconditionf (\<not> HasPathSeparators name) ''name contains path separators: %q'') (\<lambda>_.
     case Env_Lookup GOOS ToUpper env ''PATH'' of
       None \<Rightarrow> go_bind (NewProblem Code_InvalidArgument ''PATH must be set and non-empty'') (\<lambda>p.
         Inr (\<lparr>ap_value = []\<rparr>, Some (Bare (ProblemErr p))))
     | Some pathEnvVar \<Rightarrow>
         if pathEnvVar = []
         then go_bind (NewProblem Code_InvalidArgument ''PATH must be set and non-empty'') (\<lambda>p.
                Inr (\<lparr>ap_value = []\<rparr>, Some (Bare (ProblemErr p))))
         else go_bind (searchDirs pathEnvVar (tryDir GOOS ToUpper ToLower quote fs env name) ([], None)) (\<lambda>(ignoredPaths, ret).
              case ret of
                Some r \<Rightarrow> Inr r
              | None \<Rightarrow> Inr (\<lparr>ap_value = []\<rparr>, Some (wrapIgnored (WrappedNotExist
                  (notFoundMsg quote name pathEnvVar)) ignoredPaths)))))"

section \<open>The search\<close>

text \<open>
  The specification. The directory of an entry of PATH, the executable looked for in it, and the search along the entries: the first entry that lies outside
  of the file system or holds an executable decides, and what was found but could not be used before is reported with an error.
\<close>

definition entry_dir :: "'e FS \<Rightarrow> string \<Rightarrow> AbsPath" where
  "entry_dir fs e =
     projr (if IsAbs e then MustParseAbsPath e else go_bind (MustParseRelPath e) (AbsPath_Join (fs_Root fs)))"

abbreviation path_comps :: "AbsPath \<Rightarrow> string list" where
  "path_comps p \<equiv> comps isUnixSeparator (ap_value p)"

definition candidate :: "'e FS \<Rightarrow> string \<Rightarrow> string \<Rightarrow> AbsPath" where
  "candidate fs name e = \<lparr>ap_value = render True (path_comps (entry_dir fs e) @ [name])\<rparr>"

definition candidate_info :: "'e FS \<Rightarrow> string \<Rightarrow> string \<Rightarrow> 'e + FileInfo" where
  "candidate_info fs name e =
     fs_Stat fs \<lparr>rp_value = join_slash (drop (length (path_comps (fs_Root fs))) (path_comps (entry_dir fs e)) @ [name])\<rparr>
       \<lparr>so_FollowFinalSymlink = True, so_OnErrorTraverseParents = False\<rparr>"

fun search :: "(string \<Rightarrow> string) \<Rightarrow> 'e FS \<Rightarrow> string \<Rightarrow> string \<Rightarrow> string list \<Rightarrow> 'e IgnoredPath list \<Rightarrow> AbsPath \<times> 'e FindError option" where
  "search quote fs name pathEnvVar [] ignored =
     (\<lparr>ap_value = []\<rparr>, Some (wrapIgnored (WrappedNotExist
        (notFoundMsg quote name pathEnvVar)) ignored))"
| "search quote fs name pathEnvVar (e # es) ignored =
     (if \<not> is_prefix (path_comps (fs_Root fs)) (path_comps (entry_dir fs e))
      then (\<lparr>ap_value = []\<rparr>, Some (wrapIgnored (ProblemErr \<lparr>pb_code = ''access denied'', pb_msg =
              outsideMsg quote e (fs_Root fs)\<rparr>) ignored))
      else case candidate_info fs name e of
             Inl err \<Rightarrow> search quote fs name pathEnvVar es
               (if fs_isNotExist fs err then ignored else ignored @ [\<lparr>ip_Path = candidate fs name e, ip_Err = StatErr err\<rparr>])
           | Inr info \<Rightarrow>
               if fi_isDir info then search quote fs name pathEnvVar es ignored
               else if fi_mode info AND 0x49 = 0
               then search quote fs name pathEnvVar es (ignored @ [\<lparr>ip_Path = candidate fs name e, ip_Err = NotExecutableErr\<rparr>])
               else (candidate fs name e, if IsAbs e then None else Some (wrapIgnored (WrappedErrDot
                 (errDotMsg quote e (candidate fs name e))) ignored)))"

lemma is_prefix_code [code]: "is_prefix xs ys \<longleftrightarrow> take (length xs) ys = xs"
  unfolding is_prefix_def by (metis append_eq_conv_conj append_take_drop_id)

lemma searchDirs_spec:
  "searchDirs pv yield st =
   FromSlice (map (\<lambda>e. \<lparr>sd_pathEntry = e, sd_isRelative = \<not> IsAbs e\<rparr>) (filter (\<lambda>e. e \<noteq> []) (strings_Split (CHR '':'') pv))) yield st"
proof -
  have "searchDirs_loop es yield st =
      FromSlice (map (\<lambda>e. \<lparr>sd_pathEntry = e, sd_isRelative = \<not> IsAbs e\<rparr>) (filter (\<lambda>e. e \<noteq> []) es)) yield st" for es st
    by (induction es arbitrary: st) (auto simp: split_def intro!: go_bind_cong)
  then show ?thesis
    by (simp add: searchDirs_def)
qed

lemma entry_dir_ok:
  assumes "abs_ok (fs_Root fs)" and "e \<noteq> []"
  obtains s trail where "(if IsAbs e then MustParseAbsPath e else go_bind (MustParseRelPath e) (AbsPath_Join (fs_Root fs))) = Inr (entry_dir fs e)"
    "abs_form (ap_value (entry_dir fs e)) s trail" "path_comps (entry_dir fs e) = s"
proof -
  have "\<exists>p. (if IsAbs e then MustParseAbsPath e else go_bind (MustParseRelPath e) (AbsPath_Join (fs_Root fs))) = Inr p \<and> abs_ok p"
  proof (cases "IsAbs e")
    case True
    then show ?thesis
      using normalize_spec_abs(1) [OF True] by (auto simp: MustParseAbsPath_abs intro: abs_formI)
  next
    case False
    obtain v s trail where v: "fs_Root fs = \<lparr>ap_value = v\<rparr>" "abs_form v s trail"
      using abs_okE [OF assms(1)] by metis
    then show ?thesis
      using False assms(2) AbsPath_Join_form [OF v(2)] abs_formI [OF abs_form_render [OF Join_abs(2) [OF v(2)]], of "[normalize_spec e]"]
      by (simp add: MustParseRelPath_rel)
  qed
  then obtain p where p: "(if IsAbs e then MustParseAbsPath e else go_bind (MustParseRelPath e) (AbsPath_Join (fs_Root fs))) = Inr p" "abs_ok p"
    by blast
  then have "entry_dir fs e = p"
    unfolding entry_dir_def by simp
  then show ?thesis
    using p abs_okE [OF p(2)] that by (metis AbsPath.select_convs(1))
qed

lemma join_name:
  assumes "abs_form v s trail" and "real_elem name"
  shows "AbsPath_JoinComponents \<lparr>ap_value = v\<rparr> [name] = Inr \<lparr>ap_value = render True (s @ [name])\<rparr>"
    and "abs_form (render True (s @ [name])) (s @ [name]) False"
proof -
  have n: "comps isUnixSeparator name = [name]" "\<not> HasPathSeparators name"
    using assms(2) by (auto simp: real_elem_def comps_single HasPathSeparators_def)
  then have f: "foldl (norm_step True) s (concat (map (comps isUnixSeparator) [name])) = s @ [name]"
    using foldl_norm_real [of "[name]" True s] assms(2) by simp
  show "AbsPath_JoinComponents \<lparr>ap_value = v\<rparr> [name] = Inr \<lparr>ap_value = render True (s @ [name])\<rparr>"
    using Join_abs(1) [OF assms(1), of "[name]"] n(2) unfolding f by (simp add: AbsPath_JoinComponents_def del: Join.simps)
  show "abs_form (render True (s @ [name])) (s @ [name]) False"
    using abs_form_render [OF Join_abs(2) [OF assms(1), of "[name]"]] unfolding f .
qed

text \<open>One entry of PATH.\<close>

lemma tryDir_spec:
  assumes root: "abs_ok (fs_Root fs)" and e: "e \<noteq> []" and name: "real_elem name" and os: "GOOS \<noteq> ''windows''"
  shows "tryDir GOOS ToUpper ToLower quote fs env name \<lparr>sd_pathEntry = e, sd_isRelative = \<not> IsAbs e\<rparr> (ignored, None) =
    Inr (if \<not> is_prefix (path_comps (fs_Root fs)) (path_comps (entry_dir fs e))
         then (False, ignored, Some (\<lparr>ap_value = []\<rparr>, Some (wrapIgnored (ProblemErr \<lparr>pb_code = ''access denied'', pb_msg =
              outsideMsg quote e (fs_Root fs)\<rparr>) ignored)))
         else case candidate_info fs name e of
             Inl err \<Rightarrow> (True, if fs_isNotExist fs err then ignored else ignored @ [\<lparr>ip_Path = candidate fs name e, ip_Err = StatErr err\<rparr>], None)
           | Inr info \<Rightarrow>
               if fi_isDir info then (True, ignored, None)
               else if fi_mode info AND 0x49 = 0 then (True, ignored @ [\<lparr>ip_Path = candidate fs name e, ip_Err = NotExecutableErr\<rparr>], None)
               else (False, ignored, Some (candidate fs name e, if IsAbs e then None else Some (wrapIgnored (WrappedErrDot
                 (errDotMsg quote e (candidate fs name e))) ignored))))"
proof -
  obtain s trail where d: "(if IsAbs e then MustParseAbsPath e else go_bind (MustParseRelPath e) (AbsPath_Join (fs_Root fs))) = Inr (entry_dir fs e)"
      "abs_form (ap_value (entry_dir fs e)) s trail" "path_comps (entry_dir fs e) = s"
    using entry_dir_ok [OF root e] .
  obtain r sr tr where r: "fs_Root fs = \<lparr>ap_value = r\<rparr>" "abs_form r sr tr" "comps isUnixSeparator r = sr"
    using abs_okE [OF root] .
  have sr: "path_comps (fs_Root fs) = sr"
    by (simp add: r(1,3))
  have dir: "(if \<not> IsAbs e then go_bind (MustParseRelPath e) (AbsPath_Join (fs_Root fs)) else MustParseAbsPath e) = Inr (entry_dir fs e)"
    using d(1) by (simp split: if_splits)
  have eta: "\<lparr>ap_value = ap_value (entry_dir fs e)\<rparr> = entry_dir fs e"
    by (cases "entry_dir fs e") simp
  have rel: "AbsPath_MakeRelativeTo (entry_dir fs e) (fs_Root fs) = Inr (if is_prefix sr s
      then Some \<lparr>rr_root = fs_Root fs, rr_value = \<lparr>rp_value = if sr = s then ''.'' else join_slash (drop (length sr) s)\<rparr>\<rparr> else None)"
    using MakeRelativeTo_form [OF r(2) d(2)] unfolding eta r(1) .
  have base: "AbsPath_JoinComponents (entry_dir fs e) [name] = Inr (candidate fs name e)"
    using join_name(1) [OF d(2) name] d(3) unfolding eta by (simp add: candidate_def)
  have crel: "AbsPath_MakeRelativeTo (candidate fs name e) (fs_Root fs) =
      Inr (Some \<lparr>rr_root = fs_Root fs, rr_value = \<lparr>rp_value = join_slash (drop (length sr) s @ [name])\<rparr>\<rparr>)" if "is_prefix sr s"
    using MakeRelativeTo_form [OF r(2) join_name(2) [OF d(2) name]] that r(1) d(3)
    by (auto simp: candidate_def is_prefix_def)
  show ?thesis
  proof (cases "is_prefix sr s")
    case False
    then show ?thesis
      unfolding tryDir_def searchDir.select_convs dir rel go_bind_Inr
      using d(3) sr by (simp add: NewProblem_def isValidCode_def Code_AccessDenied_def)
  next
    case True
    have "tryCandidate GOOS quote fs \<lparr>sd_pathEntry = e, sd_isRelative = \<not> IsAbs e\<rparr> (candidate fs name e) (ignored, None) =
        (case candidate_info fs name e of
           Inl err \<Rightarrow> Inr (True, if fs_isNotExist fs err then ignored else ignored @ [\<lparr>ip_Path = candidate fs name e, ip_Err = StatErr err\<rparr>], None)
         | Inr info \<Rightarrow>
             Inr (if fi_isDir info then (True, ignored, None)
               else if fi_mode info AND 0x49 = 0 then (True, ignored @ [\<lparr>ip_Path = candidate fs name e, ip_Err = NotExecutableErr\<rparr>], None)
               else (False, ignored, Some (candidate fs name e, if IsAbs e then None else Some (wrapIgnored (WrappedErrDot
                 (errDotMsg quote e (candidate fs name e))) ignored)))))"
      using d(3) sr os
      by (simp add: tryCandidate_def crel [OF True] candidate_info_def RootRelPath_Rel_def isExecutableCandidate_def split: sum.split)
    then show ?thesis
      unfolding tryDir_def searchDir.select_convs dir rel base go_bind_Inr
      using True d(3) sr os by (simp add: base candidatePaths_def split: sum.split)
  qed
qed

lemma search_spec:
  assumes "abs_ok (fs_Root fs)" and "real_elem name" and "GOOS \<noteq> ''windows''"
  shows "\<forall>e \<in> set es. e \<noteq> [] \<Longrightarrow>
    go_bind (FromSlice (map (\<lambda>e. \<lparr>sd_pathEntry = e, sd_isRelative = \<not> IsAbs e\<rparr>) es) (tryDir GOOS ToUpper ToLower quote fs env name) (ignored, None))
      (\<lambda>(ignoredPaths, ret). case ret of
         Some r \<Rightarrow> Inr r
       | None \<Rightarrow> Inr (\<lparr>ap_value = []\<rparr>, Some (wrapIgnored (WrappedNotExist
           (notFoundMsg quote name pathEnvVar)) ignoredPaths))) =
    Inr (search quote fs name pathEnvVar es ignored)"
proof (induction es arbitrary: ignored)
  case (Cons e es)
  then show ?case
    using tryDir_spec [OF assms(1) _ assms(2,3), of e] by (auto simp: split: sum.split)
qed simp

section \<open>The theorems\<close>

text \<open>
  C25. On Unix the search for a proper name in a file system with a valid root never panics. It returns the invalid-argument problem when PATH is missing or empty, and
  otherwise the result of the specification: the entries of PATH are tried in order, empty ones skipped; one outside of the root ends the search with the
  access-denied problem; the first executable regular file is the result, with the relative-entry error if its entry is relative; directories and
  missing files are passed over, files that cannot be used are remembered and reported with an error, in order.
\<close>

theorem FindExecutable_correct:
  assumes "abs_ok (fs_Root fs)" and "real_elem name" and "GOOS \<noteq> ''windows''"
  shows "FindExecutable GOOS ToUpper ToLower quote fs env name =
    Inr (case Env_Lookup GOOS ToUpper env ''PATH'' of
           None \<Rightarrow> (\<lparr>ap_value = []\<rparr>, Some (Bare (ProblemErr \<lparr>pb_code = ''invalid argument'', pb_msg = ''PATH must be set and non-empty''\<rparr>)))
         | Some pv \<Rightarrow>
             if pv = [] then (\<lparr>ap_value = []\<rparr>, Some (Bare (ProblemErr \<lparr>pb_code = ''invalid argument'', pb_msg = ''PATH must be set and non-empty''\<rparr>)))
             else search quote fs name pv (filter (\<lambda>e. e \<noteq> []) (strings_Split (CHR '':'') pv)) [])"
proof -
  have n: "name \<noteq> []" "\<not> HasPathSeparators name"
    using assms(2) by (auto simp: real_elem_def HasPathSeparators_def)
  show ?thesis
    using search_spec [OF assms, of "filter (\<lambda>e. e \<noteq> []) (strings_Split (CHR '':'') _)"] n
    by (simp add: FindExecutable_def searchDirs_spec NewProblem_def isValidCode_def Code_InvalidArgument_def split: option.split)
qed

text \<open>A file system with one executable, \<open>/a/b/x\<close>, for the witness.\<close>

definition exe_fs :: "unit FS" where
  "exe_fs = \<lparr>fs_Root = \<lparr>ap_value = ''/a''\<rparr>,
     fs_Stat = (\<lambda>p _. if rp_value p = ''b/x'' then Inr \<lparr>fi_isDir = False, fi_isRegular = True, fi_mode = 0x1ED\<rparr> else Inl ()),
     fs_ReadDir = (\<lambda>_. []), fs_ReadFile = (\<lambda>_. Inl ()), fs_isNotExist = (\<lambda>_. True)\<rparr>"

definition exe_env :: "string \<Rightarrow> Env" where
  "exe_env path = (case Env_InsertOrReplace ''linux'' id Env_Empty ''PATH'' path of Inr (env, _) \<Rightarrow> env | Inl _ \<Rightarrow> Env_Empty)"

theorem FindExecutable_correct_witness:
  "FindExecutable ''linux'' id id id exe_fs (exe_env ''/a/c::/a/b'') ''x'' = Inr (\<lparr>ap_value = ''/a/b/x''\<rparr>, None)"
proof -
  have "abs_ok (fs_Root exe_fs)" "real_elem ''x''" "''linux'' \<noteq> ''windows''"
    by code_simp+
  moreover have "Env_Lookup ''linux'' id (exe_env ''/a/c::/a/b'') ''PATH'' = Some ''/a/c::/a/b''"
    by code_simp
  moreover have "search id exe_fs ''x'' ''/a/c::/a/b'' (filter (\<lambda>e. e \<noteq> []) (strings_Split (CHR '':'') ''/a/c::/a/b'')) [] =
      (\<lparr>ap_value = ''/a/b/x''\<rparr>, None)"
    by code_simp
  ultimately show ?thesis
    using FindExecutable_correct [of exe_fs "''x''" "''linux''" id id id "exe_env ''/a/c::/a/b''"] by simp
qed

text \<open>
  The documented pre-condition on the name, that it is not empty and has no separator, does not rule out \<open>..\<close>. With that name and the root in PATH the candidate is the
  parent of the root, and the search panics on the invariant that the comment in the source proves.
\<close>

lemma FindExecutable_dotdot_panics:
  "''..'' \<noteq> [] \<and> \<not> HasPathSeparators ''..''
   \<and> FindExecutable ''linux'' id id id exe_fs (exe_env ''/a'') ''..'' =
       Inl (AssertionError ''invariant violation: candidate path %q escaped filesystem root %q'')"
  by code_simp

end
