(* ===== verification/Stable_Formatter.thy ===== *)
theory Stable_Formatter
  imports Utf8
begin

text \<open>
  \<^verbatim>\<open>base/errorx/stable_formatter.go\<close> and the value kinds of \<^verbatim>\<open>formatter.go\<close>: the deterministic single-line formatter. The
  methods take the address of their receiver, which the copy check compares with the field \<open>self\<close>. \<open>quote\<close> stands for
  \<open>strconv.AppendQuote\<close> and \<open>showFloat\<close> for \<open>strconv.AppendFloat\<close>, as the text they append; a byte buffer is a string. The
  specification \<open>render_items\<close> is the text of a list of messages and fields.
\<close>

section \<open>Definitions\<close>

datatype fmtState = fmtState_Empty | fmtState_Text | fmtState_ParenFields

record StableFormatter =
  sf_self :: "nat option"
  sf_buf :: string
  sf_state :: fmtState
  sf_fieldCount :: int

definition ValueKind_StdMin :: int where
  "ValueKind_StdMin = 1"

definition ValueKind_StdMax :: int where
  "ValueKind_StdMax = 7"

definition NewStableFormatter :: "nat \<Rightarrow> StableFormatter" where
  "NewStableFormatter f = \<lparr>sf_self = Some f, sf_buf = [], sf_state = fmtState_Empty, sf_fieldCount = 0\<rparr>"

definition copyCheck :: "nat \<Rightarrow> StableFormatter \<Rightarrow> unit outcome" where
  "copyCheck p f =
     (if sf_self f \<noteq> Some p
      then go_bind (if sf_self f = None
                    then Invariantf False ''StableFormatter was not constructed with NewStableFormatter'' else Inr ()) (\<lambda>_.
           Invariantf False ''StableFormatter was copied'')
      else Inr ())"

definition openFieldList :: "StableFormatter \<Rightarrow> StableFormatter outcome" where
  "openFieldList f =
     (let f = f\<lparr>sf_fieldCount := 0\<rparr>
      in go_bind (case sf_state f of
             fmtState_Empty \<Rightarrow> Inr (f\<lparr>sf_buf := sf_buf f @ ''(''\<rparr>)
           | fmtState_Text \<Rightarrow> Inr (f\<lparr>sf_buf := sf_buf f @ '' (''\<rparr>)
           | fmtState_ParenFields \<Rightarrow> PanicInvariantViolation ''field list is already open'') (\<lambda>f.
         Inr (f\<lparr>sf_state := fmtState_ParenFields\<rparr>)))"

definition closeFieldList :: "StableFormatter \<Rightarrow> StableFormatter" where
  "closeFieldList f =
     (let f = (case sf_state f of
            fmtState_Empty \<Rightarrow> f
          | fmtState_Text \<Rightarrow> f
          | fmtState_ParenFields \<Rightarrow> f\<lparr>sf_buf := sf_buf f @ '')'', sf_state := fmtState_Text\<rparr>)
      in f\<lparr>sf_fieldCount := 0\<rparr>)"

definition appendField :: "(string \<Rightarrow> string) \<Rightarrow> StableFormatter \<Rightarrow> StableFormatter outcome" where
  "appendField write f =
     go_bind (case sf_state f of
         fmtState_Empty \<Rightarrow> openFieldList f
       | fmtState_Text \<Rightarrow> openFieldList f
       | fmtState_ParenFields \<Rightarrow> Inr f) (\<lambda>f.
     let f = (if sf_fieldCount f > 0 then f\<lparr>sf_buf := sf_buf f @ '', ''\<rparr> else f)
     in Inr (f\<lparr>sf_buf := write (sf_buf f), sf_fieldCount := sf_fieldCount f + 1\<rparr>))"

definition appendKeyPrefix :: "string \<Rightarrow> string \<Rightarrow> string" where
  "appendKeyPrefix buf key = (if key = [] then buf else buf @ key @ ''='')"

definition Finish :: "nat \<Rightarrow> StableFormatter \<Rightarrow> (string \<times> StableFormatter) outcome" where
  "Finish p f =
     go_bind (copyCheck p f) (\<lambda>_.
     let buf = (case sf_state f of fmtState_ParenFields \<Rightarrow> sf_buf f @ '')'' | _ \<Rightarrow> sf_buf f)
     in Inr (buf, f\<lparr>sf_buf := [], sf_state := fmtState_Empty, sf_fieldCount := 0\<rparr>))"

definition FormatDynamic :: "(string \<Rightarrow> string) \<Rightarrow> nat \<Rightarrow> int \<Rightarrow> string \<Rightarrow> string \<Rightarrow> StableFormatter \<Rightarrow> StableFormatter outcome" where
  "FormatDynamic quote p vk key value f =
     go_bind (copyCheck p f) (\<lambda>_.
     go_bind (if vk < ValueKind_StdMin \<or> ValueKind_StdMax < vk
              then Preconditionf False ''value kind %d is out of range [%d, %d]'' else Inr ()) (\<lambda>_.
     appendField (\<lambda>buf. appendKeyPrefix buf key @ quote value) f))"

definition FormatBool :: "nat \<Rightarrow> string \<Rightarrow> bool \<Rightarrow> StableFormatter \<Rightarrow> StableFormatter outcome" where
  "FormatBool p key value f =
     go_bind (copyCheck p f) (\<lambda>_.
     appendField (\<lambda>buf. appendKeyPrefix buf key @ (if value then ''true'' else ''false'')) f)"

definition FormatUint64 :: "nat \<Rightarrow> string \<Rightarrow> 64 word \<Rightarrow> StableFormatter \<Rightarrow> StableFormatter outcome" where
  "FormatUint64 p key value f =
     go_bind (copyCheck p f) (\<lambda>_. appendField (\<lambda>buf. appendKeyPrefix buf key @ writeInt (uint value)) f)"

definition FormatUintptr :: "nat \<Rightarrow> string \<Rightarrow> 64 word \<Rightarrow> StableFormatter \<Rightarrow> StableFormatter outcome" where
  "FormatUintptr p key value f =
     go_bind (copyCheck p f) (\<lambda>_. appendField (\<lambda>buf. appendKeyPrefix buf key @ writeInt (uint value)) f)"

definition FormatInt64 :: "nat \<Rightarrow> string \<Rightarrow> 64 word \<Rightarrow> StableFormatter \<Rightarrow> StableFormatter outcome" where
  "FormatInt64 p key value f =
     go_bind (copyCheck p f) (\<lambda>_. appendField (\<lambda>buf. appendKeyPrefix buf key @ writeInt (sint value)) f)"

definition FormatFloat64 :: "('r \<Rightarrow> string) \<Rightarrow> nat \<Rightarrow> string \<Rightarrow> 'r \<Rightarrow> StableFormatter \<Rightarrow> StableFormatter outcome" where
  "FormatFloat64 showFloat p key value f =
     go_bind (copyCheck p f) (\<lambda>_. appendField (\<lambda>buf. appendKeyPrefix buf key @ showFloat value) f)"

definition FormatConstMsg :: "nat \<Rightarrow> string \<Rightarrow> StableFormatter \<Rightarrow> StableFormatter outcome" where
  "FormatConstMsg p value f =
     go_bind (copyCheck p f) (\<lambda>_.
     let f = closeFieldList f
     in Inr (if value \<noteq> [] then f\<lparr>sf_buf := sf_buf f @ value, sf_state := fmtState_Text\<rparr> else f))"

definition FormatConstString :: "(string \<Rightarrow> string) \<Rightarrow> nat \<Rightarrow> string \<Rightarrow> string \<Rightarrow> StableFormatter \<Rightarrow> StableFormatter outcome" where
  "FormatConstString quote p key value f =
     go_bind (copyCheck p f) (\<lambda>_. appendField (\<lambda>buf. appendKeyPrefix buf key @ quote value) f)"

definition FormatGroup :: "nat \<Rightarrow> string \<Rightarrow> (StableFormatter \<Rightarrow> StableFormatter outcome) \<Rightarrow> StableFormatter \<Rightarrow> StableFormatter outcome" where
  "FormatGroup p key forEach f =
     go_bind (copyCheck p f) (\<lambda>_.
     go_bind (appendField (\<lambda>buf. appendKeyPrefix buf key @ ''{'') f) (\<lambda>f.
     let parentState = sf_state f; parentFieldCount = sf_fieldCount f
     in go_bind (forEach (f\<lparr>sf_state := fmtState_Empty, sf_fieldCount := 0\<rparr>)) (\<lambda>f.
        let f = closeFieldList f
        in Inr (f\<lparr>sf_buf := sf_buf f @ ''}'', sf_state := parentState, sf_fieldCount := parentFieldCount\<rparr>))))"

definition StableFormatter_Err :: "nat \<Rightarrow> StableFormatter \<Rightarrow> 'e option outcome" where
  "StableFormatter_Err p f = go_bind (copyCheck p f) (\<lambda>_. Inr None)"

section \<open>Formatting a document\<close>

text \<open>A document is the sequence of calls a client makes; the callback of a group makes calls on the same formatter.\<close>

datatype 'r doc =
    ConstMsg string | ConstString string string | Dynamic int string string | BoolField string bool
  | Uint64Field string "64 word" | UintptrField string "64 word" | Int64Field string "64 word" | Float64Field string 'r
  | Group string "'r doc list"

fun format_one :: "(string \<Rightarrow> string) \<Rightarrow> ('r \<Rightarrow> string) \<Rightarrow> nat \<Rightarrow> 'r doc \<Rightarrow> StableFormatter \<Rightarrow> StableFormatter outcome"
  and format_all :: "(string \<Rightarrow> string) \<Rightarrow> ('r \<Rightarrow> string) \<Rightarrow> nat \<Rightarrow> 'r doc list \<Rightarrow> StableFormatter \<Rightarrow> StableFormatter outcome" where
  "format_one quote showFloat p (ConstMsg value) f = FormatConstMsg p value f"
| "format_one quote showFloat p (ConstString key value) f = FormatConstString quote p key value f"
| "format_one quote showFloat p (Dynamic vk key value) f = FormatDynamic quote p vk key value f"
| "format_one quote showFloat p (BoolField key value) f = FormatBool p key value f"
| "format_one quote showFloat p (Uint64Field key value) f = FormatUint64 p key value f"
| "format_one quote showFloat p (UintptrField key value) f = FormatUintptr p key value f"
| "format_one quote showFloat p (Int64Field key value) f = FormatInt64 p key value f"
| "format_one quote showFloat p (Float64Field key value) f = FormatFloat64 showFloat p key value f"
| "format_one quote showFloat p (Group key ds) f = FormatGroup p key (format_all quote showFloat p ds) f"
| "format_all quote showFloat p [] f = Inr f"
| "format_all quote showFloat p (d # ds) f = go_bind (format_one quote showFloat p d f) (format_all quote showFloat p ds)"

text \<open>The specification: messages and fields; a maximal run of fields is a list in parentheses, with a space before it if anything precedes it.\<close>

datatype item = Msg string | Field string

fun is_field :: "item \<Rightarrow> bool" where
  "is_field (Field _) = True"
| "is_field (Msg _) = False"

fun item_text :: "item \<Rightarrow> string" where
  "item_text (Field x) = x"
| "item_text (Msg x) = x"

function render_items :: "bool \<Rightarrow> item list \<Rightarrow> string" where
  "render_items before [] = []"
| "render_items before (Msg m # items) = m @ render_items (before \<or> m \<noteq> []) items"
| "render_items before (Field x # items) =
     (if before then '' '' else []) @ ''('' @ x @ concat (map (\<lambda>i. '', '' @ item_text i) (takeWhile is_field items)) @ '')''
       @ render_items True (dropWhile is_field items)"
  by pat_completeness auto
termination
  by (relation "measure (\<lambda>(_, items). length items)") (auto simp: le_imp_less_Suc length_dropWhile_le)

definition field_item :: "string \<Rightarrow> string \<Rightarrow> item" where
  "field_item key text = Field ((if key = [] then [] else key @ ''='') @ text)"

fun item_of :: "(string \<Rightarrow> string) \<Rightarrow> ('r \<Rightarrow> string) \<Rightarrow> 'r doc \<Rightarrow> item" where
  "item_of quote showFloat (ConstMsg value) = Msg value"
| "item_of quote showFloat (ConstString key value) = field_item key (quote value)"
| "item_of quote showFloat (Dynamic vk key value) = field_item key (quote value)"
| "item_of quote showFloat (BoolField key value) = field_item key (if value then ''true'' else ''false'')"
| "item_of quote showFloat (Uint64Field key value) = field_item key (writeInt (uint value))"
| "item_of quote showFloat (UintptrField key value) = field_item key (writeInt (uint value))"
| "item_of quote showFloat (Int64Field key value) = field_item key (writeInt (sint value))"
| "item_of quote showFloat (Float64Field key value) = field_item key (showFloat value)"
| "item_of quote showFloat (Group key ds) = field_item key (''{'' @ render_items False (map (item_of quote showFloat) ds) @ ''}'')"

fun kinds_ok :: "'r doc \<Rightarrow> bool" where
  "kinds_ok (Dynamic vk key value) \<longleftrightarrow> 1 \<le> vk \<and> vk \<le> 7"
| "kinds_ok (Group key ds) \<longleftrightarrow> list_all kinds_ok ds"
| "kinds_ok _ \<longleftrightarrow> True"

section \<open>Facts\<close>

text \<open>The text that the remaining items and the closing of the list add in a state.\<close>

definition pending_text :: "fmtState \<Rightarrow> item list \<Rightarrow> string" where
  "pending_text st items =
     (case st of
        fmtState_Empty \<Rightarrow> render_items False items
      | fmtState_Text \<Rightarrow> render_items True items
      | fmtState_ParenFields \<Rightarrow>
          concat (map (\<lambda>i. '', '' @ item_text i) (takeWhile is_field items)) @ '')'' @ render_items True (dropWhile is_field items))"

definition sf_ok :: "nat \<Rightarrow> StableFormatter \<Rightarrow> bool" where
  "sf_ok p f \<longleftrightarrow> sf_self f = Some p \<and> (sf_state f = fmtState_ParenFields \<longrightarrow> 0 < sf_fieldCount f)"

lemma copyCheck_ok [simp]: "sf_ok p f \<Longrightarrow> copyCheck p f = Inr ()"
  by (simp add: copyCheck_def sf_ok_def)

lemma close_text: "sf_buf (closeFieldList f) = sf_buf f @ pending_text (sf_state f) []"
  by (simp add: closeFieldList_def pending_text_def split: fmtState.split)

lemma closeFieldList_self: "sf_self (closeFieldList f) = sf_self f"
  by (simp add: closeFieldList_def Let_def split: fmtState.split)

text \<open>One call: the buffer grows so that the pending text of the rest completes it to the pending text before.\<close>

definition writes :: "nat \<Rightarrow> StableFormatter \<Rightarrow> item \<Rightarrow> StableFormatter outcome \<Rightarrow> bool" where
  "writes p f i r \<longleftrightarrow> (\<exists>f'. r = Inr f' \<and> sf_ok p f' \<and>
     (\<forall>items. sf_buf f' @ pending_text (sf_state f') items = sf_buf f @ pending_text (sf_state f) (i # items)))"

definition list_opening :: "fmtState \<Rightarrow> string" where
  "list_opening st = (case st of fmtState_Empty \<Rightarrow> ''('' | fmtState_Text \<Rightarrow> '' ('' | fmtState_ParenFields \<Rightarrow> '', '')"

lemma pending_Field: "pending_text st (Field x # items) = list_opening st @ x @ pending_text fmtState_ParenFields items"
  by (simp add: pending_text_def list_opening_def split: fmtState.split)

lemma appendField_spec:
  assumes "sf_ok p f" and "\<And>buf. write buf = buf @ x"
  obtains f' where "appendField write f = Inr f'" "sf_ok p f'" "sf_state f' = fmtState_ParenFields"
    "sf_buf f' = sf_buf f @ list_opening (sf_state f) @ x"
  using assms by (cases "sf_state f")
    (auto simp: appendField_def openFieldList_def Let_def sf_ok_def list_opening_def)

lemma key_prefix: "appendKeyPrefix buf key @ x = buf @ ((if key = [] then [] else key @ ''='') @ x)"
  by (simp add: appendKeyPrefix_def)

lemma appendField_writes:
  assumes "sf_ok p f"
  shows "writes p f (field_item key x) (appendField (\<lambda>buf. appendKeyPrefix buf key @ x) f)"
proof -
  obtain f' where "appendField (\<lambda>buf. appendKeyPrefix buf key @ x) f = Inr f'" "sf_ok p f'" "sf_state f' = fmtState_ParenFields"
      "sf_buf f' = sf_buf f @ list_opening (sf_state f) @ (if key = [] then [] else key @ ''='') @ x"
    using appendField_spec [OF assms key_prefix] by blast
  then show ?thesis
    by (simp add: writes_def field_item_def pending_Field)
qed

lemma FormatConstMsg_writes: "sf_ok p f \<Longrightarrow> writes p f (Msg value) (FormatConstMsg p value f)"
  by (cases "sf_state f")
     (auto simp: writes_def FormatConstMsg_def closeFieldList_def sf_ok_def pending_text_def copyCheck_def Let_def)

lemma FormatGroup_writes:
  assumes "sf_ok p f"
    and "\<And>f. sf_ok p f \<Longrightarrow> \<exists>f'. forEach f = Inr f' \<and> sf_ok p f' \<and>
      sf_buf f' @ pending_text (sf_state f') [] = sf_buf f @ pending_text (sf_state f) items"
  shows "writes p f (field_item key (''{'' @ render_items False items @ ''}'')) (FormatGroup p key forEach f)"
proof -
  obtain f1 where f1: "appendField (\<lambda>buf. appendKeyPrefix buf key @ ''{'') f = Inr f1" "sf_ok p f1"
      "sf_state f1 = fmtState_ParenFields"
      "sf_buf f1 = sf_buf f @ list_opening (sf_state f) @ (if key = [] then [] else key @ ''='') @ ''{''"
    using appendField_spec [OF assms(1) key_prefix] by blast
  obtain f2 where f2: "forEach (f1\<lparr>sf_state := fmtState_Empty, sf_fieldCount := 0\<rparr>) = Inr f2" "sf_ok p f2"
      "sf_buf f2 @ pending_text (sf_state f2) [] = sf_buf f1 @ render_items False items"
    using assms(2) [of "f1\<lparr>sf_state := fmtState_Empty, sf_fieldCount := 0\<rparr>"] f1(2) by (auto simp: pending_text_def sf_ok_def)
  have "sf_buf (closeFieldList f2) = sf_buf f1 @ render_items False items" "sf_self (closeFieldList f2) = Some p"
    using f2(2,3) close_text [of f2] closeFieldList_self [of f2] by (simp_all add: sf_ok_def)
  then show ?thesis
    using f1 f2(1) assms(1) by (simp add: FormatGroup_def writes_def field_item_def pending_Field sf_ok_def Let_def)
qed

lemma format_spec:
  "sf_ok p f \<Longrightarrow> if kinds_ok d then writes p f (item_of quote showFloat d) (format_one quote showFloat p d f)
     else \<not> is_ok (format_one quote showFloat p d f)"
  "sf_ok p f \<Longrightarrow> if list_all kinds_ok ds
     then \<exists>f'. format_all quote showFloat p ds f = Inr f' \<and> sf_ok p f' \<and>
       sf_buf f' @ pending_text (sf_state f') [] = sf_buf f @ pending_text (sf_state f) (map (item_of quote showFloat) ds)
     else \<not> is_ok (format_all quote showFloat p ds f)"
proof (induction quote showFloat p d f and quote showFloat p ds f rule: format_one_format_all.induct)
  case (9 quote showFloat p key ds f)
  show ?case
  proof (cases "list_all kinds_ok ds")
    case True
    then show ?thesis
      using FormatGroup_writes [OF 9(2), of "format_all quote showFloat p ds" "map (item_of quote showFloat) ds" key] 9(1) by simp
  next
    case False
    obtain f1 where f1: "appendField (\<lambda>buf. appendKeyPrefix buf key @ ''{'') f = Inr f1" "sf_ok p f1"
      using appendField_spec [OF 9(2) key_prefix] by blast
    have "\<not> is_ok (format_all quote showFloat p ds (f1\<lparr>sf_state := fmtState_Empty, sf_fieldCount := 0\<rparr>))"
      using 9(1) False f1(2) by (simp add: sf_ok_def)
    then show ?thesis
      using False f1(1) 9(2) by (simp add: FormatGroup_def Let_def not_ok_bind)
  qed
next
  case (11 quote showFloat p d ds f)
  show ?case
  proof (cases "kinds_ok d")
    case True
    then obtain f1 where f1: "format_one quote showFloat p d f = Inr f1" "sf_ok p f1"
        "\<And>items. sf_buf f1 @ pending_text (sf_state f1) items = sf_buf f @ pending_text (sf_state f) (item_of quote showFloat d # items)"
      using 11 by (auto simp: writes_def)
    then show ?thesis
      using 11(2) [OF f1(1,2)] True by (cases "list_all kinds_ok ds") auto
  next
    case False
    then show ?thesis
      using 11 by (simp add: not_ok_bind)
  qed
qed (simp_all add: not_ok_bind assert_defs FormatConstMsg_writes appendField_writes FormatConstString_def FormatBool_def FormatUint64_def FormatUintptr_def
    FormatInt64_def FormatFloat64_def FormatDynamic_def ValueKind_StdMin_def ValueKind_StdMax_def)

section \<open>The theorem\<close>

text \<open>
  C26. Formatting any document, groups nested to any depth, with a new formatter and finishing it yields the text of the specification and leaves the
  formatter as new; a dynamic value whose kind is out of range, at any depth, panics; and so does every use of a copy of a formatter.
\<close>

theorem StableFormatter_renders:
  "if list_all kinds_ok ds
   then \<exists>f. format_all quote showFloat p ds (NewStableFormatter p) = Inr f
          \<and> Finish q f = (if q = p then Inr (render_items False (map (item_of quote showFloat) ds), NewStableFormatter p)
                          else Inl (AssertionError ''invariant violation: StableFormatter was copied''))
   else \<not> is_ok (format_all quote showFloat p ds (NewStableFormatter p))"
proof (cases "list_all kinds_ok ds")
  case True
  obtain f where f: "format_all quote showFloat p ds (NewStableFormatter p) = Inr f" "sf_ok p f"
      "sf_buf f @ pending_text (sf_state f) [] = render_items False (map (item_of quote showFloat) ds)"
    using format_spec(2) [of p "NewStableFormatter p" ds quote showFloat] True
    by (auto simp: NewStableFormatter_def sf_ok_def pending_text_def)
  have "Finish p f = Inr (render_items False (map (item_of quote showFloat) ds), NewStableFormatter p)"
    using f(2,3) by (cases f) (auto simp: Finish_def sf_ok_def pending_text_def NewStableFormatter_def Let_def copyCheck_def split: fmtState.splits)
  moreover have "q \<noteq> p \<Longrightarrow> Finish q f = Inl (AssertionError ''invariant violation: StableFormatter was copied'')"
    using f(2) by (simp add: Finish_def copyCheck_def sf_ok_def assert_defs)
  ultimately show ?thesis
    using True f(1) by auto
next
  case False
  then show ?thesis
    using format_spec(2) [of p "NewStableFormatter p" ds quote showFloat] by (simp add: NewStableFormatter_def sf_ok_def)
qed

end
