(* ===== verification/Spec2Isabelle.thy ===== *)
theory Spec2Isabelle
  imports Ordered_Map Clock_Token Kido_Branch Kido_Benchmark Kido_List Syscaps Temp_File Segmented_Text Flat_Tree Fsx_Walk Find_Executable Stable_Formatter
begin

text \<open>
  A verification library for the Kibou base libraries, the Go packages under \<^verbatim>\<open>src/base\<close>. The rest of the repository is
  forks of third-party programs and the command-line tool \<^verbatim>\<open>kido\<close> under \<^verbatim>\<open>src/misc\<close>, whose commands are modelled too.

  \<^bold>\<open>How Go is modelled.\<close> A function that may panic returns an \<open>outcome\<close> (theory Prelude): \<open>Inl\<close> the panic or \<open>Inr\<close>
  the result; indexing and slicing are checked, a violated \<^verbatim>\<open>assert.Precondition\<close> is the panic with its format string (theory
  Assert), error values are results of a sum type. State is passed explicitly: an operation on a pointer receiver returns
  the new value of the receiver. Lengths and positions are \<open>int\<close> or \<open>nat\<close>; where the width of an integer matters it is kept, by
  \<open>word\<close> types (Math_Bits, Bit_Vec, Ordered_Map, Utf8) or by \<open>num_wrap\<close> (Ranges and its clients). A built-in map is
  a list of entries in the order in which a \<open>range\<close> loop happens to visit it (Go_Map), so statements hold for every
  order. An \<open>iter.Seq\<close> is the function of the loop body that a \<open>range\<close> loop calls (\<open>yield_all\<close> in Prelude, Iterx).

  \<^bold>\<open>The parts, in the order of their dependencies.\<close>

  \<^item> Assert (\<^verbatim>\<open>assert/assert.go\<close>), Core_Types (\<^verbatim>\<open>core/option, result, op, pair, limited\<close>, \<^verbatim>\<open>cmpx\<close>, \<^verbatim>\<open>enum\<close>): the checks and the
    small value types.
  \<^item> Refinement: the locales \<open>guarded_simulation\<close> and \<open>simulation\<close>, the contract between a component and its abstract
    specification. Deque, Collections and Ordered_Map interpret them.
  \<^item> Math_Bits (\<^verbatim>\<open>math/bits\<close>) and Bit_Vec (\<^verbatim>\<open>collections/bit_vec.go\<close>): the block-wise bit vector is a list of booleans; its
    searches return the nearest set bit. The locale \<open>bool_vector\<close> is the interface for Segmented_Text.
  \<^item> Deque (\<^verbatim>\<open>collections/deque.go\<close>): the ring buffer refines a list, panics included. The locale \<open>fifo_queue\<close> is the interface for
    Cancel.
  \<^item> Collections (\<^verbatim>\<open>set.go\<close>, \<^verbatim>\<open>stack.go\<close>, \<^verbatim>\<open>monotone_map.go\<close>, \<^verbatim>\<open>slice.go\<close>, \<^verbatim>\<open>map.go\<close>) and Ordered_Map (\<^verbatim>\<open>ordered_map.go\<close>): both
    insertion-ordered maps refine the list of their entries, the second with deletion, tombstones and compaction. The
    bound of \<open>2 ^ 46\<close> calls in its theorem keeps the number of slots below the \<open>2 ^ 48\<close> that a packed position can address.
  \<^item> Cancel (\<^verbatim>\<open>cancel/token.go\<close>): trees of cancellation tokens. The sequential functions run on a heap of tokens; the step
    relation \<open>sys_step\<close> interleaves the critical sections of any number of Cancel and NewChild calls. No assertion is ever
    violated, cancellation reaches every descendant, a canceled token keeps its error, and a Cancel call terminates.
  \<^item> Clock_Token (\<^verbatim>\<open>cancel/clock_token.go\<close>, \<^verbatim>\<open>cancel/deadline\<close>, \<^verbatim>\<open>timex/instant.go\<close>): tokens with deadlines over the token trees and a
    scheduler. \<open>clock_step\<close> is the system of tokens, clock and timers; a deadline that has passed is enforced, and none is
    reported early. Time_Pattern (\<^verbatim>\<open>timex/pattern.go, timestamp.go\<close>): formatting, with the backing arrays of patterns as a store.
  \<^item> Path_Components (\<^verbatim>\<open>internal/pathx\<close>), Path_Lexical (\<^verbatim>\<open>core/pathx/lexical.go\<close> and \<^verbatim>\<open>filepath.Clean\<close>), Path_Std (\<^verbatim>\<open>path/filepath\<close>),
    Fsx_Name (\<^verbatim>\<open>fsx/fsx_name\<close>) and Path_Types (\<^verbatim>\<open>core/pathx\<close>): paths on Unix, and the lexical Windows parser. The specification
    of a path is the list of its components; every function is described on it.
  \<^item> Ranges (\<^verbatim>\<open>ranges\<close>), Utf8 (\<^verbatim>\<open>utf8\<close> over \<^verbatim>\<open>unicode/utf8\<close>), Line_Table (\<^verbatim>\<open>source_code\<close>), Segmented_Text (\<^verbatim>\<open>internal/uniseg\<close>): spans
    with overflow, the decoder against the grammar of RFC 3629, line tables and their binary search, grapheme clusters.
  \<^item> Flat_Tree (\<^verbatim>\<open>check/pbt/flat\<close>): trees unfolded breadth-first into a slice. Its loops may run forever for some callbacks; the
    theorems give the callbacks for which they return.
  \<^item> Env (\<^verbatim>\<open>envx\<close>): environments with case-insensitive keys on Windows. Iterx (\<^verbatim>\<open>iterx\<close>): combinators on sequences.
  \<^item> Errorx (\<^verbatim>\<open>errorx/errorx.go, problem.go\<close>): the traversal of error chains up to the nesting limit. Stable_Formatter
    (\<^verbatim>\<open>errorx/stable_formatter.go\<close>): a formatter with nested groups renders the text of a document.
  \<^item> Fsx (\<^verbatim>\<open>fsx\<close>, \<^verbatim>\<open>fsx/fsx_opt\<close>): \<open>Stat\<close> with its binary search for the shallowest missing ancestor, the listing of directories in
    batches, options for opening files. Fsx_Walk (\<^verbatim>\<open>fsx/fsx_walk\<close>): walking a tree with nested \<open>.gitignore\<close> files. What a directory yields
    is given as a list; the walk of a subdirectory agrees with the walk of the repository.
  \<^item> Find_Executable (\<^verbatim>\<open>envx/envx_path\<close>): the search along PATH, over Env, Path_Types, Fsx and Errorx.
  \<^item> Workspace_Config (\<^verbatim>\<open>misc/internal/config\<close>): the validation of the configuration of the sync tool, against a predicate on configurations.
    Effects (\<^verbatim>\<open>cmdx\<close>), Kido_PR and Kido_Branch (\<^verbatim>\<open>misc/cmd/kido\<close>): the commands that sync branches and pull requests, as programs over
    an arbitrary environment that answers the commands they run. Triples over the history of commands show what every merge request
    and push rests on; the locale \<open>quiet_history\<close> is the discipline on histories, interpreted for these commands. Kido_Benchmark and Kido_List: the other commands. What an action opens it owes to close
    (\<open>settles\<close> in Effects): the benchmark leaves no directory or worktree behind, however it ends.
  \<^item> Temp_File (\<^verbatim>\<open>fsx/fsx_temp\<close>, \<^verbatim>\<open>syscaps/temp_file.go\<close>): temporary files and the patterns of their names. Syscaps (\<^verbatim>\<open>syscaps/syscaps.go\<close>): the process
    environment and the runner of commands.

  \<^bold>\<open>Parameters.\<close> Code outside the repository is an argument: the grapheme segmentation of \<^verbatim>\<open>rivo/uniseg\<close>, \<^verbatim>\<open>encoding/json\<close>
  at the element type of an \<open>Option\<close>, the \<^verbatim>\<open>%q\<close> verb of \<^verbatim>\<open>fmt\<close>, \<open>strings.ToUpper\<close> on Windows, \<^verbatim>\<open>afero\<close> (record \<open>BaseFS\<close>), \<^verbatim>\<open>go-gitignore\<close> (record \<open>GitIgnore\<close>), the methods of error values, the printing of floating-point numbers, the fields of a \<open>time.Time\<close>, the growth of slices, the generator of \<^verbatim>\<open>math/rand\<close>, and the running of a child process. What the code relies on is a
  named hypothesis with a witness.

  \<^bold>\<open>Termination.\<close> The drain loop of Cancel and the two loops of Flat_Tree are partial functions into \<open>option\<close>, and the theorems show that
  they return; every other loop is a terminating function. No definition uses fuel.

  \<^bold>\<open>Not modelled.\<close> The clocks and the scheduler of \<^verbatim>\<open>syscaps\<close>, logging (\<^verbatim>\<open>logx\<close>), the test harness (\<^verbatim>\<open>check\<close>,
  \<^verbatim>\<open>check/golden\<close>), the calendar of \<open>time.Time\<close>, the bridge to \<open>context.Context\<close>, type aliases (\<^verbatim>\<open>unit\<close>, \<^verbatim>\<open>zero\<close>, the re-exports
  of \<^verbatim>\<open>core\<close>), the Windows branches of \<^verbatim>\<open>core/pathx\<close>, the table of flags in \<^verbatim>\<open>main\<close>, and the
  forks and tools outside \<^verbatim>\<open>base\<close> and \<^verbatim>\<open>misc\<close>.
\<close>

end
